(* ===== verification/Prelude.thy ===== *)
theory Prelude
  imports Main "HOL-Library.Word" "HOL-Library.Monad_Syntax"
begin

text \<open>
  What every component shares.

  A C string is a HOL \<open>string\<close> without its terminating NUL; a byte is a \<open>char\<close> and
  \<open>ccode\<close> is its value as an unsigned char.  A C function whose execution may be
  undefined (an access outside an object) or may not return has a result in \<open>option\<close>:
  \<open>None\<close> says that the C code has no defined result, \<open>Some\<close> holds the result otherwise, so
  \<open>do\<close> blocks sequence C statements.  The character classes are those of ctype.h in the
  C locale, which the program never changes.
\<close>

named_theorems frag "facts about appended code fragments"
named_theorems scan "unfolding rules of the scanner's primitive steps"

section \<open>Bytes and the ctype.h predicates\<close>

definition ccode :: "char \<Rightarrow> nat" where
  "ccode c = of_char c"

definition NUL :: char where
  "NUL = CHR 0x00"

definition isdigit :: "char \<Rightarrow> bool" where
  "isdigit c \<longleftrightarrow> 48 \<le> ccode c \<and> ccode c \<le> 57"

definition isupper_c :: "char \<Rightarrow> bool" where
  "isupper_c c \<longleftrightarrow> 65 \<le> ccode c \<and> ccode c \<le> 90"

definition islower_c :: "char \<Rightarrow> bool" where
  "islower_c c \<longleftrightarrow> 97 \<le> ccode c \<and> ccode c \<le> 122"

definition isalpha :: "char \<Rightarrow> bool" where
  "isalpha c \<longleftrightarrow> isupper_c c \<or> islower_c c"

definition isalnum :: "char \<Rightarrow> bool" where
  "isalnum c \<longleftrightarrow> isalpha c \<or> isdigit c"

definition isxdigit :: "char \<Rightarrow> bool" where
  "isxdigit c \<longleftrightarrow> isdigit c \<or> (65 \<le> ccode c \<and> ccode c \<le> 70) \<or> (97 \<le> ccode c \<and> ccode c \<le> 102)"

definition tolower :: "char \<Rightarrow> char" where
  "tolower c = (if isupper_c c then char_of (ccode c + 32) else c)"

lemma ccode_less [simp]: "ccode c < 256"
  by (simp add: ccode_def)

lemma ccode_le [simp]: "ccode c \<le> 255"
  using ccode_less [of c] by linarith

lemma ccode_char_of [simp]: "ccode (char_of n) = n mod 256"
  by (simp add: ccode_def)

lemma char_of_ccode [simp]: "char_of (ccode c) = c"
  by (simp add: ccode_def)

lemma ccode_inject [simp]: "ccode a = ccode b \<longleftrightarrow> a = b"
  by (metis char_of_ccode)

lemma not_isalpha_NUL [simp]: "\<not> isalpha NUL" "\<not> isdigit NUL" "\<not> isalnum NUL" "\<not> isxdigit NUL"
  by (simp_all add: NUL_def isalpha_def isdigit_def isalnum_def isxdigit_def isupper_c_def
    islower_c_def ccode_def)

section \<open>Decimal output (printf's \<open>%d\<close>)\<close>

fun dec_nat :: "nat \<Rightarrow> string" where
  "dec_nat n = (if n < 10 then [char_of (48 + n)] else dec_nat (n div 10) @ [char_of (48 + n mod 10)])"

declare dec_nat.simps [simp del]

definition dec_int :: "int \<Rightarrow> string" where
  "dec_int i = (if i < 0 then CHR ''-'' # dec_nat (nat (- i)) else dec_nat (nat i))"

text \<open>Reading a run of decimal digits back.\<close>

definition undec :: "string \<Rightarrow> nat" where
  "undec s = foldl (\<lambda>n c. 10 * n + (ccode c - 48)) 0 s"

lemma dec_nat_nonempty [simp]: "dec_nat n \<noteq> []"
  by (subst dec_nat.simps) simp

lemma dec_nat_digits: "c \<in> set (dec_nat n) \<Longrightarrow> isdigit c"
proof (induction n rule: dec_nat.induct)
  case (1 n)
  show ?case
  proof (cases "n < 10")
    case True
    with "1.prems" show ?thesis by (simp add: dec_nat.simps [of n] isdigit_def)
  next
    case False
    have "n mod 10 < 10" by simp
    with False 1 show ?thesis by (auto simp: dec_nat.simps [of n] isdigit_def)
  qed
qed

lemma undec_dec_nat [simp]: "undec (dec_nat n) = n"
proof (induction n rule: dec_nat.induct)
  case (1 n)
  show ?case
  proof (cases "n < 10")
    case True
    then show ?thesis by (simp add: dec_nat.simps [of n] undec_def)
  next
    case False
    have "n mod 10 < 10" by simp
    with False 1 show ?thesis by (simp add: dec_nat.simps [of n] undec_def)
  qed
qed

section \<open>Lists\<close>

lemma take_append_same_len: "length xs = n \<Longrightarrow> take n (xs @ ys) = xs"
  by simp

lemma nth_take_eq: "take n xs = take n ys \<Longrightarrow> i < n \<Longrightarrow> i < length xs \<Longrightarrow> i < length ys \<Longrightarrow> xs ! i = ys ! i"
  by (metis nth_take)

section \<open>Growing a capacity\<close>

text \<open>The loop \<open>while (new_cap < need) new_cap *= 2\<close>, entered with a positive capacity.\<close>

function double_to :: "nat \<Rightarrow> nat \<Rightarrow> nat" where
  "double_to new_cap need = (if new_cap = 0 \<or> need \<le> new_cap then new_cap else double_to (new_cap * 2) need)"
  by auto
termination by (relation "measure (\<lambda>(c, n). n - c)") auto

declare double_to.simps [simp del]

lemma double_to_props:
  "0 < c \<Longrightarrow> need \<le> double_to c need \<and> (\<exists>k. double_to c need = c * 2 ^ k)"
proof (induction c need rule: double_to.induct)
  case (1 c need)
  show ?case
  proof (cases "need \<le> c")
    case True
    then have "double_to c need = c * 2 ^ 0" by (simp add: double_to.simps [of c need])
    with True show ?thesis by (metis mult.right_neutral power_0)
  next
    case False
    with 1 obtain k where "need \<le> double_to (c * 2) need" "double_to (c * 2) need = c * 2 * 2 ^ k"
      by auto
    with False 1(2) have "need \<le> double_to c need" "double_to c need = c * 2 ^ Suc k"
      by (simp_all add: double_to.simps [of c need])
    then show ?thesis by blast
  qed
qed

end
