(* ===== verification/Ls_Types.thy ===== *)
theory Ls_Types
  imports Complex_Main Prelude
begin

text \<open>
  Semantic types of the checker and code generator (\<open>src/src/types.c\<close>, \<open>types.h\<close>): the
  tagged union \<open>Type\<close>, the process-level arena its factories allocate from, cloning,
  structural equality, the numeric queries, lossless widening and the printed name.

  A \<open>Type *\<close> is a value of \<open>ty\<close>; the null pointer is the constructor \<open>T_NULL\<close>.  The
  interned primitive singletons are \<open>T_PRIM k\<close>.  The code compares two struct or enum types
  by name and, when a name is NULL, only by the address of the node: \<open>nominal\<close> is a name or,
  for an unnamed node, its address.  Pointers into the AST or to LLVM values are opaque
  numbers.
\<close>

section \<open>The data\<close>

datatype prim_kind =
    TYPE_INT | TYPE_I8 | TYPE_I16 | TYPE_I32 | TYPE_I64
  | TYPE_U8 | TYPE_U16 | TYPE_U32 | TYPE_U64
  | TYPE_F32 | TYPE_F64 | TYPE_F16 | TYPE_BF16
  | TYPE_BOOL | TYPE_CHAR | TYPE_VOID | TYPE_NIL | TYPE_OBJECT | TYPE_LIB

datatype nominal = Named string | Anon nat

record struct_meta =
  has_drop :: bool
  has_user_drop :: bool
  has_user_clone :: bool
  drop_fn :: "nat option"
  is_extern_c :: bool
  generic_base :: "string option"
  generic_impl_node :: "nat option"
  generic_tp_names :: "string list"
  generic_module :: "string option"

record enum_meta =
  e_has_drop :: bool
  e_drop_fn :: "nat option"
  e_clone_fn :: "nat option"

text \<open>
  A field is its name, type, default expression and \<open>is_private\<close>; a variant is its name and
  payload types; an export of a module is its name and type.
\<close>

datatype ty =
    T_NULL
  | T_PRIM prim_kind
  | T_POINTER ty
  | T_REFERENCE bool ty
  | T_ARRAY ty int
  | T_SIMD ty int
  | T_SLICE bool ty
  | T_FUNCTION "ty list" "nat option list" ty bool
  | T_BLOCK "ty list" "nat option list" ty bool
  | T_STRUCT nominal "string option" "(string option \<times> ty \<times> nat option \<times> bool) list" struct_meta "ty list"
  | T_ENUM nominal "string option" "(string option \<times> ty list) list" enum_meta
  | T_MODULE "string option" "(string option \<times> ty) list" bool

text \<open>The header's zero-initialised metadata (\<open>memset\<close> of a fresh node).\<close>

definition zero_struct_meta :: struct_meta where
  "zero_struct_meta = \<lparr>has_drop = False, has_user_drop = False, has_user_clone = False,
     drop_fn = None, is_extern_c = False, generic_base = None, generic_impl_node = None,
     generic_tp_names = [], generic_module = None\<rparr>"

definition zero_enum_meta :: enum_meta where
  "zero_enum_meta = \<lparr>e_has_drop = False, e_drop_fn = None, e_clone_fn = None\<rparr>"

section \<open>Factories\<close>

definition type_pointer :: "ty \<Rightarrow> ty" where
  "type_pointer pointee = T_POINTER pointee"

definition type_reference :: "ty \<Rightarrow> ty" where
  "type_reference pointee = T_REFERENCE False pointee"

definition type_mut_reference :: "ty \<Rightarrow> ty" where
  "type_mut_reference pointee = T_REFERENCE True pointee"

definition type_array :: "ty \<Rightarrow> int \<Rightarrow> ty" where
  "type_array elem n = T_ARRAY elem n"

definition type_simd :: "ty \<Rightarrow> int \<Rightarrow> ty" where
  "type_simd elem lanes = T_SIMD elem lanes"

definition type_slice :: "ty \<Rightarrow> bool \<Rightarrow> ty" where
  "type_slice elem is_mut = T_SLICE is_mut elem"

definition type_function :: "ty list \<Rightarrow> ty \<Rightarrow> bool \<Rightarrow> ty" where
  "type_function params ret is_vararg = T_FUNCTION params [] ret is_vararg"

definition type_block :: "ty list \<Rightarrow> ty \<Rightarrow> ty" where
  "type_block params ret = T_BLOCK params [] ret False"

text \<open>\<open>addr\<close> is the address of the new node: it identifies the node when \<open>name\<close> is NULL.\<close>

definition type_struct :: "nat \<Rightarrow> string option \<Rightarrow> nat \<Rightarrow> ty" where
  "type_struct addr name field_count =
     T_STRUCT (case name of None \<Rightarrow> Anon addr | Some n \<Rightarrow> Named n) None
       (replicate field_count (None, T_NULL, None, False)) zero_struct_meta []"

definition type_enum :: "nat \<Rightarrow> string option \<Rightarrow> nat \<Rightarrow> ty" where
  "type_enum addr name variant_count =
     T_ENUM (case name of None \<Rightarrow> Anon addr | Some n \<Rightarrow> Named n) None
       (replicate variant_count (None, [])) zero_enum_meta"

definition type_module_new :: "string option \<Rightarrow> ty" where
  "type_module_new name = T_MODULE name [] False"

fun type_module_add_export :: "ty \<Rightarrow> string option \<Rightarrow> ty \<Rightarrow> ty" where
  "type_module_add_export (T_MODULE mname exports b) name t = T_MODULE mname (exports @ [(name, t)]) b"
| "type_module_add_export m name t = m"

fun find_export :: "(string option \<times> ty) list \<Rightarrow> string \<Rightarrow> ty" where
  "find_export [] name = T_NULL"
| "find_export ((n, t) # es) name = (if n = Some name then t else find_export es name)"

fun type_module_find_export :: "ty \<Rightarrow> string option \<Rightarrow> ty" where
  "type_module_find_export (T_MODULE mname exports b) (Some name) = find_export exports name"
| "type_module_find_export m name = T_NULL"

lemma find_export_append:
  "find_export (xs @ ys) n =
     (if \<exists>t. (Some n, t) \<in> set xs then find_export xs n else find_export ys n)"
  by (induction xs n rule: find_export.induct) auto

section \<open>Deep clone\<close>

text \<open>
  \<open>fresh a\<close> is the address \<open>malloc\<close> gives the copy of the unnamed node at \<open>a\<close>.  A clone
  copies kind, mutability, component types, names, field defaults and, for an enum, \<open>has_drop\<close>;
  the other metadata is that of a zeroed node, and a module's clone is an empty unnamed one.
\<close>

fun clone_nominal :: "(nat \<Rightarrow> nat) \<Rightarrow> nominal \<Rightarrow> nominal" where
  "clone_nominal fresh (Named n) = Named n"
| "clone_nominal fresh (Anon a) = Anon (fresh a)"

fun type_clone :: "(nat \<Rightarrow> nat) \<Rightarrow> ty \<Rightarrow> ty" where
  "type_clone fresh T_NULL = T_NULL"
| "type_clone fresh (T_PRIM k) = T_PRIM k"
| "type_clone fresh (T_POINTER t) = T_POINTER (type_clone fresh t)"
| "type_clone fresh (T_REFERENCE m t) = T_REFERENCE m (type_clone fresh t)"
| "type_clone fresh (T_ARRAY t n) = T_ARRAY (type_clone fresh t) n"
| "type_clone fresh (T_SIMD t n) = T_SIMD (type_clone fresh t) n"
| "type_clone fresh (T_SLICE m t) = T_SLICE m (type_clone fresh t)"
| "type_clone fresh (T_FUNCTION ps ds r v) =
     T_FUNCTION (map (type_clone fresh) ps) (if ps = [] then [] else ds) (type_clone fresh r) v"
| "type_clone fresh (T_BLOCK ps ds r v) =
     T_BLOCK (map (type_clone fresh) ps) (if ps = [] then [] else ds) (type_clone fresh r) v"
| "type_clone fresh (T_STRUCT nm lv fs m args) =
     T_STRUCT (clone_nominal fresh nm) None
       (map (\<lambda>(n, t, d, p). (n, type_clone fresh t, d, p)) fs) zero_struct_meta []"
| "type_clone fresh (T_ENUM nm lv vs m) =
     T_ENUM (clone_nominal fresh nm) None
       (map (\<lambda>(n, ts). (n, map (type_clone fresh) ts)) vs)
       (zero_enum_meta\<lparr>e_has_drop := e_has_drop m\<rparr>)"
| "type_clone fresh (T_MODULE nm es b) = T_MODULE None [] False"

section \<open>Equality\<close>

text \<open>Pairs of argument lists are compared only after their lengths, so the loop ends with both.\<close>

fun type_equals :: "ty \<Rightarrow> ty \<Rightarrow> bool"
and type_equals_list :: "ty list \<Rightarrow> ty list \<Rightarrow> bool" where
  "type_equals T_NULL t = (t = T_NULL)"
| "type_equals (T_PRIM k) t = (t = T_PRIM k)"
| "type_equals (T_POINTER a) t = (case t of T_POINTER b \<Rightarrow> type_equals a b | _ \<Rightarrow> False)"
| "type_equals (T_REFERENCE m a) t =
     (case t of T_REFERENCE n b \<Rightarrow> m = n \<and> type_equals a b | _ \<Rightarrow> False)"
| "type_equals (T_ARRAY a m) t =
     (case t of T_ARRAY b n \<Rightarrow> m = n \<and> type_equals a b | _ \<Rightarrow> False)"
| "type_equals (T_SIMD a m) t =
     (case t of T_SIMD b n \<Rightarrow> m = n \<and> type_equals a b | _ \<Rightarrow> False)"
| "type_equals (T_SLICE m a) t =
     (case t of T_SLICE n b \<Rightarrow> m = n \<and> type_equals a b | _ \<Rightarrow> False)"
| "type_equals (T_FUNCTION ps ds r v) t =
     (case t of T_FUNCTION ps' ds' r' v' \<Rightarrow>
        length ps = length ps' \<and> v = v' \<and> type_equals r r' \<and> type_equals_list ps ps'
      | _ \<Rightarrow> False)"
| "type_equals (T_BLOCK ps ds r v) t =
     (case t of T_BLOCK ps' ds' r' v' \<Rightarrow>
        length ps = length ps' \<and> v = v' \<and> type_equals r r' \<and> type_equals_list ps ps'
      | _ \<Rightarrow> False)"
| "type_equals (T_STRUCT nm lv fs m args) t =
     (case t of T_STRUCT nm' lv' fs' m' args' \<Rightarrow> nm = nm' | _ \<Rightarrow> False)"
| "type_equals (T_ENUM nm lv vs m) t =
     (case t of T_ENUM nm' lv' vs' m' \<Rightarrow> nm = nm' | _ \<Rightarrow> False)"
| "type_equals (T_MODULE nm es b) t = (case t of T_MODULE nm' es' b' \<Rightarrow> True | _ \<Rightarrow> False)"
| "type_equals_list [] qs = True"
| "type_equals_list (p # ps) qs =
     (case qs of [] \<Rightarrow> True | q # qs' \<Rightarrow> type_equals p q \<and> type_equals_list ps qs')"

section \<open>Type queries\<close>

fun type_is_integer :: "ty \<Rightarrow> bool" where
  "type_is_integer (T_PRIM k) =
     (k \<in> {TYPE_INT, TYPE_I8, TYPE_I16, TYPE_I32, TYPE_I64,
           TYPE_U8, TYPE_U16, TYPE_U32, TYPE_U64, TYPE_CHAR})"
| "type_is_integer t = False"

fun type_is_float :: "ty \<Rightarrow> bool" where
  "type_is_float (T_PRIM k) = (k \<in> {TYPE_F32, TYPE_F64, TYPE_F16, TYPE_BF16})"
| "type_is_float t = False"

definition type_float_rank :: "ty \<Rightarrow> nat" where
  "type_float_rank t =
     (if t = T_PRIM TYPE_F64 then 3 else if t = T_PRIM TYPE_F32 then 2 else 1)"

definition type_is_numeric :: "ty \<Rightarrow> bool" where
  "type_is_numeric t \<longleftrightarrow> type_is_integer t \<or> type_is_float t"

fun type_is_signed :: "ty \<Rightarrow> bool" where
  "type_is_signed (T_PRIM k) = (k \<in> {TYPE_INT, TYPE_I8, TYPE_I16, TYPE_I32, TYPE_I64})"
| "type_is_signed t = False"

fun type_is_unsigned :: "ty \<Rightarrow> bool" where
  "type_is_unsigned (T_PRIM k) = (k \<in> {TYPE_U8, TYPE_U16, TYPE_U32, TYPE_U64, TYPE_CHAR})"
| "type_is_unsigned t = False"

fun type_int_bits :: "ty \<Rightarrow> nat" where
  "type_int_bits (T_PRIM k) =
     (if k \<in> {TYPE_I8, TYPE_U8, TYPE_CHAR} then 8
      else if k \<in> {TYPE_I16, TYPE_U16} then 16
      else if k \<in> {TYPE_INT, TYPE_I32, TYPE_U32} then 32
      else if k \<in> {TYPE_I64, TYPE_U64} then 64
      else 0)"
| "type_int_bits t = 0"

fun type_float_mantissa_bits :: "ty \<Rightarrow> nat" where
  "type_float_mantissa_bits (T_PRIM k) =
     (if k = TYPE_F32 then 24
      else if k = TYPE_F64 then 53
      else if k = TYPE_F16 then 11
      else if k = TYPE_BF16 then 8
      else 0)"
| "type_float_mantissa_bits t = 0"

fun type_is_pointer_like :: "ty \<Rightarrow> bool" where
  "type_is_pointer_like (T_POINTER t) = True"
| "type_is_pointer_like (T_PRIM k) = (k \<in> {TYPE_OBJECT, TYPE_NIL})"
| "type_is_pointer_like t = False"

definition type_widens_to :: "ty \<Rightarrow> ty \<Rightarrow> bool" where
  "type_widens_to src dst =
     (if src = T_NULL \<or> dst = T_NULL then False
      else if type_equals src dst then False
      else if type_is_float src \<and> type_is_float dst then
        type_float_rank dst > type_float_rank src
      else if type_is_integer src \<and> type_is_float dst then
        (let sb = type_int_bits src; mb = type_float_mantissa_bits dst
         in sb > 0 \<and> mb > 0 \<and> sb \<le> mb)
      else if type_is_integer src \<and> type_is_integer dst then
        (let sb = type_int_bits src; db = type_int_bits dst;
             ss = type_is_signed src; su = type_is_unsigned src;
             ds = type_is_signed dst; du = type_is_unsigned dst
         in if ss \<and> ds then db \<ge> sb
            else if su \<and> du then db \<ge> sb
            else if su \<and> ds then db > sb
            else False)
      else False)"

definition type_numeric_common :: "ty \<Rightarrow> ty \<Rightarrow> ty" where
  "type_numeric_common a b =
     (if a = T_NULL \<or> b = T_NULL then T_NULL
      else if \<not> type_is_numeric a \<or> \<not> type_is_numeric b then T_NULL
      else if type_equals a b then a
      else if type_widens_to a b then b
      else if type_widens_to b a then a
      else T_NULL)"

section \<open>The printed name\<close>

text \<open>
  \<open>type_name\<close> builds composite names in a 256-byte stack buffer.  The function and block case
  keeps \<open>pos\<close>, the sum of what every \<open>snprintf\<close> returned, and calls
  \<open>snprintf(tmp + pos, 256 - (size_t)pos, ...)\<close>: beyond 256 the size wraps around and the
  write lands outside the buffer, for which the model has no result.
\<close>

definition put :: "string \<times> nat \<Rightarrow> string \<Rightarrow> (string \<times> nat) option" where
  "put st s = (case st of (tmp, pos) \<Rightarrow>
     if 256 < pos then None
     else Some (take pos tmp @ take (255 - pos) s, pos + length s))"

fun prim_name :: "prim_kind \<Rightarrow> string" where
  "prim_name TYPE_INT = ''int''"
| "prim_name TYPE_I8 = ''i8''"
| "prim_name TYPE_I16 = ''i16''"
| "prim_name TYPE_I32 = ''i32''"
| "prim_name TYPE_I64 = ''i64''"
| "prim_name TYPE_U8 = ''u8''"
| "prim_name TYPE_U16 = ''u16''"
| "prim_name TYPE_U32 = ''u32''"
| "prim_name TYPE_U64 = ''u64''"
| "prim_name TYPE_F32 = ''f32''"
| "prim_name TYPE_F64 = ''f64''"
| "prim_name TYPE_F16 = ''f16''"
| "prim_name TYPE_BF16 = ''bf16''"
| "prim_name TYPE_BOOL = ''bool''"
| "prim_name TYPE_CHAR = ''char''"
| "prim_name TYPE_VOID = ''void''"
| "prim_name TYPE_NIL = ''nil''"
| "prim_name TYPE_LIB = ''lib''"
| "prim_name TYPE_OBJECT = ''object''"

definition snprintf256 :: "string \<Rightarrow> string" where
  "snprintf256 s = take 255 s"

fun type_name :: "ty \<Rightarrow> string option"
and put_params :: "ty list \<Rightarrow> bool \<Rightarrow> string \<times> nat \<Rightarrow> (string \<times> nat) option" where
  "type_name T_NULL = Some ''void''"
| "type_name (T_PRIM k) = Some (prim_name k)"
| "type_name (T_STRUCT nm lv fs m args) =
     Some (case nm of Named n \<Rightarrow> n | Anon a \<Rightarrow> ''<struct>'')"
| "type_name (T_ENUM nm lv vs m) =
     Some (case nm of Named n \<Rightarrow> n | Anon a \<Rightarrow> ''<enum>'')"
| "type_name (T_POINTER t) = do { n \<leftarrow> type_name t; Some (snprintf256 (''*'' @ n)) }"
| "type_name (T_REFERENCE m t) =
     do { n \<leftarrow> type_name t; Some (snprintf256 (''&'' @ (if m then ''!'' else []) @ n)) }"
| "type_name (T_ARRAY t k) =
     do { n \<leftarrow> type_name t; Some (snprintf256 (''array('' @ n @ '', '' @ dec_int k @ '')'')) }"
| "type_name (T_SIMD t k) =
     do { n \<leftarrow> type_name t; Some (snprintf256 (''Simd('' @ n @ '', '' @ dec_int k @ '')'')) }"
| "type_name (T_SLICE m t) =
     do { n \<leftarrow> type_name t;
          Some (snprintf256 (''&'' @ (if m then ''!'' else []) @ ''array('' @ n @ '')'')) }"
| "type_name (T_FUNCTION ps ds r v) =
     do { st \<leftarrow> put ([], 0) ''def('';
          st \<leftarrow> put_params ps True st;
          st \<leftarrow> (if v then put st '', ...'' else Some st);
          n \<leftarrow> type_name r;
          st \<leftarrow> put st ('') -> '' @ n);
          Some (fst st) }"
| "type_name (T_BLOCK ps ds r v) =
     do { st \<leftarrow> put ([], 0) ''Block('';
          st \<leftarrow> put_params ps True st;
          st \<leftarrow> (if v then put st '', ...'' else Some st);
          n \<leftarrow> type_name r;
          st \<leftarrow> put st ('') -> '' @ n);
          Some (fst st) }"
| "type_name (T_MODULE nm es b) =
     (case nm of None \<Rightarrow> Some ''module'' | Some n \<Rightarrow> Some (snprintf256 (''module('' @ n @ '')'')))"
| "put_params [] first st = Some st"
| "put_params (p # ps) first st =
     (if snd st < 246 then
        do { st \<leftarrow> (if first then Some st else put st '', '');
             n \<leftarrow> type_name p;
             st \<leftarrow> put st n;
             put_params ps False st }
      else Some st)"


lemma type_equals_list_map:
  "length ps = length qs \<Longrightarrow> type_equals_list ps qs = list_all2 type_equals ps qs"
proof (induction ps arbitrary: qs)
  case (Cons p ps)
  then show ?case by (cases qs) auto
qed simp

lemma type_equals_refl [simp]: "type_equals t t"
proof (induction t)
  case (T_FUNCTION ps ds r v)
  then show ?case by (auto simp: type_equals_list_map list_all2_same)
next
  case (T_BLOCK ps ds r v)
  then show ?case by (auto simp: type_equals_list_map list_all2_same)
qed auto

lemma list_all2_trans_on:
  assumes "list_all2 P xs ys" "list_all2 P ys zs"
    and "\<And>x y z. x \<in> set xs \<Longrightarrow> P x y \<Longrightarrow> P y z \<Longrightarrow> P x z"
  shows "list_all2 P xs zs"
  unfolding list_all2_conv_all_nth
  using assms unfolding list_all2_conv_all_nth by (metis nth_mem)

lemma list_all2_sym_on:
  assumes "list_all2 P xs ys" and "\<And>x y. x \<in> set xs \<Longrightarrow> P x y \<Longrightarrow> P y x"
  shows "list_all2 P ys xs"
  unfolding list_all2_conv_all_nth
  using assms unfolding list_all2_conv_all_nth by (metis nth_mem)

text \<open>Which types can be equal to a composite type.\<close>

lemma type_equals_dest:
  "type_equals (T_POINTER a) t \<Longrightarrow> \<exists>b. t = T_POINTER b \<and> type_equals a b"
  "type_equals (T_REFERENCE m a) t \<Longrightarrow> \<exists>b. t = T_REFERENCE m b \<and> type_equals a b"
  "type_equals (T_ARRAY a n) t \<Longrightarrow> \<exists>b. t = T_ARRAY b n \<and> type_equals a b"
  "type_equals (T_SIMD a n) t \<Longrightarrow> \<exists>b. t = T_SIMD b n \<and> type_equals a b"
  "type_equals (T_SLICE m a) t \<Longrightarrow> \<exists>b. t = T_SLICE m b \<and> type_equals a b"
  "type_equals (T_FUNCTION ps ds r v) t \<Longrightarrow>
     \<exists>ps' ds' r'. t = T_FUNCTION ps' ds' r' v \<and> type_equals r r' \<and> list_all2 type_equals ps ps'"
  "type_equals (T_BLOCK ps ds r v) t \<Longrightarrow>
     \<exists>ps' ds' r'. t = T_BLOCK ps' ds' r' v \<and> type_equals r r' \<and> list_all2 type_equals ps ps'"
  by (cases t; auto simp: type_equals_list_map)+

lemma type_equals_sym: "type_equals a b \<Longrightarrow> type_equals b a"
proof (induction a arbitrary: b)
  case (T_POINTER a)
  obtain x where "b = T_POINTER x" and *: "type_equals a x"
    using type_equals_dest(1) [OF T_POINTER.prems] by blast
  then show ?case using T_POINTER.IH [OF *] by simp
next
  case (T_REFERENCE m a)
  obtain x where "b = T_REFERENCE m x" and *: "type_equals a x"
    using type_equals_dest(2) [OF T_REFERENCE.prems] by blast
  then show ?case using T_REFERENCE.IH [OF *] by simp
next
  case (T_ARRAY a n)
  obtain x where "b = T_ARRAY x n" and *: "type_equals a x"
    using type_equals_dest(3) [OF T_ARRAY.prems] by blast
  then show ?case using T_ARRAY.IH [OF *] by simp
next
  case (T_SIMD a n)
  obtain x where "b = T_SIMD x n" and *: "type_equals a x"
    using type_equals_dest(4) [OF T_SIMD.prems] by blast
  then show ?case using T_SIMD.IH [OF *] by simp
next
  case (T_SLICE m a)
  obtain x where "b = T_SLICE m x" and *: "type_equals a x"
    using type_equals_dest(5) [OF T_SLICE.prems] by blast
  then show ?case using T_SLICE.IH [OF *] by simp
next
  case (T_FUNCTION ps ds r v)
  obtain ps' ds' r' where b: "b = T_FUNCTION ps' ds' r' v"
    and r: "type_equals r r'" and ps: "list_all2 type_equals ps ps'"
    using type_equals_dest(6) [OF T_FUNCTION.prems] by blast
  have "list_all2 type_equals ps' ps"
    by (rule list_all2_sym_on [OF ps]) (rule T_FUNCTION.IH)
  then show ?case using T_FUNCTION.IH(2) [OF r]
    by (simp add: b type_equals_list_map list_all2_lengthD)
next
  case (T_BLOCK ps ds r v)
  obtain ps' ds' r' where b: "b = T_BLOCK ps' ds' r' v"
    and r: "type_equals r r'" and ps: "list_all2 type_equals ps ps'"
    using type_equals_dest(7) [OF T_BLOCK.prems] by blast
  have "list_all2 type_equals ps' ps"
    by (rule list_all2_sym_on [OF ps]) (rule T_BLOCK.IH)
  then show ?case using T_BLOCK.IH(2) [OF r]
    by (simp add: b type_equals_list_map list_all2_lengthD)
qed (auto split: ty.splits)

lemma type_equals_trans: "type_equals a b \<Longrightarrow> type_equals b c \<Longrightarrow> type_equals a c"
proof (induction a arbitrary: b c)
  case (T_POINTER a)
  obtain x where b: "b = T_POINTER x" and x: "type_equals a x"
    using type_equals_dest(1) [OF T_POINTER.prems(1)] by blast
  obtain y where c: "c = T_POINTER y" and y: "type_equals x y"
    using type_equals_dest(1) [OF T_POINTER.prems(2) [unfolded b]] by blast
  from T_POINTER.IH [OF x y] show ?case by (simp add: c)
next
  case (T_REFERENCE m a)
  obtain x where b: "b = T_REFERENCE m x" and x: "type_equals a x"
    using type_equals_dest(2) [OF T_REFERENCE.prems(1)] by blast
  obtain y where c: "c = T_REFERENCE m y" and y: "type_equals x y"
    using type_equals_dest(2) [OF T_REFERENCE.prems(2) [unfolded b]] by blast
  from T_REFERENCE.IH [OF x y] show ?case by (simp add: c)
next
  case (T_ARRAY a n)
  obtain x where b: "b = T_ARRAY x n" and x: "type_equals a x"
    using type_equals_dest(3) [OF T_ARRAY.prems(1)] by blast
  obtain y where c: "c = T_ARRAY y n" and y: "type_equals x y"
    using type_equals_dest(3) [OF T_ARRAY.prems(2) [unfolded b]] by blast
  from T_ARRAY.IH [OF x y] show ?case by (simp add: c)
next
  case (T_SIMD a n)
  obtain x where b: "b = T_SIMD x n" and x: "type_equals a x"
    using type_equals_dest(4) [OF T_SIMD.prems(1)] by blast
  obtain y where c: "c = T_SIMD y n" and y: "type_equals x y"
    using type_equals_dest(4) [OF T_SIMD.prems(2) [unfolded b]] by blast
  from T_SIMD.IH [OF x y] show ?case by (simp add: c)
next
  case (T_SLICE m a)
  obtain x where b: "b = T_SLICE m x" and x: "type_equals a x"
    using type_equals_dest(5) [OF T_SLICE.prems(1)] by blast
  obtain y where c: "c = T_SLICE m y" and y: "type_equals x y"
    using type_equals_dest(5) [OF T_SLICE.prems(2) [unfolded b]] by blast
  from T_SLICE.IH [OF x y] show ?case by (simp add: c)
next
  case (T_FUNCTION ps ds r v)
  obtain ps' ds' r' where b: "b = T_FUNCTION ps' ds' r' v"
    and r: "type_equals r r'" and ps: "list_all2 type_equals ps ps'"
    using type_equals_dest(6) [OF T_FUNCTION.prems(1)] by blast
  obtain ps'' ds'' r'' where c: "c = T_FUNCTION ps'' ds'' r'' v"
    and r': "type_equals r' r''" and ps': "list_all2 type_equals ps' ps''"
    using type_equals_dest(6) [OF T_FUNCTION.prems(2) [unfolded b]] by blast
  have "list_all2 type_equals ps ps''"
    by (rule list_all2_trans_on [OF ps ps']) (rule T_FUNCTION.IH)
  then show ?case using T_FUNCTION.IH(2) [OF r r']
    by (simp add: c type_equals_list_map list_all2_lengthD)
next
  case (T_BLOCK ps ds r v)
  obtain ps' ds' r' where b: "b = T_BLOCK ps' ds' r' v"
    and r: "type_equals r r'" and ps: "list_all2 type_equals ps ps'"
    using type_equals_dest(7) [OF T_BLOCK.prems(1)] by blast
  obtain ps'' ds'' r'' where c: "c = T_BLOCK ps'' ds'' r'' v"
    and r': "type_equals r' r''" and ps': "list_all2 type_equals ps' ps''"
    using type_equals_dest(7) [OF T_BLOCK.prems(2) [unfolded b]] by blast
  have "list_all2 type_equals ps ps''"
    by (rule list_all2_trans_on [OF ps ps']) (rule T_BLOCK.IH)
  then show ?case using T_BLOCK.IH(2) [OF r r']
    by (simp add: c type_equals_list_map list_all2_lengthD)
qed (auto split: ty.splits)

text \<open>C38: Structural type equality is an equivalence relation on types, so the checker may compare
  types in any order and through any intermediate type.\<close>

theorem type_equals_equivp: "equivp type_equals"
  by (blast intro: equivpI reflpI sympI transpI type_equals_refl type_equals_sym type_equals_trans)


section \<open>What a numeric type can hold\<close>

text \<open>
  The formats' IEEE 754 parameters: precision, the exponent of the smallest step (negated) and
  the bound on the magnitude's exponent.
\<close>

definition float_values :: "nat \<Rightarrow> int \<Rightarrow> nat \<Rightarrow> rat set" where
  "float_values p q E =
     {x. \<exists>(m::int) (e::int). x = of_int m * 2 powi e \<and> \<bar>m\<bar> < 2 ^ p \<and> - q \<le> e \<and> \<bar>x\<bar> < 2 ^ E}"

definition int_values :: "bool \<Rightarrow> nat \<Rightarrow> rat set" where
  "int_values sg b =
     {of_int i | i::int. if sg then - (2 ^ (b - 1)) \<le> i \<and> i < 2 ^ (b - 1) else 0 \<le> i \<and> i < 2 ^ b}"

fun numeric_values :: "ty \<Rightarrow> rat set" where
  "numeric_values (T_PRIM TYPE_F16) = float_values 11 24 16"
| "numeric_values (T_PRIM TYPE_BF16) = float_values 8 133 128"
| "numeric_values (T_PRIM TYPE_F32) = float_values 24 149 128"
| "numeric_values (T_PRIM TYPE_F64) = float_values 53 1074 1024"
| "numeric_values t =
     (if type_is_integer t then int_values (type_is_signed t) (type_int_bits t) else {})"

lemma float_values_mono:
  assumes "p \<le> p'" "q \<le> q'" "E \<le> E'"
  shows "float_values p q E \<subseteq> float_values p' q' E'"
proof
  fix x assume "x \<in> float_values p q E"
  then obtain m e :: int where x: "x = of_int m * 2 powi e" "\<bar>m\<bar> < 2 ^ p" "- q \<le> e" "\<bar>x\<bar> < 2 ^ E"
    by (auto simp: float_values_def)
  have "\<bar>m\<bar> < 2 ^ p'"
    by (rule less_le_trans [OF x(2)]) (simp add: assms)
  moreover have "\<bar>x\<bar> < 2 ^ E'"
    by (rule less_le_trans [OF x(4)]) (simp add: assms)
  moreover have "- q' \<le> e" using x(3) assms(2) by simp
  ultimately show "x \<in> float_values p' q' E'"
    unfolding float_values_def using x(1) by blast
qed

lemma int_values_float:
  assumes "0 < b" "b \<le> p" "p \<le> E" "0 \<le> q"
  shows "int_values s b \<subseteq> float_values p q E"
proof
  fix x assume "x \<in> int_values s b"
  then obtain i :: int where x: "x = of_int i"
    and i: "if s then - (2 ^ (b - 1)) \<le> i \<and> i < 2 ^ (b - 1) else 0 \<le> i \<and> i < 2 ^ b"
    by (auto simp: int_values_def)
  obtain b0 where b0: "b = Suc b0" using assms(1) by (cases b) auto
  have "0 < (2::int) ^ b0" by simp
  with i have "\<bar>i\<bar> < 2 ^ b" unfolding b0 power_Suc diff_Suc_1
    by (smt (verit))
  then have "\<bar>i\<bar> < 2 ^ p" "\<bar>i\<bar> < 2 ^ E"
    using assms by (meson less_le_trans one_le_numeral order_trans power_increasing)+
  moreover from this(2) have "\<bar>of_int i :: rat\<bar> < 2 ^ E"
    by (metis of_int_abs of_int_less_iff of_int_numeral of_int_power)
  ultimately show "x \<in> float_values p q E"
    using assms(4) x unfolding float_values_def
    by (intro CollectI exI [of _ i] exI [of _ "0::int"]) auto
qed

lemma int_values_mono:
  assumes "b \<le> b'" "s = s' \<or> \<not> s \<and> b < b'" "0 < b"
  shows "int_values s b \<subseteq> int_values s' b'"
proof
  fix x assume "x \<in> int_values s b"
  then obtain i :: int where x: "x = of_int i"
    and i: "if s then - (2 ^ (b - 1)) \<le> i \<and> i < 2 ^ (b - 1) else 0 \<le> i \<and> i < 2 ^ b"
    by (auto simp: int_values_def)
  have "(2::int) ^ (b - 1) \<le> 2 ^ (b' - 1)" "(2::int) ^ b \<le> 2 ^ b'"
    using assms(1) by (intro power_increasing; simp)+
  moreover have "b < b' \<Longrightarrow> (2::int) ^ b \<le> 2 ^ (b' - 1)"
    by (intro power_increasing; simp)
  moreover have "0 \<le> (2::int) ^ (b' - 1)" by simp
  ultimately have "if s' then - (2 ^ (b' - 1)) \<le> i \<and> i < 2 ^ (b' - 1) else 0 \<le> i \<and> i < 2 ^ b'"
    using i assms(2) by (smt (verit))
  then show "x \<in> int_values s' b'"
    unfolding int_values_def using x by blast
qed

text \<open>The kinds' classification, from which the properties of widening follow.\<close>

lemma type_is_integerD:
  assumes "type_is_integer t"
  shows "\<not> type_is_float t" "type_is_unsigned t \<longleftrightarrow> \<not> type_is_signed t" "0 < type_int_bits t"
    "\<exists>k. t = T_PRIM k"
    "numeric_values t = int_values (type_is_signed t) (type_int_bits t)"
proof -
  from assms obtain k where k: "t = T_PRIM k" by (cases t) auto
  with assms show "\<not> type_is_float t" "type_is_unsigned t \<longleftrightarrow> \<not> type_is_signed t"
    "0 < type_int_bits t" "\<exists>k. t = T_PRIM k"
    "numeric_values t = int_values (type_is_signed t) (type_int_bits t)"
    by (cases k; simp)+
qed

lemma type_is_floatE:
  assumes "type_is_float t"
  obtains (f16) "t = T_PRIM TYPE_F16" | (bf16) "t = T_PRIM TYPE_BF16"
    | (f32) "t = T_PRIM TYPE_F32" | (f64) "t = T_PRIM TYPE_F64"
  using assms by (cases t) auto

lemma type_float_rank_less:
  assumes "type_is_float a" "type_is_float b" "type_float_rank a < type_float_rank b"
  shows "type_float_mantissa_bits a \<le> type_float_mantissa_bits b"
    and "numeric_values a \<subseteq> numeric_values b"
  using assms
  by (elim type_is_floatE; simp add: type_float_rank_def float_values_mono)+

lemma int_values_float_type:
  assumes "type_is_float t" "0 < b" "b \<le> type_float_mantissa_bits t"
  shows "int_values s b \<subseteq> numeric_values t"
  using assms by (elim type_is_floatE; simp add: int_values_float)

lemma type_widens_to_cases:
  assumes "type_widens_to a b"
  obtains
    (float) "type_is_float a" "type_is_float b" "type_float_rank a < type_float_rank b"
  | (int_float) "type_is_integer a" "type_is_float b" "type_int_bits a \<le> type_float_mantissa_bits b"
  | (int_int) "type_is_integer a" "type_is_integer b" "type_int_bits a \<le> type_int_bits b"
      "type_is_signed a = type_is_signed b \<or> \<not> type_is_signed a \<and> type_int_bits a < type_int_bits b"
  using assms by (auto simp: type_widens_to_def Let_def type_is_integerD split: if_splits)

lemma widens_values:
  assumes "type_widens_to src dst"
  shows "numeric_values src \<subseteq> numeric_values dst"
  using assms
proof (cases rule: type_widens_to_cases)
  case float
  then show ?thesis by (rule type_float_rank_less)
next
  case int_float
  then show ?thesis by (simp add: type_is_integerD int_values_float_type)
next
  case int_int
  have "int_values (type_is_signed src) (type_int_bits src)
      \<subseteq> int_values (type_is_signed dst) (type_int_bits dst)"
    by (rule int_values_mono) (use int_int type_is_integerD(3) in auto)
  with int_int show ?thesis by (simp only: type_is_integerD)
qed

lemma type_widens_toI:
  "type_is_integer a \<Longrightarrow> type_is_integer c \<Longrightarrow> type_int_bits a \<le> type_int_bits c \<Longrightarrow>
   type_is_signed a = type_is_signed c \<or> \<not> type_is_signed a \<and> type_int_bits a < type_int_bits c \<Longrightarrow>
   type_equals a c \<or> type_widens_to a c"
  "type_is_integer a \<Longrightarrow> type_is_float b \<Longrightarrow> type_int_bits a \<le> type_float_mantissa_bits b \<Longrightarrow>
   type_equals a b \<or> type_widens_to a b"
  "type_is_float a \<Longrightarrow> type_is_float b \<Longrightarrow> type_float_rank a < type_float_rank b \<Longrightarrow>
   type_equals a b \<or> type_widens_to a b"
  by (auto simp: type_widens_to_def Let_def type_is_integerD dest: type_is_integerD(3))

lemma widens_trans:
  assumes "type_widens_to a b" "type_widens_to b c"
  shows "type_equals a c \<or> type_widens_to a c"
  using assms(1)
proof (cases rule: type_widens_to_cases)
  case float
  from assms(2) show ?thesis
  proof (cases rule: type_widens_to_cases)
    case float': float
    with float show ?thesis by (intro type_widens_toI(3)) auto
  qed (use float in \<open>auto dest: type_is_integerD(1)\<close>)
next
  case int_float
  from assms(2) show ?thesis
  proof (cases rule: type_widens_to_cases)
    case float
    with int_float show ?thesis
      by (intro type_widens_toI(2)) (auto dest: type_float_rank_less(1))
  qed (use int_float in \<open>auto dest: type_is_integerD(1)\<close>)
next
  case int_int
  from assms(2) show ?thesis
  proof (cases rule: type_widens_to_cases)
    case int_float
    with int_int show ?thesis by (intro type_widens_toI(2)) auto
  next
    case int_int' : int_int
    with int_int show ?thesis by (intro type_widens_toI(1)) auto
  qed (use int_int in \<open>auto dest: type_is_integerD(1)\<close>)
qed
lemma numeric_common_upper:
  assumes "type_numeric_common a b = c" "c \<noteq> T_NULL"
  shows "c \<in> {a, b} \<and> (type_equals a c \<or> type_widens_to a c) \<and> (type_equals b c \<or> type_widens_to b c) \<and>
    numeric_values a \<union> numeric_values b \<subseteq> numeric_values c"
proof -
  have prim: "type_is_numeric t \<Longrightarrow> \<exists>k. t = T_PRIM k" for t
    by (cases t) (auto simp: type_is_numeric_def)
  have "c \<in> {a, b} \<and> (type_equals a c \<or> type_widens_to a c) \<and> (type_equals b c \<or> type_widens_to b c)"
    using assms by (auto simp: type_numeric_common_def type_equals_sym split: if_splits)
  moreover have "type_is_numeric a" "type_is_numeric b"
    using assms by (auto simp: type_numeric_common_def split: if_splits)
  moreover from this have "type_equals a c \<Longrightarrow> a = c" "type_equals b c \<Longrightarrow> b = c"
    by (auto dest!: prim)
  ultimately show ?thesis
    by (auto dest: widens_values [THEN subsetD])
qed

section \<open>Cloning and names\<close>

fun all_named :: "ty \<Rightarrow> bool" where
  "all_named (T_POINTER t) = all_named t"
| "all_named (T_REFERENCE m t) = all_named t"
| "all_named (T_ARRAY t n) = all_named t"
| "all_named (T_SIMD t n) = all_named t"
| "all_named (T_SLICE m t) = all_named t"
| "all_named (T_FUNCTION ps ds r v) = (list_all all_named ps \<and> all_named r)"
| "all_named (T_BLOCK ps ds r v) = (list_all all_named ps \<and> all_named r)"
| "all_named (T_STRUCT nm lv fs m args) = (\<exists>n. nm = Named n)"
| "all_named (T_ENUM nm lv vs m) = (\<exists>n. nm = Named n)"
| "all_named t = True"

lemma type_equals_clone: "all_named t \<Longrightarrow> type_equals (type_clone fresh t) t"
proof (induction t)
  case (T_FUNCTION ps ds r v)
  then show ?case
    by (auto simp: type_equals_list_map list_all2_map1 list_all2_same list.pred_set)
next
  case (T_BLOCK ps ds r v)
  then show ?case
    by (auto simp: type_equals_list_map list_all2_map1 list_all2_same list.pred_set)
qed auto

text \<open>Module types are equal whatever their names: the name of a type is determined by equality
  only where no module occurs.\<close>

fun module_free :: "ty \<Rightarrow> bool" where
  "module_free (T_POINTER t) = module_free t"
| "module_free (T_REFERENCE m t) = module_free t"
| "module_free (T_ARRAY t n) = module_free t"
| "module_free (T_SIMD t n) = module_free t"
| "module_free (T_SLICE m t) = module_free t"
| "module_free (T_FUNCTION ps ds r v) = (list_all module_free ps \<and> module_free r)"
| "module_free (T_BLOCK ps ds r v) = (list_all module_free ps \<and> module_free r)"
| "module_free (T_MODULE nm es b) = False"
| "module_free t = True"

lemma put_params_cong:
  "list_all2 (\<lambda>p q. type_name p = type_name q) ps qs \<Longrightarrow> put_params ps b st = put_params qs b st"
proof (induction ps qs arbitrary: b st rule: list_all2_induct)
  case (Cons p ps q qs)
  then show ?case by (auto split: Option.bind_splits)
qed simp

lemma list_all2_impl_on:
  assumes "list_all2 P xs ys" and "\<And>x y. x \<in> set xs \<Longrightarrow> P x y \<Longrightarrow> Q x y"
  shows "list_all2 Q xs ys"
  using assms unfolding list_all2_conv_all_nth by (metis nth_mem)

lemma type_name_cong: "module_free a \<Longrightarrow> type_equals a b \<Longrightarrow> type_name a = type_name b"
proof (induction a arbitrary: b)
  case (T_FUNCTION ps ds r v)
  obtain ps' ds' r' where b: "b = T_FUNCTION ps' ds' r' v"
    and r: "type_equals r r'" and ps: "list_all2 type_equals ps ps'"
    using type_equals_dest(6) [OF T_FUNCTION.prems(2)] by blast
  have "list_all2 (\<lambda>p q. type_name p = type_name q) ps ps'"
    by (rule list_all2_impl_on [OF ps], rule T_FUNCTION.IH)
      (use T_FUNCTION.prems(1) in \<open>auto simp: list.pred_set\<close>)
  moreover have "type_name r = type_name r'"
    using T_FUNCTION.IH(2) [OF _ r] T_FUNCTION.prems(1) by simp
  ultimately show ?case by (simp add: b cong: put_params_cong)
next
  case (T_BLOCK ps ds r v)
  obtain ps' ds' r' where b: "b = T_BLOCK ps' ds' r' v"
    and r: "type_equals r r'" and ps: "list_all2 type_equals ps ps'"
    using type_equals_dest(7) [OF T_BLOCK.prems(2)] by blast
  have "list_all2 (\<lambda>p q. type_name p = type_name q) ps ps'"
    by (rule list_all2_impl_on [OF ps], rule T_BLOCK.IH)
      (use T_BLOCK.prems(1) in \<open>auto simp: list.pred_set\<close>)
  moreover have "type_name r = type_name r'"
    using T_BLOCK.IH(2) [OF _ r] T_BLOCK.prems(1) by simp
  ultimately show ?case by (simp add: b cong: put_params_cong)
next
  case (T_POINTER a)
  then show ?case by (metis type_equals_dest(1) module_free.simps(1) type_name.simps(5))
next
  case (T_REFERENCE m a)
  then show ?case by (metis type_equals_dest(2) module_free.simps(2) type_name.simps(6))
next
  case (T_ARRAY a n)
  then show ?case by (metis type_equals_dest(3) module_free.simps(3) type_name.simps(7))
next
  case (T_SIMD a n)
  then show ?case by (metis type_equals_dest(4) module_free.simps(4) type_name.simps(8))
next
  case (T_SLICE m a)
  then show ?case by (metis type_equals_dest(5) module_free.simps(5) type_name.simps(9))
qed (auto split: ty.splits)

text \<open>The name without any buffer.\<close>

fun full_name :: "ty \<Rightarrow> string"
and full_params :: "ty list \<Rightarrow> bool \<Rightarrow> string" where
  "full_name T_NULL = ''void''"
| "full_name (T_PRIM k) = prim_name k"
| "full_name (T_STRUCT nm lv fs m args) = (case nm of Named n \<Rightarrow> n | Anon a \<Rightarrow> ''<struct>'')"
| "full_name (T_ENUM nm lv vs m) = (case nm of Named n \<Rightarrow> n | Anon a \<Rightarrow> ''<enum>'')"
| "full_name (T_POINTER t) = ''*'' @ full_name t"
| "full_name (T_REFERENCE m t) = ''&'' @ (if m then ''!'' else []) @ full_name t"
| "full_name (T_ARRAY t k) = ''array('' @ full_name t @ '', '' @ dec_int k @ '')''"
| "full_name (T_SIMD t k) = ''Simd('' @ full_name t @ '', '' @ dec_int k @ '')''"
| "full_name (T_SLICE m t) = ''&'' @ (if m then ''!'' else []) @ ''array('' @ full_name t @ '')''"
| "full_name (T_FUNCTION ps ds r v) =
     ''def('' @ full_params ps True @ (if v then '', ...'' else []) @ '') -> '' @ full_name r"
| "full_name (T_BLOCK ps ds r v) =
     ''Block('' @ full_params ps True @ (if v then '', ...'' else []) @ '') -> '' @ full_name r"
| "full_name (T_MODULE nm es b) =
     (case nm of None \<Rightarrow> ''module'' | Some n \<Rightarrow> ''module('' @ n @ '')'')"
| "full_params [] first = []"
| "full_params (p # ps) first =
     (if first then [] else '', '') @ full_name p @ full_params ps False"

lemma put_fits:
  "n = length tmp \<Longrightarrow> n + length s \<le> 255 \<Longrightarrow> put (tmp, n) s = Some (tmp @ s, n + length s)"
  by (simp add: put_def)

lemma callable_fits:
  assumes "length (pre @ full_params ps True @ suf @ '') -> '' @ n) \<le> 250"
    and "\<And>tmp. length tmp + length (full_params ps True) \<le> 245 \<Longrightarrow> put_params ps True (tmp, length tmp)
       = Some (tmp @ full_params ps True, length tmp + length (full_params ps True))"
    and "suf = [] \<longleftrightarrow> \<not> v"
  shows "do { st \<leftarrow> put ([], 0) pre; st \<leftarrow> put_params ps True st;
              st \<leftarrow> (if v then put st suf else Some st); st \<leftarrow> put st ('') -> '' @ n); Some (fst st) }
    = Some (pre @ full_params ps True @ suf @ '') -> '' @ n)"
proof -
  have "put ([], 0) pre = Some (pre, length pre)"
    using assms(1) by (simp add: put_fits)
  moreover have "put_params ps True (pre, length pre)
       = Some (pre @ full_params ps True, length pre + length (full_params ps True))"
    by (rule assms(2)) (use assms(1) in simp)
  moreover have "(if v then put (pre @ full_params ps True, length pre + length (full_params ps True)) suf
      else Some (pre @ full_params ps True, length pre + length (full_params ps True)))
      = Some (pre @ full_params ps True @ suf, length (pre @ full_params ps True @ suf))"
    using assms(1,3) by (auto simp: put_fits)
  moreover have "put (pre @ full_params ps True @ suf, length (pre @ full_params ps True @ suf)) ('') -> '' @ n)
      = Some ((pre @ full_params ps True @ suf) @ '') -> '' @ n,
          length (pre @ full_params ps True @ suf) + length ('') -> '' @ n))"
    by (rule put_fits) (use assms(1) in simp_all)
  ultimately show ?thesis by simp
qed

lemma type_name_fits:
  "length (full_name t) \<le> 250 \<Longrightarrow> type_name t = Some (full_name t)"
  "length tmp + length (full_params ps b) \<le> 245 \<Longrightarrow>
     put_params ps b (tmp, length tmp)
       = Some (tmp @ full_params ps b, length tmp + length (full_params ps b))"
proof (induction t and ps b arbitrary: and tmp rule: full_name_full_params.induct)
  case (10 ps ds r v)
  have r: "type_name r = Some (full_name r)" by (rule "10.IH"(2)) (use "10.prems" in simp)
  show ?case
    using callable_fits [of "''def(''" ps "if v then '', ...'' else []" "full_name r" v] 10
    by (simp only: type_name.simps full_name.simps r Option.bind.bind_lunit)
      (simp split: if_splits cong: if_cong)
next
  case (11 ps ds r v)
  have r: "type_name r = Some (full_name r)" by (rule "11.IH"(2)) (use "11.prems" in simp)
  show ?case
    using callable_fits [of "''Block(''" ps "if v then '', ...'' else []" "full_name r" v] 11
    by (simp only: type_name.simps full_name.simps r Option.bind.bind_lunit)
      (simp split: if_splits cong: if_cong)
next
  case (14 p ps first)
  let ?s = "tmp @ (if first then [] else '', '')"
  have n: "type_name p = Some (full_name p)" by (rule "14.IH"(1)) (use "14.prems" in simp)
  have "(if first then Some (tmp, length tmp) else put (tmp, length tmp) '', '') = Some (?s, length ?s)"
    using "14.prems" by (auto simp: put_fits)
  moreover have "put (?s, length ?s) (full_name p) = Some (?s @ full_name p, length (?s @ full_name p))"
    using "14.prems" by (subst put_fits) auto
  moreover have "put_params ps False (?s @ full_name p, length (?s @ full_name p))
      = Some ((?s @ full_name p) @ full_params ps False, length (?s @ full_name p) + length (full_params ps False))"
    by (rule "14.IH"(2)) (use "14.prems" in \<open>simp split: if_splits\<close>)
  moreover have "length tmp < 246" using "14.prems" by simp
  ultimately show ?case by (simp add: n)
qed (auto simp: snprintf256_def split: nominal.splits option.splits)

section \<open>The properties of types\<close>

text \<open>C9: The widening rule is lossless: every value of the source numeric type, integer or IEEE
  float, is exactly a value of the destination type.\<close>

theorem type_widens_to_lossless:
  assumes "type_widens_to src dst"
  shows "numeric_values src \<subseteq> numeric_values dst"
  using assms by (rule widens_values)

theorem type_widens_to_lossless_witness:
  "numeric_values (T_PRIM TYPE_U8) \<subseteq> numeric_values (T_PRIM TYPE_BF16) \<and>
   numeric_values (T_PRIM TYPE_I32) \<subseteq> numeric_values (T_PRIM TYPE_F64)"
  by (intro conjI type_widens_to_lossless)
    (simp_all add: type_widens_to_def Let_def type_float_rank_def)

text \<open>The common type of two numeric operands, when there is one, is one of the two operand
  types, both operands equal it or widen to it, and it holds all values of both.\<close>

theorem type_numeric_common_upper_bound:
  assumes "type_numeric_common a b = c" "c \<noteq> T_NULL"
  shows "c \<in> {a, b} \<and> (type_equals a c \<or> type_widens_to a c) \<and> (type_equals b c \<or> type_widens_to b c) \<and>
    numeric_values a \<union> numeric_values b \<subseteq> numeric_values c"
  using assms by (rule numeric_common_upper)

theorem type_numeric_common_upper_bound_witness:
  "numeric_values (T_PRIM TYPE_I16) \<union> numeric_values (T_PRIM TYPE_F32) \<subseteq> numeric_values (T_PRIM TYPE_F32)"
  by (rule type_numeric_common_upper_bound [THEN conjunct2, THEN conjunct2, THEN conjunct2])
    (simp_all add: type_numeric_common_def type_is_numeric_def type_widens_to_def Let_def)

text \<open>Widening composes: if a widens to b and b to c, then a equals c or widens to c
  directly, so a chain of implicit conversions is never stronger than one conversion.\<close>

theorem type_widens_to_trans:
  assumes "type_widens_to a b" "type_widens_to b c"
  shows "type_equals a c \<or> type_widens_to a c"
  using assms by (rule widens_trans)

theorem type_widens_to_trans_witness:
  "type_equals (T_PRIM TYPE_U8) (T_PRIM TYPE_F64) \<or> type_widens_to (T_PRIM TYPE_U8) (T_PRIM TYPE_F64)"
  by (rule type_widens_to_trans [of _ "T_PRIM TYPE_I32"])
    (simp_all add: type_widens_to_def Let_def)

text \<open>C39: The printed name of a type is a faithful key for it: equal types that
  mention no module print the same name, and a name of at most 250 characters is printed in full
  through the 256-byte buffers.\<close>

theorem type_name_key:
  assumes "type_equals a b" "module_free a" "length (full_name a) \<le> 250"
  shows "type_name a = Some (full_name a) \<and> type_name b = Some (full_name a)"
  using assms type_name_cong [of a b] type_name_fits(1) [of a] by simp

theorem type_name_key_witness:
  "type_name (T_POINTER (T_STRUCT (Named ''Node'') (Some ''m__Node'') [] zero_struct_meta []))
     = Some ''*Node''"
  using type_name_key [of "T_POINTER (T_STRUCT (Named ''Node'') None [] zero_struct_meta [])"
      "T_POINTER (T_STRUCT (Named ''Node'') (Some ''m__Node'') [] zero_struct_meta [])"]
  by simp

text \<open>C40: A block type whose first parameter's name is longer than 250 characters has no defined
  printed name: \<open>snprintf\<close> returns the untruncated length, the position passes the end of
  the buffer, and the next write lands outside it.\<close>

theorem type_name_block_overruns:
  assumes "type_name p = Some n" "250 < length n"
  shows "type_name (T_BLOCK [p] ds r v) = None"
  using assms by (auto simp: put_def split: Option.bind_splits)

theorem type_name_block_overruns_witness:
  "type_name (T_BLOCK [T_STRUCT (Named (replicate 251 CHR ''a'')) None [] zero_struct_meta []]
     [None] (T_PRIM TYPE_VOID) False) = None"
  by (rule type_name_block_overruns [of _ "replicate 251 CHR ''a''"]) simp_all

text \<open>A clone of a type whose struct and enum types are named equals the original.\<close>

theorem type_clone_equals:
  assumes "all_named t"
  shows "type_equals (type_clone fresh t) t"
  using assms by (rule type_equals_clone)

theorem type_clone_equals_witness:
  "type_equals (type_clone Suc (T_SLICE True (T_ENUM (Named ''Opt'') None [] zero_enum_meta)))
     (T_SLICE True (T_ENUM (Named ''Opt'') None [] zero_enum_meta))"
  by (rule type_clone_equals) simp

end
