(* ===== verification/Type_Arena.thy ===== *)
theory Type_Arena
  imports Prelude
begin

text \<open>
  The process-level bump arena behind the type factories (\<open>src/src/types.c\<close>).  A block is the address
  that \<open>malloc\<close> gave it, its payload capacity and the bytes used; the payload follows the header of
  three machine words.  The address that \<open>malloc_safe\<close> returns, should the call need a new block, is an
  argument (\<open>malloc_safe\<close> ends the process instead of returning NULL).  Sizes are those of C objects, far
  below \<open>SIZE_MAX\<close>, and addresses and sizes are natural numbers.
\<close>

record arena_block =
  base :: nat
  used :: nat
  cap :: nat

record arena =
  blocks :: "arena_block list"
  objs :: nat
  bytes :: nat

definition TYPE_ARENA_BLOCK :: nat where
  "TYPE_ARENA_BLOCK = 16 * 1024"

text \<open>\<open>sizeof(TypeArenaBlock)\<close>: a pointer and two \<open>size_t\<close>, of 8 bytes each.\<close>

definition BLOCK_HEADER :: nat where
  "BLOCK_HEADER = 3 * 8"

definition empty_arena :: arena where
  "empty_arena = \<lparr>blocks = [], objs = 0, bytes = 0\<rparr>"

definition block_cap :: "nat \<Rightarrow> nat" where
  "block_cap need = (if need > TYPE_ARENA_BLOCK then need else TYPE_ARENA_BLOCK)"

definition type_arena_new_block :: "nat \<Rightarrow> nat \<Rightarrow> arena \<Rightarrow> arena" where
  "type_arena_new_block m need a =
     a\<lparr>blocks := \<lparr>base = m, used = 0, cap = block_cap need\<rparr> # blocks a\<rparr>"

definition align16 :: "nat \<Rightarrow> nat" where
  "align16 n = (n + 15) div 16 * 16"

text \<open>Whether the newest block has no room for \<open>n\<close> more bytes.\<close>

definition needs_block :: "nat \<Rightarrow> arena \<Rightarrow> bool" where
  "needs_block n a = (case blocks a of [] \<Rightarrow> True | b # bs \<Rightarrow> used b + n > cap b)"

text \<open>The pointer returned, \<open>(char *)(b + 1) + b->used\<close>, and the arena afterwards.\<close>

definition type_arena_alloc :: "nat \<Rightarrow> nat \<Rightarrow> arena \<Rightarrow> nat \<times> arena" where
  "type_arena_alloc m n a =
     (let n = align16 n;
          a = (if needs_block n a then type_arena_new_block m n a else a);
          b = hd (blocks a)
      in (base b + BLOCK_HEADER + used b,
          a\<lparr>blocks := b\<lparr>used := used b + n\<rparr> # tl (blocks a), objs := objs a + 1, bytes := bytes a + n\<rparr>))"

definition type_arena_free_all :: "arena \<Rightarrow> arena" where
  "type_arena_free_all a = \<lparr>blocks = [], objs = 0, bytes = 0\<rparr>"

text \<open>A run of requests, each with the answer of \<open>malloc\<close> and the size: the regions handed out
  (address, size), newest first.\<close>

fun arena_run :: "(nat \<times> nat) list \<Rightarrow> arena \<Rightarrow> (nat \<times> nat) list \<Rightarrow> (nat \<times> nat) list \<times> arena" where
  "arena_run [] a rs = (rs, a)"
| "arena_run ((m, n) # reqs) a rs =
     (case type_arena_alloc m n a of (p, a') \<Rightarrow> arena_run reqs a' ((p, n) # rs))"

section \<open>What malloc promises\<close>

definition apart :: "nat \<times> nat \<Rightarrow> nat \<times> nat \<Rightarrow> bool" where
  "apart r s \<longleftrightarrow> fst r + snd r \<le> fst s \<or> fst s + snd s \<le> fst r"

definition extent :: "arena_block \<Rightarrow> nat \<times> nat" where
  "extent b = (base b, BLOCK_HEADER + cap b)"

text \<open>A fresh block is aligned to 16 bytes and does not overlap the blocks in use.\<close>

definition fresh_block :: "nat \<Rightarrow> nat \<Rightarrow> arena \<Rightarrow> bool" where
  "fresh_block m c a \<longleftrightarrow> 16 dvd m \<and> (\<forall>b \<in> set (blocks a). apart (m, BLOCK_HEADER + c) (extent b))"

fun malloc_keeps :: "(nat \<times> nat) list \<Rightarrow> arena \<Rightarrow> bool" where
  "malloc_keeps [] a = True"
| "malloc_keeps ((m, n) # reqs) a =
     ((if needs_block (align16 n) a then fresh_block m (block_cap (align16 n)) a else True) \<and>
      malloc_keeps reqs (snd (type_arena_alloc m n a)))"

section \<open>The regions handed out\<close>

definition region_ok :: "arena \<Rightarrow> nat \<times> nat \<Rightarrow> bool" where
  "region_ok a r = (case r of (p, n) \<Rightarrow>
     p mod 16 = 8 \<and>
     (\<exists>b \<in> set (blocks a). base b + BLOCK_HEADER \<le> p \<and> p + n \<le> base b + BLOCK_HEADER + used b \<and> used b \<le> cap b))"

definition arena_inv :: "arena \<Rightarrow> bool" where
  "arena_inv a \<longleftrightarrow> sorted_wrt (\<lambda>b c. apart (extent b) (extent c)) (blocks a) \<and>
     (\<forall>b \<in> set (blocks a). used b \<le> cap b \<and> 16 dvd used b \<and> 16 dvd base b)"

lemma align16_props: "n \<le> align16 n" "16 dvd align16 n" "align16 n < n + 16"
  by (auto simp: align16_def)

text \<open>The block the next region comes from: the newest, with room for it.\<close>

lemma alloc_cases:
  assumes "arena_inv a" "needs_block (align16 n) a \<Longrightarrow> fresh_block m (block_cap (align16 n)) a"
  obtains b bs where
    "type_arena_alloc m n a =
       (base b + BLOCK_HEADER + used b,
        \<lparr>blocks = b\<lparr>used := used b + align16 n\<rparr> # bs, objs = objs a + 1, bytes = bytes a + align16 n\<rparr>)"
    "used b + align16 n \<le> cap b" "16 dvd used b" "16 dvd base b"
    "b # bs = blocks a \<or> bs = blocks a" "\<forall>c \<in> set bs. apart (extent b) (extent c)"
    "sorted_wrt (\<lambda>b c. apart (extent b) (extent c)) bs"
    "\<forall>c \<in> set bs. used c \<le> cap c \<and> 16 dvd used c \<and> 16 dvd base c"
proof (cases "needs_block (align16 n) a")
  case True
  let ?b = "\<lparr>base = m, used = 0, cap = block_cap (align16 n)\<rparr>"
  have "type_arena_alloc m n a =
      (base ?b + BLOCK_HEADER + used ?b,
       \<lparr>blocks = ?b\<lparr>used := used ?b + align16 n\<rparr> # blocks a, objs = objs a + 1, bytes = bytes a + align16 n\<rparr>)"
    using True by (simp add: type_arena_alloc_def type_arena_new_block_def Let_def)
  moreover have "16 dvd m" "\<forall>c \<in> set (blocks a). apart (extent ?b) (extent c)"
    using assms(2) [OF True] by (simp_all add: fresh_block_def extent_def)
  moreover have "align16 n \<le> block_cap (align16 n)" by (simp add: block_cap_def)
  ultimately show ?thesis using assms(1) by (intro that [of ?b "blocks a"]) (simp_all add: arena_inv_def)
next
  case False
  then obtain b bs where b: "blocks a = b # bs" "used b + align16 n \<le> cap b"
    by (auto simp: needs_block_def split: list.splits)
  have "type_arena_alloc m n a =
      (base b + BLOCK_HEADER + used b,
       \<lparr>blocks = b\<lparr>used := used b + align16 n\<rparr> # bs, objs = objs a + 1, bytes = bytes a + align16 n\<rparr>)"
    using False b(1) by (simp add: type_arena_alloc_def Let_def)
  then show ?thesis using assms(1) b by (intro that [of b bs]) (simp_all add: arena_inv_def)
qed

text \<open>Regions of different blocks are apart, since the blocks are.\<close>

lemma apart_blocks:
  assumes "apart (extent b) (extent c)"
    and "base b + BLOCK_HEADER \<le> p" "p + n \<le> base b + BLOCK_HEADER + cap b"
    and "base c + BLOCK_HEADER \<le> q" "q + k \<le> base c + BLOCK_HEADER + cap c"
  shows "apart (p, n) (q, k)"
  using assms by (auto simp: apart_def extent_def)

lemma apart_extent [simp]: "extent (b\<lparr>used := k\<rparr>) = extent b"
  by (simp add: extent_def)

lemma alloc_regions:
  assumes "arena_inv a" "needs_block (align16 n) a \<Longrightarrow> fresh_block m (block_cap (align16 n)) a"
    and "list_all (region_ok a) rs" "type_arena_alloc m n a = (p, a')"
  shows "arena_inv a'" "list_all (region_ok a') ((p, n) # rs)" "list_all (apart (p, n)) rs"
    "objs a' = objs a + 1" "bytes a' = bytes a + align16 n"
proof -
  obtain b bs where b: "type_arena_alloc m n a = (base b + BLOCK_HEADER + used b,
        \<lparr>blocks = b\<lparr>used := used b + align16 n\<rparr> # bs, objs = objs a + 1, bytes = bytes a + align16 n\<rparr>)"
    "used b + align16 n \<le> cap b" "16 dvd used b" "16 dvd base b"
    "b # bs = blocks a \<or> bs = blocks a" "\<forall>c \<in> set bs. apart (extent b) (extent c)"
    "sorted_wrt (\<lambda>b c. apart (extent b) (extent c)) bs"
    "\<forall>c \<in> set bs. used c \<le> cap c \<and> 16 dvd used c \<and> 16 dvd base c"
    by (rule alloc_cases [OF assms(1,2)])
  let ?b = "b\<lparr>used := used b + align16 n\<rparr>"
  have a': "p = base b + BLOCK_HEADER + used b" "blocks a' = ?b # bs" "objs a' = objs a + 1" "bytes a' = bytes a + align16 n"
    using b(1) assms(4) by simp_all
  then show "objs a' = objs a + 1" "bytes a' = bytes a + align16 n" by simp_all
  show "arena_inv a'" using b align16_props(2) [of n] by (simp add: arena_inv_def a')
  have le: "n \<le> align16 n" by (rule align16_props)
  obtain i j where ij: "base b = 16 * i" "used b = 16 * j" using b(3,4) by (auto elim!: dvdE)
  have "p = 8 + 16 * (i + j + 1)" by (simp add: a'(1) ij BLOCK_HEADER_def)
  then have "p mod 16 = 8" by presburger
  then have new: "region_ok a' (p, n)" using le b(2) by (simp add: region_ok_def a')
  have old: "region_ok a' r \<and> apart (p, n) r" if r: "region_ok a r" for r
  proof -
    obtain q k c where c: "r = (q, k)" "q mod 16 = 8" "c \<in> set (blocks a)" "base c + BLOCK_HEADER \<le> q"
      "q + k \<le> base c + BLOCK_HEADER + used c" "used c \<le> cap c"
      using r by (auto simp: region_ok_def)
    show ?thesis
    proof (cases "c \<in> set bs")
      case True
      have "apart (p, n) (q, k)"
        by (rule apart_blocks [of b c]) (use b(2,6) True c(4-6) le in \<open>simp_all add: a'\<close>)
      then show ?thesis using c True by (auto simp: region_ok_def a')
    next
      case False
      then have cb: "c = b" using c(3) b(5) by (metis set_ConsD)
      have "region_ok a' (q, k)" using c(2,4,5) b(2) unfolding cb region_ok_def a' by auto
      then show ?thesis using c(1,5) unfolding cb by (simp add: apart_def a')
    qed
  qed
  then show "list_all (region_ok a') ((p, n) # rs)" "list_all (apart (p, n)) rs"
    using new assms(3) by (auto simp: list_all_iff)
qed

lemma arena_run_inv:
  "arena_inv a \<Longrightarrow> malloc_keeps reqs a \<Longrightarrow> list_all (region_ok a) rs \<Longrightarrow> sorted_wrt apart rs \<Longrightarrow> arena_run reqs a rs = (rs', a') \<Longrightarrow>
     arena_inv a' \<and> list_all (region_ok a') rs' \<and> sorted_wrt apart rs' \<and>
     objs a' = objs a + length reqs \<and> bytes a' = bytes a + sum_list (map (align16 \<circ> snd) reqs)"
proof (induction reqs arbitrary: a rs)
  case (Cons req reqs)
  obtain m n where req: "req = (m, n)" by (cases req)
  obtain p a1 where al: "type_arena_alloc m n a = (p, a1)" by (metis prod.collapse)
  have v: "needs_block (align16 n) a \<Longrightarrow> fresh_block m (block_cap (align16 n)) a" "malloc_keeps reqs a1"
    using Cons.prems(2) al by (simp_all add: req split: if_splits)
  note s = alloc_regions [OF Cons.prems(1) v(1) Cons.prems(3) al]
  have "sorted_wrt apart ((p, n) # rs)" using s(3) Cons.prems(4) by (simp add: list_all_iff)
  from Cons.IH [OF s(1) v(2) s(2) this] Cons.prems(5) s(4,5) show ?case by (simp add: req al)
qed simp

section \<open>The property of the arena\<close>

text \<open>C37: Whatever sizes are requested from a fresh arena, and provided that the blocks \<open>malloc\<close> returns
  are 16-byte aligned and do not overlap the blocks in use, the objects handed out lie within the used
  payload of a block, which never exceeds its capacity, and do not overlap each other; the statistics
  count them and their rounded sizes.  Their addresses are all 8 modulo 16: the header of 24 bytes that
  precedes the payload leaves the pointers aligned to 8 bytes, and never to the 16 bytes that the
  comment of \<open>type_arena_alloc\<close> announces.\<close>

theorem arena_regions_disjoint:
  assumes "malloc_keeps reqs empty_arena" "arena_run reqs empty_arena [] = (rs, a)"
  shows "arena_inv a \<and> list_all (region_ok a) rs \<and> sorted_wrt apart rs \<and>
    objs a = length reqs \<and> bytes a = sum_list (map (align16 \<circ> snd) reqs)"
proof -
  have "arena_inv empty_arena" by (simp add: arena_inv_def empty_arena_def)
  from arena_run_inv [OF this assms(1) _ _ assms(2)] show ?thesis by (simp add: empty_arena_def)
qed

theorem arena_regions_disjoint_witness:
  "sorted_wrt apart (fst (arena_run [(4096, 10), (65536, 20000), (32768, 10)] empty_arena []))"
proof -
  have "malloc_keeps [(4096, 10), (65536, 20000), (32768, 10)] empty_arena"
    by (simp add: empty_arena_def type_arena_alloc_def type_arena_new_block_def needs_block_def fresh_block_def Let_def
        align16_def block_cap_def TYPE_ARENA_BLOCK_def BLOCK_HEADER_def apart_def extent_def)
  from arena_regions_disjoint [OF this prod.collapse [symmetric]] show ?thesis by (elim conjE)
qed

end
