(* ===== verification/Symtable.thy ===== *)
theory Symtable
  imports Ls_Types
begin

text \<open>
  The scoped symbol table (\<open>src/src/symtable.c\<close>, \<open>symtable.h\<close>).  A scope is its array of
  symbols with count and capacity, its parent and its depth; \<open>scope_define\<close> returns the index of
  the new symbol, or nothing when the name is already defined in that very scope.  The abstract
  environment is a stack of maps from names to symbols.
\<close>

section \<open>The data\<close>

record Symbol =
  name :: string
  type :: ty
  is_mutable :: bool
  scope_depth :: nat
  is_moved :: bool
  is_maybe_moved :: bool
  is_returning :: bool
  is_borrow :: bool
  is_mut_borrow :: bool
  is_borrow_src :: bool
  is_comptime_const :: bool
  ct_is_float :: bool
  ct_i :: int
  ct_f :: nat

text \<open>\<open>count\<close> is the length of \<open>symbols\<close>; \<open>ct_f\<close> is kept as the bits of the double.\<close>

datatype Scope = Scope_of
  (symbols: "Symbol list") (capacity: nat) (parent: "Scope option") (depth: nat)

definition GROW_CAPACITY :: "nat \<Rightarrow> nat" where
  "GROW_CAPACITY cap = (if cap < 8 then 8 else cap * 2)"

definition scope_new :: "Scope option \<Rightarrow> Scope" where
  "scope_new p = Scope_of [] 0 p (case p of None \<Rightarrow> 0 | Some q \<Rightarrow> depth q + 1)"

definition new_symbol :: "string \<Rightarrow> ty \<Rightarrow> nat \<Rightarrow> Symbol" where
  "new_symbol nm t d = \<lparr>name = nm, type = t, is_mutable = True, scope_depth = d,
     is_moved = False, is_maybe_moved = False, is_returning = False, is_borrow = False,
     is_mut_borrow = False, is_borrow_src = False, is_comptime_const = False,
     ct_is_float = False, ct_i = 0, ct_f = 0\<rparr>"

text \<open>The loop over one scope's array: the index of the first symbol with this name.\<close>

fun find_symbol :: "Symbol list \<Rightarrow> string \<Rightarrow> nat option" where
  "find_symbol [] nm = None"
| "find_symbol (s # ss) nm = (if name s = nm then Some 0 else map_option Suc (find_symbol ss nm))"

definition scope_define :: "Scope \<Rightarrow> string \<Rightarrow> ty \<Rightarrow> nat option \<times> Scope" where
  "scope_define s nm t =
     (case find_symbol (symbols s) nm of
        Some i \<Rightarrow> (None, s)
      | None \<Rightarrow>
          (let n = length (symbols s);
               cap = (if n \<ge> capacity s then GROW_CAPACITY (capacity s) else capacity s)
           in (Some n,
               Scope_of (symbols s @ [new_symbol nm t (depth s)]) cap (parent s) (depth s))))"

definition scope_resolve_local :: "Scope \<Rightarrow> string \<Rightarrow> Symbol option" where
  "scope_resolve_local s nm = map_option ((!) (symbols s)) (find_symbol (symbols s) nm)"

fun scope_resolve :: "Scope \<Rightarrow> string \<Rightarrow> Symbol option" where
  "scope_resolve (Scope_of ss cap p d) nm =
     (case find_symbol ss nm of
        Some i \<Rightarrow> Some (ss ! i)
      | None \<Rightarrow> (case p of None \<Rightarrow> None | Some q \<Rightarrow> scope_resolve q nm))"

section \<open>The invariant\<close>

text \<open>
  In every scope of the chain: names are distinct, each symbol carries its scope's depth, the
  array fits its capacity, and the depth counts the enclosing scopes.
\<close>

fun scope_inv :: "Scope \<Rightarrow> bool" where
  "scope_inv (Scope_of ss cap p d) =
     (distinct (map name ss) \<and> (\<forall>s \<in> set ss. scope_depth s = d) \<and> length ss \<le> cap \<and>
      (case p of None \<Rightarrow> d = 0 | Some q \<Rightarrow> d = depth q + 1 \<and> scope_inv q))"

lemma find_symbol_None: "find_symbol ss nm = None \<longleftrightarrow> nm \<notin> name ` set ss"
  by (induction ss) auto

lemma find_symbol_Some:
  "find_symbol ss nm = Some i \<Longrightarrow> i < length ss \<and> name (ss ! i) = nm"
  by (induction ss arbitrary: i) (auto split: if_splits)

lemma scope_inv_new: "(\<And>q. p = Some q \<Longrightarrow> scope_inv q) \<Longrightarrow> scope_inv (scope_new p)"
  by (auto simp: scope_new_def split: option.splits)

lemma scope_inv_define: "scope_inv s \<Longrightarrow> scope_inv (snd (scope_define s nm t))"
  by (cases s)
    (auto simp: scope_define_def find_symbol_None new_symbol_def GROW_CAPACITY_def Let_def
      split: option.splits)

section \<open>The abstract environment\<close>

type_synonym env = "(string \<rightharpoonup> Symbol) list"

fun env_lookup :: "env \<Rightarrow> string \<Rightarrow> Symbol option" where
  "env_lookup [] nm = None"
| "env_lookup (m # ms) nm = (case m nm of Some s \<Rightarrow> Some s | None \<Rightarrow> env_lookup ms nm)"

definition scope_map :: "Symbol list \<Rightarrow> (string \<rightharpoonup> Symbol)" where
  "scope_map ss = map_of (map (\<lambda>s. (name s, s)) ss)"

fun env_of :: "Scope \<Rightarrow> env" where
  "env_of (Scope_of ss cap p d) =
     scope_map ss # (case p of None \<Rightarrow> [] | Some q \<Rightarrow> env_of q)"

lemma find_symbol_scope_map: "map_option ((!) ss) (find_symbol ss nm) = scope_map ss nm"
  by (induction ss) (auto simp: scope_map_def option.map_comp comp_def)

lemma scope_map_append:
  "nm \<notin> name ` set ss \<Longrightarrow> scope_map (ss @ [new_symbol nm t d]) = (scope_map ss)(nm \<mapsto> new_symbol nm t d)"
  by (induction ss) (auto simp: scope_map_def new_symbol_def fun_eq_iff)

lemma find_symbol_scope_map_cases:
  "find_symbol ss nm = None \<Longrightarrow> scope_map ss nm = None"
  "find_symbol ss nm = Some i \<Longrightarrow> scope_map ss nm = Some (ss ! i)"
  using find_symbol_scope_map [of ss nm] by auto

lemma scope_resolve_env: "scope_resolve s nm = env_lookup (env_of s) nm"
proof (induction s nm rule: scope_resolve.induct)
  case (1 ss cap p d nm)
  show ?case
  proof (cases "find_symbol ss nm")
    case None
    then show ?thesis
      using 1 by (cases p) (simp_all add: find_symbol_scope_map_cases)
  next
    case (Some i)
    then show ?thesis by (simp add: find_symbol_scope_map_cases(2))
  qed
qed

lemma scope_resolve_local_env: "scope_resolve_local s nm = hd (env_of s) nm"
  by (cases s) (simp add: scope_resolve_local_def find_symbol_scope_map)

lemma env_of_new: "env_of (scope_new p) = Map.empty # (case p of None \<Rightarrow> [] | Some q \<Rightarrow> env_of q)"
  by (simp add: scope_new_def scope_map_def split: option.splits)

lemma scope_define_fails:
  "fst (scope_define s nm t) = None \<Longrightarrow> hd (env_of s) nm \<noteq> None \<and> snd (scope_define s nm t) = s"
  by (cases s; cases "find_symbol (symbols s) nm")
    (simp_all add: scope_define_def Let_def find_symbol_scope_map_cases(2))

lemma scope_define_env:
  assumes "fst (scope_define s nm t) = Some i"
  shows "hd (env_of s) nm = None"
    "env_of (snd (scope_define s nm t)) = (hd (env_of s))(nm \<mapsto> new_symbol nm t (depth s)) # tl (env_of s)"
proof -
  obtain ss cap p d where s: "s = Scope_of ss cap p d" by (cases s)
  from assms have f: "find_symbol ss nm = None"
    by (cases "find_symbol ss nm") (simp_all add: s scope_define_def)
  show "hd (env_of s) nm = None"
    using f by (simp add: s find_symbol_scope_map_cases(1))
  show "env_of (snd (scope_define s nm t)) = (hd (env_of s))(nm \<mapsto> new_symbol nm t (depth s)) # tl (env_of s)"
    using scope_map_append [of nm ss t d] f [unfolded find_symbol_None]
    by (simp add: s scope_define_def Let_def f)
qed

section \<open>What a client of a scoped environment relies on\<close>

locale scoped_env =
  fixes look :: "'s \<Rightarrow> string \<Rightarrow> 'v option"
    and look_here :: "'s \<Rightarrow> string \<Rightarrow> 'v option"
    and push :: "'s \<Rightarrow> 's"
    and pop :: "'s \<Rightarrow> 's option"
    and define_in :: "'s \<Rightarrow> string \<Rightarrow> 'a \<Rightarrow> 's option"
    and mk :: "'s \<Rightarrow> string \<Rightarrow> 'a \<Rightarrow> 'v"
  assumes look_push: "look (push s) x = look s x"
    and look_here_push: "look_here (push s) x = None"
    and pop_push: "pop (push s) = Some s"
    and pop_define: "define_in s x a = Some s' \<Longrightarrow> pop s' = pop s"
    and define_fails: "define_in s x a = None \<longleftrightarrow> look_here s x \<noteq> None"
    and look_define: "define_in s x a = Some s' \<Longrightarrow> look s' y = (if y = x then Some (mk s x a) else look s y)"
    and look_here_look: "look_here s x \<noteq> None \<Longrightarrow> look s x = look_here s x"
    and look_here_define: "define_in s x a = Some s' \<Longrightarrow>
          look_here s' y = (if y = x then Some (mk s x a) else look_here s y)"
begin

text \<open>Definitions made in a row.\<close>

fun define_all :: "'s \<Rightarrow> (string \<times> 'a) list \<Rightarrow> 's option" where
  "define_all s [] = Some s"
| "define_all s ((x, a) # xs) =
     (case define_in s x a of None \<Rightarrow> None | Some s' \<Rightarrow> define_all s' xs)"

lemma define_all_pop: "define_all s xs = Some s' \<Longrightarrow> pop s' = pop s"
  by (induction xs arbitrary: s) (auto split: option.splits dest: pop_define)

lemma define_all_look_other:
  "define_all s xs = Some s' \<Longrightarrow> y \<notin> fst ` set xs \<Longrightarrow> look s' y = look s y"
  by (induction xs arbitrary: s) (auto split: option.splits simp: look_define)

lemma define_all_distinct:
  "define_all s xs \<noteq> None \<longleftrightarrow> distinct (map fst xs) \<and> (\<forall>x \<in> fst ` set xs. look_here s x = None)"
proof (induction xs arbitrary: s)
  case (Cons p xs)
  obtain x a where p: "p = (x, a)" by (cases p)
  show ?case
  proof (cases "define_in s x a")
    case None
    then show ?thesis using define_fails [of s x a] by (auto simp: p)
  next
    case (Some s')
    have "look_here s x = None" using define_fails [of s x a] Some by auto
    with Some Cons.IH [of s'] show ?thesis
      by (auto simp: p look_here_define [OF Some] split: if_splits)
  qed
qed simp

lemma define_all_keeps_here:
  "define_all s xs = Some s' \<Longrightarrow> look_here s y \<noteq> None \<Longrightarrow> look_here s' y \<noteq> None"
  by (induction xs arbitrary: s) (auto split: option.splits if_splits simp: look_here_define)

lemma define_all_here: "define_all s xs = Some s' \<Longrightarrow> y \<in> fst ` set xs \<Longrightarrow> look s' y = look_here s' y"
proof (induction xs arbitrary: s)
  case (Cons q xs)
  obtain x a where q: "q = (x, a)" by (cases q)
  from Cons.prems(1) obtain s1 where s1: "define_in s x a = Some s1" "define_all s1 xs = Some s'"
    by (auto simp: q split: option.splits)
  show ?case
  proof (cases "y \<in> fst ` set xs")
    case True
    with Cons.IH s1(2) show ?thesis by simp
  next
    case False
    with Cons.prems(2) have "y = x" by (simp add: q)
    then have "look_here s' y \<noteq> None"
      using define_all_keeps_here [OF s1(2)] by (simp add: look_here_define [OF s1(1)])
    then show ?thesis by (rule look_here_look)
  qed
qed simp

text \<open>Entering a scope, defining and leaving it gives the old environment back.\<close>

lemma block_restores: "define_all (push s) xs = Some s' \<Longrightarrow> pop s' = Some s"
  by (simp add: define_all_pop pop_push)

lemma inner_scope_transparent:
  "define_all (push s) xs = Some s' \<Longrightarrow> y \<notin> fst ` set xs \<Longrightarrow> look s' y = look s y"
  by (simp add: define_all_look_other look_push)

end

definition define_opt :: "Scope \<Rightarrow> string \<Rightarrow> ty \<Rightarrow> Scope option" where
  "define_opt s nm t = (case scope_define s nm t of (None, s') \<Rightarrow> None | (Some i, s') \<Rightarrow> Some s')"

lemma scope_define_parent: "parent (snd (scope_define s nm t)) = parent s"
  by (simp add: scope_define_def Let_def split: option.splits)

lemma env_of_not_Nil [simp]: "env_of s \<noteq> []"
  by (cases s) simp

lemma define_opt_env:
  assumes "define_opt s nm t = Some s'"
  shows "env_of s' = (hd (env_of s))(nm \<mapsto> new_symbol nm t (depth s)) # tl (env_of s)"
    "hd (env_of s) nm = None" "parent s' = parent s"
proof -
  from assms obtain i where "scope_define s nm t = (Some i, s')"
    by (auto simp: define_opt_def split: prod.splits option.splits)
  then show "env_of s' = (hd (env_of s))(nm \<mapsto> new_symbol nm t (depth s)) # tl (env_of s)"
    "hd (env_of s) nm = None" "parent s' = parent s"
    using scope_define_env [of s nm t i] scope_define_parent [of s nm t] by simp_all
qed

lemma define_opt_None: "define_opt s nm t = None \<longleftrightarrow> hd (env_of s) nm \<noteq> None"
proof (cases "define_opt s nm t")
  case None
  then have "fst (scope_define s nm t) = None"
    by (auto simp: define_opt_def split: prod.splits option.splits)
  then show ?thesis using None scope_define_fails [of s nm t] by simp
next
  case (Some s')
  then show ?thesis using define_opt_env(2) [OF Some] by simp
qed

lemma env_lookup_hd_tl: "env_lookup (env_of s) x =
   (case hd (env_of s) x of Some v \<Rightarrow> Some v | None \<Rightarrow> env_lookup (tl (env_of s)) x)"
  by (cases "env_of s") (simp_all split: option.split)

interpretation symtab: scoped_env scope_resolve scope_resolve_local "\<lambda>s. scope_new (Some s)"
  parent define_opt "\<lambda>s nm t. new_symbol nm t (depth s)"
proof
  show "scope_resolve (scope_new (Some s)) x = scope_resolve s x" for s x
    by (simp add: scope_resolve_env env_of_new)
  show "scope_resolve_local (scope_new (Some s)) x = None" for s x
    by (simp add: scope_resolve_local_env env_of_new)
  show "parent (scope_new (Some s)) = Some s" for s
    by (simp add: scope_new_def)
  show "parent s' = parent s" if "define_opt s x a = Some s'" for s x a s'
    using define_opt_env(3) [OF that] .
  show "scope_resolve s x = scope_resolve_local s x" if "scope_resolve_local s x \<noteq> None" for s x
    using that by (auto simp: scope_resolve_env scope_resolve_local_env env_lookup_hd_tl [of s])
  show "define_opt s x a = None \<longleftrightarrow> scope_resolve_local s x \<noteq> None" for s x a
    by (simp add: define_opt_None scope_resolve_local_env)
  show "scope_resolve s' y = (if y = x then Some (new_symbol x a (depth s)) else scope_resolve s y)"
    if "define_opt s x a = Some s'" for s x a s' y
    using define_opt_env(2) [OF that]
    by (simp add: scope_resolve_env define_opt_env(1) [OF that] env_lookup_hd_tl [of s])
  show "scope_resolve_local s' y = (if y = x then Some (new_symbol x a (depth s)) else scope_resolve_local s y)"
    if "define_opt s x a = Some s'" for s x a s' y
    by (simp add: scope_resolve_local_env define_opt_env(1) [OF that])
qed

section \<open>The properties of the symbol table\<close>

text \<open>C10: The scope chain implements a stack of maps: resolution is lookup in the innermost map that
  has the name, a new scope pushes an empty map, and a definition either fails because the
  innermost map has the name (and changes nothing) or adds the new symbol to the innermost map.\<close>

theorem scope_refines_env:
  "scope_resolve s nm = env_lookup (env_of s) nm \<and>
   scope_resolve_local s nm = hd (env_of s) nm \<and>
   env_of (scope_new (Some s)) = Map.empty # env_of s \<and>
   (case hd (env_of s) nm of
      Some v \<Rightarrow> scope_define s nm t = (None, s)
    | None \<Rightarrow> fst (scope_define s nm t) = Some (length (symbols s)) \<and>
        env_of (snd (scope_define s nm t)) = (hd (env_of s))(nm \<mapsto> new_symbol nm t (depth s)) # tl (env_of s))"
proof (cases "fst (scope_define s nm t)")
  case None
  with scope_define_fails [of s nm t] have "scope_define s nm t = (None, s)" "hd (env_of s) nm \<noteq> None"
    by (metis prod.collapse, blast)
  then show ?thesis
    by (auto simp: scope_resolve_env scope_resolve_local_env env_of_new)
next
  case (Some i)
  then have "i = length (symbols s)"
    by (auto simp: scope_define_def Let_def split: option.splits)
  with Some scope_define_env [OF Some] show ?thesis
    by (simp add: scope_resolve_env scope_resolve_local_env env_of_new)
qed

text \<open>Opening a scope and defining names in it succeeds exactly when the names are distinct,
  gives the enclosing scope back when it is left, and hides nothing but the names defined.\<close>

theorem block_scope_transparent:
  "case symtab.define_all (scope_new (Some s)) xs of
     None \<Rightarrow> \<not> distinct (map fst xs)
   | Some s' \<Rightarrow> distinct (map fst xs) \<and> parent s' = Some s \<and>
       scope_resolve s' y =
         (if y \<in> fst ` set xs then scope_resolve_local s' y else scope_resolve s y)"
proof (cases "symtab.define_all (scope_new (Some s)) xs")
  case None
  with symtab.define_all_distinct [of "scope_new (Some s)" xs] show ?thesis
    by (simp add: symtab.look_here_push)
next
  case (Some s')
  with symtab.define_all_distinct [of "scope_new (Some s)" xs] have "distinct (map fst xs)" by simp
  moreover have "scope_resolve s' y = scope_resolve_local s' y" if "y \<in> fst ` set xs"
    using symtab.define_all_here [OF Some that] .
  ultimately show ?thesis
    using symtab.block_restores [OF Some] symtab.inner_scope_transparent [OF Some] Some by simp
qed

text \<open>Every definition and every new scope keeps the chain well formed: distinct names per
  scope, each symbol at its scope's depth, the array within its capacity, depths counting the
  enclosing scopes.\<close>

theorem scope_operations_keep_inv:
  assumes "scope_inv s"
  shows "scope_inv (scope_new (Some s)) \<and> scope_inv (snd (scope_define s nm t))"
  using assms scope_inv_new [of "Some s"] scope_inv_define by simp

theorem scope_operations_keep_inv_witness:
  "scope_inv (snd (scope_define (scope_new None) ''x'' T_NULL))"
  by (rule scope_operations_keep_inv [THEN conjunct2]) (simp add: scope_new_def)

end
