(* ===== verification/Mangle.thy ===== *)
theory Mangle
  imports Ls_Types
begin

text \<open>
  Symbol mangling (\<open>src/src/mangle.c\<close>): the module prefix of a symbol, the qualified method
  symbol, and the growable buffer that builds generic instance names.  A buffer's \<open>p\<close> is the
  NUL-terminated text at the pointer, \<open>None\<close> for the null pointer.  Lengths are those of strings
  in memory, so \<open>size_t\<close> sums do not wrap.
\<close>

section \<open>Module and method symbols\<close>

definition dot_underscore :: "char \<Rightarrow> char" where
  "dot_underscore c = (if c = CHR ''.'' then CHR ''_'' else c)"

definition mangle_module_symbol :: "string option \<Rightarrow> string \<Rightarrow> string" where
  "mangle_module_symbol module_name nm =
     (case module_name of
        None \<Rightarrow> nm
      | Some m \<Rightarrow> if m = [] then nm else map dot_underscore m @ ''__'' @ nm)"

definition mangle_method_symbol :: "string \<Rightarrow> string option \<Rightarrow> string \<Rightarrow> string" where
  "mangle_method_symbol type_nm iface method_nm =
     type_nm @ ''.'' @ (case iface of None \<Rightarrow> [] | Some i \<Rightarrow> i @ ''.'') @ method_nm"

section \<open>The growable buffer\<close>

record MangleBuf =
  p :: "string option"
  len :: nat
  cap :: nat

definition mangle_buf_init :: MangleBuf where
  "mangle_buf_init = \<lparr>p = None, len = 0, cap = 0\<rparr>"

definition mangle_buf_free :: "MangleBuf \<Rightarrow> MangleBuf" where
  "mangle_buf_free b = b\<lparr>p := None, len := 0, cap := 0\<rparr>"

definition mangle_buf_reserve :: "nat \<Rightarrow> MangleBuf \<Rightarrow> MangleBuf" where
  "mangle_buf_reserve extra b =
     (let need = len b + extra + 1
      in if need \<le> cap b then b
         else b\<lparr>p := Some (case p b of None \<Rightarrow> [] | Some s \<Rightarrow> s),
                cap := double_to (if cap b < 64 then 64 else cap b) need\<rparr>)"

text \<open>
  \<open>memcpy\<close> writes \<open>strlen(s) + 1\<close> bytes at offset \<open>len\<close>: defined when they end within
  \<open>cap\<close> bytes and the pointer is not null.
\<close>

definition mangle_buf_append :: "string \<Rightarrow> MangleBuf \<Rightarrow> MangleBuf option" where
  "mangle_buf_append s b =
     (let slen = length s; b = mangle_buf_reserve slen b
      in case p b of
           None \<Rightarrow> None
         | Some text \<Rightarrow>
             if len b + slen + 1 \<le> cap b
             then Some (b\<lparr>p := Some (take (len b) text @ s), len := len b + slen\<rparr>) else None)"

definition mangle_buf_take :: "MangleBuf \<Rightarrow> string \<times> MangleBuf" where
  "mangle_buf_take b =
     ((case p b of None \<Rightarrow> [] | Some s \<Rightarrow> s), b\<lparr>p := None, len := 0, cap := 0\<rparr>)"

fun mangle_type_arg_name :: "ty \<Rightarrow> string option" where
  "mangle_type_arg_name (T_STRUCT nm (Some l) fs m args) = Some l"
| "mangle_type_arg_name (T_ENUM nm (Some l) vs m) = Some l"
| "mangle_type_arg_name t = type_name t"

definition mangle_append_type_arg :: "ty \<Rightarrow> MangleBuf \<Rightarrow> MangleBuf option" where
  "mangle_append_type_arg t b = do { s \<leftarrow> mangle_type_arg_name t; mangle_buf_append s b }"

fun append_all :: "string list \<Rightarrow> MangleBuf \<Rightarrow> MangleBuf option" where
  "append_all [] b = Some b"
| "append_all (s # ss) b = do { b \<leftarrow> mangle_buf_append s b; append_all ss b }"

section \<open>The buffer's invariant and abstraction\<close>

definition buf_inv :: "MangleBuf \<Rightarrow> bool" where
  "buf_inv b \<longleftrightarrow>
     (case p b of None \<Rightarrow> len b = 0 \<and> cap b = 0
      | Some s \<Rightarrow> length s = len b \<and> len b < cap b \<and> (\<exists>k. cap b = 64 * 2 ^ k))"

definition buf_text :: "MangleBuf \<Rightarrow> string" where
  "buf_text b = (case p b of None \<Rightarrow> [] | Some s \<Rightarrow> s)"

lemma reserve_props:
  assumes "buf_inv b"
  shows "buf_inv (mangle_buf_reserve n b)" "buf_text (mangle_buf_reserve n b) = buf_text b"
    "len (mangle_buf_reserve n b) = len b" "len b + n + 1 \<le> cap (mangle_buf_reserve n b)"
    "p (mangle_buf_reserve n b) = Some (buf_text b)"
proof -
  let ?c = "if cap b < 64 then 64 else cap b"
  let ?d = "double_to ?c (len b + n + 1)"
  obtain k where k: "?c = 64 * 2 ^ k"
    using assms by (cases "cap b < 64") (auto simp: buf_inv_def intro: that [of 0] split: option.splits)
  obtain j where d: "len b + n + 1 \<le> ?d" "?d = ?c * 2 ^ j"
    using double_to_props [of ?c "len b + n + 1"] k by auto
  then have "?d = 64 * 2 ^ (k + j)" using k by (simp add: power_add)
  then have d': "\<exists>k. ?d = 64 * 2 ^ k" by blast
  have "len b + n + 1 \<le> cap b \<Longrightarrow> p b = Some (buf_text b)"
    using assms by (auto simp: buf_inv_def buf_text_def split: option.splits)
  then show "buf_inv (mangle_buf_reserve n b)" "buf_text (mangle_buf_reserve n b) = buf_text b"
    "len (mangle_buf_reserve n b) = len b" "len b + n + 1 \<le> cap (mangle_buf_reserve n b)"
    "p (mangle_buf_reserve n b) = Some (buf_text b)"
    using assms d(1) d'
    by (auto simp: mangle_buf_reserve_def Let_def buf_inv_def buf_text_def split: option.splits)
qed

lemma append_props:
  assumes "buf_inv b"
  obtains b' where "mangle_buf_append s b = Some b'" "buf_inv b'" "buf_text b' = buf_text b @ s"
proof
  let ?r = "mangle_buf_reserve (length s) b"
  note r = reserve_props [OF assms, of "length s"]
  let ?b = "?r\<lparr>p := Some (take (len ?r) (buf_text b) @ s), len := len ?r + length s\<rparr>"
  have lt: "length (buf_text b) = len b"
    using assms by (auto simp: buf_inv_def buf_text_def split: option.splits)
  show "mangle_buf_append s b = Some ?b"
    using r by (simp add: mangle_buf_append_def Let_def)
  show "buf_inv ?b" "buf_text ?b = buf_text b @ s"
    using r lt by (auto simp: buf_inv_def buf_text_def)
qed

lemma append_all_props:
  assumes "buf_inv b"
  shows "\<exists>b'. append_all ss b = Some b' \<and> buf_inv b' \<and> buf_text b' = buf_text b @ concat ss"
  using assms
proof (induction ss arbitrary: b)
  case (Cons s ss)
  from append_props [OF Cons.prems] obtain b1
    where "mangle_buf_append s b = Some b1" "buf_inv b1" "buf_text b1 = buf_text b @ s" by metis
  with Cons.IH [of b1] show ?case by auto
qed simp

section \<open>Which module symbols are distinct\<close>

text \<open>A module path whose symbol can be read back: no underscore, no empty component at the
  joins.\<close>

fun path_ok :: "string \<Rightarrow> bool" where
  "path_ok [] = True"
| "path_ok [c] = (c \<noteq> CHR ''_'' \<and> c \<noteq> CHR ''.'')"
| "path_ok (c # d # cs) = (c \<noteq> CHR ''_'' \<and> \<not> (c = CHR ''.'' \<and> d = CHR ''.'') \<and> path_ok (d # cs))"

lemma path_ok_tl: "path_ok (c # cs) \<Longrightarrow> path_ok cs"
  by (cases cs) auto

lemma module_prefix_unique:
  assumes "path_ok m" "path_ok m'"
    and "map dot_underscore m @ ''__'' @ n = map dot_underscore m' @ ''__'' @ n'"
    and "take 1 n \<noteq> ''_''" "take 1 n' \<noteq> ''_''"
  shows "m = m' \<and> n = n'"
  using assms(1-3)
proof (induction m arbitrary: m')
  case Nil
  show ?case
  proof (cases m')
    case Nil
    with Nil.prems show ?thesis by simp
  next
    case (Cons c cs)
    with Nil.prems have "dot_underscore c = CHR ''_''" by simp
    with Nil.prems(2) Cons have "c = CHR ''.''" by (cases cs) (auto simp: dot_underscore_def split: if_splits)
    with Cons Nil.prems(2) obtain d ds where d: "cs = d # ds" "d \<noteq> CHR ''.''" "d \<noteq> CHR ''_''"
      by (cases cs; cases "tl cs") auto
    with Cons Nil.prems(3) have False by (auto simp: dot_underscore_def split: if_splits)
    then show ?thesis ..
  qed
next
  case (Cons c cs)
  show ?case
  proof (cases m')
    case Nil
    with Cons.prems have "dot_underscore c = CHR ''_''" by simp
    with Cons.prems(1) have "c = CHR ''.''" by (cases cs) (auto simp: dot_underscore_def split: if_splits)
    with Cons.prems(1) obtain d ds where d: "cs = d # ds" "d \<noteq> CHR ''.''" "d \<noteq> CHR ''_''"
      by (cases cs; cases "tl cs") auto
    with Nil Cons.prems(3) have False by (auto simp: dot_underscore_def split: if_splits)
    then show ?thesis ..
  next
    case (Cons c' cs')
    have "c \<noteq> CHR ''_''" "c' \<noteq> CHR ''_''"
      using Cons.prems(1,2) Cons by (cases cs; cases cs'; simp)+
    with Cons Cons.prems(3) have "c = c'"
      by (auto simp: dot_underscore_def split: if_splits)
    moreover have "cs = cs' \<and> n = n'"
      using Cons.IH [of cs'] Cons.prems Cons path_ok_tl by auto
    ultimately show ?thesis using Cons by simp
  qed
qed

lemma split_at_dot:
  "CHR ''.'' \<notin> set a \<Longrightarrow> CHR ''.'' \<notin> set b \<Longrightarrow> a @ CHR ''.'' # x = b @ CHR ''.'' # y \<Longrightarrow> a = b \<and> x = y"
  by (induction a arbitrary: b) (auto simp: append_eq_Cons_conv Cons_eq_append_conv)

section \<open>The properties of mangling\<close>

text \<open>C13: Building an instance name piece by piece in the growable buffer never writes outside its
  allocation and yields exactly the concatenation of the pieces, leaving the buffer empty.\<close>

theorem mangle_buf_builds_concat:
  "\<exists>b. append_all ss mangle_buf_init = Some b \<and> buf_inv b \<and>
       mangle_buf_take b = (concat ss, mangle_buf_init)"
proof -
  have "buf_inv mangle_buf_init" "buf_text mangle_buf_init = []"
    by (simp_all add: buf_inv_def mangle_buf_init_def buf_text_def)
  with append_all_props [of mangle_buf_init ss] show ?thesis
    by (auto simp: mangle_buf_take_def buf_text_def mangle_buf_init_def)
qed

text \<open>Module symbols are unambiguous for module paths without underscores or empty components
  and names that do not start with an underscore: equal symbols come from equal module and name.\<close>

theorem mangle_module_symbol_inj:
  assumes "path_ok m" "path_ok m'" "m \<noteq> []" "m' \<noteq> []" "take 1 n \<noteq> ''_''" "take 1 n' \<noteq> ''_''"
    and "mangle_module_symbol (Some m) n = mangle_module_symbol (Some m') n'"
  shows "m = m' \<and> n = n'"
  using assms module_prefix_unique [of m m' n n'] by (simp add: mangle_module_symbol_def)

theorem mangle_module_symbol_inj_witness: "''std.io'' = ''std.io'' \<and> ''read'' = ''read''"
  by (rule mangle_module_symbol_inj) simp_all

text \<open>Module paths with underscores are not unambiguous: the paths a.b and a_b give every
  name the same symbol.\<close>

theorem mangle_module_symbol_collision:
  "mangle_module_symbol (Some ''a.b'') n = mangle_module_symbol (Some ''a_b'') n"
  by (simp add: mangle_module_symbol_def dot_underscore_def)

text \<open>Method symbols of dot-free types, interfaces and methods are unambiguous, with and
  without the interface component.\<close>

theorem mangle_method_symbol_inj:
  assumes "CHR ''.'' \<notin> set t \<union> set t' \<union> set m \<union> set m'"
    "CHR ''.'' \<notin> set (case i of None \<Rightarrow> [] | Some x \<Rightarrow> x)" "CHR ''.'' \<notin> set (case i' of None \<Rightarrow> [] | Some x \<Rightarrow> x)"
    and "mangle_method_symbol t i m = mangle_method_symbol t' i' m'"
  shows "t = t' \<and> i = i' \<and> m = m'"
proof -
  let ?r = "\<lambda>i m. (case i of None \<Rightarrow> [] | Some x \<Rightarrow> x @ ''.'') @ m"
  from assms(4) have "t @ CHR ''.'' # ?r i m = t' @ CHR ''.'' # ?r i' m'"
    by (simp add: mangle_method_symbol_def)
  then have t: "t = t'" "?r i m = ?r i' m'" using split_at_dot [of t t'] assms(1) by auto
  moreover from t(2) have "i = i' \<and> m = m'"
  proof (cases i; cases i')
    fix x y assume xy: "i = Some x" "i' = Some y"
    with t(2) show ?thesis using split_at_dot [of x y m m'] assms(2,3) by simp
  qed (use assms(1) in \<open>auto dest: arg_cong [where f = set]\<close>)
  ultimately show ?thesis by simp
qed

theorem mangle_method_symbol_inj_witness:
  "''Vec(int)'' = ''Vec(int)'' \<and> Some ''Iter'' = Some ''Iter'' \<and> ''next'' = ''next''"
  by (rule mangle_method_symbol_inj) simp_all

end
