(* ===== verification/Builtins.thy ===== *)
theory Builtins
  imports Prelude
begin

text \<open>
  The runtime's built-in functions (\<open>src/runtime/builtins.c\<close>): substring search, the scans used
  by the JSON parser, the fast path of the f-string formatter with its decimal printers, the
  byte-wise FxHash, the byte-order-independent integer loads, reading a line and the print
  redirection.  A buffer with its length is a string; \<open>int\<close> arguments that index it are ints.
\<close>

unbundle bit_operations_syntax

section \<open>Substring search\<close>

text \<open>
  \<open>memchr(hay + i, c, n)\<close>: the index of the first \<open>c\<close> among the \<open>n\<close> bytes from \<open>i\<close>;
  undefined when these bytes are not all inside the buffer.
\<close>

definition memchr :: "string \<Rightarrow> nat \<Rightarrow> char \<Rightarrow> nat \<Rightarrow> nat option option" where
  "memchr hay i c n =
     (if i + n > length hay then None
      else
        (let w = takeWhile (\<lambda>x. x \<noteq> c) (take n (drop i hay))
         in Some (if length w < n then Some (i + length w) else None)))"

text \<open>\<open>memcmp(hay + i, needle, n) == 0\<close>, with both ranges inside their buffers.\<close>

definition memeq :: "string \<Rightarrow> nat \<Rightarrow> string \<Rightarrow> nat \<Rightarrow> nat \<Rightarrow> bool option" where
  "memeq hay i needle j n =
     (if i + n \<le> length hay \<and> j + n \<le> length needle
      then Some (take n (drop i hay) = take n (drop j needle)) else None)"

definition LS_STRFIND_SHORT_HAY :: nat where
  "LS_STRFIND_SHORT_HAY = 256"

partial_function (option) find_short :: "string \<Rightarrow> string \<Rightarrow> nat \<Rightarrow> nat \<Rightarrow> int option" where
  "find_short hay needle lst i =
     (if \<not> i \<le> lst then Some (- 1)
      else do {
        p \<leftarrow> memchr hay i (needle ! 0) (lst - i + 1);
        (case p of
           None \<Rightarrow> Some (- 1)
         | Some i \<Rightarrow> do {
             eq \<leftarrow> memeq hay (i + 1) needle 1 (length needle - 1);
             if eq then Some (int i) else find_short hay needle lst (i + 1) }) })"

declare find_short.simps [code]

text \<open>The Sunday shifts: \<open>qs\<close> is filled with \<open>nlen + 1\<close>, then from the left with \<open>nlen - k\<close>.\<close>

definition sunday_table :: "string \<Rightarrow> nat list" where
  "sunday_table needle =
     fold (\<lambda>k qs. qs[ccode (needle ! k) := length needle - k]) [0..<length needle]
       (replicate 256 (length needle + 1))"

partial_function (option) find_long ::
    "nat list \<Rightarrow> string \<Rightarrow> string \<Rightarrow> nat \<Rightarrow> nat \<Rightarrow> int option" where
  "find_long qs hay needle lst i =
     (if \<not> i \<le> lst then Some (- 1)
      else do {
        p \<leftarrow> memchr hay i (needle ! 0) (lst - i + 1);
        (case p of
           None \<Rightarrow> Some (- 1)
         | Some i \<Rightarrow> do {
             eq \<leftarrow> memeq hay (i + 1) needle 1 (length needle - 1);
             if eq then Some (int i)
             else
               (let nxt = i + length needle
                in if nxt \<ge> length hay then Some (- 1)
                   else find_long qs hay needle lst (i + qs ! ccode (hay ! nxt))) }) })"

declare find_long.simps [code]

text \<open>The conversion of \<open>hlen - start\<close> to \<open>size_t\<close> wraps when \<open>start\<close> is past the end.\<close>

definition str_find :: "string \<Rightarrow> string \<Rightarrow> int \<Rightarrow> int option" where
  "str_find hay needle start =
     (let start = (if start < 0 then 0 else start);
          hlen = int (length hay); nlen = int (length needle)
      in if nlen = 0 then Some (if start \<le> hlen then start else - 1)
         else if nlen > hlen then Some (- 1)
         else if nlen = 1 then do {
           p \<leftarrow> memchr hay (nat start) (needle ! 0) (nat ((hlen - start) mod 2 ^ 64));
           Some (case p of None \<Rightarrow> - 1 | Some i \<Rightarrow> int i) }
         else
           (let lst = length hay - length needle
            in if length hay < LS_STRFIND_SHORT_HAY then find_short hay needle lst (nat start)
               else find_long (sunday_table needle) hay needle lst (nat start)))"

section \<open>Scans\<close>

text \<open>A scan reads bytes from \<open>start\<close> to the first that fails the test, or the end.\<close>

definition scan_while :: "(char \<Rightarrow> bool) \<Rightarrow> string \<Rightarrow> nat \<Rightarrow> nat" where
  "scan_while P data start = start + length (takeWhile P (drop start data))"

definition str_skip_ws :: "string \<Rightarrow> nat \<Rightarrow> nat" where
  "str_skip_ws data start = scan_while (\<lambda>c. ccode c \<in> {32, 9, 10, 13}) data start"

definition str_scan_plain :: "string \<Rightarrow> nat \<Rightarrow> nat" where
  "str_scan_plain data start = scan_while (\<lambda>c. \<not> (ccode c = 34 \<or> ccode c = 92)) data start"

definition str_scan_digits :: "string \<Rightarrow> nat \<Rightarrow> nat" where
  "str_scan_digits data start = scan_while isdigit data start"

definition bytecopy :: "string \<Rightarrow> nat \<Rightarrow> string \<Rightarrow> nat \<Rightarrow> int \<Rightarrow> string option" where
  "bytecopy dst doff src soff n =
     (if n \<le> 0 then Some dst
      else if doff + nat n \<le> length dst \<and> soff + nat n \<le> length src
      then Some (take doff dst @ take (nat n) (drop soff src) @ drop (doff + nat n) dst)
      else None)"

section \<open>Decimal printers\<close>

text \<open>The loop fills \<open>tmp\<close> with the digits, least significant first.\<close>

function u64_digits :: "64 word \<Rightarrow> string" where
  "u64_digits v = (if v = 0 then [] else char_of (48 + unat (v mod 10)) # u64_digits (v div 10))"
  by auto
termination
  by (relation "measure unat") (auto simp: unat_div intro!: div_less_dividend simp: unat_gt_0)

declare u64_digits.simps [simp del]

definition ls_u64_dec :: "64 word \<Rightarrow> string" where
  "ls_u64_dec v = (if v = 0 then ''0'' else rev (u64_digits v))"

definition ls_i64_dec :: "64 word \<Rightarrow> string" where
  "ls_i64_dec v =
     (if v <s 0 then CHR ''-'' # ls_u64_dec (- (v + 1) + 1) else ls_u64_dec v)"

section \<open>The f-string formatter\<close>

text \<open>
  The buffer is its \<open>size\<close> bytes and \<open>total\<close> counts the characters produced.  The variable
  arguments are a list of tagged values; reading one at another type is undefined behaviour.
\<close>

datatype fmt_arg =
  Int_arg "32 word" | Uint_arg "32 word" | Str_arg "string option" | Char_arg "32 word"
  | LL_arg "64 word" | ULL_arg "64 word"

type_synonym fmt_out = "string \<times> nat"

fun ls_fmt_put :: "string \<Rightarrow> fmt_out \<Rightarrow> fmt_out" where
  "ls_fmt_put src (buf, tot) =
     (fold (\<lambda>i buf. if tot + i + 1 < length buf then buf[tot + i := src ! i] else buf)
        [0..<length src] buf,
      tot + length src)"

fun ls_fmt_is_simple :: "string \<Rightarrow> bool" where
  "ls_fmt_is_simple [] = True"
| "ls_fmt_is_simple (p # ps) =
     (if p \<noteq> CHR ''%'' then ls_fmt_is_simple ps
      else case ps of
        [] \<Rightarrow> False
      | c # ps' \<Rightarrow>
          if c \<in> {CHR ''%'', CHR ''d'', CHR ''i'', CHR ''u'', CHR ''s'', CHR ''c''} then ls_fmt_is_simple ps'
          else if c = CHR ''l'' then
            (case ps' of
               l # k # ps'' \<Rightarrow>
                 if l = CHR ''l'' \<and> (k = CHR ''d'' \<or> k = CHR ''u'') then ls_fmt_is_simple ps'' else False
             | _ \<Rightarrow> False)
          else False)"

text \<open>The value printed by one conversion, and the arguments left.\<close>

definition conv_text :: "char \<Rightarrow> fmt_arg list \<Rightarrow> (string \<times> fmt_arg list) option" where
  "conv_text c args =
     (if c = CHR ''%'' then Some (''%'', args)
      else case args of
        [] \<Rightarrow> None
      | a # args \<Rightarrow>
          (if c = CHR ''d'' \<or> c = CHR ''i'' then
             (case a of Int_arg v \<Rightarrow> Some (ls_i64_dec (scast v), args) | _ \<Rightarrow> None)
           else if c = CHR ''u'' then
             (case a of Uint_arg v \<Rightarrow> Some (ls_u64_dec (ucast v), args) | _ \<Rightarrow> None)
           else if c = CHR ''s'' then
             (case a of Str_arg s \<Rightarrow> Some (case s of None \<Rightarrow> ''(null)'' | Some s \<Rightarrow> s, args) | _ \<Rightarrow> None)
           else
             (case a of Char_arg v \<Rightarrow> Some ([char_of (unat v mod 256)], args) | _ \<Rightarrow> None)))"

definition long_conv_text :: "char \<Rightarrow> fmt_arg list \<Rightarrow> (string \<times> fmt_arg list) option" where
  "long_conv_text k args =
     (case args of
        [] \<Rightarrow> None
      | a # args \<Rightarrow>
          (if k = CHR ''d''
           then (case a of LL_arg v \<Rightarrow> Some (ls_i64_dec v, args) | _ \<Rightarrow> None)
           else (case a of ULL_arg v \<Rightarrow> Some (ls_u64_dec v, args) | _ \<Rightarrow> None)))"

text \<open>The loop over the format; a run without \<open>%\<close> is put at once.\<close>

function ls_fast_loop :: "string \<Rightarrow> fmt_arg list \<Rightarrow> fmt_out \<Rightarrow> fmt_out option" where
  "ls_fast_loop p args out =
     (case p of
        [] \<Rightarrow> Some out
      | x # xs \<Rightarrow>
          if x \<noteq> CHR ''%'' then
            ls_fast_loop (dropWhile (\<lambda>c. c \<noteq> CHR ''%'') p) args
              (ls_fmt_put (takeWhile (\<lambda>c. c \<noteq> CHR ''%'') p) out)
          else
            (case xs of
               [] \<Rightarrow> None
             | c # ys \<Rightarrow>
                 if c \<in> {CHR ''%'', CHR ''d'', CHR ''i'', CHR ''u'', CHR ''s'', CHR ''c''} then
                   (case conv_text c args of
                      None \<Rightarrow> None
                    | Some (t, args) \<Rightarrow> ls_fast_loop ys args (ls_fmt_put t out))
                 else
                   (case ys of
                      l # k # zs \<Rightarrow>
                        (case long_conv_text k args of
                           None \<Rightarrow> None
                         | Some (t, args) \<Rightarrow> ls_fast_loop zs args (ls_fmt_put t out))
                    | _ \<Rightarrow> None)))"
  by pat_completeness auto
termination
  by (relation "measure (\<lambda>(p, args, out). length p)")
    (auto simp: le_imp_less_Suc length_dropWhile_le)

declare ls_fast_loop.simps [simp del]

text \<open>
  The buffer after the call and the value returned: the total, a \<open>size_t\<close>, is converted to \<open>int\<close>,
  which keeps its low 32 bits.
\<close>

definition int_of_size :: "nat \<Rightarrow> int" where
  "int_of_size n = sint (of_nat n :: 32 word)"

definition ls_fast_vformat :: "string \<Rightarrow> string \<Rightarrow> fmt_arg list \<Rightarrow> (string \<times> int) option" where
  "ls_fast_vformat buf fmt args = do {
     (buf, tot) \<leftarrow> ls_fast_loop fmt args (buf, 0);
     Some (if length buf > 0
           then buf[(if tot < length buf then tot else length buf - 1) := NUL] else buf, int_of_size tot) }"

text \<open>\<open>vsn\<close> is the C library's \<open>vsnprintf\<close>.\<close>

definition fstr_format ::
    "(string \<Rightarrow> string \<Rightarrow> fmt_arg list \<Rightarrow> (string \<times> int) option)
      \<Rightarrow> string \<Rightarrow> string \<Rightarrow> fmt_arg list \<Rightarrow> (string \<times> int) option" where
  "fstr_format vsn buf fmt args =
     (if ls_fmt_is_simple fmt then ls_fast_vformat buf fmt args else vsn buf fmt args)"

section \<open>Hashing and loads\<close>

definition FX_SEED :: "64 word" where
  "FX_SEED = 0x517cc1b727220a95"

definition fx_step :: "64 word \<Rightarrow> char \<Rightarrow> 64 word" where
  "fx_step h b =
     (let x = h XOR of_nat (ccode b); r = push_bit 5 x OR drop_bit 59 x in r * FX_SEED)"

definition fxhash_bytes :: "string \<Rightarrow> 64 word" where
  "fxhash_bytes data = foldl fx_step 0 data"

definition byte_at :: "string \<Rightarrow> nat \<Rightarrow> 64 word" where
  "byte_at p off = of_nat (ccode (p ! off))"

definition load_u8 :: "string \<Rightarrow> nat \<Rightarrow> 64 word" where
  "load_u8 p off = byte_at p off"

definition load_be_u16 :: "string \<Rightarrow> nat \<Rightarrow> 64 word" where
  "load_be_u16 p off = push_bit 8 (byte_at p off) OR byte_at p (off + 1)"

definition load_be_u32 :: "string \<Rightarrow> nat \<Rightarrow> 64 word" where
  "load_be_u32 p off =
     push_bit 24 (byte_at p off) OR push_bit 16 (byte_at p (off + 1)) OR
     push_bit 8 (byte_at p (off + 2)) OR byte_at p (off + 3)"

definition load_be_u64 :: "string \<Rightarrow> nat \<Rightarrow> 64 word" where
  "load_be_u64 p off =
     push_bit 56 (byte_at p off) OR push_bit 48 (byte_at p (off + 1)) OR
     push_bit 40 (byte_at p (off + 2)) OR push_bit 32 (byte_at p (off + 3)) OR
     push_bit 24 (byte_at p (off + 4)) OR push_bit 16 (byte_at p (off + 5)) OR
     push_bit 8 (byte_at p (off + 6)) OR byte_at p (off + 7)"

definition load_le_u16 :: "string \<Rightarrow> nat \<Rightarrow> 64 word" where
  "load_le_u16 p off = byte_at p off OR push_bit 8 (byte_at p (off + 1))"

definition load_le_u32 :: "string \<Rightarrow> nat \<Rightarrow> 64 word" where
  "load_le_u32 p off =
     byte_at p off OR push_bit 8 (byte_at p (off + 1)) OR
     push_bit 16 (byte_at p (off + 2)) OR push_bit 24 (byte_at p (off + 3))"

definition load_le_u64 :: "string \<Rightarrow> nat \<Rightarrow> 64 word" where
  "load_le_u64 p off =
     byte_at p off OR push_bit 8 (byte_at p (off + 1)) OR
     push_bit 16 (byte_at p (off + 2)) OR push_bit 24 (byte_at p (off + 3)) OR
     push_bit 32 (byte_at p (off + 4)) OR push_bit 40 (byte_at p (off + 5)) OR
     push_bit 48 (byte_at p (off + 6)) OR push_bit 56 (byte_at p (off + 7))"

section \<open>Reading a line\<close>

record readline_state =
  rl_buf :: "string option"
  rl_ok :: bool
  rl_cap :: nat

text \<open>
  The loop on the rest of standard input; \<open>acc\<close> are the bytes stored so far and \<open>c\<close> the size
  of the buffer.  The result is the buffer's bytes, its size, whether a newline ended the line,
  and the input left.
\<close>

fun readline_loop :: "string \<Rightarrow> string \<Rightarrow> nat \<Rightarrow> (string \<times> nat \<times> bool \<times> string) option" where
  "readline_loop [] acc c = Some (acc, c, False, [])"
| "readline_loop (x # xs) acc c =
     (if ccode x = 10 then Some (acc, c, True, xs)
      else
        (let c = (if length acc + 1 \<ge> c then c * 2 else c)
         in if length acc < c then readline_loop xs (acc @ [x]) c else None))"

text \<open>\<open>buf[pos]\<close> holds the terminating NUL, so it must lie inside the buffer.\<close>

definition readline_exec :: "string \<Rightarrow> (readline_state \<times> string) option" where
  "readline_exec inp = do {
     (acc, c, nl, rest) \<leftarrow> readline_loop inp [] 256;
     if \<not> nl \<and> acc = [] then Some (\<lparr>rl_buf = None, rl_ok = False, rl_cap = 0\<rparr>, rest)
     else if length acc < c then Some (\<lparr>rl_buf = Some acc, rl_ok = True, rl_cap = c\<rparr>, rest)
     else None }"

definition readline_take :: "readline_state \<Rightarrow> string option \<times> readline_state" where
  "readline_take s = (rl_buf s, s\<lparr>rl_buf := None, rl_ok := False\<rparr>)"

section \<open>Redirecting print\<close>

text \<open>Files are numbers; \<open>closed\<close> lists the files closed, newest first.\<close>

record sink_state =
  sink_stream :: "nat option"
  sink_owned :: "nat option"
  closed :: "nat list"

definition sink_set :: "nat option \<Rightarrow> bool \<Rightarrow> sink_state \<Rightarrow> sink_state" where
  "sink_set fp owned s =
     (let s = (case sink_owned s of
                 Some f \<Rightarrow> if Some f \<noteq> fp then s\<lparr>closed := f # closed s\<rparr> else s
               | None \<Rightarrow> s)
      in s\<lparr>sink_stream := fp, sink_owned := (if owned then fp else None)\<rparr>)"

section \<open>The search finds the first occurrence\<close>

definition occurs_at :: "string \<Rightarrow> string \<Rightarrow> nat \<Rightarrow> bool" where
  "occurs_at hay needle i \<longleftrightarrow>
     i + length needle \<le> length hay \<and> take (length needle) (drop i hay) = needle"

definition first_occurrence :: "string \<Rightarrow> string \<Rightarrow> nat \<Rightarrow> int" where
  "first_occurrence hay needle s =
     (case filter (occurs_at hay needle) [s..<length hay + 1] of [] \<Rightarrow> - 1 | i # rest \<Rightarrow> int i)"

definition is_first :: "string \<Rightarrow> string \<Rightarrow> nat \<Rightarrow> int \<Rightarrow> bool" where
  "is_first hay needle s r \<longleftrightarrow>
     r = - 1 \<and> (\<forall>k \<ge> s. \<not> occurs_at hay needle k) \<or>
     (\<exists>j \<ge> s. r = int j \<and> occurs_at hay needle j \<and> (\<forall>k. s \<le> k \<and> k < j \<longrightarrow> \<not> occurs_at hay needle k))"

lemma occurs_at_bound: "occurs_at hay needle i \<Longrightarrow> i \<le> length hay"
  by (simp add: occurs_at_def)

lemma is_first_unique: "is_first hay needle s r \<Longrightarrow> is_first hay needle s r' \<Longrightarrow> r = r'"
  unfolding is_first_def by (elim disjE exE conjE) (simp, blast, blast, metis linorder_neqE_nat)

lemma is_first_first_occurrence: "is_first hay needle s (first_occurrence hay needle s)"
proof (cases "filter (occurs_at hay needle) [s..<length hay + 1]")
  case Nil
  then have "\<not> occurs_at hay needle k" if "s \<le> k" for k
    using that occurs_at_bound [of hay needle k] by (auto simp: filter_empty_conv)
  then show ?thesis using Nil by (simp add: is_first_def first_occurrence_def)
next
  case (Cons i rest)
  then obtain us vs where f: "[s..<length hay + 1] = us @ i # vs"
    "\<forall>u \<in> set us. \<not> occurs_at hay needle u" "occurs_at hay needle i"
    by (auto simp: filter_eq_Cons_iff)
  have sorted: "sorted_wrt (<) (us @ i # vs)" using f(1) by (metis sorted_wrt_upt)
  have "set (us @ i # vs) = {s..<length hay + 1}" by (metis f(1) set_upt)
  then have s: "s \<le> i" and mem: "\<And>k. s \<le> k \<Longrightarrow> k < i \<Longrightarrow> k \<in> set (us @ i # vs)"
    using occurs_at_bound [OF f(3)] by auto
  have "\<not> occurs_at hay needle k" if "s \<le> k" "k < i" for k
  proof -
    have "k \<notin> set vs" "k \<noteq> i" using sorted that by (auto simp: sorted_wrt_append)
    with mem [OF that] f(2) show ?thesis by auto
  qed
  with s f(3) Cons show ?thesis by (auto simp: is_first_def first_occurrence_def)
qed

lemma is_first_eq: "is_first hay needle s r \<Longrightarrow> r = first_occurrence hay needle s"
  by (rule is_first_unique [OF _ is_first_first_occurrence])

lemma occurs_at_single:
  assumes "length needle = 1"
  shows "occurs_at hay needle k \<longleftrightarrow> k < length hay \<and> hay ! k = needle ! 0"
proof (cases "k < length hay")
  case True
  then have "take 1 (drop k hay) = [hay ! k]" by (simp add: take_Suc hd_drop_conv_nth)
  moreover obtain a where "needle = [a]" using assms by (cases needle) auto
  ultimately show ?thesis using True by (simp add: occurs_at_def)
qed (use assms in \<open>simp add: occurs_at_def\<close>)

lemma memchr_some: "i + n \<le> length hay \<Longrightarrow> \<exists>p. memchr hay i c n = Some p"
  by (simp add: memchr_def Let_def)

lemma memchr_none:
  assumes "memchr hay i c n = Some None" "i \<le> k" "k < i + n"
  shows "hay ! k \<noteq> c"
proof -
  let ?w = "take n (drop i hay)"
  from assms(1) have len: "i + n \<le> length hay" and w: "length (takeWhile (\<lambda>x. x \<noteq> c) ?w) \<ge> n"
    by (auto simp: memchr_def Let_def split: if_splits)
  have "length ?w = n" using len by simp
  with w have "takeWhile (\<lambda>x. x \<noteq> c) ?w = ?w"
    by (metis length_takeWhile_le le_antisym takeWhile_eq_take take_all_iff)
  then have "\<forall>x \<in> set ?w. x \<noteq> c" by (metis set_takeWhileD)
  moreover have "?w ! (k - i) = hay ! k" using assms(2,3) len by simp
  moreover have "k - i < length ?w" using assms(2,3) len by simp
  ultimately show ?thesis by (metis nth_mem)
qed

lemma memchr_found:
  assumes "memchr hay i c n = Some (Some j)"
  shows "i \<le> j" "j < i + n" "hay ! j = c" "i + n \<le> length hay"
    "\<And>k. i \<le> k \<Longrightarrow> k < j \<Longrightarrow> hay ! k \<noteq> c"
proof -
  let ?w = "take n (drop i hay)" and ?t = "takeWhile (\<lambda>x. x \<noteq> c) (take n (drop i hay))"
  from assms show len: "i + n \<le> length hay" and "i \<le> j" "j < i + n"
    by (auto simp: memchr_def Let_def split: if_splits)
  from assms have j: "j = i + length ?t" and lt: "length ?t < length ?w"
    using len by (auto simp: memchr_def Let_def split: if_splits)
  have "?w ! length ?t = c" using nth_length_takeWhile [OF lt] by simp
  moreover have "?w ! length ?t = hay ! j" using lt len by (simp add: j)
  ultimately show "hay ! j = c" by simp
  show "hay ! k \<noteq> c" if "i \<le> k" "k < j" for k
  proof -
    have lt': "k - i < length ?t" using that j by simp
    have "?t ! (k - i) \<in> set ?t" using lt' by (rule nth_mem)
    then have "?t ! (k - i) \<noteq> c" by (rule set_takeWhileD [THEN conjunct2])
    moreover have "?t ! (k - i) = ?w ! (k - i)" using lt' by (rule takeWhile_nth)
    moreover have "?w ! (k - i) = hay ! k" using that lt len lt' by simp
    ultimately show ?thesis by simp
  qed
qed

lemma occurs_at_nth:
  "occurs_at hay needle i \<Longrightarrow> j < length needle \<Longrightarrow> hay ! (i + j) = needle ! j"
  by (metis occurs_at_def add_leD1 nth_drop nth_take)

lemma memeq_occurs:
  assumes "needle \<noteq> []" "hay ! i = needle ! 0" "i + length needle \<le> length hay"
  shows "memeq hay (i + 1) needle 1 (length needle - 1) = Some (occurs_at hay needle i)"
proof -
  obtain a ns where n: "needle = a # ns" using assms(1) by (cases needle) auto
  have "i < length hay" "hay ! i = a" using assms n by auto
  then have d: "drop i hay = a # drop (Suc i) hay" by (metis Cons_nth_drop_Suc)
  show ?thesis using assms by (simp add: memeq_def occurs_at_def n d)
qed

text \<open>One round of either loop: no occurrence before the candidate that \<open>memchr\<close> locates.\<close>

lemma candidate:
  assumes "memchr hay i (needle ! 0) (lst - i + 1) = Some p" "needle \<noteq> []" "i \<le> lst"
    and "lst = length hay - length needle" "length needle \<le> length hay"
  shows "p = None \<Longrightarrow> is_first hay needle i (- 1)"
    and "p = Some j \<Longrightarrow> i \<le> j \<and> j \<le> lst \<and> hay ! j = needle ! 0 \<and> j + length needle \<le> length hay
           \<and> (\<forall>k. i \<le> k \<and> k < j \<longrightarrow> \<not> occurs_at hay needle k)"
proof -
  have bound: "k \<le> lst" "hay ! k = needle ! 0" if "occurs_at hay needle k" for k
  proof -
    have "k + length needle \<le> length hay" using that by (simp add: occurs_at_def)
    then show "k \<le> lst" using assms(4) by arith
    show "hay ! k = needle ! 0" using occurs_at_nth [OF that, of 0] assms(2) by simp
  qed
  show "is_first hay needle i (- 1)" if "p = None"
  proof -
    have "\<not> occurs_at hay needle k" if "i \<le> k" for k
      using memchr_none [of hay i "needle ! 0" "lst - i + 1" k] assms(1) \<open>p = None\<close> bound that
      by fastforce
    then show ?thesis by (simp add: is_first_def)
  qed
  show "p = Some j \<Longrightarrow> i \<le> j \<and> j \<le> lst \<and> hay ! j = needle ! 0 \<and> j + length needle \<le> length hay
           \<and> (\<forall>k. i \<le> k \<and> k < j \<longrightarrow> \<not> occurs_at hay needle k)"
    using memchr_found [of hay i "needle ! 0" "lst - i + 1" j] assms bound by auto
qed

lemma is_first_skip:
  "is_first hay needle i' r \<Longrightarrow> i \<le> i' \<Longrightarrow> (\<And>k. i \<le> k \<Longrightarrow> k < i' \<Longrightarrow> \<not> occurs_at hay needle k) \<Longrightarrow>
   is_first hay needle i r"
  unfolding is_first_def by (metis le_trans not_le)

lemma is_first_past: "lst = length hay - length needle \<Longrightarrow> needle \<noteq> [] \<Longrightarrow> lst < i \<Longrightarrow>
   is_first hay needle i (- 1)"
  by (auto simp: is_first_def occurs_at_def)

lemma is_first_here:
  "occurs_at hay needle j \<Longrightarrow> i \<le> j \<Longrightarrow> (\<forall>k. i \<le> k \<and> k < j \<longrightarrow> \<not> occurs_at hay needle k) \<Longrightarrow>
   is_first hay needle i (int j)"
  by (auto simp: is_first_def)

lemma find_short_first:
  assumes "needle \<noteq> []" "length needle \<le> length hay" "lst = length hay - length needle"
  shows "\<exists>r. find_short hay needle lst i = Some r \<and> is_first hay needle i r"
proof (induction "lst + 1 - i" arbitrary: i rule: less_induct)
  case less
  show ?case
  proof (cases "i \<le> lst")
    case False
    then show ?thesis
      using is_first_past [OF assms(3,1), of i] by (subst find_short.simps) simp
  next
    case True
    then have "i + (lst - i + 1) \<le> length hay" using assms by (cases needle) auto
    then obtain p where p: "memchr hay i (needle ! 0) (lst - i + 1) = Some p"
      using memchr_some by blast
    note c = candidate [OF p assms(1) True assms(3,2)]
    show ?thesis
    proof (cases p)
      case None
      with c(1) p True show ?thesis by (subst find_short.simps) simp
    next
      case (Some j)
      note cj = c(2) [OF Some]
      have m: "memeq hay (j + 1) needle 1 (length needle - 1) = Some (occurs_at hay needle j)"
        using cj assms(1) by (intro memeq_occurs) auto
      show ?thesis
      proof (cases "occurs_at hay needle j")
        case True
        then have "is_first hay needle i (int j)" using cj by (intro is_first_here) auto
        then show ?thesis using True p Some m \<open>i \<le> lst\<close> by (subst find_short.simps) simp
      next
        case False
        have "lst + 1 - (j + 1) < lst + 1 - i" using cj \<open>i \<le> lst\<close> by arith
        then obtain r where r: "find_short hay needle lst (j + 1) = Some r" "is_first hay needle (j + 1) r"
          using less.hyps [of "j + 1"] by blast
        have "is_first hay needle i r"
          by (rule is_first_skip [OF r(2)]) (use cj False in \<open>auto simp: less_Suc_eq\<close>)
        then show ?thesis using False p Some m r(1) \<open>i \<le> lst\<close> by (subst find_short.simps) simp
      qed
    qed
  qed
qed

lemma sunday_table_props:
  assumes "c < 256"
  shows "0 < sunday_table needle ! c" "sunday_table needle ! c \<le> length needle + 1"
    "j < length needle \<Longrightarrow> ccode (needle ! j) = c \<Longrightarrow> sunday_table needle ! c \<le> length needle - j"
proof -
  let ?T = "\<lambda>m. fold (\<lambda>k qs. qs[ccode (needle ! k) := length needle - k]) [0..<m]
       (replicate 256 (length needle + 1))"
  have "length (?T m) = 256 \<and> (\<forall>c < 256. 0 < ?T m ! c \<and> ?T m ! c \<le> length needle + 1
      \<and> (\<forall>j < m. ccode (needle ! j) = c \<longrightarrow> ?T m ! c \<le> length needle - j))" if "m \<le> length needle" for m
    using that by (induction m) (auto simp: nth_list_update less_Suc_eq)
  from this [of "length needle"] assms show "0 < sunday_table needle ! c" "sunday_table needle ! c \<le> length needle + 1"
    "j < length needle \<Longrightarrow> ccode (needle ! j) = c \<Longrightarrow> sunday_table needle ! c \<le> length needle - j"
    by (auto simp: sunday_table_def)
qed

text \<open>The Sunday shift skips no occurrence.\<close>

lemma sunday_skip:
  assumes "\<not> occurs_at hay needle i" "i + length needle < length hay"
    and "i \<le> k" "k < i + sunday_table needle ! ccode (hay ! (i + length needle))"
  shows "\<not> occurs_at hay needle k"
proof
  let ?c = "ccode (hay ! (i + length needle))"
  assume k: "occurs_at hay needle k"
  then have ne: "i < k" using assms(1,3) by (cases "k = i") auto
  show False
  proof (cases "k \<le> i + length needle")
    case True
    let ?j = "i + length needle - k"
    have j: "?j < length needle" using ne assms(2) True by (cases needle) (auto simp: sunday_table_def)
    have "hay ! (k + ?j) = needle ! ?j" by (rule occurs_at_nth [OF k j])
    moreover have "k + ?j = i + length needle" using True by simp
    ultimately have "ccode (needle ! ?j) = ?c" by simp
    from sunday_table_props(3) [OF ccode_less j this] have "sunday_table needle ! ?c \<le> length needle - ?j"
      by simp
    with assms(4) ne True show False by simp
  next
    case False
    with sunday_table_props(2) [OF ccode_less, of needle "hay ! (i + length needle)"] assms(4)
    show False by simp
  qed
qed

lemma find_long_first:
  assumes "needle \<noteq> []" "length needle \<le> length hay" "lst = length hay - length needle"
  shows "\<exists>r. find_long (sunday_table needle) hay needle lst i = Some r \<and> is_first hay needle i r"
proof (induction "lst + 1 - i" arbitrary: i rule: less_induct)
  case less
  show ?case
  proof (cases "i \<le> lst")
    case False
    then show ?thesis
      using is_first_past [OF assms(3,1), of i] by (subst find_long.simps) simp
  next
    case True
    then have "i + (lst - i + 1) \<le> length hay" using assms by (cases needle) auto
    then obtain p where p: "memchr hay i (needle ! 0) (lst - i + 1) = Some p"
      using memchr_some by blast
    note c = candidate [OF p assms(1) True assms(3,2)]
    show ?thesis
    proof (cases p)
      case None
      with c(1) p True show ?thesis by (subst find_long.simps) simp
    next
      case (Some j)
      note cj = c(2) [OF Some]
      have m: "memeq hay (j + 1) needle 1 (length needle - 1) = Some (occurs_at hay needle j)"
        using cj assms(1) by (intro memeq_occurs) auto
      consider "occurs_at hay needle j" | "\<not> occurs_at hay needle j" "j + length needle \<ge> length hay"
        | "\<not> occurs_at hay needle j" "j + length needle < length hay" by linarith
      then show ?thesis
      proof cases
        case 1
        then have "is_first hay needle i (int j)" using cj by (intro is_first_here) auto
        then show ?thesis using 1 p Some m \<open>i \<le> lst\<close> by (subst find_long.simps) simp
      next
        case 2
        have "is_first hay needle i (- 1)"
          by (rule is_first_skip [of _ _ "j + 1", OF is_first_past [OF assms(3,1)]])
            (use 2 cj assms in \<open>auto simp: less_Suc_eq\<close>)
        then show ?thesis using 2 p Some m \<open>i \<le> lst\<close> by (subst find_long.simps) simp
      next
        case 3
        let ?i = "j + sunday_table needle ! ccode (hay ! (j + length needle))"
        have lt: "j < ?i" using sunday_table_props(1) [OF ccode_less] by simp
        have "lst + 1 - ?i < lst + 1 - i" using cj lt \<open>i \<le> lst\<close> by arith
        then obtain r where r: "find_long (sunday_table needle) hay needle lst ?i = Some r"
          "is_first hay needle ?i r"
          using less.hyps [of ?i] by blast
        have "is_first hay needle i r"
          by (rule is_first_skip [OF r(2)])
            (use cj lt sunday_skip [OF 3] in \<open>auto, metis not_le\<close>)
        then show ?thesis using 3 p Some m r(1) \<open>i \<le> lst\<close> by (subst find_long.simps) simp
      qed
    qed
  qed
qed

lemma str_find_first:
  assumes "length hay < 2 ^ 31" "length needle = 1 \<Longrightarrow> hay \<noteq> [] \<Longrightarrow> start \<le> int (length hay)"
  shows "\<exists>r. str_find hay needle start = Some r \<and> is_first hay needle (nat start) r"
proof -
  let ?s = "if start < 0 then 0 else start"
  have s: "nat ?s = nat start" "0 \<le> ?s" by auto
  consider "needle = []" | "length needle > length hay" | "length needle = 1" "hay \<noteq> []"
    | "1 < length needle" "length needle \<le> length hay"
    by (metis One_nat_def Suc_lessI length_0_conv length_greater_0_conv not_less)
  then show ?thesis
  proof cases
    case 1
    have occ: "occurs_at hay [] k \<longleftrightarrow> k \<le> length hay" for k by (simp add: occurs_at_def)
    show ?thesis
      using 1 by (cases "start < 0"; cases "start \<le> int (length hay)")
        (auto simp: str_find_def Let_def is_first_def occ)
  next
    case 2
    then have "is_first hay needle (nat start) (- 1)" by (auto simp: is_first_def occurs_at_def)
    with 2 show ?thesis by (auto simp: str_find_def Let_def)
  next
    case 3
    let ?n = "nat ((int (length hay) - ?s) mod 2 ^ 64)"
    from 3 assms have sl: "?s \<le> int (length hay)" by auto
    moreover have "int (length hay) < 2 ^ 64" using assms(1) by simp
    ultimately have n: "?n = length hay - nat start" using s by (auto simp: mod_pos_pos_trivial)
    have len: "nat start + ?n = length hay" using sl s n by (cases "start < 0") auto
    then obtain p where p: "memchr hay (nat start) (needle ! 0) ?n = Some p"
      using memchr_some [of "nat start" ?n] by auto
    note occ = occurs_at_single [OF 3(1), of hay]
    have "is_first hay needle (nat start) (case p of None \<Rightarrow> - 1 | Some i \<Rightarrow> int i)"
    proof (cases p)
      case None
      with p len memchr_none [of hay "nat start" "needle ! 0" ?n] show ?thesis
        by (auto simp: is_first_def occ)
    next
      case (Some j)
      with p memchr_found [of hay "nat start" "needle ! 0" ?n j] len show ?thesis
        by (auto simp: is_first_def occ)
    qed
    moreover have "str_find hay needle start = Some (case p of None \<Rightarrow> - 1 | Some i \<Rightarrow> int i)"
      using 3 p s by (cases hay) (auto simp: str_find_def Let_def)
    ultimately show ?thesis by blast
  next
    case 4
    then show ?thesis
      using find_short_first [of needle hay _ "nat start"] find_long_first [of needle hay _ "nat start"]
      by (auto simp: str_find_def Let_def)
  qed
qed

section \<open>The decimal printers\<close>

lemma char_of_48: "char_of (48::nat) = CHR ''0''"
  by code_simp

lemma u64_digits_0 [simp]: "u64_digits 0 = []"
  by (simp add: u64_digits.simps [of 0])

lemma u64_digits_dec: "v \<noteq> 0 \<Longrightarrow> rev (u64_digits v) = dec_nat (unat v)"
proof (induction v rule: u64_digits.induct)
  case (1 v)
  have d: "unat (v div 10) = unat v div 10" "unat (v mod 10) = unat v mod 10"
    by (simp_all add: unat_div unat_mod)
  have z: "v div 10 = 0 \<longleftrightarrow> unat v < 10"
    by (metis d(1) div_less less_numeral_extra(3) div_eq_0_iff unat_eq_zero zero_less_numeral)
  show ?case
  proof (cases "v div 10 = 0")
    case True
    then have "u64_digits v = [char_of (48 + unat v)]"
      using "1.prems" z d(2) by (simp add: u64_digits.simps [of v] u64_digits.simps [of "v div 10"])
    then show ?thesis using True z by (simp add: dec_nat.simps [of "unat v"])
  next
    case False
    then have "rev (u64_digits (v div 10)) = dec_nat (unat v div 10)"
      using 1 d(1) by simp
    then show ?thesis using False z "1.prems" d(2)
      by (simp add: u64_digits.simps [of v] dec_nat.simps [of "unat v"])
  qed
qed

lemma ls_u64_dec_spec: "ls_u64_dec v = dec_nat (unat v)"
  by (simp add: ls_u64_dec_def u64_digits_dec dec_nat.simps [of 0] char_of_48)

lemma uint_minus_sint: "sint (v::64 word) < 0 \<Longrightarrow> uint (- v) = - sint v"
proof -
  assume "sint v < 0"
  moreover have "- (2 ^ 63) \<le> sint v" using sint_greater_eq [of v] by simp
  moreover have "- v = word_of_int (- sint v)" by simp
  then have "uint (- v) = uint (word_of_int (- sint v) :: 64 word)" by (simp only:)
  then have "uint (- v) = (- sint v) mod 2 ^ 64" by (simp only: uint_word_of_int) simp
  ultimately show ?thesis by (simp add: mod_pos_pos_trivial)
qed

lemma uint_sint_nonneg: "0 \<le> sint (v::64 word) \<Longrightarrow> uint v = sint v"
proof -
  assume "0 \<le> sint v"
  moreover have "sint v < 2 ^ 63" using sint_less [of v] by simp
  moreover have "v = word_of_int (sint v)" by simp
  then have "uint v = uint (word_of_int (sint v) :: 64 word)" by (simp only:)
  then have "uint v = sint v mod 2 ^ 64" by (simp only: uint_word_of_int) simp
  ultimately show ?thesis by (simp add: mod_pos_pos_trivial)
qed

lemma ls_i64_dec_spec: "ls_i64_dec v = dec_int (sint v)"
proof (cases "sint v < 0")
  case True
  have "- (v + 1) + 1 = - v" by simp
  moreover have "unat (- v) = nat (- sint v)"
    using uint_minus_sint [OF True] by (simp add: unat_eq_nat_uint)
  ultimately show ?thesis using True
    by (simp add: ls_i64_dec_def word_sless_alt ls_u64_dec_spec dec_int_def)
next
  case False
  then have "unat v = nat (sint v)" using uint_sint_nonneg [of v] by (simp add: unat_eq_nat_uint)
  with False show ?thesis
    by (simp add: ls_i64_dec_def word_sless_alt ls_u64_dec_spec dec_int_def)
qed

section \<open>The formatter's output\<close>

text \<open>What the format asks for, given arguments of the matching types.\<close>

fun render :: "string \<Rightarrow> fmt_arg list \<Rightarrow> string option" where
  "render [] args = Some []"
| "render (x # xs) args =
     (if x \<noteq> CHR ''%'' then map_option ((#) x) (render xs args)
      else case xs of
        [] \<Rightarrow> None
      | c # ys \<Rightarrow>
          if c = CHR ''%'' then map_option ((@) ''%'') (render ys args)
          else if c = CHR ''l'' then
            (case ys of
               l # k # zs \<Rightarrow>
                 (case args of
                    LL_arg v # as \<Rightarrow>
                      if k = CHR ''d'' then map_option ((@) (dec_int (sint v))) (render zs as) else None
                  | ULL_arg v # as \<Rightarrow>
                      if k = CHR ''u'' then map_option ((@) (dec_nat (unat v))) (render zs as) else None
                  | _ \<Rightarrow> None)
             | _ \<Rightarrow> None)
          else
            (case args of
               Int_arg v # as \<Rightarrow>
                 if c = CHR ''d'' \<or> c = CHR ''i''
                 then map_option ((@) (dec_int (sint v))) (render ys as) else None
             | Uint_arg v # as \<Rightarrow>
                 if c = CHR ''u'' then map_option ((@) (dec_nat (unat v))) (render ys as) else None
             | Str_arg s # as \<Rightarrow>
                 if c = CHR ''s''
                 then map_option ((@) (case s of None \<Rightarrow> ''(null)'' | Some t \<Rightarrow> t)) (render ys as) else None
             | Char_arg v # as \<Rightarrow>
                 if c = CHR ''c''
                 then map_option ((@) [char_of (unat v mod 256)]) (render ys as) else None
             | _ \<Rightarrow> None))"

text \<open>A buffer into which \<open>f\<close> has been put from the start, the last byte kept for the NUL.\<close>

definition put_text :: "string \<Rightarrow> string \<Rightarrow> string" where
  "put_text buf f = take (length buf - 1) f @ drop (min (length f) (length buf - 1)) buf"

lemma put_text_Nil [simp]: "put_text buf [] = buf"
  by (simp add: put_text_def)

lemma length_put_text [simp]: "length (put_text buf f) = length buf"
  by (auto simp: put_text_def)

lemma put_text_nth:
  "j < length buf \<Longrightarrow> put_text buf f ! j = (if j < length f \<and> j + 1 < length buf then f ! j else buf ! j)"
  by (auto simp: put_text_def nth_append min_def)

lemma ls_fmt_put_text:
  "ls_fmt_put src (put_text buf f, length f) = (put_text buf (f @ src), length (f @ src))"
proof -
  let ?F = "\<lambda>m. fold (\<lambda>i buf. if length f + i + 1 < length buf then buf[length f + i := src ! i] else buf)
        [0..<m] (put_text buf f)"
  have "length (?F m) = length buf \<and> (\<forall>j < length buf. ?F m ! j =
      (if length f \<le> j \<and> j < length f + m \<and> j + 1 < length buf then src ! (j - length f)
       else put_text buf f ! j))" if "m \<le> length src" for m
    using that by (induction m) (auto simp: nth_list_update)
  from this [of "length src"] have "?F (length src) = put_text buf (f @ src)"
    by (intro nth_equalityI) (auto simp: put_text_nth nth_append)
  then show ?thesis by simp
qed

lemma render_run:
  "(\<forall>c \<in> set w. c \<noteq> CHR ''%'') \<Longrightarrow> render (w @ p) args = map_option ((@) w) (render p args)"
proof (induction w)
  case Nil
  show ?case by (cases "render p args") simp_all
next
  case (Cons a w)
  then have "a \<noteq> CHR ''%''" "render (w @ p) args = map_option ((@) w) (render p args)" by simp_all
  then show ?case by (cases "render p args") simp_all
qed

lemma is_simple_run:
  "(\<forall>c \<in> set w. c \<noteq> CHR ''%'') \<Longrightarrow> ls_fmt_is_simple (w @ p) = ls_fmt_is_simple p"
proof (induction w)
  case (Cons a w)
  then have "a \<noteq> CHR ''%''" "ls_fmt_is_simple (w @ p) = ls_fmt_is_simple p" by simp_all
  then show ?case by simp
qed simp

lemma sint_scast32: "sint (scast (v::32 word) :: 64 word) = sint v"
  by (rule sint_up_scast) (simp add: is_up)

lemma unat_ucast32: "unat (ucast (v::32 word) :: 64 word) = unat v"
proof -
  have "uint (ucast v :: 64 word) = uint v" by (rule uint_up_ucast) (simp add: is_up)
  then show ?thesis by (simp only: unat_eq_nat_uint)
qed

lemma ls_fast_loop_render:
  "ls_fmt_is_simple p \<Longrightarrow> render p args = Some g \<Longrightarrow>
   ls_fast_loop p args (put_text buf f, length f) = Some (put_text buf (f @ g), length (f @ g))"
proof (induction "length p" arbitrary: p args f g rule: less_induct)
  case less
  have IH: "ls_fast_loop q as (ls_fmt_put src (put_text buf f, length f))
      = Some (put_text buf (f @ src @ g'), length (f @ src @ g'))"
    if "length q < length p" "ls_fmt_is_simple q" "render q as = Some g'" for q as src g'
    using less.hyps [of q as g' "f @ src"] that by (simp add: ls_fmt_put_text del: ls_fmt_put.simps)
  show ?case
  proof (cases p)
    case Nil
    with less.prems show ?thesis by (simp add: ls_fast_loop.simps [of "[]"])
  next
    case (Cons x xs)
    show ?thesis
    proof (cases "x = CHR ''%''")
      case False
      let ?w = "takeWhile (\<lambda>c. c \<noteq> CHR ''%'') p" and ?q = "dropWhile (\<lambda>c. c \<noteq> CHR ''%'') p"
      have w: "\<forall>c \<in> set ?w. c \<noteq> CHR ''%''" by (auto dest: set_takeWhileD)
      have "length ?q < length p" using False Cons by (simp add: le_imp_less_Suc length_dropWhile_le)
      moreover have "ls_fmt_is_simple ?q"
        using is_simple_run [OF w, of ?q] less.prems(1) by simp
      moreover obtain g' where "render ?q args = Some g'" "g = ?w @ g'"
        using render_run [OF w, of ?q args] less.prems(2) by (cases "render ?q args") auto
      ultimately show ?thesis using IH [of ?q args g' ?w] False
        by (simp add: ls_fast_loop.simps [of "x # xs"] Cons del: ls_fmt_put.simps)
    next
      case True
      then obtain c ys where xs: "xs = c # ys" using less.prems(1) Cons by (cases xs) auto
      show ?thesis
      proof (cases "c = CHR ''l''")
        case False
        then have simple: "ls_fmt_is_simple ys" "c \<in> {CHR ''%'', CHR ''d'', CHR ''i'', CHR ''u'', CHR ''s'', CHR ''c''}"
          using less.prems(1) True by (auto simp: Cons xs split: if_splits)
        obtain src as g' where c: "conv_text c args = Some (src, as)" "render ys as = Some g'" "g = src @ g'"
          using less.prems(2) True False
          by (cases args; cases "hd args") (auto simp: Cons xs conv_text_def ls_i64_dec_spec ls_u64_dec_spec
            sint_scast32 unat_ucast32 split: if_splits)
        with IH [of ys as g' src] simple True show ?thesis
          by (simp add: ls_fast_loop.simps [of "CHR ''%'' # c # ys"] Cons xs del: ls_fmt_put.simps)
      next
        case l: True
        then obtain k zs where ys: "ys = CHR ''l'' # k # zs" "ls_fmt_is_simple zs"
          using less.prems(1) True by (auto simp: Cons xs split: list.splits if_splits)
        obtain src as g' where c: "long_conv_text k args = Some (src, as)" "render zs as = Some g'" "g = src @ g'"
          using less.prems(2) True l
          by (cases args; cases "hd args") (auto simp: Cons xs ys long_conv_text_def ls_i64_dec_spec
            ls_u64_dec_spec split: if_splits)
        with IH [of zs as g' src] ys True l show ?thesis
          by (simp add: ls_fast_loop.simps [of "CHR ''%'' # c # ys"] ls_fast_loop.simps [of "CHR ''%'' # CHR ''l'' # CHR ''l'' # k # zs"] Cons xs del: ls_fmt_put.simps)
      qed
    qed
  qed
qed

text \<open>The buffer after a call that produces \<open>f\<close>: a C string that is a prefix of \<open>f\<close>.\<close>

definition snprintf_buf :: "string \<Rightarrow> string \<Rightarrow> string" where
  "snprintf_buf buf f =
     (if buf = [] then [] else
        (let g = take (length buf - 1) f in g @ NUL # drop (length g + 1) buf))"

lemma int_of_size_small: "n < 2 ^ 31 \<Longrightarrow> int_of_size n = int n"
  by (simp add: int_of_size_def signed_of_nat signed_take_bit_int_eq_self)

lemma ls_fast_vformat_spec:
  assumes "ls_fmt_is_simple fmt" "render fmt args = Some f"
  shows "ls_fast_vformat buf fmt args = Some (snprintf_buf buf f, int_of_size (length f))"
proof -
  have "ls_fast_loop fmt args (buf, 0) = Some (put_text buf f, length f)"
    using ls_fast_loop_render [OF assms, of buf "[]"] by simp
  moreover have "(put_text buf f)[(if length f < length buf then length f else length buf - 1) := NUL]
      = snprintf_buf buf f" if "buf \<noteq> []"
    using that by (cases buf) (auto intro!: nth_equalityI
      simp: snprintf_buf_def Let_def put_text_nth nth_list_update nth_append min_def nth_Cons')
  moreover have "put_text buf f = [] \<longleftrightarrow> buf = []" "snprintf_buf [] f = []"
    by (auto simp: put_text_def snprintf_buf_def)
  ultimately show ?thesis by (cases "buf = []"; cases "length f < length buf") (simp_all add: ls_fast_vformat_def)
qed

section \<open>Hashing\<close>

lemma fx_step_inj_hash: "fx_step h b = fx_step h' b \<Longrightarrow> h = h'"
  and fx_step_inj_byte: "fx_step h b = fx_step h b' \<Longrightarrow> b = b'"
proof -
  have rot: "push_bit 5 x OR drop_bit 59 x = word_rotl 5 (x :: 64 word)" for x
  proof (rule bit_word_eqI)
    fix n assume n: "n < LENGTH(64)"
    show "bit (push_bit 5 x OR drop_bit 59 x) n \<longleftrightarrow> bit (word_rotl 5 x) n"
    proof (cases "n < 5")
      case True
      then have "(n + 59) mod 64 = n + 59" by simp
      moreover have "bit x (59 + n) = bit x (n + 59)" by (simp only: add.commute)
      ultimately show ?thesis using True
        by (simp add: bit_word_rotl_iff bit_or_iff bit_push_bit_iff bit_drop_bit_eq)
    next
      case False
      then have "(n + 59) mod 64 = n - 5" "\<not> bit x (59 + n)"
        using n by (simp_all add: le_mod_geq bit_imp_le_length [of x "59 + n"]) (auto dest: bit_imp_le_length)
      with False n show ?thesis
        by (simp add: bit_word_rotl_iff bit_or_iff bit_push_bit_iff bit_drop_bit_eq)
    qed
  qed
  have inj: "x = y" if "word_rotl 5 x * FX_SEED = word_rotl 5 y * FX_SEED" for x y :: "64 word"
  proof -
    have "FX_SEED * 2323857671730065597 = 1" by (simp add: FX_SEED_def)
    then have "z * FX_SEED * 2323857671730065597 = z" for z by (simp add: mult.assoc)
    with that have "word_rotl 5 x = word_rotl 5 y" by metis
    then show ?thesis by (metis word_rot_lr)
  qed
  have xor: "x = y" if "x XOR z = y XOR z" for x y z :: "64 word"
  proof -
    have "x = (x XOR z) XOR z" "y = (y XOR z) XOR z" by (simp_all add: xor.assoc)
    with that show ?thesis by simp
  qed
  have step: "fx_step h b = word_rotl 5 (h XOR of_nat (ccode b)) * FX_SEED" for h b
    by (simp only: fx_step_def Let_def rot)
  show "h = h'" if "fx_step h b = fx_step h' b"
    by (rule xor [OF inj]) (use that in \<open>simp only: step\<close>)
  assume "fx_step h b = fx_step h b'"
  then have "h XOR of_nat (ccode b) = h XOR of_nat (ccode b')"
    by (rule inj [OF trans [OF step [symmetric] trans [OF _ step]]])
  then have "(of_nat (ccode b) :: 64 word) XOR h = of_nat (ccode b') XOR h"
    unfolding xor.commute [of _ h] .
  then have "(of_nat (ccode b) :: 64 word) = of_nat (ccode b')" by (rule xor)
  then have "unat (of_nat (ccode b) :: 64 word) = unat (of_nat (ccode b') :: 64 word)" by simp
  moreover have "unat (of_nat (ccode c) :: 64 word) = ccode c" for c
  proof -
    have "ccode c < 2 ^ LENGTH(64)" by (rule less_le_trans [OF ccode_less]) simp
    then show ?thesis by (simp only: unat_of_nat mod_less)
  qed
  ultimately show "b = b'" by simp
qed

lemma fx_foldl_inj: "foldl fx_step h xs = foldl fx_step h' xs \<Longrightarrow> h = h'"
  by (induction xs arbitrary: h h') (auto dest: fx_step_inj_hash)

section \<open>Loads\<close>

lemma unat_byte_at: "unat (byte_at p i) = ccode (p ! i)"
  proof -
  have "ccode (p ! i) < 2 ^ LENGTH(64)" by (rule less_le_trans [OF ccode_less]) simp
  then show ?thesis unfolding byte_at_def by (simp only: unat_of_nat mod_less)
qed

lemma unat_push_or:
  fixes a b :: "64 word"
  assumes "unat a < 2 ^ (64 - n)" "unat b < 2 ^ n" "n \<le> 64"
  shows "unat (push_bit n a OR b) = unat a * 2 ^ n + unat b"
proof -
  have "(push_bit n a) AND b = 0"
  proof (rule bit_word_eqI)
    fix k
    have "\<not> bit b k" if "n \<le> k"
    proof -
      have "\<not> bit (unat b) k" using assms(2) that
        by (metis bit_take_bit_iff linorder_not_less take_bit_nat_eq_self)
      then show ?thesis by (simp add: bit_unsigned_iff) 
    qed
    then show "bit (push_bit n a AND b) k \<longleftrightarrow> bit (0::64 word) k"
      by (auto simp: bit_and_iff bit_push_bit_iff)
  qed
  then have "push_bit n a OR b = push_bit n a + b" by (simp only: disjunctive_add_eq_or)
  moreover have p: "unat a * 2 ^ n < 2 ^ 64"
  proof -
    have "unat a * 2 ^ n < 2 ^ (64 - n) * 2 ^ n" using assms(1) by simp
    also have "\<dots> = 2 ^ 64" using assms(3) by (simp flip: power_add)
    finally show ?thesis .
  qed
  have "unat (push_bit n a) = take_bit 64 (push_bit n (unat a))" by (simp add: unsigned_push_bit_eq)
  then have "unat (push_bit n a) = unat a * 2 ^ n"
    using p by (simp only: push_bit_eq_mult take_bit_nat_eq_self)
  moreover have "unat a * 2 ^ n + unat b < 2 ^ 64"
  proof -
    have "(unat a + 1) * 2 ^ n \<le> 2 ^ (64 - n) * 2 ^ n" using assms(1) by (intro mult_le_mono1) simp
    also have "\<dots> = 2 ^ 64" using assms(3) by (simp flip: power_add)
    finally show ?thesis using assms(2) by simp
  qed
  ultimately show ?thesis by (simp add: unat_word_ariths)
qed

text \<open>The number whose digits to base 256 are the bytes, most significant first.\<close>

definition be_value :: "string \<Rightarrow> nat" where
  "be_value bs = foldl (\<lambda>n b. n * 256 + ccode b) 0 bs"

lemma be_value_append: "be_value (xs @ ys) = be_value xs * 256 ^ length ys + be_value ys"
proof -
  have "foldl (\<lambda>n b. n * 256 + ccode b) x ys = x * 256 ^ length ys + be_value ys" for x
  proof (induction ys rule: rev_induct)
    case (snoc y ys)
    have "foldl (\<lambda>n b. n * 256 + ccode b) x (ys @ [y]) = (x * 256 ^ length ys + be_value ys) * 256 + ccode y"
      using snoc by simp
    moreover have "be_value (ys @ [y]) = be_value ys * 256 + ccode y" by (simp add: be_value_def)
    ultimately show ?case by (simp only: distrib_right length_append_singleton power_Suc2 mult.assoc add.assoc)
  qed (simp add: be_value_def)
  from this [of "be_value xs"] show ?thesis by (simp only: be_value_def foldl_append)
qed

lemma digit_bound: "k < 256 \<Longrightarrow> n * 256 + k < (n + 1) * (256::nat)"
  by simp

lemma be_value_less: "be_value xs < 256 ^ length xs"
proof (induction xs rule: rev_induct)
  case (snoc x xs)
  have "be_value xs * 256 + ccode x < (be_value xs + 1) * 256"
    by (rule digit_bound [OF ccode_less])
  also have "\<dots> \<le> 256 ^ length xs * 256" using snoc by (intro mult_le_mono1) simp
  finally show ?case by (simp add: be_value_append) (simp add: be_value_def)
qed (simp add: be_value_def)

text \<open>A word that holds the value of a byte string.\<close>

definition holds :: "64 word \<Rightarrow> string \<Rightarrow> bool" where
  "holds w bs \<longleftrightarrow> unat w = be_value bs"

lemma holds_byte: "holds (byte_at p i) [p ! i]"
  by (simp add: holds_def unat_byte_at be_value_def)

lemma holds_append:
  assumes "holds a xs" "holds b ys" "n = 8 * length ys" "n + 8 * length xs \<le> 64"
  shows "holds (push_bit n a OR b) (xs @ ys)"
proof -
  have p: "(256::nat) ^ k = 2 ^ (8 * k)" for k by (simp add: power_mult)
  have "(2::nat) ^ (8 * length xs) \<le> 2 ^ (64 - n)" using assms(4) by (intro power_increasing) auto
  with be_value_less [of xs] assms(1) have "unat a < 2 ^ (64 - n)"
    by (simp only: holds_def p)
  moreover have "unat b < 2 ^ n" using be_value_less [of ys] assms(2,3) by (simp only: holds_def p)
  ultimately show ?thesis
    using unat_push_or [of a n b] assms p [of "length ys"] by (simp add: holds_def be_value_append)
qed

lemma take_2: "off + 2 \<le> length p \<Longrightarrow> take 2 (drop off p) = [p ! off, p ! (off + 1)]"
  by (rule nth_equalityI) (auto simp: less_Suc_eq numeral_2_eq_2)

lemma take_4: "take 4 (drop off p) = take 2 (drop off p) @ take 2 (drop (off + 2) p)"
  using take_add [of 2 2 "drop off p"] by (simp add: drop_drop add.commute)

lemma take_8: "take 8 (drop off p) = take 4 (drop off p) @ take 4 (drop (off + 4) p)"
  using take_add [of 4 4 "drop off p"] by (simp add: drop_drop add.commute)

lemma load_be_split:
  "load_be_u32 p off = push_bit 16 (load_be_u16 p off) OR load_be_u16 p (off + 2)"
  "load_be_u64 p off = push_bit 32 (load_be_u32 p off) OR load_be_u32 p (off + 4)"
  unfolding load_be_u64_def load_be_u32_def load_be_u16_def
  by (simp_all only: push_bit_or push_bit_push_bit add.assoc or.assoc arith_simps numeral_plus_one)

lemma load_le_split:
  "load_le_u16 p off = push_bit 8 (byte_at p (off + 1)) OR byte_at p off"
  "load_le_u32 p off = push_bit 16 (load_le_u16 p (off + 2)) OR load_le_u16 p off"
  "load_le_u64 p off = push_bit 32 (load_le_u32 p (off + 4)) OR load_le_u32 p off"
proof -
  show "load_le_u16 p off = push_bit 8 (byte_at p (off + 1)) OR byte_at p off"
    unfolding load_le_u16_def by (rule or.commute)
  have "load_le_u32 p off = load_le_u16 p off OR push_bit 16 (load_le_u16 p (off + 2))"
    unfolding load_le_u32_def load_le_u16_def
    by (simp only: push_bit_or push_bit_push_bit add.assoc or.assoc arith_simps numeral_plus_one)
  then show "load_le_u32 p off = push_bit 16 (load_le_u16 p (off + 2)) OR load_le_u16 p off"
    by (simp only: or.commute)
  have "load_le_u64 p off = load_le_u32 p off OR push_bit 32 (load_le_u32 p (off + 4))"
    unfolding load_le_u64_def load_le_u32_def
    by (simp only: push_bit_or push_bit_push_bit add.assoc or.assoc arith_simps numeral_plus_one)
  then show "load_le_u64 p off = push_bit 32 (load_le_u32 p (off + 4)) OR load_le_u32 p off"
    by (simp only: or.commute)
qed

lemma load_be_holds:
  "off + 2 \<le> length p \<Longrightarrow> holds (load_be_u16 p off) (take 2 (drop off p))"
  "off + 4 \<le> length p \<Longrightarrow> holds (load_be_u32 p off) (take 4 (drop off p))"
  "off + 8 \<le> length p \<Longrightarrow> holds (load_be_u64 p off) (take 8 (drop off p))"
proof -
  show 2: "holds (load_be_u16 p off) (take 2 (drop off p))" if "off + 2 \<le> length p" for off
    using holds_append [OF holds_byte [of p off] holds_byte [of p "off + 1"], of 8] that
    by (simp only: load_be_u16_def take_2) simp
  show 4: "holds (load_be_u32 p off) (take 4 (drop off p))" if "off + 4 \<le> length p" for off
    unfolding load_be_split take_4 by (rule holds_append; (rule 2)?) (use that in simp_all)
  show "holds (load_be_u64 p off) (take 8 (drop off p))" if "off + 8 \<le> length p"
    unfolding load_be_split(2) take_8 by (rule holds_append; (rule 4)?) (use that in simp_all)
qed

lemma load_le_holds:
  "off + 2 \<le> length p \<Longrightarrow> holds (load_le_u16 p off) (rev (take 2 (drop off p)))"
  "off + 4 \<le> length p \<Longrightarrow> holds (load_le_u32 p off) (rev (take 4 (drop off p)))"
  "off + 8 \<le> length p \<Longrightarrow> holds (load_le_u64 p off) (rev (take 8 (drop off p)))"
proof -
  show 2: "holds (load_le_u16 p off) (rev (take 2 (drop off p)))" if "off + 2 \<le> length p" for off
    using holds_append [OF holds_byte [of p "off + 1"] holds_byte [of p off], of 8] that
    by (simp only: load_le_split(1) take_2) simp
  show 4: "holds (load_le_u32 p off) (rev (take 4 (drop off p)))" if "off + 4 \<le> length p" for off
    unfolding load_le_split(2) take_4 rev_append by (rule holds_append; (rule 2)?) (use that in simp_all)
  show "holds (load_le_u64 p off) (rev (take 8 (drop off p)))" if "off + 8 \<le> length p"
    unfolding load_le_split(3) take_8 rev_append by (rule holds_append; (rule 4)?) (use that in simp_all)
qed

section \<open>Reading a line\<close>

lemma readline_loop_line:
  "length acc < c \<Longrightarrow> \<exists>c'. readline_loop inp acc c =
     Some (acc @ takeWhile (\<lambda>x. ccode x \<noteq> 10) inp, c', \<exists>x \<in> set inp. ccode x = 10,
           drop 1 (dropWhile (\<lambda>x. ccode x \<noteq> 10) inp)) \<and>
     length (acc @ takeWhile (\<lambda>x. ccode x \<noteq> 10) inp) < c'"
proof (induction inp arbitrary: acc c)
  case (Cons x xs)
  show ?case
  proof (cases "ccode x = 10")
    case False
    let ?c = "if length acc + 1 \<ge> c then c * 2 else c"
    have c: "length acc < ?c" "length (acc @ [x]) < ?c" using Cons.prems by auto
    from Cons.IH [OF c(2)] c(1) False show ?thesis by (auto simp: Let_def)
  qed (use Cons.prems in auto)
qed auto

section \<open>Redirection\<close>

definition sink_run :: "(nat \<times> bool) list \<Rightarrow> sink_state" where
  "sink_run cs = fold (\<lambda>(f, b). sink_set (Some f) b) cs \<lparr>sink_stream = None, sink_owned = None, closed = []\<rparr>"

lemma sink_run_inv:
  assumes "distinct (map fst cs)"
  shows "distinct (closed (sink_run cs)) \<and>
    set (closed (sink_run cs)) \<union> set_option (sink_owned (sink_run cs)) = {f. (f, True) \<in> set cs} \<and>
    set_option (sink_owned (sink_run cs)) \<inter> set (closed (sink_run cs)) = {} \<and>
    sink_stream (sink_run cs) = (if cs = [] then None else Some (fst (last cs))) \<and>
    set_option (sink_stream (sink_run cs)) \<inter> set (closed (sink_run cs)) = {}"
  using assms
proof (induction cs rule: rev_induct)
  case Nil
  show ?case by (simp add: sink_run_def)
next
  case (snoc x cs)
  obtain f b where x: "x = (f, b)" by (cases x)
  have "sink_run (cs @ [x]) = sink_set (Some f) b (sink_run cs)" by (simp add: sink_run_def x)
  moreover have "f \<notin> fst ` set cs" using snoc.prems by (simp add: x)
  then have "(f, True) \<notin> set cs" by force
  ultimately show ?case using snoc
    by (cases "sink_owned (sink_run cs)") (auto simp: sink_set_def Let_def x split: if_splits)
qed

section \<open>The properties of the built-in functions\<close>

text \<open>A search for a single byte that starts past the end of a non-empty haystack is undefined:
  the length handed to \<open>memchr\<close> wraps around to almost the whole address space.\<close>

lemma str_find_past_end:
  assumes "hay \<noteq> []" "int (length hay) < start" "start < 2 ^ 31"
  shows "str_find hay [c] start = None"
proof -
  have "(int (length hay) - start) mod 2 ^ 64 = int (length hay) - start + 2 ^ 64"
  proof -
    have "(int (length hay) - start + 2 ^ 64) mod 2 ^ 64 = int (length hay) - start + 2 ^ 64"
      using assms by (intro mod_pos_pos_trivial) auto
    then show ?thesis by (simp only: mod_add_self2)
  qed
  then show ?thesis using assms by (auto simp: str_find_def Let_def memchr_def)
qed



text \<open>The exception at a concrete input.\<close>

theorem str_find_past_end_undefined: "str_find ''ab'' ''b'' 3 = None"
  by (rule str_find_past_end) simp_all

text \<open>C12: On a format with only plain conversions and arguments of the matching types, the fast
  formatter leaves in the buffer the longest prefix of the full rendering that fits, NUL-terminated,
  writes nothing outside the buffer, and returns the length of the rendering converted to \<open>int\<close>: that
  length itself below \<open>2 ^ 31\<close>, its low 32 bits read as a signed number beyond.  Integers are printed in
  full, the least 64-bit one included.\<close>

theorem fstr_format_fast_path:
  assumes "ls_fmt_is_simple fmt" "render fmt args = Some f"
  shows "\<exists>n. fstr_format vsn buf fmt args =
    Some (if buf = [] then []
          else take (length buf - 1) f @ NUL # drop (length (take (length buf - 1) f) + 1) buf, n) \<and>
    n = sint (of_nat (length f) :: 32 word) \<and> (length f < 2 ^ 31 \<longrightarrow> n = int (length f))"
  using assms ls_fast_vformat_spec [OF assms, of buf] int_of_size_small [of "length f"]
  by (simp add: fstr_format_def snprintf_buf_def Let_def int_of_size_def)

theorem fstr_format_fast_path_witness:
  "fstr_format (\<lambda>a b c. None) (replicate 4 CHR ''?'') ''%d!'' [Int_arg 7]
     = Some (''7!'' @ [NUL, CHR ''?''], 2)"
proof -
  have "dec_nat 7 = ''7''" by (subst dec_nat.simps) code_simp
  then have r: "render ''%d!'' [Int_arg 7] = Some ''7!''" by (simp add: dec_int_def)
  have s: "ls_fmt_is_simple ''%d!''" by simp
  obtain n where n: "fstr_format (\<lambda>a b c. None) (replicate 4 CHR ''?'') ''%d!'' [Int_arg 7] =
      Some (if replicate 4 CHR ''?'' = [] then []
        else take (length (replicate 4 CHR ''?'') - 1) ''7!'' @ NUL #
          drop (length (take (length (replicate 4 CHR ''?'') - 1) ''7!'') + 1) (replicate 4 CHR ''?''), n)"
    "length ''7!'' < 2 ^ 31 \<longrightarrow> n = int (length ''7!'')"
    using fstr_format_fast_path [OF s r] by blast
  then have "n = 2" by simp
  with n(1) show ?thesis by (simp add: eval_nat_numeral)
qed

text \<open>The 64-bit decimal printers write the exact decimal form of the value, the most negative
  one included.\<close>

theorem decimal_printers_exact: "ls_u64_dec v = dec_nat (unat v) \<and> ls_i64_dec v = dec_int (sint v)"
  by (simp add: ls_u64_dec_spec ls_i64_dec_spec)

text \<open>The byte-buffer loads return the value of their bytes read as a number to base 256, most
  significant byte first for the big-endian loads and last for the little-endian ones.\<close>

theorem loads_positional_value:
  assumes "off + 8 \<le> length p"
  shows "unat (load_be_u16 p off) = be_value (take 2 (drop off p)) \<and>
    unat (load_be_u32 p off) = be_value (take 4 (drop off p)) \<and>
    unat (load_be_u64 p off) = be_value (take 8 (drop off p)) \<and>
    unat (load_le_u16 p off) = be_value (rev (take 2 (drop off p))) \<and>
    unat (load_le_u32 p off) = be_value (rev (take 4 (drop off p))) \<and>
    unat (load_le_u64 p off) = be_value (rev (take 8 (drop off p)))"
  using assms load_be_holds [of off p] load_le_holds [of off p] by (simp add: holds_def)

theorem loads_positional_value_witness:
  "unat (load_be_u16 ''01234567'' 0) = 48 * 256 + 49 \<and> unat (load_le_u16 ''01234567'' 0) = 49 * 256 + 48"
  using loads_positional_value [of 0 "''01234567''"]
  by (simp add: be_value_def ccode_def numeral_2_eq_2)

text \<open>Two byte strings of equal length that differ in exactly one byte have different hashes:
  every step of the hash is injective in the state and in the byte.\<close>

theorem fxhash_separates_one_byte:
  assumes "b \<noteq> b'"
  shows "fxhash_bytes (xs @ b # ys) \<noteq> fxhash_bytes (xs @ b' # ys)"
  using assms by (auto simp: fxhash_bytes_def dest: fx_foldl_inj fx_step_inj_byte)

theorem fxhash_separates_one_byte_witness: "fxhash_bytes ''key1'' \<noteq> fxhash_bytes ''key2''"
  using fxhash_separates_one_byte [of "CHR ''1''" "CHR ''2''" "''key''" "[]"] by simp

text \<open>Reading a line returns the input up to the newline, consumes the newline, never writes
  outside its growing buffer, and reports no line only at the end of the input.\<close>

theorem readline_exec_reads_line:
  "\<exists>st. readline_exec inp = Some (st, drop 1 (dropWhile (\<lambda>x. ccode x \<noteq> 10) inp)) \<and>
     rl_buf st = (if inp = [] then None else Some (takeWhile (\<lambda>x. ccode x \<noteq> 10) inp)) \<and>
     (rl_ok st \<longleftrightarrow> inp \<noteq> [])"
proof -
  obtain c where r: "readline_loop inp [] 256 = Some (takeWhile (\<lambda>x. ccode x \<noteq> 10) inp, c,
      \<exists>x \<in> set inp. ccode x = 10, drop 1 (dropWhile (\<lambda>x. ccode x \<noteq> 10) inp))"
    "length (takeWhile (\<lambda>x. ccode x \<noteq> 10) inp) < c"
    using readline_loop_line [of "[]" 256 inp] by auto
  show ?thesis
  proof (cases inp)
    case Nil
    with r show ?thesis by (simp add: readline_exec_def)
  next
    case (Cons x xs)
    then have "(\<exists>x \<in> set inp. ccode x = 10) \<or> takeWhile (\<lambda>x. ccode x \<noteq> 10) inp \<noteq> []" by auto
    with r Cons show ?thesis by (auto simp: readline_exec_def)
  qed
qed

text \<open>Redirecting print closes every file it owns exactly once, when the next redirection
  replaces it, and never the file print currently writes to.\<close>

theorem sink_files_closed_once:
  assumes "distinct (map fst cs)"
  shows "distinct (closed (sink_run cs)) \<and>
    set (closed (sink_run cs)) \<union> set_option (sink_owned (sink_run cs)) = {f. (f, True) \<in> set cs} \<and>
    set_option (sink_owned (sink_run cs)) \<inter> set (closed (sink_run cs)) = {} \<and>
    set_option (sink_stream (sink_run cs)) \<inter> set (closed (sink_run cs)) = {}"
  using sink_run_inv [OF assms] by blast

theorem sink_files_closed_once_witness: "distinct (closed (sink_run [(1, True), (2, False), (3, True)]))"
  by (rule sink_files_closed_once [THEN conjunct1]) simp

end
