(* ===== verification/Regex_Prog.thy ===== *)
theory Regex_Prog
  imports Prelude
begin

text \<open>
  The compiled programs of the regex engine (\<open>src/runtime/ls_regex.c\<close>): instructions,
  character classes, the handle under construction, emission and growth of the program, the
  relocation of program counters, and the code generated for the quantifiers.

  \<open>prog\<close> holds the first \<open>prog_len\<close> instructions and \<open>prog_cap\<close> is the size of the
  allocation; an instruction written at or beyond \<open>prog_cap\<close> is undefined behaviour.
  \<open>realloc\<close> succeeds.  Operands are never negative and are natural numbers.
\<close>

unbundle bit_operations_syntax

section \<open>Constants, instructions, classes\<close>

definition MAX_GROUPS :: nat where "MAX_GROUPS = 17"
definition MAX_NAMED :: nat where "MAX_NAMED = 16"
definition MAX_INSTRS :: nat where "MAX_INSTRS = 2048"
definition MAX_THREADS :: nat where "MAX_THREADS = 512"
definition NAME_MAX_LEN :: nat where "NAME_MAX_LEN = 64"
definition CLASS_BITMAP_BYTES :: nat where "CLASS_BITMAP_BYTES = 16"
definition MAX_CLASSES :: nat where "MAX_CLASSES = 64"
definition RE_MAX_DEPTH :: nat where "RE_MAX_DEPTH = 256"
definition RE_DFA_MAX_PROG :: nat where "RE_DFA_MAX_PROG = 160"

datatype ReOpCode =
    OP_CHAR | OP_ANY | OP_CLASS | OP_NCLASS | OP_DIGIT | OP_NDIGIT | OP_WORD | OP_NWORD
  | OP_SPACE | OP_NSPACE | OP_ANCHOR_BOL | OP_ANCHOR_EOL | OP_ANCHOR_BOS | OP_ANCHOR_EOS
  | OP_WORDBND | OP_NWORDBND | OP_SAVE | OP_SPLIT | OP_JUMP | OP_LOOKAHEAD | OP_MATCH

record ReInstr =
  opcode :: ReOpCode
  operand_a :: nat
  operand_b :: nat

type_synonym ReCharClass = "8 word list"

text \<open>The part of the handle that parsing fills in; flags bits 0, 1, 2 are (?i), (?m), (?s).\<close>

record ReCode =
  flags :: nat
  n_groups :: nat
  prog_cap :: nat
  prog :: "ReInstr list"
  classes :: "ReCharClass list"
  n_classes :: nat
  named :: "(string \<times> nat) list"

definition IGNORECASE :: "'a ReCode_scheme \<Rightarrow> bool" where "IGNORECASE h = bit (flags h) 0"
definition MULTILINE :: "'a ReCode_scheme \<Rightarrow> bool" where "MULTILINE h = bit (flags h) 1"
definition DOTALL :: "'a ReCode_scheme \<Rightarrow> bool" where "DOTALL h = bit (flags h) 2"

definition prog_len :: "'a ReCode_scheme \<Rightarrow> nat" where
  "prog_len h = length (prog h)"

definition re_slot_count :: "'a ReCode_scheme \<Rightarrow> nat" where
  "re_slot_count h =
     (let n = (n_groups h + 1) * 2 in if n > MAX_GROUPS * 2 then MAX_GROUPS * 2 else n)"

text \<open>An index beyond the 16 bytes of the bitmap is undefined behaviour.\<close>

definition class_set :: "ReCharClass \<Rightarrow> nat \<Rightarrow> ReCharClass option" where
  "class_set cls c =
     (if c div 8 < CLASS_BITMAP_BYTES
      then Some (cls[c div 8 := cls ! (c div 8) OR push_bit (c mod 8) 1]) else None)"

definition class_test :: "ReCharClass \<Rightarrow> nat \<Rightarrow> bool option" where
  "class_test cls c =
     (if c div 8 < CLASS_BITMAP_BYTES then Some (bit (cls ! (c div 8)) (c mod 8)) else None)"

definition is_word_char :: "char \<Rightarrow> bool" where
  "is_word_char c \<longleftrightarrow> isalnum c \<or> c = CHR ''_''"

definition is_space_char :: "char \<Rightarrow> bool" where
  "is_space_char c \<longleftrightarrow> ccode c \<in> {32, 9, 10, 13, 12, 11}"

section \<open>Emission and growth\<close>

definition emit :: "ReCode \<Rightarrow> ReOpCode \<Rightarrow> nat \<Rightarrow> nat \<Rightarrow> int \<times> ReCode" where
  "emit h p a b =
     (if prog_len h \<ge> MAX_INSTRS - 1 then (- 1, h)
      else
        (let h = (if prog_len h \<ge> prog_cap h
                  then (let ncap = (if prog_cap h \<noteq> 0 then prog_cap h * 2 else 16)
                        in h\<lparr>prog_cap := (if ncap > MAX_INSTRS then MAX_INSTRS else ncap)\<rparr>)
                  else h)
         in (int (prog_len h), h\<lparr>prog := prog h @ [\<lparr>opcode = p, operand_a = a, operand_b = b\<rparr>]\<rparr>)))"

definition re_prog_reserve :: "ReCode \<Rightarrow> nat \<Rightarrow> bool \<times> ReCode" where
  "re_prog_reserve h extra =
     (let need = prog_len h + extra
      in if need > MAX_INSTRS then (False, h)
         else if need \<le> prog_cap h then (True, h)
         else
           (let ncap = double_to (if prog_cap h \<noteq> 0 then prog_cap h else 16) need
            in (True, h\<lparr>prog_cap := (if ncap > MAX_INSTRS then MAX_INSTRS else ncap)\<rparr>)))"

text \<open>
  The raw writes that bypass \<open>emit\<close>.  \<open>open_slot\<close> is the \<open>memmove\<close> by one slot and
  \<open>prog_len++\<close>: the vacated slot keeps its old contents, which every caller overwrites.
  \<open>append_copy\<close> is the \<open>memcpy\<close> of \<open>n\<close> instructions to the end and the increment of
  \<open>prog_len\<close>; \<open>set_instr\<close> overwrites an instruction.
\<close>

definition open_slot :: "nat \<Rightarrow> ReCode \<Rightarrow> ReCode option" where
  "open_slot start h =
     (if start \<le> prog_len h \<and> prog_len h < prog_cap h
      then Some (h\<lparr>prog := take start (prog h) @
        [if start < prog_len h then prog h ! start else \<lparr>opcode = OP_CHAR, operand_a = 0, operand_b = 0\<rparr>]
        @ drop start (prog h)\<rparr>)
      else None)"

definition append_copy :: "nat \<Rightarrow> nat \<Rightarrow> ReCode \<Rightarrow> ReCode option" where
  "append_copy src n h =
     (if src + n \<le> prog_len h \<and> prog_len h + n \<le> prog_cap h
      then Some (h\<lparr>prog := prog h @ take n (drop src (prog h))\<rparr>) else None)"

definition set_instr :: "int \<Rightarrow> (ReInstr \<Rightarrow> ReInstr) \<Rightarrow> ReCode \<Rightarrow> ReCode option" where
  "set_instr i f h =
     (if 0 \<le> i \<and> nat i < prog_len h
      then Some (h\<lparr>prog := (prog h)[nat i := f (prog h ! nat i)]\<rparr>) else None)"

section \<open>Relocation\<close>

definition map_targets :: "(nat \<Rightarrow> nat) \<Rightarrow> ReInstr \<Rightarrow> ReInstr" where
  "map_targets f ins =
     (case opcode ins of
        OP_JUMP \<Rightarrow> ins\<lparr>operand_a := f (operand_a ins)\<rparr>
      | OP_LOOKAHEAD \<Rightarrow> ins\<lparr>operand_a := f (operand_a ins)\<rparr>
      | OP_SPLIT \<Rightarrow> ins\<lparr>operand_a := f (operand_a ins), operand_b := f (operand_b ins)\<rparr>
      | _ \<Rightarrow> ins)"

definition re_fixup_pcs_after_shift :: "nat \<Rightarrow> nat \<Rightarrow> nat \<Rightarrow> ReInstr list \<Rightarrow> ReInstr list" where
  "re_fixup_pcs_after_shift old_pos shift limit p =
     (let moved_from = old_pos + shift
      in map (\<lambda>i. if limit \<le> i \<or> old_pos \<le> i \<and> i < moved_from then p ! i
                  else map_targets (\<lambda>t. if (if moved_from \<le> i then old_pos \<le> t else old_pos < t)
                                        then t + shift else t) (p ! i))
           [0..<length p])"

definition re_fixup_pcs_after_copy :: "nat \<Rightarrow> nat \<Rightarrow> nat \<Rightarrow> ReInstr list \<Rightarrow> ReInstr list" where
  "re_fixup_pcs_after_copy src_start src_end dst_start p =
     map (\<lambda>i. if dst_start \<le> i \<and> i < dst_start + (src_end - src_start)
              then map_targets (\<lambda>t. if src_start \<le> t \<and> t \<le> src_end
                                    then t + (dst_start - src_start) else t) (p ! i)
              else p ! i)
       [0..<length p]"

section \<open>Quantifiers\<close>

text \<open>The result is the new end, or a negative number.\<close>

definition apply_quantifier :: "ReCode \<Rightarrow> nat \<Rightarrow> char \<Rightarrow> bool \<Rightarrow> (int \<times> ReCode) option" where
  "apply_quantifier h start qc lazy =
     (let fin = prog_len h
      in if qc = CHR ''?'' then
           (if fin - start > MAX_INSTRS - 3 then Some (- 1, h)
            else case re_prog_reserve h 1 of
              (False, h) \<Rightarrow> Some (- 1, h)
            | (True, h) \<Rightarrow> do {
                h \<leftarrow> open_slot start h;
                let fin = fin + 1;
                let h = h\<lparr>prog := re_fixup_pcs_after_shift start 1 (prog_len h) (prog h)\<rparr>;
                h \<leftarrow> set_instr (int start)
                       (\<lambda>i. if lazy then i\<lparr>opcode := OP_SPLIT, operand_a := fin, operand_b := start + 1\<rparr>
                            else i\<lparr>opcode := OP_SPLIT, operand_a := start + 1, operand_b := fin\<rparr>) h;
                Some (int fin, h) })
         else if qc = CHR ''*'' then
           (case re_prog_reserve h 1 of
              (False, h) \<Rightarrow> Some (- 1, h)
            | (True, h) \<Rightarrow> do {
                h \<leftarrow> open_slot start h;
                let h = h\<lparr>prog := re_fixup_pcs_after_shift start 1 (prog_len h) (prog h)\<rparr>;
                (case emit h OP_JUMP start 0 of
                   (jmp, h) \<Rightarrow>
                     if jmp < 0 then Some (- 1, h)
                     else do {
                       let fin = prog_len h;
                       h \<leftarrow> set_instr (int start)
                         (\<lambda>i. if lazy then i\<lparr>opcode := OP_SPLIT, operand_a := nat jmp + 1, operand_b := start + 1\<rparr>
                              else i\<lparr>opcode := OP_SPLIT, operand_a := start + 1, operand_b := nat jmp + 1\<rparr>) h;
                       Some (int fin, h) }) })
         else if qc = CHR ''+'' then
           (case emit h OP_SPLIT 0 0 of
              (sp, h) \<Rightarrow>
                if sp < 0 then Some (- 1, h)
                else do {
                  let fin = prog_len h;
                  h \<leftarrow> set_instr sp
                    (\<lambda>i. if lazy then i\<lparr>operand_a := fin, operand_b := start\<rparr>
                         else i\<lparr>operand_a := start, operand_b := fin\<rparr>) h;
                  Some (int fin, h) })
         else Some (int fin, h))"

text \<open>One more copy of the body at the end of the program.\<close>

definition copy_body :: "nat \<Rightarrow> nat \<Rightarrow> ReCode \<Rightarrow> ReCode option" where
  "copy_body body_start body_len h = do {
     let dst = prog_len h;
     h \<leftarrow> append_copy body_start body_len h;
     Some (h\<lparr>prog := re_fixup_pcs_after_copy body_start (body_start + body_len) dst (prog h)\<rparr>) }"

text \<open>
  The loops of \<open>apply_count\<close>: \<open>k\<close> further optional copies, and \<open>k\<close> further mandatory
  copies.  The result says whether the loop ran to its end; it stops early on an error, with
  the message of \<open>comp_error\<close> if there is one.
\<close>

fun count_optional :: "nat \<Rightarrow> nat \<Rightarrow> nat \<Rightarrow> bool \<Rightarrow> ReCode \<Rightarrow> (bool \<times> string \<times> ReCode) option" where
  "count_optional 0 body_start body_len lazy h = Some (True, [], h)"
| "count_optional (Suc k) body_start body_len lazy h =
     (if prog_len h + body_len + 2 \<ge> MAX_INSTRS - 4 then Some (False, ''{n,m}: pattern too large'', h)
      else case re_prog_reserve h (body_len + 2) of
        (False, h) \<Rightarrow> Some (False, ''{n,m}: pattern too large'', h)
      | (True, h) \<Rightarrow> do {
          let opt_start = prog_len h;
          h \<leftarrow> copy_body body_start body_len h;
          (r, h) \<leftarrow> apply_quantifier h opt_start CHR ''?'' lazy;
          if r < 0 then Some (False, [], h) else count_optional k body_start body_len lazy h })"

fun count_mandatory :: "nat \<Rightarrow> nat \<Rightarrow> nat \<Rightarrow> ReCode \<Rightarrow> (bool \<times> string \<times> ReCode) option" where
  "count_mandatory 0 body_start body_len h = Some (True, [], h)"
| "count_mandatory (Suc k) body_start body_len h =
     (if prog_len h + body_len \<ge> MAX_INSTRS - 4 then Some (False, ''{n,m}: pattern too large'', h)
      else case re_prog_reserve h body_len of
        (False, h) \<Rightarrow> Some (False, ''{n,m}: pattern too large'', h)
      | (True, h) \<Rightarrow> do {
          h \<leftarrow> copy_body body_start body_len h;
          count_mandatory k body_start body_len h })"

text \<open>The result, the message of \<open>comp_error\<close> (empty when it is not called) and the handle.\<close>

definition apply_count ::
    "ReCode \<Rightarrow> nat \<Rightarrow> nat \<Rightarrow> int \<Rightarrow> int \<Rightarrow> bool \<Rightarrow> (int \<times> string \<times> ReCode) option" where
  "apply_count h body_start body_end n_min n_max lazy =
     (let body_len = body_end - body_start
      in if n_min = 0 then
           (if n_max = 0 then
              (let h = h\<lparr>prog := take body_start (prog h)\<rparr> in Some (int (prog_len h), [], h))
            else if n_max = - 1 then
              do { (r, h) \<leftarrow> apply_quantifier h body_start CHR ''*'' lazy; Some (r, [], h) }
            else do {
              (r, h) \<leftarrow> apply_quantifier h body_start CHR ''?'' lazy;
              if r < 0 then Some (- 1, [], h)
              else do {
                (ok, msg, h) \<leftarrow> count_optional (nat (n_max - 1)) (body_start + 1) body_len lazy h;
                Some (if ok then int (prog_len h) else - 1, msg, h) } })
         else do {
           (ok, msg, h) \<leftarrow> count_mandatory (nat (n_min - 1)) body_start body_len h;
           if \<not> ok then Some (- 1, msg, h)
           else if n_max = - 1 then
             (case re_prog_reserve h (body_len + 2) of
                (False, h) \<Rightarrow> Some (- 1, ''{n,m}: pattern too large'', h)
              | (True, h) \<Rightarrow> do {
                  let opt_start = prog_len h;
                  h \<leftarrow> copy_body body_start body_len h;
                  (r, h) \<leftarrow> apply_quantifier h opt_start CHR ''*'' lazy;
                  Some (r, [], h) })
           else do {
             (ok, msg, h) \<leftarrow> count_optional (nat (n_max - n_min)) body_start body_len lazy h;
             Some (if ok then int (prog_len h) else - 1, msg, h) } })"

end
