(* ===== verification/Regex_Compile.thy ===== *)
theory Regex_Compile
  imports Regex_Prog
begin

text \<open>
  The regex compiler (\<open>src/runtime/ls_regex.c\<close>): a recursive descent over the pattern that
  emits the program while it parses.  A parse function returns a C int, negative on failure,
  and the compiler state; the whole is \<open>None\<close> where the C code has undefined behaviour or
  does not return.  The recursion goes through \<open>parse_expr\<close>, whose depth guard bounds it; the
  functions below it take the recursive call as a parameter \<open>pe\<close>.
\<close>

unbundle bit_operations_syntax

section \<open>The compiler state\<close>

record Compiler =
  c_pat :: string
  c_pos :: nat
  c_re :: ReCode
  group_counter :: nat
  c_error :: string
  had_error :: bool
  c_depth :: nat

type_synonym parse_result = "(int \<times> Compiler) option"

definition pat_len :: "Compiler \<Rightarrow> nat" where
  "pat_len c = length (c_pat c)"

definition more :: "Compiler \<Rightarrow> bool" where
  "more c \<longleftrightarrow> c_pos c < pat_len c"

definition cur :: "Compiler \<Rightarrow> char" where
  "cur c = c_pat c ! c_pos c"

definition at_char :: "char \<Rightarrow> Compiler \<Rightarrow> bool" where
  "at_char ch c \<longleftrightarrow> more c \<and> cur c = ch"

definition adv :: "nat \<Rightarrow> Compiler \<Rightarrow> Compiler" where
  "adv n c = c\<lparr>c_pos := c_pos c + n\<rparr>"

text \<open>The message is cut at the buffer's 255 characters.\<close>

definition comp_error :: "string \<Rightarrow> Compiler \<Rightarrow> Compiler" where
  "comp_error msg c = (if had_error c then c else c\<lparr>c_error := take 255 msg, had_error := True\<rparr>)"

definition parse_failed :: "int \<Rightarrow> Compiler \<Rightarrow> bool" where
  "parse_failed r c \<longleftrightarrow> r < 0 \<or> had_error c"

definition quoted :: "string \<Rightarrow> string" where
  "quoted s = CHR 0x27 # s @ [CHR 0x27]"

definition fail :: "string \<Rightarrow> Compiler \<Rightarrow> parse_result" where
  "fail msg c = Some (- 1, comp_error msg c)"

definition c_emit :: "Compiler \<Rightarrow> ReOpCode \<Rightarrow> nat \<Rightarrow> nat \<Rightarrow> int \<times> Compiler" where
  "c_emit c p a b = (case emit (c_re c) p a b of (r, h) \<Rightarrow> (r, c\<lparr>c_re := h\<rparr>))"

definition hex_val :: "char \<Rightarrow> nat" where
  "hex_val ch =
     (if isdigit ch then ccode ch - 48
      else if 97 \<le> ccode ch \<and> ccode ch \<le> 102 then ccode ch - 97 + 10 else ccode ch - 65 + 10)"

definition re_alloc_group :: "Compiler \<Rightarrow> int \<times> Compiler" where
  "re_alloc_group c =
     (if group_counter c + 1 \<ge> MAX_GROUPS
      then (- 1, comp_error (''too many capture groups (max 16); ''
                  @ ''use (?:...) for grouping that does not capture'') c)
      else (int (group_counter c + 1), c\<lparr>group_counter := group_counter c + 1\<rparr>))"

section \<open>Character classes\<close>

text \<open>A loop that sets one bit after another.\<close>

fun class_set_all :: "nat list \<Rightarrow> ReCharClass \<Rightarrow> ReCharClass option" where
  "class_set_all [] cls = Some cls"
| "class_set_all (k # ks) cls = do { cls \<leftarrow> class_set cls k; class_set_all ks cls }"

definition ascii_where :: "(char \<Rightarrow> bool) \<Rightarrow> nat list" where
  "ascii_where P = filter (\<lambda>i. P (char_of i)) [0..<128]"

definition class_escape :: "char \<Rightarrow> nat list" where
  "class_escape esc =
     (if esc = CHR ''d'' then [48..<58]
      else if esc = CHR ''D'' then ascii_where (\<lambda>x. \<not> isdigit x)
      else if esc = CHR ''w'' then ascii_where is_word_char
      else if esc = CHR ''W'' then ascii_where (\<lambda>x. \<not> is_word_char x)
      else if esc = CHR ''s'' then ascii_where is_space_char
      else if esc = CHR ''S'' then ascii_where (\<lambda>x. \<not> is_space_char x)
      else if esc = CHR ''n'' then [10]
      else if esc = CHR ''r'' then [13]
      else if esc = CHR ''t'' then [9]
      else [ccode esc])"

text \<open>
  The loop over the members, on position and bitmap; \<open>first\<close> holds until a member is read.
  The result says whether it met an invalid range, whether it met the closing bracket, the
  position and the bitmap.  A range that reaches byte 128 writes outside the bitmap.
\<close>

function class_members ::
    "string \<Rightarrow> nat \<Rightarrow> bool \<Rightarrow> ReCharClass \<Rightarrow> (bool \<times> bool \<times> nat \<times> ReCharClass) option" where
  "class_members pat i first cls =
     (if \<not> i < length pat then Some (False, False, i, cls)
      else
        (let ch = pat ! i
         in if ch = CHR '']'' \<and> \<not> first then Some (False, True, i, cls)
            else
              (let i = i + 1
               in if ch = CHR 0x5C \<and> i < length pat then
                    do { cls \<leftarrow> class_set_all (class_escape (pat ! i)) cls;
                         class_members pat (i + 1) False cls }
                  else if i + 1 < length pat \<and> pat ! i = CHR ''-'' \<and> pat ! (i + 1) \<noteq> CHR '']'' then
                    (let hi = pat ! (i + 1); i = i + 2;
                         hi' = (if hi = CHR 0x5C \<and> i < length pat then pat ! i else hi);
                         i = (if hi = CHR 0x5C \<and> i < length pat then i + 1 else i)
                     in if ccode hi' < ccode ch then Some (True, False, i, cls)
                        else do { cls \<leftarrow> class_set_all [ccode ch..<ccode hi' + 1] cls;
                                  class_members pat i False cls })
                  else do { cls \<leftarrow> class_set cls (ccode ch); class_members pat i False cls })))"
  by pat_completeness auto
termination
  by (relation "measure (\<lambda>(pat, i, first, cls). length pat - i)") (auto split: if_splits)

declare class_members.simps [simp del]

definition parse_class_body :: "Compiler \<Rightarrow> parse_result" where
  "parse_class_body c =
     (let h = c_re c
      in if n_classes h \<ge> MAX_CLASSES then fail ''too many char classes'' c
         else do {
           let cid = n_classes h;
           let negate = at_char CHR ''^'' c;
           let c = (if negate then adv 1 c else c);
           (bad, closed, i, cls) \<leftarrow> class_members (c_pat c) (c_pos c) True (replicate CLASS_BITMAP_BYTES 0);
           let cls' = (if \<not> bad \<and> closed \<and> negate then map (\<lambda>b. NOT b) cls else cls);
           let c = c\<lparr>c_pos := i, c_re := h\<lparr>n_classes := cid + 1, classes := (classes h)[cid := cls']\<rparr>\<rparr>;
           if bad then fail ''invalid character range'' c
           else if \<not> closed then fail (''unclosed character class '' @ quoted ''['') c
           else Some (int cid, adv 1 c) })"

section \<open>Escapes and atoms\<close>

definition simple_escape :: "char \<Rightarrow> (ReOpCode \<times> nat) option" where
  "simple_escape esc =
     (if esc = CHR ''d'' then Some (OP_DIGIT, 0)
      else if esc = CHR ''D'' then Some (OP_NDIGIT, 0)
      else if esc = CHR ''w'' then Some (OP_WORD, 0)
      else if esc = CHR ''W'' then Some (OP_NWORD, 0)
      else if esc = CHR ''s'' then Some (OP_SPACE, 0)
      else if esc = CHR ''S'' then Some (OP_NSPACE, 0)
      else if esc = CHR ''b'' then Some (OP_WORDBND, 0)
      else if esc = CHR ''B'' then Some (OP_NWORDBND, 0)
      else if esc = CHR ''A'' then Some (OP_ANCHOR_BOS, 0)
      else if esc = CHR ''Z'' then Some (OP_ANCHOR_EOS, 0)
      else if esc = CHR ''n'' then Some (OP_CHAR, 10)
      else if esc = CHR ''r'' then Some (OP_CHAR, 13)
      else if esc = CHR ''t'' then Some (OP_CHAR, 9)
      else if esc = CHR ''f'' then Some (OP_CHAR, 12)
      else if esc = CHR ''v'' then Some (OP_CHAR, 11)
      else None)"

definition parse_escape :: "Compiler \<Rightarrow> parse_result" where
  "parse_escape c =
     (if \<not> more c then fail ''trailing backslash'' c
      else
        (let esc = cur c; c = adv 1 c
         in case simple_escape esc of
              Some (p, a) \<Rightarrow> Some (c_emit c p a 0)
            | None \<Rightarrow>
                if esc = CHR ''x'' then
                  (if c_pos c + 1 \<ge> pat_len c \<or> \<not> isxdigit (c_pat c ! c_pos c)
                      \<or> \<not> isxdigit (c_pat c ! (c_pos c + 1))
                   then fail (CHR 0x5C # ''xHH needs exactly two hex digits'') c
                   else
                     (let hi = hex_val (c_pat c ! c_pos c); lo = hex_val (c_pat c ! (c_pos c + 1))
                      in Some (c_emit (adv 2 c) OP_CHAR (push_bit 4 hi OR lo) 0)))
                else if 49 \<le> ccode esc \<and> ccode esc \<le> 57 then
                  fail (''backreference ('' @ CHR 0x5C # ''1-'' @ CHR 0x5C # ''9) is not supported: this engine ''
                    @ ''never backtracks; capture the group and compare the text yourself'') c
                else Some (c_emit c OP_CHAR (ccode esc) 0)))"

text \<open>Wrappers that lift the operations of the handle to the compiler state.\<close>

definition c_set_instr :: "int \<Rightarrow> (ReInstr \<Rightarrow> ReInstr) \<Rightarrow> Compiler \<Rightarrow> Compiler option" where
  "c_set_instr i f c = do { h \<leftarrow> set_instr i f (c_re c); Some (c\<lparr>c_re := h\<rparr>) }"

definition c_len :: "Compiler \<Rightarrow> nat" where
  "c_len c = prog_len (c_re c)"

text \<open>\<open>(?=...)\<close> and \<open>(?!...)\<close>: the placeholder is filled in after the body.\<close>

definition parse_lookahead :: "(Compiler \<Rightarrow> parse_result) \<Rightarrow> nat \<Rightarrow> Compiler \<Rightarrow> parse_result" where
  "parse_lookahead pe neg c =
     (case c_emit c OP_LOOKAHEAD 0 0 of
        (la_instr, c) \<Rightarrow>
          if la_instr < 0 then Some (- 1, c)
          else do {
            (r, c) \<leftarrow> pe c;
            if parse_failed r c then Some (- 1, c)
            else if \<not> at_char CHR '')'' c then fail (''unclosed lookahead '' @ quoted (if neg = 0 then ''(?='' else ''(?!'')) c
            else do {
              let c = adv 1 c;
              let sub_end = c_len c;
              let c = snd (c_emit c OP_MATCH 0 0);
              c \<leftarrow> c_set_instr la_instr (\<lambda>i. i\<lparr>operand_a := sub_end + 1, operand_b := neg\<rparr>) c;
              Some (int (c_len c), c) } })"

definition set_flag :: "char \<Rightarrow> nat \<Rightarrow> nat" where
  "set_flag fl f =
     (if fl = CHR ''i'' then f OR 1 else if fl = CHR ''m'' then f OR 2
      else if fl = CHR ''s'' then f OR 4 else f)"

definition upto_char :: "char \<Rightarrow> Compiler \<Rightarrow> string" where
  "upto_char ch c = takeWhile (\<lambda>x. x \<noteq> ch) (drop (c_pos c) (c_pat c))"

definition parse_inline_flags :: "Compiler \<Rightarrow> parse_result" where
  "parse_inline_flags c =
     (let fls = upto_char CHR '')'' c;
          c = adv (length fls) c;
          c = c\<lparr>c_re := (c_re c)\<lparr>flags := fold set_flag fls (flags (c_re c))\<rparr>\<rparr>;
          c = (if more c then adv 1 c else c)
      in Some (int (c_len c), c))"

text \<open>The part of the group after its prefix; \<open>gid = 0\<close> for a group that does not capture.\<close>

definition parse_group_body :: "(Compiler \<Rightarrow> parse_result) \<Rightarrow> nat \<Rightarrow> Compiler \<Rightarrow> parse_result" where
  "parse_group_body pe gid c =
     (case (if gid > 0 then c_emit c OP_SAVE (gid * 2) 0 else (0, c)) of
        (save_open, c) \<Rightarrow>
          if save_open < 0 then Some (- 1, c)
          else do {
            (r, c) \<leftarrow> pe c;
            if parse_failed r c then Some (- 1, c)
            else if \<not> at_char CHR '')'' c then fail (''unclosed group '' @ quoted ''('') c
            else
              (let c = adv 1 c;
                   c = (if gid > 0 then snd (c_emit c OP_SAVE (gid * 2 + 1) 0) else c);
                   c = (if gid > n_groups (c_re c) then c\<lparr>c_re := (c_re c)\<lparr>n_groups := gid\<rparr>\<rparr> else c)
               in Some (int (c_len c), c)) })"

definition parse_named_group :: "(Compiler \<Rightarrow> parse_result) \<Rightarrow> Compiler \<Rightarrow> parse_result" where
  "parse_named_group pe c =
     (let nm = upto_char CHR ''>'' c; c = adv (length nm) c
      in if \<not> more c then fail ''unclosed named group'' c
         else
           (case re_alloc_group (adv 1 c) of
              (gid, c) \<Rightarrow>
                if gid < 0 then Some (- 1, c)
                else
                  (let h = c_re c;
                       c = (if length (named h) < MAX_NAMED
                            then c\<lparr>c_re := h\<lparr>named := named h @ [(take (NAME_MAX_LEN - 1) nm, nat gid)]\<rparr>\<rparr>
                            else c)
                   in parse_group_body pe (nat gid) c)))"

definition parse_group :: "(Compiler \<Rightarrow> parse_result) \<Rightarrow> Compiler \<Rightarrow> parse_result" where
  "parse_group pe c =
     (if at_char CHR ''?'' c then
        (let c = adv 1 c
         in if \<not> more c then fail ''incomplete group flag'' c
            else
              (let nxt = cur c
               in if nxt = CHR '':'' then parse_group_body pe 0 (adv 1 c)
                  else if nxt = CHR ''<'' then parse_named_group pe (adv 1 c)
                  else if nxt = CHR ''='' then parse_lookahead pe 0 (adv 1 c)
                  else if nxt = CHR ''!'' then parse_lookahead pe 1 (adv 1 c)
                  else if nxt = CHR ''i'' \<or> nxt = CHR ''m'' \<or> nxt = CHR ''s'' then parse_inline_flags c
                  else fail ''unknown group flag'' c))
      else
        (case re_alloc_group c of
           (gid, c) \<Rightarrow> if gid < 0 then Some (- 1, c) else parse_group_body pe (nat gid) c))"

definition parse_atom :: "(Compiler \<Rightarrow> parse_result) \<Rightarrow> Compiler \<Rightarrow> parse_result" where
  "parse_atom pe c =
     (if \<not> more c then Some (int (c_len c), c)
      else
        (let ch = cur c; c = adv 1 c
         in if ch = CHR ''('' then parse_group pe c
            else if ch = CHR ''['' then
              do { (cid, c) \<leftarrow> parse_class_body c;
                   if parse_failed cid c then Some (- 1, c) else Some (c_emit c OP_CLASS (nat cid) 0) }
            else if ch = CHR ''.'' then Some (c_emit c OP_ANY 0 0)
            else if ch = CHR ''^'' then Some (c_emit c OP_ANCHOR_BOL 0 0)
            else if ch = CHR ''$'' then Some (c_emit c OP_ANCHOR_EOL 0 0)
            else if ch = CHR 0x5C then parse_escape c
            else Some (c_emit c OP_CHAR (ccode ch) 0)))"

section \<open>Pieces\<close>

text \<open>A run of digits read into an int; overflow of the int is undefined behaviour.\<close>

fun read_int :: "string \<Rightarrow> nat \<Rightarrow> nat option" where
  "read_int [] n = Some n"
| "read_int (d # ds) n =
     (let v = n * 10 + (ccode d - 48) in if int v < 2 ^ 31 then read_int ds v else None)"

definition digits_at :: "Compiler \<Rightarrow> string" where
  "digits_at c = takeWhile isdigit (drop (c_pos c) (c_pat c))"

definition parse_number :: "Compiler \<Rightarrow> (nat \<times> Compiler) option" where
  "parse_number c = do { n \<leftarrow> read_int (digits_at c) 0; Some (n, adv (length (digits_at c)) c) }"

definition lazy_mark :: "Compiler \<Rightarrow> bool \<times> Compiler" where
  "lazy_mark c = (if at_char CHR ''?'' c then (True, adv 1 c) else (False, c))"

text \<open>The counted quantifier after its opening brace; \<open>start\<close> and \<open>body_end\<close> delimit the body.\<close>

definition parse_count :: "nat \<Rightarrow> nat \<Rightarrow> Compiler \<Rightarrow> parse_result" where
  "parse_count start body_end c = do {
     (n, c) \<leftarrow> parse_number c;
     let has_comma = at_char CHR '','' c;
     let c = (if has_comma then adv 1 c else c);
     (m, c) \<leftarrow> (if has_comma then
                  (if more c \<and> cur c \<noteq> CHR ''}''
                   then do { (m, c) \<leftarrow> parse_number c; Some (int m, c) } else Some (- 1, c))
                else Some (0, c));
     if \<not> at_char CHR ''}'' c then fail ''invalid {n,m}'' c
     else
       (case lazy_mark (adv 1 c) of
          (lazy, c) \<Rightarrow>
            (let m = (if has_comma then m else int n)
             in if m \<noteq> - 1 \<and> m > 255 then fail ''{n,m}: m exceeds limit 255'' c
                else if m \<noteq> - 1 \<and> m < int n then fail ''{n,m}: m < n'' c
                else if n = 0 \<and> m = 0 then
                  Some (int start, c\<lparr>c_re := (c_re c)\<lparr>prog := take start (prog (c_re c))\<rparr>\<rparr>)
                else do {
                  (r, msg, h) \<leftarrow> apply_count (c_re c) start body_end (int n) m lazy;
                  let c = c\<lparr>c_re := h\<rparr>;
                  Some (r, if msg = [] then c else comp_error msg c) })) }"

definition parse_piece :: "(Compiler \<Rightarrow> parse_result) \<Rightarrow> Compiler \<Rightarrow> parse_result" where
  "parse_piece pe c = do {
     let start = c_len c;
     (r, c) \<leftarrow> parse_atom pe c;
     if parse_failed r c then Some (- 1, c)
     else if c_len c = start then Some (int start, c)
     else if \<not> more c then Some (int (c_len c), c)
     else
       (let qc = cur c; body_end = c_len c
        in if qc = CHR ''*'' \<or> qc = CHR ''+'' \<or> qc = CHR ''?'' then
             (case lazy_mark (adv 1 c) of
                (lazy, c) \<Rightarrow> do {
                  (r, h) \<leftarrow> apply_quantifier (c_re c) start qc lazy;
                  Some (r, c\<lparr>c_re := h\<rparr>) })
           else if qc = CHR ''{'' then parse_count start body_end (adv 1 c)
           else Some (int body_end, c)) }"

section \<open>Concatenation and alternation\<close>

partial_function (option) parse_concat :: "(Compiler \<Rightarrow> parse_result) \<Rightarrow> Compiler \<Rightarrow> parse_result" where
  "parse_concat pe c =
     (if \<not> more c \<or> cur c = CHR '')'' \<or> cur c = CHR ''|'' then Some (int (c_len c), c)
      else do {
        (r, c) \<leftarrow> parse_piece pe c;
        if parse_failed r c then Some (- 1, c) else parse_concat pe c })"

declare parse_concat.simps [code]

text \<open>
  A slot for a SPLIT before the branch that starts at \<open>alt_start\<close>: only its opcode is written,
  its operands are patched when the next branch starts.
\<close>

definition insert_split :: "nat \<Rightarrow> Compiler \<Rightarrow> (bool \<times> Compiler) option" where
  "insert_split alt_start c =
     (case re_prog_reserve (c_re c) 1 of
        (False, h) \<Rightarrow> Some (False, comp_error ''pattern too long'' (c\<lparr>c_re := h\<rparr>))
      | (True, h) \<Rightarrow> do {
          h \<leftarrow> open_slot alt_start h;
          let h = h\<lparr>prog := re_fixup_pcs_after_shift alt_start 1 (prog_len h) (prog h)\<rparr>;
          h \<leftarrow> set_instr (int alt_start) (\<lambda>i. i\<lparr>opcode := OP_SPLIT\<rparr>) h;
          Some (True, c\<lparr>c_re := h\<rparr>) })"

text \<open>The loop over the further branches; \<open>js\<close> are the jumps to patch, in the order emitted.\<close>

partial_function (option) alt_loop ::
    "(Compiler \<Rightarrow> parse_result) \<Rightarrow> nat \<Rightarrow> int list \<Rightarrow> Compiler \<Rightarrow> (bool \<times> int list \<times> Compiler) option" where
  "alt_loop pe alt_start js c =
     (if \<not> at_char CHR ''|'' c then Some (True, js, c)
      else
        (let c = adv 1 c
         in if length js \<ge> 64 then Some (False, js, comp_error ''too many alternatives'' c)
            else
              (case c_emit c OP_JUMP 0 0 of
                 (j, c) \<Rightarrow> do {
                   let js = js @ [j];
                   let branch_start = c_len c;
                   c \<leftarrow> c_set_instr (int alt_start)
                          (\<lambda>i. i\<lparr>operand_a := alt_start + 1, operand_b := branch_start\<rparr>) c;
                   let alt_start = branch_start;
                   (r, c) \<leftarrow> parse_concat pe c;
                   if parse_failed r c then Some (False, js, c)
                   else if at_char CHR ''|'' c then
                     (if c_len c + 1 \<ge> MAX_INSTRS then Some (False, js, comp_error ''pattern too long'' c)
                      else do {
                        (ok, c) \<leftarrow> insert_split alt_start c;
                        if ok then alt_loop pe alt_start js c else Some (False, js, c) })
                   else Some (True, js, c) })))"

declare alt_loop.simps [code]

fun patch_jumps :: "int list \<Rightarrow> nat \<Rightarrow> Compiler \<Rightarrow> Compiler option" where
  "patch_jumps [] fin c = Some c"
| "patch_jumps (j # js) fin c = do {
     c \<leftarrow> c_set_instr j (\<lambda>i. i\<lparr>operand_a := fin\<rparr>) c;
     patch_jumps js fin c }"

definition parse_expr_inner :: "(Compiler \<Rightarrow> parse_result) \<Rightarrow> Compiler \<Rightarrow> parse_result" where
  "parse_expr_inner pe c = do {
     let alt_start = c_len c;
     (r, c) \<leftarrow> parse_concat pe c;
     if parse_failed r c then Some (- 1, c)
     else if at_char CHR ''|'' c then
       (if c_len c + 2 \<ge> MAX_INSTRS then fail ''pattern too long'' c
        else do {
          (ok, c) \<leftarrow> insert_split alt_start c;
          if \<not> ok then Some (- 1, c)
          else do {
            (ok, js, c) \<leftarrow> alt_loop pe alt_start [] c;
            if \<not> ok then Some (- 1, c)
            else do {
              c \<leftarrow> patch_jumps js (c_len c) c;
              Some (int (c_len c), c) } } })
     else Some (int (c_len c), c) }"

text \<open>The depth guard; the fuel is spent exactly when the depth grows.\<close>

fun parse_expr :: "nat \<Rightarrow> Compiler \<Rightarrow> parse_result" where
  "parse_expr 0 c = (if c_depth c \<ge> RE_MAX_DEPTH then fail ''regex nested too deeply'' c else None)"
| "parse_expr (Suc n) c =
     (if c_depth c \<ge> RE_MAX_DEPTH then fail ''regex nested too deeply'' c
      else do {
        (r, c) \<leftarrow> parse_expr_inner (parse_expr n) (c\<lparr>c_depth := c_depth c + 1\<rparr>);
        Some (r, c\<lparr>c_depth := c_depth c - 1\<rparr>) })"

end
