(* ===== verification/Regex_Analysis.thy ===== *)
theory Regex_Analysis
  imports Regex_Compile
begin

text \<open>
  What the regex compiler derives from a finished program (\<open>src/runtime/ls_regex.c\<close>): the
  literal prefix and first-byte filter, the anchor mode, the one-pass classification with its
  dispatch tables, the eligibility for the lazy automaton, and the compile entry point with
  its thread-local pattern cache.  Sets of bytes (32-byte bitmaps) are sets of byte values
  given by their characteristic function on 0..255.
\<close>

unbundle bit_operations_syntax

section \<open>The handle\<close>

type_synonym byteset = "8 word list"

record ReFirstSet =
  fs_bytes :: byteset
  can_match_empty :: bool

record ReSplitInfo =
  split_a :: ReFirstSet
  split_b :: ReFirstSet

text \<open>
  A text handed to an exec is identified by its address; \<open>dfa_only_text\<close> keeps the bytes as
  well, which the replay reads.
\<close>

record ReHandle = ReCode +
  saved :: "int list"
  lit :: "nat list"
  lit_is_whole :: bool
  first_bytes :: ReCharClass
  has_first_bytes :: bool
  anchor_mode :: nat
  onepass :: bool
  onepass_splits :: "ReSplitInfo list"
  dfa_eligible :: bool
  dfa_trans :: "int list"
  dfa_only_valid :: bool
  dfa_only_text :: string
  dfa_only_start :: nat
  last_text :: "(nat \<times> nat) option"

definition RE_DFA_UNFILLED :: int where "RE_DFA_UNFILLED = - 2"
definition RE_DFA_DEAD :: int where "RE_DFA_DEAD = - 1"
definition RE_DFA_ACCEPT :: int where "RE_DFA_ACCEPT = - 3"

section \<open>Prefilter and anchors\<close>

text \<open>The leading run of OP_CHAR instructions, at most 64 of them, as byte values.\<close>

definition literal_run :: "ReInstr list \<Rightarrow> nat list" where
  "literal_run is =
     map (\<lambda>i. operand_a i mod 256) (take 64 (takeWhile (\<lambda>i. opcode i = OP_CHAR) is))"

definition re_build_prefilter :: "ReHandle \<Rightarrow> ReHandle" where
  "re_build_prefilter h =
     (let h = h\<lparr>lit := [], lit_is_whole := False, has_first_bytes := False\<rparr>
      in if IGNORECASE h then h
         else
           (let p = prog h;
                pc = (if p \<noteq> [] \<and> opcode (p ! 0) = OP_SAVE \<and> operand_a (p ! 0) = 0 then 1 else 0);
                l = literal_run (drop pc p);
                h = h\<lparr>lit := l\<rparr>;
                pc = pc + length l
            in if l \<noteq> [] then
                 (if pc + 1 < length p \<and> opcode (p ! pc) = OP_SAVE \<and> operand_a (p ! pc) = 1
                     \<and> opcode (p ! (pc + 1)) = OP_MATCH
                  then h\<lparr>lit_is_whole := True\<rparr> else h)
               else if pc < length p \<and> opcode (p ! pc) = OP_CLASS \<and> operand_a (p ! pc) < n_classes h
               then h\<lparr>first_bytes := classes h ! operand_a (p ! pc), has_first_bytes := True\<rparr>
               else h))"

definition re_detect_anchor :: "ReHandle \<Rightarrow> ReHandle" where
  "re_detect_anchor h =
     (let h = h\<lparr>anchor_mode := 0\<rparr>; p = prog h
      in if length p < 2 \<or> opcode (p ! 0) \<noteq> OP_SAVE \<or> operand_a (p ! 0) \<noteq> 0 then h
         else if opcode (p ! 1) = OP_ANCHOR_BOS then h\<lparr>anchor_mode := 1\<rparr>
         else if opcode (p ! 1) = OP_ANCHOR_BOL then h\<lparr>anchor_mode := (if MULTILINE h then 2 else 1)\<rparr>
         else h)"

section \<open>Byte tests\<close>

text \<open>
  The per-byte test of a consuming instruction, as the four engines write it out; the class
  bitmap is read without a bound, so a byte of 128 or more against a class is undefined.
\<close>

definition fold_case :: "'a ReCode_scheme \<Rightarrow> char \<Rightarrow> char" where
  "fold_case h ch = (if IGNORECASE h then tolower ch else ch)"

definition class_of :: "'a ReCode_scheme \<Rightarrow> nat \<Rightarrow> ReCharClass option" where
  "class_of h k = (if k < MAX_CLASSES \<and> k < length (classes h) then Some (classes h ! k) else None)"

definition match_char :: "'a ReCode_scheme \<Rightarrow> ReInstr \<Rightarrow> char \<Rightarrow> bool option" where
  "match_char h ins ch =
     (case opcode ins of
        OP_CHAR \<Rightarrow> Some (if IGNORECASE h then tolower ch = tolower (char_of (operand_a ins))
                        else ch = char_of (operand_a ins))
      | OP_ANY \<Rightarrow> Some (ccode ch \<noteq> 10 \<or> DOTALL h)
      | OP_CLASS \<Rightarrow> do { cls \<leftarrow> class_of h (operand_a ins); class_test cls (ccode (fold_case h ch)) }
      | OP_NCLASS \<Rightarrow> do { cls \<leftarrow> class_of h (operand_a ins);
                        b \<leftarrow> class_test cls (ccode (fold_case h ch)); Some (\<not> b) }
      | OP_DIGIT \<Rightarrow> Some (isdigit ch)
      | OP_NDIGIT \<Rightarrow> Some (\<not> isdigit ch)
      | OP_WORD \<Rightarrow> Some (is_word_char ch)
      | OP_NWORD \<Rightarrow> Some (\<not> is_word_char ch)
      | OP_SPACE \<Rightarrow> Some (is_space_char ch)
      | OP_NSPACE \<Rightarrow> Some (\<not> is_space_char ch)
      | _ \<Rightarrow> Some False)"

section \<open>One-pass classification\<close>

definition byteset_empty :: byteset where
  "byteset_empty = replicate 32 0"

definition re_byteset_set :: "nat \<Rightarrow> byteset \<Rightarrow> byteset" where
  "re_byteset_set b bs = bs[b div 8 := bs ! (b div 8) OR push_bit (b mod 8) 1]"

definition re_byteset_test :: "byteset \<Rightarrow> nat \<Rightarrow> bool" where
  "re_byteset_test bs b = bit (bs ! (b div 8)) (b mod 8)"

definition re_byteset_intersects :: "byteset \<Rightarrow> byteset \<Rightarrow> bool" where
  "re_byteset_intersects a b = list_ex (\<lambda>i. a ! i AND b ! i \<noteq> 0) [0..<32]"

definition re_byteset_any :: "byteset \<Rightarrow> bool" where
  "re_byteset_any a = list_ex (\<lambda>i. a ! i \<noteq> 0) [0..<32]"

text \<open>The test used to build the sets: it guards the bitmap with \<open>ch < 128\<close>.\<close>

definition first_byte :: "'a ReCode_scheme \<Rightarrow> ReInstr \<Rightarrow> nat \<Rightarrow> bool" where
  "first_byte h ins k =
     (let ch = char_of k
      in if opcode ins = OP_CLASS \<or> opcode ins = OP_NCLASS then
           k < 128 \<and> operand_a ins < n_classes h \<and> match_char h ins ch = Some True
         else match_char h ins ch = Some True)"

definition re_consuming_first_bytes :: "'a ReCode_scheme \<Rightarrow> ReInstr \<Rightarrow> byteset" where
  "re_consuming_first_bytes h ins =
     fold (\<lambda>k bs. if first_byte h ins k then re_byteset_set k bs else bs) [0..<256] byteset_empty"

definition empty_first_set :: ReFirstSet where
  "empty_first_set = \<lparr>fs_bytes = byteset_empty, can_match_empty = False\<rparr>"

text \<open>
  The epsilon-closure walk, threading the \<open>seen\<close> flags, the result and the \<open>unsupported\<close>
  flag; each call marks a fresh pc, so \<open>prog_len + 1\<close> levels of recursion are enough.
\<close>

fun re_first_set ::
    "nat \<Rightarrow> 'a ReCode_scheme \<Rightarrow> nat \<Rightarrow> bool list \<times> ReFirstSet \<times> bool
      \<Rightarrow> (bool list \<times> ReFirstSet \<times> bool) option" where
  "re_first_set 0 h pc st = None"
| "re_first_set (Suc n) h pc (seen, fset, unsup) =
     (if pc \<ge> prog_len h then Some (seen, fset, True)
      else if seen ! pc then Some (seen, fset, unsup)
      else
        (let seen = seen[pc := True]; ins = prog h ! pc
         in case opcode ins of
              OP_SAVE \<Rightarrow> re_first_set n h (pc + 1) (seen, fset, unsup)
            | OP_JUMP \<Rightarrow> re_first_set n h (operand_a ins) (seen, fset, unsup)
            | OP_SPLIT \<Rightarrow> do {
                st \<leftarrow> re_first_set n h (operand_a ins) (seen, fset, unsup);
                re_first_set n h (operand_b ins) st }
            | OP_ANCHOR_BOL \<Rightarrow> re_first_set n h (pc + 1) (seen, fset, unsup)
            | OP_ANCHOR_EOL \<Rightarrow> re_first_set n h (pc + 1) (seen, fset, unsup)
            | OP_ANCHOR_BOS \<Rightarrow> re_first_set n h (pc + 1) (seen, fset, unsup)
            | OP_ANCHOR_EOS \<Rightarrow> re_first_set n h (pc + 1) (seen, fset, unsup)
            | OP_MATCH \<Rightarrow> Some (seen, fset\<lparr>can_match_empty := True\<rparr>, unsup)
            | OP_WORDBND \<Rightarrow> Some (seen, fset, True)
            | OP_NWORDBND \<Rightarrow> Some (seen, fset, True)
            | OP_LOOKAHEAD \<Rightarrow> Some (seen, fset, True)
            | _ \<Rightarrow> Some (seen, fset\<lparr>fs_bytes := map2 (OR) (fs_bytes fset) (re_consuming_first_bytes h ins)\<rparr>,
                         unsup)))"

text \<open>The two first sets of the SPLIT at a pc.\<close>

definition split_first_sets :: "'a ReCode_scheme \<Rightarrow> ReInstr \<Rightarrow> (ReSplitInfo \<times> bool) option" where
  "split_first_sets h sp = do {
     let seen = replicate (prog_len h) False;
     (seen_a, ra, unsup) \<leftarrow> re_first_set (prog_len h + 1) h (operand_a sp) (seen, empty_first_set, False);
     (seen_b, rb, unsup) \<leftarrow> re_first_set (prog_len h + 1) h (operand_b sp) (seen, empty_first_set, unsup);
     Some (\<lparr>split_a = ra, split_b = rb\<rparr>, unsup) }"

definition split_ok :: "ReSplitInfo \<Rightarrow> bool" where
  "split_ok i \<longleftrightarrow>
     \<not> re_byteset_intersects (fs_bytes (split_a i)) (fs_bytes (split_b i)) \<and>
     \<not> (re_byteset_any (fs_bytes (split_a i)) \<and> can_match_empty (split_a i)) \<and>
     \<not> (re_byteset_any (fs_bytes (split_b i)) \<and> can_match_empty (split_b i))"

fun splits_onepass :: "'a ReCode_scheme \<Rightarrow> ReInstr list \<Rightarrow> bool option" where
  "splits_onepass h [] = Some True"
| "splits_onepass h (i # is) =
     (if opcode i \<noteq> OP_SPLIT then splits_onepass h is
      else do {
        (info, unsup) \<leftarrow> split_first_sets h i;
        if unsup \<or> \<not> split_ok info then Some False else splits_onepass h is })"

definition re_is_onepass :: "'a ReCode_scheme \<Rightarrow> bool option" where
  "re_is_onepass h =
     (if prog_len h = 0 then Some False
      else if list_ex (\<lambda>i. opcode i \<in> {OP_LOOKAHEAD, OP_WORDBND, OP_NWORDBND}) (prog h) then Some False
      else splits_onepass h (prog h))"

definition zero_split_info :: ReSplitInfo where
  "zero_split_info = \<lparr>split_a = empty_first_set, split_b = empty_first_set\<rparr>"

text \<open>The table, one entry per instruction; the flag says whether some walk was unsupported.\<close>

fun onepass_table :: "'a ReCode_scheme \<Rightarrow> ReInstr list \<Rightarrow> (ReSplitInfo list \<times> bool) option" where
  "onepass_table h [] = Some ([], False)"
| "onepass_table h (i # is) =
     (if opcode i \<noteq> OP_SPLIT then
        do { (tab, bad) \<leftarrow> onepass_table h is; Some (zero_split_info # tab, bad) }
      else do {
        (info, unsup) \<leftarrow> split_first_sets h i;
        if unsup then Some ([], True)
        else do { (tab, bad) \<leftarrow> onepass_table h is; Some (info # tab, bad) } })"

definition re_build_onepass_tables :: "ReHandle \<Rightarrow> ReHandle option" where
  "re_build_onepass_tables h = do {
     (tab, bad) \<leftarrow> onepass_table h (prog h);
     Some (if bad then h\<lparr>onepass := False\<rparr> else h\<lparr>onepass_splits := tab\<rparr>) }"

definition re_dfa_check_eligible :: "ReHandle \<Rightarrow> bool" where
  "re_dfa_check_eligible h \<longleftrightarrow>
     onepass h \<and> \<not> MULTILINE h \<and> prog_len h > 0 \<and> prog_len h \<le> RE_DFA_MAX_PROG \<and>
     list_all (\<lambda>pc. opcode (prog h ! pc) \<in> {OP_ANCHOR_BOL, OP_ANCHOR_BOS} \<longrightarrow> pc = 1) [0..<prog_len h]"

section \<open>Compiling\<close>

definition zero_code :: "nat \<Rightarrow> ReCode" where
  "zero_code f = \<lparr>flags = f, n_groups = 0, prog_cap = 0, prog = [],
     classes = replicate MAX_CLASSES (replicate CLASS_BITMAP_BYTES 0), n_classes = 0, named = []\<rparr>"

definition zero_handle :: "ReCode \<Rightarrow> ReHandle" where
  "zero_handle h = ReCode.extend h
     \<lparr>saved = replicate (MAX_GROUPS * 2) 0, lit = [], lit_is_whole = False,
      first_bytes = replicate CLASS_BITMAP_BYTES 0, has_first_bytes = False, anchor_mode = 0,
      onepass = False, onepass_splits = [], dfa_eligible = False, dfa_trans = [],
      dfa_only_valid = False, dfa_only_text = [], dfa_only_start = 0, last_text = None\<rparr>"

definition init_compiler :: "string \<Rightarrow> nat \<Rightarrow> Compiler" where
  "init_compiler pat f =
     \<lparr>c_pat = pat, c_pos = 0, c_re = snd (emit (zero_code f) OP_SAVE 0 0), group_counter = 0,
      c_error = [], had_error = False, c_depth = 0\<rparr>"

text \<open>The handle after a successful parse.\<close>

definition finish_compile :: "Compiler \<Rightarrow> ReHandle option" where
  "finish_compile c = do {
     let h = snd (emit (c_re c) OP_SAVE 1 0);
     let h = snd (emit h OP_MATCH 0 0);
     let h = zero_handle (h\<lparr>n_groups := group_counter c\<rparr>);
     let h = re_build_prefilter h;
     let h = re_detect_anchor h;
     one \<leftarrow> re_is_onepass h;
     let h = h\<lparr>onepass := one\<rparr>;
     h \<leftarrow> (if one then re_build_onepass_tables h else Some h);
     let h = h\<lparr>dfa_eligible := re_dfa_check_eligible h\<rparr>;
     Some (if dfa_eligible h
           then h\<lparr>dfa_trans := replicate (prog_len h * 256) RE_DFA_UNFILLED\<rparr> else h) }"

text \<open>\<open>Inl\<close> is a failed compile with its message, \<open>Inr\<close> the handle.\<close>

definition regex_compile :: "string \<Rightarrow> nat \<Rightarrow> (string + ReHandle) option" where
  "regex_compile pat f = do {
     (r, c) \<leftarrow> parse_expr RE_MAX_DEPTH (init_compiler pat f);
     if parse_failed r c then Some (Inl (c_error c))
     else if c_pos c < pat_len c then
       Some (Inl (''unexpected '' @ quoted '')'' @ '' at pos '' @ dec_nat (c_pos c)))
     else do { h \<leftarrow> finish_compile c; Some (Inr h) } }"

section \<open>The thread-local pattern cache\<close>

definition RE_CACHE_SLOTS :: nat where "RE_CACHE_SLOTS = 32"
definition RE_CACHE_PATLEN :: nat where "RE_CACHE_PATLEN = 128"

record ReCacheSlot =
  slot_pat :: string
  slot_flags :: nat
  slot_re :: "ReHandle option"
  stamp :: "32 word"

type_synonym re_cache = "ReCacheSlot list \<times> 32 word"

text \<open>The scan: the slot that holds the pattern, or the least recently used slot so far.\<close>

fun cache_scan :: "ReCacheSlot list \<Rightarrow> string \<Rightarrow> nat \<Rightarrow> nat \<Rightarrow> nat \<Rightarrow> nat \<Rightarrow> nat + nat" where
  "cache_scan cache pat f 0 i lru = Inr lru"
| "cache_scan cache pat f (Suc k) i lru =
     (let s = cache ! i
      in if slot_re s \<noteq> None \<and> slot_flags s = f \<and> slot_pat s = pat then Inl i
         else cache_scan cache pat f k (i + 1) (if stamp s < stamp (cache ! lru) then i else lru))"

text \<open>The index of the slot that holds the handle returned, \<open>None\<close> for the null pointer.\<close>

definition regex_cached :: "string \<Rightarrow> nat \<Rightarrow> re_cache \<Rightarrow> (nat option \<times> re_cache) option" where
  "regex_cached pat f st =
     (case st of (cache, clock) \<Rightarrow>
        if length pat \<ge> RE_CACHE_PATLEN then Some (None, st)
        else
          (case cache_scan cache pat f RE_CACHE_SLOTS 0 0 of
             Inl i \<Rightarrow> Some (Some i, (cache[i := (cache ! i)\<lparr>stamp := clock + 1\<rparr>], clock + 1))
           | Inr lru \<Rightarrow> do {
               res \<leftarrow> regex_compile pat f;
               (case res of
                  Inl msg \<Rightarrow> Some (None, st)
                | Inr h \<Rightarrow>
                    Some (Some lru,
                      (cache[lru := \<lparr>slot_pat = pat, slot_flags = f, slot_re = Some h, stamp = clock + 1\<rparr>],
                       clock + 1))) }))"

end
