(* ===== verification/Regex_Pike.thy ===== *)
theory Regex_Pike
  imports Regex_Analysis
begin

text \<open>
  The Pike VM (\<open>src/runtime/ls_regex.c\<close>): threads with their capture slots, the visited set as
  generation counters, the epsilon closure \<open>add_thread\<close>, the step over one text position with
  its priority bookkeeping, and the lookahead.  A text is a string; positions and program
  counters are natural numbers, capture slots are ints with -1 for unset.  The lookahead is a
  parameter \<open>la\<close> (position, first pc of the body) of the functions below it and is tied by a
  nesting bound.
\<close>

section \<open>Threads and the visited set\<close>

record ReThread =
  pc :: nat
  slots :: "int list"

record Visited =
  gen :: "32 word list"
  current :: "32 word"

definition visited_init :: "nat \<Rightarrow> Visited" where
  "visited_init n = \<lparr>gen = replicate n 0, current = 0\<rparr>"

definition visited_clear :: "nat \<Rightarrow> Visited \<Rightarrow> Visited" where
  "visited_clear n v =
     (let v = v\<lparr>current := current v + 1\<rparr>
      in if current v = 0 then v\<lparr>gen := replicate n 0 @ drop n (gen v), current := 1\<rparr> else v)"

definition visited_test :: "Visited \<Rightarrow> nat \<Rightarrow> bool" where
  "visited_test v k \<longleftrightarrow> gen v ! k = current v"

definition visited_set :: "nat \<Rightarrow> Visited \<Rightarrow> Visited" where
  "visited_set k v = v\<lparr>gen := (gen v)[k := current v]\<rparr>"

text \<open>The in-place reversal of the entries lo..hi.\<close>

function reverse_thread_range :: "'a list \<Rightarrow> nat \<Rightarrow> nat \<Rightarrow> 'a list" where
  "reverse_thread_range ts lo hi =
     (if lo < hi then reverse_thread_range (ts[lo := ts ! hi, hi := ts ! lo]) (lo + 1) (hi - 1) else ts)"
  by auto
termination by (relation "measure (\<lambda>(ts, lo, hi). hi - lo)") auto

declare reverse_thread_range.simps [simp del]

section \<open>Zero-width tests\<close>

definition word_before :: "string \<Rightarrow> nat \<Rightarrow> bool" where
  "word_before txt i \<longleftrightarrow> i > 0 \<and> is_word_char (txt ! (i - 1))"

definition word_at :: "string \<Rightarrow> nat \<Rightarrow> bool" where
  "word_at txt i \<longleftrightarrow> i < length txt \<and> is_word_char (txt ! i)"

definition bol_ok :: "'a ReCode_scheme \<Rightarrow> string \<Rightarrow> nat \<Rightarrow> bool" where
  "bol_ok h txt i \<longleftrightarrow> i = 0 \<or> MULTILINE h \<and> i > 0 \<and> ccode (txt ! (i - 1)) = 10"

definition eol_ok :: "'a ReCode_scheme \<Rightarrow> string \<Rightarrow> nat \<Rightarrow> bool" where
  "eol_ok h txt i \<longleftrightarrow> i = length txt \<or> MULTILINE h \<and> i < length txt \<and> ccode (txt ! i) = 10"

definition position_tests :: "ReOpCode set" where
  "position_tests = {OP_ANCHOR_BOL, OP_ANCHOR_EOL, OP_ANCHOR_BOS, OP_ANCHOR_EOS, OP_WORDBND, OP_NWORDBND}"

definition anchor_ok :: "'a ReCode_scheme \<Rightarrow> ReOpCode \<Rightarrow> string \<Rightarrow> nat \<Rightarrow> bool" where
  "anchor_ok h p txt i =
     (case p of
        OP_ANCHOR_BOL \<Rightarrow> bol_ok h txt i
      | OP_ANCHOR_EOL \<Rightarrow> eol_ok h txt i
      | OP_ANCHOR_BOS \<Rightarrow> i = 0
      | OP_ANCHOR_EOS \<Rightarrow> i = length txt
      | OP_WORDBND \<Rightarrow> word_before txt i \<noteq> word_at txt i
      | OP_NWORDBND \<Rightarrow> word_before txt i = word_at txt i
      | _ \<Rightarrow> False)"

section \<open>The epsilon closure\<close>

type_synonym lookahead = "nat \<Rightarrow> nat \<Rightarrow> bool option"
type_synonym closure = "bool \<times> ReThread list \<times> Visited \<times> int list"

text \<open>
  \<open>memcpy\<close> of the slots in use; entries beyond them are never read.
\<close>

definition copy_slots :: "'a ReCode_scheme \<Rightarrow> int list \<Rightarrow> int list \<Rightarrow> int list" where
  "copy_slots h src dst = take (re_slot_count h) src @ drop (re_slot_count h) dst"

text \<open>The A block and the B block of a split swapped, by three reversals.\<close>

definition swap_blocks :: "nat \<Rightarrow> nat \<Rightarrow> nat \<Rightarrow> 'a list \<Rightarrow> 'a list" where
  "swap_blocks base len_a len_b ts =
     (if len_a > 0 \<and> len_b > 0 then
        (let ts = reverse_thread_range ts base (base + len_a + len_b - 1);
             ts = reverse_thread_range ts base (base + len_b - 1)
         in reverse_thread_range ts (base + len_b) (base + len_a + len_b - 1))
      else ts)"

text \<open>
  \<open>ms\<close> is \<open>match_saved\<close>; the result is whether OP_MATCH was hit, the list, the visited set and
  \<open>match_saved\<close>.  Every iteration of the loop and every recursive call marks a fresh pc, so
  \<open>prog_len + 1\<close> units of fuel are enough.
\<close>

fun add_thread ::
    "nat \<Rightarrow> lookahead \<Rightarrow> 'a ReCode_scheme \<Rightarrow> string \<Rightarrow> nat \<Rightarrow> ReThread
      \<Rightarrow> ReThread list \<Rightarrow> Visited \<Rightarrow> int list \<Rightarrow> closure option" where
  "add_thread 0 la h txt i t nxt vis ms = None"
| "add_thread (Suc n) la h txt i t nxt vis ms =
     (if pc t \<ge> prog_len h then Some (False, nxt, vis, ms)
      else if visited_test vis (pc t) then Some (False, nxt, vis, ms)
      else
        (let vis = visited_set (pc t) vis; ins = prog h ! pc t
         in if opcode ins \<in> position_tests then
              (if anchor_ok h (opcode ins) txt i
               then add_thread n la h txt i (t\<lparr>pc := pc t + 1\<rparr>) nxt vis ms else Some (False, nxt, vis, ms))
            else case opcode ins of
              OP_SAVE \<Rightarrow>
                if operand_a ins < length (slots t)
                then add_thread n la h txt i
                       (t\<lparr>slots := (slots t)[operand_a ins := int i], pc := pc t + 1\<rparr>) nxt vis ms
                else None
            | OP_SPLIT \<Rightarrow> do {
                let base = length nxt;
                (found_a, nxt, vis, ms) \<leftarrow> add_thread n la h txt i (t\<lparr>pc := operand_a ins\<rparr>) nxt vis ms;
                let len_a = length nxt - base;
                (found_b, nxt, vis, ms, len_b) \<leftarrow>
                  (if found_a then Some (False, nxt, vis, ms, 0)
                   else do {
                     let b_before = length nxt;
                     (fb, nxt, vis, ms) \<leftarrow> add_thread n la h txt i (t\<lparr>pc := operand_b ins\<rparr>) nxt vis ms;
                     Some (fb, nxt, vis, ms, length nxt - b_before) });
                Some (found_a \<or> found_b, swap_blocks base len_a len_b nxt, vis, ms) }
            | OP_JUMP \<Rightarrow> add_thread n la h txt i (t\<lparr>pc := operand_a ins\<rparr>) nxt vis ms
            | OP_LOOKAHEAD \<Rightarrow> do {
                ok \<leftarrow> la i (pc t + 1);
                if ok \<noteq> (operand_b ins \<noteq> 0)
                then add_thread n la h txt i (t\<lparr>pc := operand_a ins\<rparr>) nxt vis ms
                else Some (False, nxt, vis, ms) }
            | OP_MATCH \<Rightarrow> Some (True, nxt, vis, copy_slots h (slots t) ms)
            | _ \<Rightarrow> Some (False, if length nxt < MAX_THREADS then nxt @ [t] else nxt, vis, ms)))"

section \<open>The run over the text\<close>

text \<open>
  One position: the threads from the highest priority down, with the blocks each contributed.
  \<open>st\<close> is the next list, the visited set, \<open>found_saved\<close>, \<open>found\<close> and the blocks.
\<close>

type_synonym step_state = "ReThread list \<times> Visited \<times> int list \<times> bool \<times> (nat \<times> nat) list"

fun vm_threads ::
    "lookahead \<Rightarrow> 'a ReCode_scheme \<Rightarrow> string \<Rightarrow> nat \<Rightarrow> ReThread list \<Rightarrow> step_state \<Rightarrow> step_state option" where
  "vm_threads la h txt i [] st = Some st"
| "vm_threads la h txt i (t # ts) (nxt, vis, fs, found, blocks) =
     (if i \<ge> length txt then vm_threads la h txt i ts (nxt, vis, fs, found, blocks)
      else if \<not> pc t < prog_len h then None
      else do {
        m \<leftarrow> match_char h (prog h ! pc t) (txt ! i);
        if \<not> m then vm_threads la h txt i ts (nxt, vis, fs, found, blocks)
        else do {
          let count0 = length nxt;
          (got, nxt, vis, ms) \<leftarrow>
            add_thread (prog_len h + 1) la h txt (i + 1) (t\<lparr>pc := pc t + 1\<rparr>) nxt vis fs;
          let contributed = length nxt - count0;
          let blocks = (if contributed > 0 \<and> length blocks < MAX_THREADS
                        then blocks @ [(count0, contributed)] else blocks);
          if got then Some (nxt, vis, copy_slots h ms fs, True, blocks)
          else vm_threads la h txt i ts (nxt, vis, fs, found, blocks) } })"

fun reverse_blocks :: "nat \<Rightarrow> (nat \<times> nat) list \<Rightarrow> 'a list \<Rightarrow> 'a list" where
  "reverse_blocks tot [] ts = ts"
| "reverse_blocks tot ((s, n) # bs) ts =
     reverse_blocks tot bs (reverse_thread_range ts (tot - (s + n)) (tot - s - 1))"

definition restore_order :: "(nat \<times> nat) list \<Rightarrow> 'a list \<Rightarrow> 'a list" where
  "restore_order blocks nxt =
     (if length blocks > 1
      then reverse_blocks (length nxt) blocks (reverse_thread_range nxt 0 (length nxt - 1))
      else nxt)"

text \<open>The loop over the positions; \<open>k\<close> is the number of positions left.\<close>

fun vm_loop ::
    "nat \<Rightarrow> lookahead \<Rightarrow> 'a ReCode_scheme \<Rightarrow> string \<Rightarrow> nat \<Rightarrow> ReThread list \<Rightarrow> Visited \<Rightarrow> int list \<Rightarrow> bool
      \<Rightarrow> (Visited \<times> int list \<times> bool) option" where
  "vm_loop 0 la h txt i cur_ts vis fs found = Some (vis, fs, found)"
| "vm_loop (Suc k) la h txt i cur_ts vis fs found =
     (if cur_ts = [] then Some (vis, fs, found)
      else do {
        (nxt, vis, fs, found, blocks) \<leftarrow>
          vm_threads la h txt i (rev cur_ts) ([], visited_clear (prog_len h) vis, fs, found, []);
        vm_loop k la h txt (i + 1) (restore_order blocks nxt) vis fs found })"

text \<open>The result: whether a match was found, \<open>match_saved\<close>, and the visited set.\<close>

definition vm_exec_range ::
    "lookahead \<Rightarrow> 'a ReCode_scheme \<Rightarrow> string \<Rightarrow> nat \<Rightarrow> nat \<Rightarrow> int list \<Rightarrow> Visited
      \<Rightarrow> (bool \<times> int list \<times> Visited) option" where
  "vm_exec_range la h txt start pc_start match_saved vis = do {
     let fs = replicate (MAX_GROUPS * 2) (- 1);
     let t0 = \<lparr>pc = pc_start, slots = replicate (MAX_GROUPS * 2) (- 1)\<rparr>;
     (got, cur_ts, vis, fs) \<leftarrow>
       add_thread (prog_len h + 1) la h txt start t0 [] (visited_clear (prog_len h) vis) fs;
     let found = (fs ! 0 \<ge> 0 \<and> fs ! 1 \<ge> 0);
     (vis, fs, found) \<leftarrow> vm_loop (length txt + 1 - start) la h txt start cur_ts vis fs found;
     Some (found, if found then copy_slots h fs match_saved else match_saved, vis) }"

text \<open>A lookahead runs with buffers and a visited set of its own; \<open>d\<close> bounds the nesting.\<close>

fun vm_exec_lookahead :: "nat \<Rightarrow> 'a ReCode_scheme \<Rightarrow> string \<Rightarrow> lookahead" where
  "vm_exec_lookahead 0 h txt start pc_start = None"
| "vm_exec_lookahead (Suc d) h txt start pc_start = do {
     (ok, ms, v) \<leftarrow> vm_exec_range (vm_exec_lookahead d h txt) h txt start pc_start
                       (replicate (MAX_GROUPS * 2) (- 1)) (visited_init (prog_len h));
     Some ok }"

text \<open>Lookaheads nest at increasing pcs, so \<open>prog_len\<close> levels are enough.\<close>

definition vm_lookahead :: "'a ReCode_scheme \<Rightarrow> string \<Rightarrow> lookahead" where
  "vm_lookahead h txt = vm_exec_lookahead (prog_len h) h txt"

definition vm_exec ::
    "'a ReCode_scheme \<Rightarrow> string \<Rightarrow> nat \<Rightarrow> int list \<Rightarrow> Visited \<Rightarrow> (bool \<times> int list \<times> Visited) option" where
  "vm_exec h txt start match_saved vis = vm_exec_range (vm_lookahead h txt) h txt start 0 match_saved vis"

end
