(* ===== verification/Regex_Path.thy ===== *)
theory Regex_Path
  imports Regex_Pike "HOL-Library.Multiset"
begin

text \<open>
  The runs of a regex program as paths of single steps, and what one epsilon closure of the
  Pike VM does: the visited set behind the generation counters, the block swaps, and the
  closure as a search that is sound and complete for the epsilon steps.
\<close>

section \<open>The visited set\<close>

text \<open>The interface of a set that is cleared in one operation.\<close>

locale clearable_set =
  fixes inv :: "'v \<Rightarrow> bool" and members :: "'v \<Rightarrow> nat set"
    and clear :: "'v \<Rightarrow> 'v" and add :: "nat \<Rightarrow> 'v \<Rightarrow> 'v" and test :: "'v \<Rightarrow> nat \<Rightarrow> bool" and n :: nat
  assumes inv_clear: "inv v \<Longrightarrow> inv (clear v)"
    and members_clear: "inv v \<Longrightarrow> members (clear v) = {}"
    and inv_add: "inv v \<Longrightarrow> k < n \<Longrightarrow> inv (add k v)"
    and members_add: "inv v \<Longrightarrow> k < n \<Longrightarrow> members (add k v) = insert k (members v)"
    and test_member: "inv v \<Longrightarrow> k < n \<Longrightarrow> test v k \<longleftrightarrow> k \<in> members v"
begin

lemma fold_add:
  "inv v \<Longrightarrow> (\<And>k. k \<in> set ks \<Longrightarrow> k < n) \<Longrightarrow>
    inv (fold add ks v) \<and> members (fold add ks v) = members v \<union> set ks"
  by (induction ks arbitrary: v) (auto simp: inv_add members_add)

lemma after_clear:
  "inv v \<Longrightarrow> (\<And>k. k \<in> set ks \<Longrightarrow> k < n) \<Longrightarrow> j < n \<Longrightarrow> test (fold add ks (clear v)) j \<longleftrightarrow> j \<in> set ks"
  using fold_add [of "clear v" ks] by (simp add: inv_clear members_clear test_member)

end

text \<open>No counter is ahead of the current generation.\<close>

definition vis_inv :: "nat \<Rightarrow> Visited \<Rightarrow> bool" where
  "vis_inv n v \<longleftrightarrow> n \<le> length (gen v) \<and> (\<forall>k < n. gen v ! k \<le> current v)"

definition vset :: "nat \<Rightarrow> Visited \<Rightarrow> nat set" where
  "vset n v = {k. k < n \<and> gen v ! k = current v}"

lemma vis_inv_init: "vis_inv n (visited_init n)"
  by (simp add: vis_inv_def visited_init_def)

lemma word_less_inc: "(a :: 32 word) \<le> c \<Longrightarrow> c + 1 \<noteq> 0 \<Longrightarrow> a < c + 1"
  using unatSuc [of c] by (simp add: word_less_nat_alt word_le_nat_alt add.commute)

lemma vis_clear:
  assumes "vis_inv n v"
  shows "vis_inv n (visited_clear n v)" "vset n (visited_clear n v) = {}"
proof -
  consider "current v + 1 = 0" | "current v + 1 \<noteq> 0" by blast
  then have "vis_inv n (visited_clear n v) \<and> vset n (visited_clear n v) = {}"
  proof cases
    case 1
    then show ?thesis using assms
      by (auto simp: visited_clear_def vis_inv_def vset_def nth_append)
  next
    case 2
    have "gen v ! k < current v + 1" if "k < n" for k
      using word_less_inc [OF _ 2] assms that by (simp add: vis_inv_def)
    then show ?thesis using assms 2
      by (fastforce simp: visited_clear_def vis_inv_def vset_def Let_def)
  qed
  then show "vis_inv n (visited_clear n v)" "vset n (visited_clear n v) = {}" by simp_all
qed

interpretation visited: clearable_set "vis_inv n" "vset n" "visited_clear n" visited_set visited_test n
proof unfold_locales
  fix v k assume i: "vis_inv n v" "k < n"
  then show "vis_inv n (visited_set k v)"
    by (auto simp: vis_inv_def visited_set_def nth_list_update)
  from i show "vset n (visited_set k v) = insert k (vset n v)"
    by (auto simp: vis_inv_def vset_def visited_set_def nth_list_update)
  from i show "visited_test v k = (k \<in> vset n v)"
    by (simp add: visited_test_def vset_def)
qed (simp_all add: vis_clear)

text \<open>C8: The generation counters behave as a set that one increment clears.  After
  \<open>visited_clear\<close> and any marks, a position tests as visited exactly if it was marked since, also
  when the 32-bit generation wraps around to 0 and the counters are zeroed.\<close>

theorem visited_clear_forgets:
  assumes "vis_inv n v" "list_all (\<lambda>k. k < n) ks" "j < n"
  shows "visited_test (fold visited_set ks (visited_clear n v)) j \<longleftrightarrow> j \<in> set ks"
  using visited.after_clear assms by (simp add: list_all_iff)

lemma visited_clear_forgets_witness:
  "visited_test (fold visited_set [1] (visited_clear 3 \<lparr>gen = [- 1, 0, - 1], current = - 1\<rparr>)) 1 \<and>
   \<not> visited_test (fold visited_set [1] (visited_clear 3 \<lparr>gen = [- 1, 0, - 1], current = - 1\<rparr>)) 0"
  using visited_clear_forgets [of 3 "\<lparr>gen = [- 1, 0, - 1], current = - 1\<rparr>" "[1]" 1]
    visited_clear_forgets [of 3 "\<lparr>gen = [- 1, 0, - 1], current = - 1\<rparr>" "[1]" 0]
  by (simp add: vis_inv_def)

section \<open>Reversals\<close>

lemma reverse_thread_range:
  "reverse_thread_range (xs @ ys @ zs) (length xs) (length xs + length ys - 1) = xs @ rev ys @ zs"
proof (induction "length ys" arbitrary: xs ys zs rule: less_induct)
  case less
  show ?case
  proof (cases "length ys < 2")
    case True
    then have "\<not> length xs < length xs + length ys - 1" "rev ys = ys"
      by (auto simp: less_2_cases_iff length_Suc_conv)
    then show ?thesis by (subst reverse_thread_range.simps) simp
  next
    case False
    then obtain a m where am: "ys = a # m" "m \<noteq> []" by (cases ys) auto
    obtain k b where kb: "m = k @ [b]" using am(2) by (metis append_butlast_last_id)
    have ys: "ys = a # k @ [b]" using am(1) kb by simp
    have sw: "(xs @ ys @ zs)[length xs := (xs @ ys @ zs) ! (length xs + length ys - 1),
        length xs + length ys - 1 := (xs @ ys @ zs) ! length xs] = (xs @ [b]) @ k @ (a # zs)"
      by (simp add: ys nth_append list_update_append)
    have ix: "length xs + length ys - 1 - 1 = length (xs @ [b]) + length k - 1" by (simp add: ys)
    have "reverse_thread_range (xs @ ys @ zs) (length xs) (length xs + length ys - 1)
        = reverse_thread_range ((xs @ [b]) @ k @ (a # zs)) (length xs + 1) (length xs + length ys - 1 - 1)"
      by (subst reverse_thread_range.simps, subst if_P) (simp add: ys, simp only: sw)
    also have "\<dots> = reverse_thread_range ((xs @ [b]) @ k @ (a # zs)) (length (xs @ [b])) (length (xs @ [b]) + length k - 1)"
      unfolding ix by simp
    also have "\<dots> = (xs @ [b]) @ rev k @ (a # zs)" by (rule less) (simp add: ys)
    finally show ?thesis by (simp add: ys)
  qed
qed

lemma swap_blocks: "swap_blocks (length xs) (length a) (length b) (xs @ a @ b) = xs @ b @ a"
proof (cases "a = [] \<or> b = []")
  case True
  then show ?thesis by (auto simp: swap_blocks_def)
next
  case False
  have 1: "reverse_thread_range (xs @ a @ b) (length xs) (length xs + length a + length b - 1) = xs @ rev b @ rev a"
    using reverse_thread_range [of xs "a @ b" "[]"] by (simp add: add.assoc)
  have 2: "reverse_thread_range (xs @ rev b @ rev a) (length xs) (length xs + length b - 1) = xs @ b @ rev a"
    using reverse_thread_range [of xs "rev b" "rev a"] by simp
  have 3: "reverse_thread_range (xs @ b @ rev a) (length xs + length b) (length xs + length a + length b - 1) = xs @ b @ a"
    using reverse_thread_range [of "xs @ b" "rev a" "[]"] by (simp add: algebra_simps)
  show ?thesis using False 1 2 3 by (simp add: swap_blocks_def Let_def)
qed

lemma mset_reverse_thread_range:
  "hi < length ts \<or> \<not> lo < hi \<Longrightarrow> mset (reverse_thread_range ts lo hi) = mset ts \<and>
     length (reverse_thread_range ts lo hi) = length ts"
proof (induction ts lo hi rule: reverse_thread_range.induct)
  case (1 ts lo hi)
  show ?case
  proof (cases "lo < hi")
    case False
    then show ?thesis by (subst (1 2) reverse_thread_range.simps) simp
  next
    case True
    have "mset (ts[lo := ts ! hi, hi := ts ! lo]) = mset ts"
      using 1(2) True by (simp add: mset_swap)
    moreover have "mset (reverse_thread_range (ts[lo := ts ! hi, hi := ts ! lo]) (lo + 1) (hi - 1))
        = mset (ts[lo := ts ! hi, hi := ts ! lo]) \<and>
      length (reverse_thread_range (ts[lo := ts ! hi, hi := ts ! lo]) (lo + 1) (hi - 1)) = length (ts[lo := ts ! hi, hi := ts ! lo])"
      by (rule 1(1) [OF True]) (use 1(2) True in auto)
    ultimately show ?thesis using True by (subst (1 2) reverse_thread_range.simps) simp
  qed
qed

lemma mset_reverse_blocks: "length ts = tot \<Longrightarrow> mset (reverse_blocks tot bs ts) = mset ts"
proof (induction bs arbitrary: ts)
  case (Cons b bs)
  obtain s n where b: "b = (s, n)" by fastforce
  have "tot - s - 1 < length ts \<or> \<not> tot - (s + n) < tot - s - 1" using Cons.prems by auto
  from mset_reverse_thread_range [OF this] Cons show ?case by (simp add: b)
qed simp

lemma set_restore_order: "set (restore_order bs ts) = set ts"
proof -
  have "mset (restore_order bs ts) = mset ts"
  proof (cases "length bs > 1")
    case True
    have "mset (reverse_thread_range ts 0 (length ts - 1)) = mset ts \<and>
      length (reverse_thread_range ts 0 (length ts - 1)) = length ts"
      by (rule mset_reverse_thread_range) auto
    with True show ?thesis by (simp add: restore_order_def mset_reverse_blocks)
  qed (simp add: restore_order_def)
  then show ?thesis by (metis set_mset_mset)
qed

section \<open>Paths\<close>

definition zero_width_ops :: "ReOpCode set" where
  "zero_width_ops = position_tests \<union> {OP_SAVE, OP_SPLIT, OP_JUMP, OP_LOOKAHEAD, OP_MATCH}"

definition consuming :: "ReInstr \<Rightarrow> bool" where
  "consuming ins \<longleftrightarrow> opcode ins \<notin> zero_width_ops"

text \<open>Where an instruction leads without consuming a byte at position \<open>i\<close>.\<close>

definition eps_succ :: "lookahead \<Rightarrow> 'a ReCode_scheme \<Rightarrow> string \<Rightarrow> nat \<Rightarrow> nat \<Rightarrow> nat set" where
  "eps_succ la h tx i p =
     (if opcode (prog h ! p) \<in> position_tests
      then (if anchor_ok h (opcode (prog h ! p)) tx i then {p + 1} else {})
      else case opcode (prog h ! p) of
           OP_SAVE \<Rightarrow> {p + 1}
         | OP_JUMP \<Rightarrow> {operand_a (prog h ! p)}
         | OP_SPLIT \<Rightarrow> {operand_a (prog h ! p), operand_b (prog h ! p)}
         | OP_LOOKAHEAD \<Rightarrow> (case la i (p + 1) of
             None \<Rightarrow> {}
           | Some ok \<Rightarrow> if ok \<noteq> (operand_b (prog h ! p) \<noteq> 0) then {operand_a (prog h ! p)} else {})
         | _ \<Rightarrow> {})"

definition save_slot :: "'a ReCode_scheme \<Rightarrow> nat \<Rightarrow> nat \<Rightarrow> int list \<Rightarrow> int list" where
  "save_slot h p i sl =
     (if opcode (prog h ! p) = OP_SAVE then sl[operand_a (prog h ! p) := int i] else sl)"

type_synonym config = "nat \<times> int list \<times> nat"

inductive pstep :: "lookahead \<Rightarrow> 'a ReCode_scheme \<Rightarrow> string \<Rightarrow> config \<Rightarrow> config \<Rightarrow> bool"
  for la :: lookahead and h :: "'a ReCode_scheme" and tx :: string where
  eps: "p < prog_len h \<Longrightarrow> p' \<in> eps_succ la h tx i p \<Longrightarrow>
     pstep la h tx (p, sl, i) (p', save_slot h p i sl, i)"
| chr: "p < prog_len h \<Longrightarrow> consuming (prog h ! p) \<Longrightarrow> i < length tx \<Longrightarrow>
     match_char h (prog h ! p) (tx ! i) = Some True \<Longrightarrow> pstep la h tx (p, sl, i) (p + 1, sl, i + 1)"

inductive_cases pstepE: "pstep la h tx (p, sl, i) c'"

abbreviation path :: "lookahead \<Rightarrow> 'a ReCode_scheme \<Rightarrow> string \<Rightarrow> config \<Rightarrow> config \<Rightarrow> bool" where
  "path la h tx \<equiv> (pstep la h tx)\<^sup>*\<^sup>*"

definition at_match :: "'a ReCode_scheme \<Rightarrow> nat \<Rightarrow> bool" where
  "at_match h p \<longleftrightarrow> p < prog_len h \<and> opcode (prog h ! p) = OP_MATCH"

text \<open>A match from program counter \<open>p\<close> at position \<open>i\<close>, with the slots it ends with.\<close>

definition match_from :: "lookahead \<Rightarrow> 'a ReCode_scheme \<Rightarrow> string \<Rightarrow> config \<Rightarrow> int list \<Rightarrow> nat \<Rightarrow> bool" where
  "match_from la h tx c sl j \<longleftrightarrow> (\<exists>p. path la h tx c (p, sl, j) \<and> at_match h p)"

lemma consuming_no_eps: "consuming (prog h ! p) \<Longrightarrow> eps_succ la h tx i p = {}"
  by (auto simp: eps_succ_def consuming_def zero_width_ops_def split: ReOpCode.splits)

lemma at_match_no_step: "at_match h p \<Longrightarrow> \<not> pstep la h tx (p, sl, i) c"
  by (auto simp: at_match_def eps_succ_def consuming_def zero_width_ops_def position_tests_def elim: pstepE)

section \<open>One epsilon closure\<close>

text \<open>A set of program counters closed under the epsilon steps at \<open>i\<close>, with its threads.\<close>

definition closed_at :: "lookahead \<Rightarrow> 'a ReCode_scheme \<Rightarrow> string \<Rightarrow> nat \<Rightarrow> nat set \<Rightarrow> nat set \<Rightarrow> nat set \<Rightarrow> bool" where
  "closed_at la h tx i P V T \<longleftrightarrow>
     (\<forall>p \<in> P. eps_succ la h tx i p \<inter> {..<prog_len h} \<subseteq> V \<and> opcode (prog h ! p) \<noteq> OP_MATCH \<and>
        (consuming (prog h ! p) \<longrightarrow> p \<in> T))"

lemma closed_at_mono: "closed_at la h tx i P V T \<Longrightarrow> V \<subseteq> V' \<Longrightarrow> T \<subseteq> T' \<Longrightarrow> closed_at la h tx i P V' T'"
  by (fastforce simp: closed_at_def)

lemma closed_at_Un: "closed_at la h tx i P V T \<Longrightarrow> closed_at la h tx i Q V T \<Longrightarrow> closed_at la h tx i (P \<union> Q) V T"
  by (auto simp: closed_at_def)

text \<open>Room for the threads: their program counters are distinct, consuming and visited.\<close>

definition room :: "'a ReCode_scheme \<Rightarrow> Visited \<Rightarrow> ReThread list \<Rightarrow> bool" where
  "room h vis nxt \<longleftrightarrow> distinct (map pc nxt) \<and>
     (\<forall>u \<in> set nxt. pc u \<in> vset (prog_len h) vis \<and> consuming (prog h ! pc u))"

definition few_threads :: "'a ReCode_scheme \<Rightarrow> bool" where
  "few_threads h \<longleftrightarrow> length (filter consuming (prog h)) \<le> MAX_THREADS"

lemma room_length:
  assumes "room h vis nxt" "few_threads h" "p < prog_len h" "consuming (prog h ! p)" "p \<notin> vset (prog_len h) vis"
  shows "length nxt < MAX_THREADS"
proof -
  have fin: "card {k. k < prog_len h \<and> consuming (prog h ! k)} = length (filter consuming (prog h))"
    by (simp add: length_filter_conv_card prog_len_def)
  have sub: "insert p (set (map pc nxt)) \<subseteq> {k. k < prog_len h \<and> consuming (prog h ! k)}"
    using assms(1,3,4) by (auto simp: room_def vset_def)
  have "p \<notin> set (map pc nxt)" using assms(1,5) by (auto simp: room_def)
  then have "card (insert p (set (map pc nxt))) = Suc (length nxt)"
    using assms(1) distinct_card [of "map pc nxt"] by (simp add: room_def)
  moreover have "card (insert p (set (map pc nxt))) \<le> card {k. k < prog_len h \<and> consuming (prog h ! k)}"
    by (rule card_mono [OF _ sub]) simp
  ultimately show ?thesis using assms(2) fin by (simp add: few_threads_def)
qed

text \<open>What a call of \<open>add_thread\<close> at position \<open>i\<close> achieves.\<close>

definition closure_ok ::
    "lookahead \<Rightarrow> 'a ReCode_scheme \<Rightarrow> string \<Rightarrow> nat \<Rightarrow> ReThread \<Rightarrow> ReThread list \<Rightarrow> Visited \<Rightarrow> int list \<Rightarrow> closure \<Rightarrow> bool" where
  "closure_ok la h tx i t nxt vis ms r \<longleftrightarrow>
     (case r of (got, nxt', vis', ms') \<Rightarrow>
        vis_inv (prog_len h) vis' \<and> vset (prog_len h) vis \<subseteq> vset (prog_len h) vis' \<and>
        (\<exists>new. nxt' = nxt @ new \<and> distinct (map pc new) \<and>
           (\<forall>u \<in> set new. pc u \<in> vset (prog_len h) vis' - vset (prog_len h) vis \<and> consuming (prog h ! pc u) \<and>
              path la h tx (pc t, slots t, i) (pc u, slots u, i)) \<and>
           (if got then \<exists>sl. match_from la h tx (pc t, slots t, i) sl i \<and> ms' = copy_slots h sl ms
            else ms' = ms \<and> (pc t < prog_len h \<longrightarrow> pc t \<in> vset (prog_len h) vis') \<and>
              closed_at la h tx i (vset (prog_len h) vis' - vset (prog_len h) vis) (vset (prog_len h) vis') (pc ` set new))))"

lemma closure_room:
  assumes "closure_ok la h tx i t nxt vis ms (got, nxt', vis', ms')" "room h vis nxt"
  shows "room h vis' nxt'"
proof -
  obtain new where n: "nxt' = nxt @ new" "distinct (map pc new)"
    "\<forall>u \<in> set new. pc u \<in> vset (prog_len h) vis' - vset (prog_len h) vis \<and> consuming (prog h ! pc u)"
    "vset (prog_len h) vis \<subseteq> vset (prog_len h) vis'"
    using assms(1) by (auto simp: closure_ok_def)
  then show ?thesis using assms(2) by (fastforce simp: room_def)
qed

text \<open>Nothing to do: the program counter is out of range or already visited.\<close>

lemma closure_skip:
  assumes "vis_inv (prog_len h) vis" "pc t < prog_len h \<Longrightarrow> pc t \<in> vset (prog_len h) vis"
  shows "closure_ok la h tx i t nxt vis ms (False, nxt, vis, ms)"
  using assms by (simp add: closure_ok_def closed_at_def)

lemma vset_marked:
  assumes inv: "vis_inv (prog_len h) vis" and lt: "pc t < prog_len h" and fresh: "pc t \<notin> vset (prog_len h) vis"
  shows "vset (prog_len h) (visited_set (pc t) vis) = insert (pc t) (vset (prog_len h) vis)"
  "vis_inv (prog_len h) (visited_set (pc t) vis)"
  using inv lt by (simp_all add: visited.members_add visited.inv_add)

text \<open>A dead end.\<close>

lemma closure_dead:
  assumes inv: "vis_inv (prog_len h) vis" and lt: "pc t < prog_len h" and fresh: "pc t \<notin> vset (prog_len h) vis"
    and "eps_succ la h tx i (pc t) = {}" "opcode (prog h ! pc t) \<noteq> OP_MATCH" "\<not> consuming (prog h ! pc t)"
  shows "closure_ok la h tx i t nxt vis ms (False, nxt, visited_set (pc t) vis, ms)"
  using fresh assms(4-) by (auto simp: closure_ok_def vset_marked [OF inv lt fresh] closed_at_def)

lemma closure_enqueue:
  assumes inv: "vis_inv (prog_len h) vis" and lt: "pc t < prog_len h" and fresh: "pc t \<notin> vset (prog_len h) vis"
    and "consuming (prog h ! pc t)"
  shows "closure_ok la h tx i t nxt vis ms (False, nxt @ [t], visited_set (pc t) vis, ms)"
  using fresh assms(4) by (auto simp: closure_ok_def vset_marked [OF inv lt fresh] closed_at_def consuming_no_eps)
    (auto simp: consuming_def zero_width_ops_def)

lemma closure_match:
  assumes inv: "vis_inv (prog_len h) vis" and lt: "pc t < prog_len h" and fresh: "pc t \<notin> vset (prog_len h) vis"
    and "opcode (prog h ! pc t) = OP_MATCH"
  shows "closure_ok la h tx i t nxt vis ms (True, nxt, visited_set (pc t) vis, copy_slots h (slots t) ms)"
  using lt assms(4) by (auto simp: closure_ok_def vset_marked [OF inv lt fresh] match_from_def at_match_def)

text \<open>A single successor.\<close>

lemma closure_chain:
  assumes inv: "vis_inv (prog_len h) vis" and lt: "pc t < prog_len h" and fresh: "pc t \<notin> vset (prog_len h) vis"
    and s: "eps_succ la h tx i (pc t) = {p'}" and nm: "opcode (prog h ! pc t) \<noteq> OP_MATCH"
    and nc: "\<not> consuming (prog h ! pc t)"
    and t': "t' = t\<lparr>slots := save_slot h (pc t) i (slots t), pc := p'\<rparr>"
    and ih: "closure_ok la h tx i t' nxt (visited_set (pc t) vis) ms r"
  shows "closure_ok la h tx i t nxt vis ms r"
proof -
  obtain got nxt' vis' ms' where r: "r = (got, nxt', vis', ms')" by (cases r)
  have st: "pstep la h tx (pc t, slots t, i) (pc t', slots t', i)"
    using pstep.eps [OF lt, of p' la tx i "slots t"] s t' by simp
  let ?V = "vset (prog_len h) vis" and ?V' = "vset (prog_len h) vis'"
  obtain new where n: "nxt' = nxt @ new" "distinct (map pc new)" "insert (pc t) ?V \<subseteq> ?V'" "vis_inv (prog_len h) vis'"
    "\<forall>u \<in> set new. pc u \<in> ?V' - insert (pc t) ?V \<and> consuming (prog h ! pc u) \<and>
       path la h tx (pc t', slots t', i) (pc u, slots u, i)"
    "if got then \<exists>sl. match_from la h tx (pc t', slots t', i) sl i \<and> ms' = copy_slots h sl ms
     else ms' = ms \<and> (pc t' < prog_len h \<longrightarrow> pc t' \<in> ?V') \<and> closed_at la h tx i (?V' - insert (pc t) ?V) ?V' (pc ` set new)"
    using ih unfolding r closure_ok_def vset_marked [OF inv lt fresh] prod.case by auto
  have "closed_at la h tx i (?V' - ?V) ?V' (pc ` set new)" if "\<not> got"
  proof -
    have "?V' - ?V = (?V' - insert (pc t) ?V) \<union> {pc t}" using n(3) fresh by auto
    moreover have "closed_at la h tx i {pc t} ?V' (pc ` set new)"
      using n(6) that s nm nc t' by (auto simp: closed_at_def)
    moreover have "closed_at la h tx i (?V' - insert (pc t) ?V) ?V' (pc ` set new)" using n(6) that by simp
    ultimately show ?thesis using closed_at_Un by metis
  qed
  moreover have "\<exists>sl. match_from la h tx (pc t, slots t, i) sl i \<and> ms' = copy_slots h sl ms" if got
    using n(6) that st by (auto simp: match_from_def intro: converse_rtranclp_into_rtranclp)
  moreover have "path la h tx (pc t, slots t, i) (pc u, slots u, i)" if "path la h tx (pc t', slots t', i) (pc u, slots u, i)" for u
    using that st by (rule converse_rtranclp_into_rtranclp [rotated])
  ultimately show ?thesis unfolding r closure_ok_def prod.case
    using n by (intro conjI exI [of _ new]) auto
qed

text \<open>A split whose preferred branch found a match: the other branch is not taken.\<close>

lemma closure_split_cut:
  assumes inv: "vis_inv (prog_len h) vis" and lt: "pc t < prog_len h" and fresh: "pc t \<notin> vset (prog_len h) vis"
    and sp: "opcode (prog h ! pc t) = OP_SPLIT"
    and a: "closure_ok la h tx i (t\<lparr>pc := operand_a (prog h ! pc t)\<rparr>) nxt (visited_set (pc t) vis) ms (True, nxt1, vis1, ms1)"
  shows "closure_ok la h tx i t nxt vis ms (True, nxt1, vis1, ms1)"
proof -
  have "pstep la h tx (pc t, slots t, i) (operand_a (prog h ! pc t), slots t, i)"
    using pstep.eps [OF lt, of "operand_a (prog h ! pc t)" la tx i "slots t"] sp
    by (simp add: eps_succ_def position_tests_def save_slot_def)
  then have st: "path la h tx (operand_a (prog h ! pc t), slots t, i) c \<Longrightarrow> path la h tx (pc t, slots t, i) c" for c
    by (rule converse_rtranclp_into_rtranclp)
  obtain new sl where "nxt1 = nxt @ new" "distinct (map pc new)" "vis_inv (prog_len h) vis1"
    "insert (pc t) (vset (prog_len h) vis) \<subseteq> vset (prog_len h) vis1"
    "\<forall>u \<in> set new. pc u \<in> vset (prog_len h) vis1 - insert (pc t) (vset (prog_len h) vis) \<and> consuming (prog h ! pc u) \<and>
       path la h tx (operand_a (prog h ! pc t), slots t, i) (pc u, slots u, i)"
    "match_from la h tx (operand_a (prog h ! pc t), slots t, i) sl i" "ms1 = copy_slots h sl ms"
    using a unfolding closure_ok_def vset_marked [OF inv lt fresh] prod.case by auto
  then show ?thesis unfolding closure_ok_def prod.case match_from_def
    by (intro conjI exI [of _ new]) (auto intro: st)
qed

text \<open>A split whose two branches are both taken; the second block is moved before the first.\<close>

lemma closure_split:
  assumes inv: "vis_inv (prog_len h) vis" and lt: "pc t < prog_len h" and fresh: "pc t \<notin> vset (prog_len h) vis"
    and sp: "opcode (prog h ! pc t) = OP_SPLIT"
    and a: "closure_ok la h tx i (t\<lparr>pc := operand_a (prog h ! pc t)\<rparr>) nxt (visited_set (pc t) vis) ms (False, nxt1, vis1, ms)"
    and b: "closure_ok la h tx i (t\<lparr>pc := operand_b (prog h ! pc t)\<rparr>) nxt1 vis1 ms (got, nxt2, vis2, ms2)"
    and nxt': "nxt' = swap_blocks (length nxt) (length nxt1 - length nxt) (length nxt2 - length nxt1) nxt2"
  shows "closure_ok la h tx i t nxt vis ms (got, nxt', vis2, ms2)"
proof -
  let ?a = "operand_a (prog h ! pc t)" and ?b = "operand_b (prog h ! pc t)"
  let ?V = "vset (prog_len h) vis" and ?V1 = "vset (prog_len h) vis1" and ?V2 = "vset (prog_len h) vis2"
  have es: "eps_succ la h tx i (pc t) = {?a, ?b}" using sp by (simp add: eps_succ_def position_tests_def)
  have sts: "pstep la h tx (pc t, slots t, i) (?a, slots t, i)" "pstep la h tx (pc t, slots t, i) (?b, slots t, i)"
    using pstep.eps [OF lt, of ?a la tx i "slots t"] pstep.eps [OF lt, of ?b la tx i "slots t"] sp es
    by (simp_all add: save_slot_def)
  obtain na where na: "nxt1 = nxt @ na" "distinct (map pc na)" "insert (pc t) ?V \<subseteq> ?V1"
    "\<forall>u \<in> set na. pc u \<in> ?V1 - insert (pc t) ?V \<and> consuming (prog h ! pc u) \<and>
       path la h tx (?a, slots t, i) (pc u, slots u, i)"
    "?a < prog_len h \<longrightarrow> ?a \<in> ?V1" "closed_at la h tx i (?V1 - insert (pc t) ?V) ?V1 (pc ` set na)"
    using a unfolding closure_ok_def vset_marked [OF inv lt fresh] prod.case by auto
  obtain nb where nb: "nxt2 = nxt1 @ nb" "distinct (map pc nb)" "?V1 \<subseteq> ?V2" "vis_inv (prog_len h) vis2"
    "\<forall>u \<in> set nb. pc u \<in> ?V2 - ?V1 \<and> consuming (prog h ! pc u) \<and> path la h tx (?b, slots t, i) (pc u, slots u, i)"
    "got \<longrightarrow> (\<exists>sl. match_from la h tx (?b, slots t, i) sl i \<and> ms2 = copy_slots h sl ms)"
    "\<not> got \<longrightarrow> ms2 = ms \<and> (?b < prog_len h \<longrightarrow> ?b \<in> ?V2) \<and> closed_at la h tx i (?V2 - ?V1) ?V2 (pc ` set nb)"
    using b unfolding closure_ok_def prod.case by (cases got) auto
  have order: "nxt' = nxt @ nb @ na" using nxt' na(1) nb(1) swap_blocks [of nxt na nb] by simp
  have new: "distinct (map pc (nb @ na))" using na(2,4) nb(2,5) by auto
  have paths: "\<forall>u \<in> set (nb @ na). pc u \<in> ?V2 - ?V \<and> consuming (prog h ! pc u) \<and>
      path la h tx (pc t, slots t, i) (pc u, slots u, i)"
    using na(3,4) nb(3,5) converse_rtranclp_into_rtranclp [of "pstep la h tx", OF sts(1)]
      converse_rtranclp_into_rtranclp [of "pstep la h tx", OF sts(2)] by fastforce
  have "closed_at la h tx i (?V2 - ?V) ?V2 (pc ` set (nb @ na))" if "\<not> got"
  proof -
    have "?V2 - ?V \<subseteq> (?V2 - ?V1) \<union> (?V1 - insert (pc t) ?V) \<union> {pc t}" by auto
    moreover have "closed_at la h tx i {pc t} ?V2 (pc ` set (nb @ na))"
      using na(3,5) nb(3,7) that es sp
      by (auto simp: closed_at_def consuming_def zero_width_ops_def)
    moreover have "closed_at la h tx i (?V1 - insert (pc t) ?V) ?V2 (pc ` set (nb @ na))"
      by (rule closed_at_mono [OF na(6) nb(3)]) auto
    moreover have "closed_at la h tx i (?V2 - ?V1) ?V2 (pc ` set (nb @ na))"
      by (rule closed_at_mono [of la h tx i "?V2 - ?V1" ?V2 "pc ` set nb"]) (use nb(7) that in auto)
    ultimately show ?thesis unfolding closed_at_def by blast
  qed
  moreover have "\<exists>sl. match_from la h tx (pc t, slots t, i) sl i \<and> ms2 = copy_slots h sl ms" if "got"
    using nb(6) that sts(2) by (auto simp: match_from_def intro: converse_rtranclp_into_rtranclp)
  ultimately show ?thesis unfolding closure_ok_def prod.case
    using order new paths nb(3,4,7) na(3) by (intro conjI exI [of _ "nb @ na"]) auto
qed

text \<open>The closure theorem, by induction on the fuel.\<close>

lemma add_thread_ok:
  assumes "few_threads h"
  shows "add_thread n la h tx i t nxt vis ms = Some r \<Longrightarrow> vis_inv (prog_len h) vis \<Longrightarrow> room h vis nxt \<Longrightarrow>
    closure_ok la h tx i t nxt vis ms r"
proof (induction n arbitrary: t nxt vis ms r)
  case 0
  then show ?case by simp
next
  case (Suc n)
  show ?case
  proof (cases "pc t < prog_len h \<and> pc t \<notin> vset (prog_len h) vis")
    case False
    then have "r = (False, nxt, vis, ms)"
      using Suc.prems(1,2) visited.test_member by (auto split: if_splits)
    then show ?thesis using closure_skip [OF Suc.prems(2)] False by auto
  next
    case True
    let ?p = "pc t" and ?vis = "visited_set (pc t) vis" and ?ins = "prog h ! pc t"
    have lt: "?p < prog_len h" and fresh: "?p \<notin> vset (prog_len h) vis" using True by auto
    note ctx = Suc.prems(2) lt fresh
    have inv': "vis_inv (prog_len h) ?vis" by (rule vset_marked(2) [OF ctx])
    have room': "room h ?vis nxt" using Suc.prems(3) vset_marked(1) [OF ctx] by (auto simp: room_def)
    have nt: "\<not> visited_test vis ?p" using visited.test_member [OF Suc.prems(2) lt] fresh by simp
    have nge: "\<not> prog_len h \<le> ?p" using lt by simp
    note run = Suc.prems(1) [unfolded add_thread.simps if_not_P [OF nt] if_not_P [OF nge] Let_def]
    have chain: "closure_ok la h tx i t nxt vis ms r"
      if "eps_succ la h tx i ?p = {p'}" "opcode ?ins \<noteq> OP_MATCH" "\<not> consuming ?ins"
        "add_thread n la h tx i (t\<lparr>slots := save_slot h ?p i (slots t), pc := p'\<rparr>) nxt ?vis ms = Some r" for p'
      by (rule closure_chain [OF ctx that(1-3) refl Suc.IH [OF that(4) inv' room']])
    have dead: "closure_ok la h tx i t nxt vis ms r"
      if "eps_succ la h tx i ?p = {}" "opcode ?ins \<noteq> OP_MATCH" "\<not> consuming ?ins" "r = (False, nxt, ?vis, ms)"
      unfolding that(4) by (rule closure_dead [OF ctx that(1-3)])
    show ?thesis
    proof (cases "opcode ?ins \<in> position_tests")
      case pt: True
      then have ops: "opcode ?ins \<noteq> OP_MATCH" "\<not> consuming ?ins" "opcode ?ins \<noteq> OP_SAVE"
        by (auto simp: position_tests_def consuming_def zero_width_ops_def)
      show ?thesis
      proof (cases "anchor_ok h (opcode ?ins) tx i")
        case True
        then show ?thesis using run pt ops
          by (intro chain [of "?p + 1"]) (simp_all add: eps_succ_def save_slot_def)
      next
        case False
        then show ?thesis using run pt ops by (intro dead) (simp_all add: eps_succ_def)
      qed
    next
      case npt: False
      consider (save) "opcode ?ins = OP_SAVE" | (jump) "opcode ?ins = OP_JUMP" | (split) "opcode ?ins = OP_SPLIT"
        | (look) "opcode ?ins = OP_LOOKAHEAD" | (mat) "opcode ?ins = OP_MATCH" | (cons) "consuming ?ins"
        using npt by (auto simp: consuming_def zero_width_ops_def)
      then show ?thesis
      proof cases
        case save
        then show ?thesis using run npt
          by (intro chain [of "?p + 1"])
            (auto simp: eps_succ_def save_slot_def consuming_def zero_width_ops_def split: if_splits)
      next
        case jump
        then show ?thesis using run npt
          by (intro chain [of "operand_a ?ins"])
            (auto simp: eps_succ_def save_slot_def consuming_def zero_width_ops_def)
      next
        case look
        then obtain ok where ok: "la i (?p + 1) = Some ok"
          "(if ok \<noteq> (operand_b ?ins \<noteq> 0) then add_thread n la h tx i (t\<lparr>pc := operand_a ?ins\<rparr>) nxt ?vis ms
            else Some (False, nxt, ?vis, ms)) = Some r"
          using run npt by (auto split: bind_splits)
        have es: "eps_succ la h tx i ?p = (if ok \<noteq> (operand_b ?ins \<noteq> 0) then {operand_a ?ins} else {})"
          using look npt ok(1) by (simp add: eps_succ_def)
        have ops: "opcode ?ins \<noteq> OP_MATCH" "\<not> consuming ?ins" using look by (auto simp: consuming_def zero_width_ops_def)
        show ?thesis
        proof (cases "ok \<noteq> (operand_b ?ins \<noteq> 0)")
          case True
          then show ?thesis using ok(2) es ops look
            by (intro chain [of "operand_a ?ins"]) (simp_all add: save_slot_def)
        next
          case False
          then show ?thesis using ok(2) es ops by (intro dead) auto
        qed
      next
        case mat
        then have "r = (True, nxt, ?vis, copy_slots h (slots t) ms)" using run npt by simp
        then show ?thesis using closure_match [OF ctx mat] by simp
      next
        case cons
        have "length nxt < MAX_THREADS" by (rule room_length [OF Suc.prems(3) assms lt cons fresh])
        then have "r = (False, nxt @ [t], ?vis, ms)"
          using run npt cons by (auto simp: consuming_def zero_width_ops_def split: ReOpCode.splits)
        then show ?thesis using closure_enqueue [OF ctx cons] by simp
      next
        case split
        obtain ga nxt1 vis1 ms1 where a: "add_thread n la h tx i (t\<lparr>pc := operand_a ?ins\<rparr>) nxt ?vis ms = Some (ga, nxt1, vis1, ms1)"
          using run npt split by (auto split: bind_splits)
        note ca = Suc.IH [OF a inv' room']
        show ?thesis
        proof (cases ga)
          case True
          then have "nxt1 = swap_blocks (length nxt) (length nxt1 - length nxt) 0 nxt1" by (simp add: swap_blocks_def)
          then have "r = (True, nxt1, vis1, ms1)" using run npt split a True by (auto simp: swap_blocks_def)
          then show ?thesis using closure_split_cut [OF ctx split] ca True by simp
        next
          case False
          then have gaF: "ga = False" by simp
          from False have ms1: "ms1 = ms" using ca by (auto simp: closure_ok_def)
          obtain gb nxt2 vis2 ms2 where b: "add_thread n la h tx i (t\<lparr>pc := operand_b ?ins\<rparr>) nxt1 vis1 ms = Some (gb, nxt2, vis2, ms2)"
            "r = (gb, swap_blocks (length nxt) (length nxt1 - length nxt) (length nxt2 - length nxt1) nxt2, vis2, ms2)"
            using run npt split a False ms1 by (auto split: bind_splits)
          have inv1: "vis_inv (prog_len h) vis1" using ca by (simp add: closure_ok_def)
          note cb = Suc.IH [OF b(1) inv1 closure_room [OF ca [unfolded gaF ms1] room']]
          show ?thesis unfolding b(2)
            by (rule closure_split [OF ctx split ca [unfolded gaF ms1] cb refl])
        qed
      qed
    qed
  qed
qed

end
