(* ===== verification/Regex_Code.thy ===== *)
theory Regex_Code
  imports Regex_Compile
begin

text \<open>
  The abstract syntax of the regex language and the code each construct stands for, and the
  proof that the emission of quantifiers and counted repetitions, with its in-place shifts,
  copies and relocations, produces exactly that code.  \<open>codegen\<close> is the specification: code is
  a list of instructions placed at an address, and it contains no address outside itself and
  its end.
\<close>

section \<open>Regular expressions and their code\<close>

text \<open>
  \<open>Ins\<close> is one simple instruction: a test of one byte, a test of the position, or a SAVE.  A
  quantifier carries whether it is lazy; a lookahead whether it is negative (1) or not (0).
\<close>

datatype rx =
    Eps | Ins ReOpCode nat | Seq rx rx | Opt bool rx | Star bool rx | Plus bool rx
  | Alt rx rx | Look nat rx

definition mk_instr :: "ReOpCode \<Rightarrow> nat \<Rightarrow> nat \<Rightarrow> ReInstr" where
  "mk_instr p a b = \<lparr>opcode = p, operand_a = a, operand_b = b\<rparr>"

fun code_len :: "rx \<Rightarrow> nat" where
  "code_len Eps = 0"
| "code_len (Ins p a) = 1"
| "code_len (Seq r s) = code_len r + code_len s"
| "code_len (Opt z r) = code_len r + 1"
| "code_len (Star z r) = code_len r + 2"
| "code_len (Plus z r) = code_len r + 1"
| "code_len (Alt r s) = code_len r + code_len s + 2"
| "code_len (Look n r) = code_len r + 2"

text \<open>A SPLIT that prefers \<open>x\<close>, or \<open>y\<close> when lazy.\<close>

definition split_instr :: "bool \<Rightarrow> nat \<Rightarrow> nat \<Rightarrow> ReInstr" where
  "split_instr z x y = (if z then mk_instr OP_SPLIT y x else mk_instr OP_SPLIT x y)"

fun codegen :: "nat \<Rightarrow> rx \<Rightarrow> ReInstr list" where
  "codegen L Eps = []"
| "codegen L (Ins p a) = [mk_instr p a 0]"
| "codegen L (Seq r s) = codegen L r @ codegen (L + code_len r) s"
| "codegen L (Opt z r) = split_instr z (L + 1) (L + 1 + code_len r) # codegen (L + 1) r"
| "codegen L (Star z r) =
     split_instr z (L + 1) (L + 2 + code_len r) # codegen (L + 1) r @ [mk_instr OP_JUMP L 0]"
| "codegen L (Plus z r) = codegen L r @ [split_instr z L (L + 1 + code_len r)]"
| "codegen L (Alt r s) =
     mk_instr OP_SPLIT (L + 1) (L + 2 + code_len r) # codegen (L + 1) r @
     mk_instr OP_JUMP (L + 2 + code_len r + code_len s) 0 # codegen (L + 2 + code_len r) s"
| "codegen L (Look n r) =
     mk_instr OP_LOOKAHEAD (L + 2 + code_len r) n # codegen (L + 1) r @ [mk_instr OP_MATCH 0 0]"

lemma length_codegen [simp]: "length (codegen L r) = code_len r"
  by (induction r arbitrary: L) simp_all

text \<open>The instructions that \<open>Ins\<close> may hold.\<close>

definition simple_op :: "ReOpCode \<Rightarrow> bool" where
  "simple_op p \<longleftrightarrow> p \<notin> {OP_SPLIT, OP_JUMP, OP_LOOKAHEAD, OP_MATCH}"

text \<open>
  Well-formed syntax: simple instructions only, classes among the first \<open>nc\<close>, slots of the groups
  up to \<open>ng\<close>, group 0 excluded.
\<close>

fun wf_rx :: "nat \<Rightarrow> nat \<Rightarrow> rx \<Rightarrow> bool" where
  "wf_rx nc ng Eps = True"
| "wf_rx nc ng (Ins p a) =
     (simple_op p \<and> (p \<in> {OP_CLASS, OP_NCLASS} \<longrightarrow> a < nc) \<and> (p = OP_SAVE \<longrightarrow> 2 \<le> a \<and> a \<le> 2 * ng + 1))"
| "wf_rx nc ng (Seq r s) = (wf_rx nc ng r \<and> wf_rx nc ng s)"
| "wf_rx nc ng (Opt z r) = wf_rx nc ng r"
| "wf_rx nc ng (Star z r) = wf_rx nc ng r"
| "wf_rx nc ng (Plus z r) = wf_rx nc ng r"
| "wf_rx nc ng (Alt r s) = (wf_rx nc ng r \<and> wf_rx nc ng s)"
| "wf_rx nc ng (Look n r) = wf_rx nc ng r"

lemma wf_rx_mono: "wf_rx nc ng r \<Longrightarrow> nc \<le> nc' \<Longrightarrow> ng \<le> ng' \<Longrightarrow> wf_rx nc' ng' r"
  by (induction r) auto

section \<open>Addresses in code\<close>

definition targets :: "ReInstr \<Rightarrow> nat set" where
  "targets ins =
     (case opcode ins of
        OP_JUMP \<Rightarrow> {operand_a ins}
      | OP_LOOKAHEAD \<Rightarrow> {operand_a ins}
      | OP_SPLIT \<Rightarrow> {operand_a ins, operand_b ins}
      | _ \<Rightarrow> {})"

lemma map_targets_cong: "(\<And>t. t \<in> targets ins \<Longrightarrow> f t = g t) \<Longrightarrow> map_targets f ins = map_targets g ins"
  by (auto simp: targets_def map_targets_def split: ReOpCode.splits)

lemma map_targets_id: "(\<And>t. t \<in> targets ins \<Longrightarrow> f t = t) \<Longrightarrow> map_targets f ins = ins"
  by (auto simp: targets_def map_targets_def split: ReOpCode.splits)

lemma map_targets_mk [simp]:
  "map_targets f (mk_instr OP_JUMP a b) = mk_instr OP_JUMP (f a) b"
  "map_targets f (mk_instr OP_LOOKAHEAD a b) = mk_instr OP_LOOKAHEAD (f a) b"
  "map_targets f (mk_instr OP_SPLIT a b) = mk_instr OP_SPLIT (f a) (f b)"
  "map_targets f (mk_instr OP_MATCH a b) = mk_instr OP_MATCH a b"
  "map_targets f (split_instr z a b) = split_instr z (f a) (f b)"
  by (simp_all add: map_targets_def mk_instr_def split_instr_def)

lemma map_targets_simple: "simple_op p \<Longrightarrow> map_targets f (mk_instr p a b) = mk_instr p a b"
  by (cases p) (simp_all add: map_targets_def mk_instr_def simple_op_def)

lemma targets_mk [simp]:
  "targets (mk_instr OP_JUMP a b) = {a}" "targets (mk_instr OP_LOOKAHEAD a b) = {a}"
  "targets (mk_instr OP_SPLIT a b) = {a, b}" "targets (mk_instr OP_MATCH a b) = {}"
  "targets (split_instr z a b) = {a, b}"
  by (auto simp: targets_def mk_instr_def split_instr_def)

lemma targets_simple: "simple_op p \<Longrightarrow> targets (mk_instr p a b) = {}"
  by (cases p) (simp_all add: targets_def mk_instr_def simple_op_def)

text \<open>Code is closed: it refers only to itself and to its end.\<close>

lemma codegen_closed:
  "wf_rx nc ng r \<Longrightarrow> ins \<in> set (codegen L r) \<Longrightarrow> t \<in> targets ins \<Longrightarrow> L \<le> t \<and> t \<le> L + code_len r"
proof (induction r arbitrary: L)
  case (Ins p a)
  then show ?case by (auto simp: targets_simple)
qed fastforce+

text \<open>Moving code: every address is shifted along.\<close>

lemma codegen_move:
  "wf_rx nc ng r \<Longrightarrow> (\<And>t. L \<le> t \<Longrightarrow> t \<le> L + code_len r \<Longrightarrow> f t = t - L + M) \<Longrightarrow>
   map (map_targets f) (codegen L r) = codegen M r"
proof (induction r arbitrary: L M)
  case (Ins p a)
  then show ?case by (simp add: map_targets_simple)
qed (simp_all add: algebra_simps)

text \<open>A prefix whose addresses do not pass its end.\<close>

definition tgt_ok :: "ReInstr list \<Rightarrow> bool" where
  "tgt_ok p \<longleftrightarrow> (\<forall>ins \<in> set p. \<forall>t \<in> targets ins. t \<le> length p)"

lemma tgt_ok_append_code: "tgt_ok p \<Longrightarrow> wf_rx nc ng r \<Longrightarrow> tgt_ok (p @ codegen (length p) r)"
  unfolding tgt_ok_def using codegen_closed by (fastforce simp del: codegen.simps)

lemma tgt_ok_append: "tgt_ok p \<Longrightarrow> (\<And>ins t. ins \<in> set q \<Longrightarrow> t \<in> targets ins \<Longrightarrow> t \<le> length p + length q)
    \<Longrightarrow> tgt_ok (p @ q)"
  unfolding tgt_ok_def by fastforce

section \<open>The program and its allocation\<close>

text \<open>The handle with a new program: only the program and its capacity change.\<close>

definition code_cap :: "ReCode \<Rightarrow> bool" where
  "code_cap h \<longleftrightarrow> prog_len h \<le> prog_cap h"

definition same_but_prog :: "ReCode \<Rightarrow> ReInstr list \<Rightarrow> ReCode \<Rightarrow> bool" where
  "same_but_prog h q h' \<longleftrightarrow> (\<exists>k. h' = h\<lparr>prog_cap := k, prog := q\<rparr> \<and> length q \<le> k)"

lemma same_but_progD:
  assumes "same_but_prog h q h'"
  shows "prog h' = q" "prog_len h' = length q" "code_cap h'" "flags h' = flags h" "n_groups h' = n_groups h"
    "classes h' = classes h" "n_classes h' = n_classes h" "named h' = named h"
  using assms by (auto simp: same_but_prog_def prog_len_def code_cap_def)

lemma same_but_prog_trans: "same_but_prog h q h' \<Longrightarrow> same_but_prog h' q' h'' \<Longrightarrow> same_but_prog h q' h''"
  by (auto simp: same_but_prog_def)

lemma same_but_prog_refl: "code_cap h \<Longrightarrow> same_but_prog h (prog h) h"
  by (auto simp: same_but_prog_def code_cap_def prog_len_def intro: exI [of _ "prog_cap h"])

lemma emit_fails: "prog_len h \<ge> MAX_INSTRS - 1 \<Longrightarrow> emit h p a b = (- 1, h)"
  by (simp add: emit_def)

lemma emit_appends:
  assumes "code_cap h" "prog_len h < MAX_INSTRS - 1"
  obtains h' where "emit h p a b = (int (prog_len h), h')"
    "same_but_prog h (prog h @ [mk_instr p a b]) h'"
proof -
  let ?k = "if prog_cap h \<noteq> 0 then prog_cap h * 2 else 16"
  let ?c = "if prog_len h \<ge> prog_cap h then (if ?k > MAX_INSTRS then MAX_INSTRS else ?k) else prog_cap h"
  have "prog_len h < ?c" using assms by (auto simp: code_cap_def MAX_INSTRS_def)
  then have "same_but_prog h (prog h @ [mk_instr p a b]) (h\<lparr>prog_cap := ?c, prog := prog h @ [mk_instr p a b]\<rparr>)"
    unfolding same_but_prog_def by (intro exI [of _ ?c]) (simp add: prog_len_def)
  moreover have "emit h p a b = (int (prog_len h), h\<lparr>prog_cap := ?c, prog := prog h @ [mk_instr p a b]\<rparr>)"
    using assms by (auto simp: emit_def Let_def prog_len_def mk_instr_def)
  ultimately show ?thesis by (rule that [rotated])
qed

lemma reserve_fails: "prog_len h + e > MAX_INSTRS \<Longrightarrow> re_prog_reserve h e = (False, h)"
  by (simp add: re_prog_reserve_def Let_def)

lemma reserve_succeeds:
  assumes "code_cap h" "prog_len h + e \<le> MAX_INSTRS"
  obtains h' where "re_prog_reserve h e = (True, h')" "same_but_prog h (prog h) h'"
    "prog_len h + e \<le> prog_cap h'"
proof -
  let ?n = "double_to (if prog_cap h \<noteq> 0 then prog_cap h else 16) (prog_len h + e)"
  let ?c = "if prog_len h + e \<le> prog_cap h then prog_cap h else if ?n > MAX_INSTRS then MAX_INSTRS else ?n"
  have "prog_len h + e \<le> ?n" by (intro double_to_props [THEN conjunct1]) simp
  then have c: "prog_len h + e \<le> ?c" using assms(2) by auto
  moreover have "re_prog_reserve h e = (True, h\<lparr>prog_cap := ?c\<rparr>)"
    using assms(2) by (simp add: re_prog_reserve_def Let_def)
  moreover have "same_but_prog h (prog h) (h\<lparr>prog_cap := ?c\<rparr>)"
    using c by (auto simp: same_but_prog_def prog_len_def intro!: exI [of _ ?c])
  ultimately show ?thesis by (intro that) auto
qed

section \<open>The in-place shift\<close>

text \<open>
  Opening a slot before a body and relocating: the prefix keeps its addresses, the body's move
  along with it.
\<close>

definition bump :: "nat \<Rightarrow> nat \<Rightarrow> nat" where
  "bump start t = (if start \<le> t then t + 1 else t)"

lemma fixup_shift_nth:
  "i < length r \<Longrightarrow> re_fixup_pcs_after_shift old shift lim r ! i =
     (if lim \<le> i \<or> old \<le> i \<and> i < old + shift then r ! i
      else map_targets (\<lambda>t. if (if old + shift \<le> i then old \<le> t else old < t) then t + shift else t) (r ! i))"
  by (simp add: re_fixup_pcs_after_shift_def Let_def del: upt_Suc)

lemma fixup_shift:
  assumes "tgt_ok p"
  shows "re_fixup_pcs_after_shift (length p) 1 (length (p @ x # q)) (p @ x # q)
    = p @ x # map (map_targets (bump (length p))) q"
proof (rule nth_equalityI)
  fix i assume "i < length (re_fixup_pcs_after_shift (length p) 1 (length (p @ x # q)) (p @ x # q))"
  then have i: "i < length p + 1 + length q" by (simp add: re_fixup_pcs_after_shift_def Let_def)
  consider "i < length p" | "i = length p" | "length p < i" by linarith
  then show "re_fixup_pcs_after_shift (length p) 1 (length (p @ x # q)) (p @ x # q) ! i
    = (p @ x # map (map_targets (bump (length p))) q) ! i"
  proof cases
    case 1
    have "map_targets (\<lambda>t. if length p < t then t + Suc 0 else t) (p ! i) = p ! i"
    proof (rule map_targets_id)
      fix t assume "t \<in> targets (p ! i)"
      then have "t \<le> length p" using assms 1 by (auto simp: tgt_ok_def)
      then show "(if length p < t then t + Suc 0 else t) = t" by simp
    qed
    with 1 show ?thesis by (simp add: fixup_shift_nth nth_append)
  next
    case 2
    then show ?thesis by (simp add: fixup_shift_nth)
  next
    case 3
    with i show ?thesis by (auto simp: fixup_shift_nth nth_append nth_Cons' bump_def
      intro!: map_targets_cong)
  qed
qed (simp add: re_fixup_pcs_after_shift_def Let_def)

lemma bump_codegen: "wf_rx nc ng r \<Longrightarrow> map (map_targets (bump L)) (codegen L r) = codegen (L + 1) r"
  by (rule codegen_move) (simp_all add: bump_def)

text \<open>Reserve, open the slot, relocate: the first half of \<open>?\<close>, \<open>*\<close> and of every alternation.\<close>

lemma open_shift:
  assumes "code_cap h" "prog h = p @ q" "tgt_ok p" "prog_len h < MAX_INSTRS"
  obtains h1 h2 x where "re_prog_reserve h 1 = (True, h1)" "open_slot (length p) h1 = Some h2"
    "same_but_prog h (p @ x # map (map_targets (bump (length p))) q)
       (h2\<lparr>prog := re_fixup_pcs_after_shift (length p) 1 (prog_len h2) (prog h2)\<rparr>)"
    "prog_len h2 = prog_len h + 1"
proof -
  obtain h1 where h1: "re_prog_reserve h 1 = (True, h1)" "same_but_prog h (prog h) h1"
    "prog_len h + 1 \<le> prog_cap h1"
    using reserve_succeeds [OF assms(1), of 1] assms(4) by auto
  let ?x = "if length p < prog_len h1 then prog h1 ! length p else \<lparr>opcode = OP_CHAR, operand_a = 0, operand_b = 0\<rparr>"
  note p1 = same_but_progD [OF h1(2)]
  let ?h2 = "h1\<lparr>prog := p @ ?x # q\<rparr>"
  have o: "open_slot (length p) h1 = Some ?h2"
    using h1(3) p1(1,2) assms(2) by (simp add: open_slot_def prog_len_def)
  have "same_but_prog h (p @ ?x # map (map_targets (bump (length p))) q)
      (?h2\<lparr>prog := re_fixup_pcs_after_shift (length p) 1 (prog_len ?h2) (prog ?h2)\<rparr>)"
  proof -
    have "re_fixup_pcs_after_shift (length p) 1 (prog_len ?h2) (prog ?h2)
        = p @ ?x # map (map_targets (bump (length p))) q"
      using fixup_shift [OF assms(3), of ?x q] by (simp add: prog_len_def)
    moreover have "h1 = h\<lparr>prog_cap := prog_cap h1\<rparr>"
      using h1(2) by (auto simp: same_but_prog_def)
    ultimately show ?thesis
      using h1(3) assms(2) unfolding same_but_prog_def
      by (intro exI [of _ "prog_cap h1"]) (metis (no_types, lifting) ReCode.surjective
        ReCode.update_convs(3,4) length_append length_Cons length_map add_Suc_right Suc_eq_plus1 prog_len_def)
  qed
  moreover have "prog_len ?h2 = prog_len h + 1" using assms(2) by (simp add: prog_len_def)
  ultimately show ?thesis using h1(1) o by (intro that)
qed

lemma set_instr_at:
  assumes "same_but_prog h (p @ x # q) h'"
  obtains h'' where "set_instr (int (length p)) f h' = Some h''" "same_but_prog h (p @ f x # q) h''"
proof
  show "set_instr (int (length p)) f h' = Some (h'\<lparr>prog := p @ f x # q\<rparr>)"
    using same_but_progD(1,2) [OF assms] by (simp add: set_instr_def list_update_append)
  show "same_but_prog h (p @ f x # q) (h'\<lparr>prog := p @ f x # q\<rparr>)"
    using assms by (auto simp: same_but_prog_def)
qed

section \<open>Quantifiers\<close>

text \<open>The program after a quantifier on an arbitrary body, in terms of the body's relocation.\<close>

lemma apply_quantifier_body:
  assumes "code_cap h" "prog h = p @ q" "tgt_ok p" "qc \<in> {CHR ''?'', CHR ''*'', CHR ''+''}"
  shows "\<exists>res h'. apply_quantifier h (length p) qc z = Some (res, h') \<and> code_cap h' \<and>
    (res < 0 \<or> res = int (prog_len h') \<and>
      same_but_prog h
        (if qc = CHR ''?'' then p @ split_instr z (length p + 1) (length p + 1 + length q)
            # map (map_targets (bump (length p))) q
         else if qc = CHR ''*'' then p @ split_instr z (length p + 1) (length p + 2 + length q)
            # map (map_targets (bump (length p))) q @ [mk_instr OP_JUMP (length p) 0]
         else p @ q @ [split_instr z (length p) (length p + 1 + length q)]) h')"
proof -
  have len: "prog_len h = length p + length q" using assms(2) by (simp add: prog_len_def)
  consider "qc = CHR ''?''" | "qc = CHR ''*''" | "qc = CHR ''+''" using assms(4) by auto
  then show ?thesis
  proof cases
    case 1
    consider "prog_len h - length p > MAX_INSTRS - 3 \<or> prog_len h \<ge> MAX_INSTRS"
      | "\<not> prog_len h - length p > MAX_INSTRS - 3" "prog_len h < MAX_INSTRS" by linarith
    then show ?thesis
    proof cases
      case 1
      then show ?thesis using \<open>qc = CHR ''?''\<close> assms(1) reserve_fails [of h 1]
        by (auto simp: apply_quantifier_def Let_def)
    next
      case 2
      obtain h1 h2 x where o: "re_prog_reserve h 1 = (True, h1)" "open_slot (length p) h1 = Some h2"
        "same_but_prog h (p @ x # map (map_targets (bump (length p))) q)
           (h2\<lparr>prog := re_fixup_pcs_after_shift (length p) 1 (prog_len h2) (prog h2)\<rparr>)"
        "prog_len h2 = prog_len h + 1"
        by (rule open_shift [OF assms(1-3) 2(2)]) (rule that)
      let ?f = "\<lambda>i. if z then i\<lparr>opcode := OP_SPLIT, operand_a := prog_len h + 1, operand_b := length p + 1\<rparr>
                            else i\<lparr>opcode := OP_SPLIT, operand_a := length p + 1, operand_b := prog_len h + 1\<rparr>"
      obtain h3 where h3: "set_instr (int (length p)) ?f
            (h2\<lparr>prog := re_fixup_pcs_after_shift (length p) 1 (prog_len h2) (prog h2)\<rparr>) = Some h3"
        "same_but_prog h (p @ ?f x # map (map_targets (bump (length p))) q) h3"
        by (rule set_instr_at [OF o(3), of ?f]) (rule that)
      have "?f x = split_instr z (length p + 1) (length p + 1 + length q)"
        by (cases x) (simp add: split_instr_def mk_instr_def len)
      moreover have "apply_quantifier h (length p) qc z = Some (int (prog_len h + 1), h3)"
        unfolding apply_quantifier_def Let_def
        by (simp only: \<open>qc = CHR ''?''\<close> 2(1) o(1,2) h3(1) char.inject prod.case bool.case
          Option.bind.bind_lunit if_False if_True simp_thms)
      ultimately show ?thesis using h3(2) same_but_progD(2,3) [OF h3(2)] \<open>qc = CHR ''?''\<close> len by simp
    qed
  next
    case 2
    consider "prog_len h \<ge> MAX_INSTRS" | "prog_len h < MAX_INSTRS" by linarith
    then show ?thesis
    proof cases
      case 1
      then show ?thesis using \<open>qc = CHR ''*''\<close> assms(1) reserve_fails [of h 1]
        by (auto simp: apply_quantifier_def Let_def)
    next
      case lt: 2
      obtain h1 h2 x where o: "re_prog_reserve h 1 = (True, h1)" "open_slot (length p) h1 = Some h2"
        "same_but_prog h (p @ x # map (map_targets (bump (length p))) q)
           (h2\<lparr>prog := re_fixup_pcs_after_shift (length p) 1 (prog_len h2) (prog h2)\<rparr>)"
        "prog_len h2 = prog_len h + 1"
        by (rule open_shift [OF assms(1-3) lt]) (rule that)
      define h3 where "h3 = h2\<lparr>prog := re_fixup_pcs_after_shift (length p) 1 (prog_len h2) (prog h2)\<rparr>"
      note o3 = o(3) [folded h3_def]
      note p3 = same_but_progD [OF o3]
      have step: "apply_quantifier h (length p) qc z = (case emit h3 OP_JUMP (length p) 0 of
                 (jmp, h) \<Rightarrow>
                   if jmp < 0 then Some (- 1, h)
                   else do {
                     h' \<leftarrow> set_instr (int (length p))
                       (\<lambda>i. if z then i\<lparr>opcode := OP_SPLIT, operand_a := nat jmp + 1, operand_b := length p + 1\<rparr>
                            else i\<lparr>opcode := OP_SPLIT, operand_a := length p + 1, operand_b := nat jmp + 1\<rparr>) h;
                     Some (int (prog_len h), h') })"
        unfolding apply_quantifier_def Let_def h3_def
        by (simp only: \<open>qc = CHR ''*''\<close> o(1,2) char.inject prod.case bool.case Option.bind.bind_lunit
          if_False if_True simp_thms)
      show ?thesis
      proof (cases "prog_len h3 \<ge> MAX_INSTRS - 1")
        case True
        with p3(3) show ?thesis by (simp add: step emit_fails)
      next
        case False
        let ?q = "map (map_targets (bump (length p))) q"
        obtain h4 where h4: "emit h3 OP_JUMP (length p) 0 = (int (prog_len h3), h4)"
          "same_but_prog h3 (prog h3 @ [mk_instr OP_JUMP (length p) 0]) h4"
          using emit_appends [OF p3(3)] False by (metis not_le)
        have h4': "same_but_prog h (p @ x # ?q @ [mk_instr OP_JUMP (length p) 0]) h4"
          using same_but_prog_trans [OF o3 h4(2)] p3(1) by simp
        let ?f = "\<lambda>i. if z then i\<lparr>opcode := OP_SPLIT, operand_a := nat (int (prog_len h3)) + 1, operand_b := length p + 1\<rparr>
                            else i\<lparr>opcode := OP_SPLIT, operand_a := length p + 1, operand_b := nat (int (prog_len h3)) + 1\<rparr>"
        obtain h5 where h5: "set_instr (int (length p)) ?f h4 = Some h5"
          "same_but_prog h (p @ ?f x # ?q @ [mk_instr OP_JUMP (length p) 0]) h5"
          by (rule set_instr_at [OF h4', of ?f]) (rule that)
        have "?f x = split_instr z (length p + 1) (length p + 2 + length q)"
          using p3(2) by (cases x) (simp add: split_instr_def mk_instr_def)
        moreover have "apply_quantifier h (length p) qc z = Some (int (prog_len h4), h5)"
          using h4(1) h5(1) by (simp add: step)
        moreover have "prog_len h4 = prog_len h5"
          using same_but_progD(2) [OF h4'] same_but_progD(2) [OF h5(2)] by simp
        ultimately show ?thesis using h5(2) same_but_progD(3) [OF h5(2)] \<open>qc = CHR ''*''\<close> by simp
      qed
    qed
  next
    case 3
    show ?thesis
    proof (cases "prog_len h \<ge> MAX_INSTRS - 1")
      case True
      with 3 assms(1) show ?thesis by (simp add: apply_quantifier_def Let_def emit_fails)
    next
      case False
      obtain h1 where h1: "emit h OP_SPLIT 0 0 = (int (prog_len h), h1)"
        "same_but_prog h (prog h @ [mk_instr OP_SPLIT 0 0]) h1"
        using emit_appends [OF assms(1)] False by (metis not_le)
      have h1': "same_but_prog h ((p @ q) @ mk_instr OP_SPLIT 0 0 # []) h1" using h1(2) assms(2) by simp
      let ?f = "\<lambda>i. if z then i\<lparr>operand_a := prog_len h1, operand_b := length p\<rparr>
                         else i\<lparr>operand_a := length p, operand_b := prog_len h1\<rparr>"
      obtain h2 where h2: "set_instr (int (length (p @ q))) ?f h1 = Some h2"
        "same_but_prog h ((p @ q) @ ?f (mk_instr OP_SPLIT 0 0) # []) h2"
        by (rule set_instr_at [OF h1', of ?f]) (rule that)
      have "?f (mk_instr OP_SPLIT 0 0) = split_instr z (length p) (length p + 1 + length q)"
        using same_but_progD(2) [OF h1'] by (simp add: split_instr_def mk_instr_def)
      moreover have "apply_quantifier h (length p) qc z = Some (int (prog_len h1), h2)"
        using 3 h1(1) h2(1) len by (simp add: apply_quantifier_def Let_def)
      moreover have "prog_len h1 = prog_len h2"
        using same_but_progD(2) [OF h1'] same_but_progD(2) [OF h2(2)] by simp
      ultimately show ?thesis using h2(2) same_but_progD(3) [OF h2(2)] 3 by simp
    qed
  qed
qed

definition quant_rx :: "char \<Rightarrow> bool \<Rightarrow> rx \<Rightarrow> rx" where
  "quant_rx qc z r = (if qc = CHR ''?'' then Opt z r else if qc = CHR ''*'' then Star z r else Plus z r)"

lemma wf_quant_rx [simp]: "wf_rx nc ng (quant_rx qc z r) = wf_rx nc ng r"
  by (simp add: quant_rx_def)

lemma apply_quantifier_code:
  assumes "code_cap h" "prog h = p @ codegen (length p) r" "tgt_ok p" "wf_rx nc ng r"
    and "qc \<in> {CHR ''?'', CHR ''*'', CHR ''+''}"
  shows "\<exists>res h'. apply_quantifier h (length p) qc z = Some (res, h') \<and> code_cap h' \<and>
    (res < 0 \<or> res = int (prog_len h') \<and> same_but_prog h (p @ codegen (length p) (quant_rx qc z r)) h')"
  using apply_quantifier_body [OF assms(1,2,3,5), of z] assms(5)
  by (simp add: bump_codegen [OF assms(4)] quant_rx_def split: if_splits)

section \<open>Counted repetition\<close>

lemma fixup_copy_nth:
  "i < length r \<Longrightarrow> re_fixup_pcs_after_copy src fin dst r ! i =
     (if dst \<le> i \<and> i < dst + (fin - src)
      then map_targets (\<lambda>t. if src \<le> t \<and> t \<le> fin then t + (dst - src) else t) (r ! i) else r ! i)"
  by (simp add: re_fixup_pcs_after_copy_def del: upt_Suc)

lemma fixup_copy:
  "length q = n \<Longrightarrow> re_fixup_pcs_after_copy src (src + n) (length p) (p @ q) =
     p @ map (map_targets (\<lambda>t. if src \<le> t \<and> t \<le> src + n then t + (length p - src) else t)) q"
proof (rule nth_equalityI)
  fix i assume n: "length q = n"
    and "i < length (re_fixup_pcs_after_copy src (src + n) (length p) (p @ q))"
  then have i: "i < length p + n" by (simp add: re_fixup_pcs_after_copy_def)
  show "re_fixup_pcs_after_copy src (src + n) (length p) (p @ q) ! i =
     (p @ map (map_targets (\<lambda>t. if src \<le> t \<and> t \<le> src + n then t + (length p - src) else t)) q) ! i"
  proof (cases "i < length p")
    case True
    with n i show ?thesis by (simp add: fixup_copy_nth nth_append)
  next
    case False
    then obtain j where "i = length p + j" using le_Suc_ex not_less by blast
    with n i show ?thesis by (simp add: fixup_copy_nth)
  qed
qed (simp add: re_fixup_pcs_after_copy_def)

lemma copy_body_code:
  assumes "take n (drop bs (prog h)) = codegen bs r" "code_len r = n" "wf_rx nc ng r"
    and "bs + n \<le> prog_len h" "prog_len h + n \<le> prog_cap h"
  obtains h' where "copy_body bs n h = Some h'" "same_but_prog h (prog h @ codegen (prog_len h) r) h'"
proof -
  have "map (map_targets (\<lambda>t. if bs \<le> t \<and> t \<le> bs + n then t + (prog_len h - bs) else t)) (codegen bs r)
      = codegen (prog_len h) r"
    by (rule codegen_move [OF assms(3)]) (use assms(2,4) in auto)
  then have "map (map_targets (\<lambda>t. if bs \<le> t \<and> t \<le> bs + n then t + (length (prog h) - bs) else t)) (codegen bs r)
      = codegen (length (prog h)) r" unfolding prog_len_def .
  then have "copy_body bs n h = Some (h\<lparr>prog := prog h @ codegen (prog_len h) r\<rparr>)"
    using assms fixup_copy [of "codegen bs r" n bs "prog h"]
    by (simp add: copy_body_def append_copy_def prog_len_def)
  moreover have "same_but_prog h (prog h @ codegen (prog_len h) r) (h\<lparr>prog := prog h @ codegen (prog_len h) r\<rparr>)"
    unfolding same_but_prog_def using assms(2,5) by (intro exI [of _ "prog_cap h"]) (simp add: prog_len_def)
  ultimately show ?thesis by (rule that)
qed

text \<open>\<open>k\<close> copies, and \<open>k\<close> optional copies.\<close>

fun reps :: "nat \<Rightarrow> rx \<Rightarrow> rx" where
  "reps 0 r = Eps"
| "reps (Suc k) r = Seq r (reps k r)"

fun opts :: "nat \<Rightarrow> bool \<Rightarrow> rx \<Rightarrow> rx" where
  "opts 0 z r = Eps"
| "opts (Suc k) z r = Seq (Opt z r) (opts k z r)"

lemma wf_reps [simp]: "wf_rx nc ng r \<Longrightarrow> wf_rx nc ng (reps k r)"
  and wf_opts [simp]: "wf_rx nc ng r \<Longrightarrow> wf_rx nc ng (opts k z r)"
  by (induction k) simp_all

text \<open>The body of a repetition stays in place while copies are appended.\<close>

definition body_at :: "nat \<Rightarrow> rx \<Rightarrow> ReCode \<Rightarrow> bool" where
  "body_at bs r h \<longleftrightarrow> take (code_len r) (drop bs (prog h)) = codegen bs r \<and> bs + code_len r \<le> prog_len h"

lemma body_at_append: "body_at bs r h \<Longrightarrow> same_but_prog h (prog h @ q) h' \<Longrightarrow> body_at bs r h'"
  using same_but_progD(1,2) [of h "prog h @ q" h'] by (auto simp: body_at_def prog_len_def)

lemma count_mandatory_code:
  assumes "code_cap h" "body_at bs r h" "wf_rx nc ng r"
  shows "\<exists>ok msg h'. count_mandatory k bs (code_len r) h = Some (ok, msg, h') \<and> code_cap h' \<and>
     (ok \<longrightarrow> same_but_prog h (prog h @ codegen (prog_len h) (reps k r)) h') \<and> (\<not> ok \<longrightarrow> msg \<noteq> [])"
  using assms(1,2)
proof (induction k arbitrary: h)
  case 0
  then show ?case by (auto simp: same_but_prog_refl)
next
  case (Suc k)
  consider "prog_len h + code_len r \<ge> MAX_INSTRS - 4" | "prog_len h + code_len r < MAX_INSTRS - 4" by linarith
  then show ?case
  proof cases
    case 1
    with Suc.prems show ?thesis by auto
  next
    case 2
    then obtain h1 where h1: "re_prog_reserve h (code_len r) = (True, h1)" "same_but_prog h (prog h) h1"
      "prog_len h + code_len r \<le> prog_cap h1"
      using reserve_succeeds [OF Suc.prems(1), of "code_len r"] by (auto simp: MAX_INSTRS_def)
    note p1 = same_but_progD [OF h1(2)]
    have len1: "prog_len h1 = prog_len h" using p1(2) by (simp add: prog_len_def)
    obtain h2 where h2: "copy_body bs (code_len r) h1 = Some h2"
      "same_but_prog h1 (prog h1 @ codegen (prog_len h1) r) h2"
      by (rule copy_body_code [OF _ _ assms(3), of "code_len r" bs h1])
        (use Suc.prems(2) h1(3) p1(1) len1 in \<open>auto simp: body_at_def prog_len_def\<close>)
    have s2: "same_but_prog h (prog h @ codegen (prog_len h) r) h2"
      using same_but_prog_trans [OF h1(2) h2(2)] p1(1) len1 by simp
    note p2 = same_but_progD [OF s2]
    obtain ok msg h3 where h3: "count_mandatory k bs (code_len r) h2 = Some (ok, msg, h3)" "code_cap h3"
      "ok \<longrightarrow> same_but_prog h2 (prog h2 @ codegen (prog_len h2) (reps k r)) h3" "\<not> ok \<longrightarrow> msg \<noteq> []"
      using Suc.IH [OF p2(3) body_at_append [OF Suc.prems(2) s2]] by blast
    have "ok \<longrightarrow> same_but_prog h (prog h @ codegen (prog_len h) (reps (Suc k) r)) h3"
      using same_but_prog_trans [OF s2] h3(3) p2(1,2) by (auto simp: prog_len_def)
    moreover have "count_mandatory (Suc k) bs (code_len r) h = Some (ok, msg, h3)"
      using 2 h1(1) h2(1) h3(1) by simp
    ultimately show ?thesis using h3(2,4) by blast
  qed
qed

lemma count_optional_code:
  assumes "code_cap h" "body_at bs r h" "wf_rx nc ng r" "tgt_ok (prog h)"
  shows "\<exists>ok msg h'. count_optional k bs (code_len r) z h = Some (ok, msg, h') \<and> code_cap h' \<and>
     (ok \<longrightarrow> same_but_prog h (prog h @ codegen (prog_len h) (opts k z r)) h')"
  using assms(1,2,4)
proof (induction k arbitrary: h)
  case 0
  then show ?case by (auto simp: same_but_prog_refl)
next
  case (Suc k)
  consider "prog_len h + code_len r + 2 \<ge> MAX_INSTRS - 4" | "prog_len h + code_len r + 2 < MAX_INSTRS - 4" by linarith
  then show ?case
  proof cases
    case 1
    with Suc.prems show ?thesis by auto
  next
    case 2
    then obtain h1 where h1: "re_prog_reserve h (code_len r + 2) = (True, h1)" "same_but_prog h (prog h) h1"
      "prog_len h + (code_len r + 2) \<le> prog_cap h1"
      using reserve_succeeds [OF Suc.prems(1), of "code_len r + 2"] by (auto simp: MAX_INSTRS_def)
    note p1 = same_but_progD [OF h1(2)]
    have len1: "prog_len h1 = prog_len h" using p1(2) by (simp add: prog_len_def)
    obtain h2 where h2: "copy_body bs (code_len r) h1 = Some h2"
      "same_but_prog h1 (prog h1 @ codegen (prog_len h1) r) h2"
      by (rule copy_body_code [OF _ _ assms(3), of "code_len r" bs h1])
        (use Suc.prems(2) h1(3) p1(1) len1 in \<open>auto simp: body_at_def prog_len_def\<close>)
    have s2: "same_but_prog h (prog h @ codegen (prog_len h) r) h2"
      using same_but_prog_trans [OF h1(2) h2(2)] p1(1) len1 by simp
    note p2 = same_but_progD [OF s2]
    obtain res h3 where h3: "apply_quantifier h2 (length (prog h)) CHR ''?'' z = Some (res, h3)" "code_cap h3"
      "res < 0 \<or> res = int (prog_len h3) \<and> same_but_prog h2 (prog h @ codegen (length (prog h)) (Opt z r)) h3"
      using apply_quantifier_code [OF p2(3) _ Suc.prems(3) assms(3), of "CHR ''?''" z] p2(1)
      by (auto simp: prog_len_def quant_rx_def)
    have eq: "count_optional (Suc k) bs (code_len r) z h =
        (if res < 0 then Some (False, [], h3) else count_optional k bs (code_len r) z h3)"
      using 2 h1(1) h2(1) h3(1) len1 by (simp add: prog_len_def)
    show ?thesis
    proof (cases "res < 0")
      case True
      with eq h3(2) show ?thesis by auto
    next
      case False
      with h3(3) have s3: "same_but_prog h (prog h @ codegen (length (prog h)) (Opt z r)) h3"
        using same_but_prog_trans [OF s2] by blast
      note p3 = same_but_progD [OF s3]
      have t3: "tgt_ok (prog h3)"
        using tgt_ok_append_code [OF Suc.prems(3), of nc ng "Opt z r"] assms(3) p3(1) by simp
      obtain ok msg h4 where h4: "count_optional k bs (code_len r) z h3 = Some (ok, msg, h4)" "code_cap h4"
        "ok \<longrightarrow> same_but_prog h3 (prog h3 @ codegen (prog_len h3) (opts k z r)) h4"
        using Suc.IH [OF p3(3) body_at_append [OF Suc.prems(2) s3] t3] by blast
      have "ok \<longrightarrow> same_but_prog h (prog h @ codegen (prog_len h) (opts (Suc k) z r)) h4"
        using same_but_prog_trans [OF s3] h4(3) p3(1,2) by (auto simp: prog_len_def)
      with eq False h4 show ?thesis by auto
    qed
  qed
qed

text \<open>What \<open>{n,m}\<close> stands for; \<open>m = -1\<close> is no upper bound.\<close>

definition count_rx :: "int \<Rightarrow> int \<Rightarrow> bool \<Rightarrow> rx \<Rightarrow> rx" where
  "count_rx n m z r =
     (if n = 0 then
        (if m = 0 then Eps else if m = - 1 then Star z r else Seq (Opt z r) (opts (nat (m - 1)) z r))
      else Seq r (Seq (reps (nat (n - 1)) r) (if m = - 1 then Star z r else opts (nat (m - n)) z r)))"

lemma wf_count_rx [simp]: "wf_rx nc ng r \<Longrightarrow> wf_rx nc ng (count_rx n m z r)"
  by (simp add: count_rx_def)

lemma apply_count_code:
  assumes "code_cap h" "prog h = p @ codegen (length p) r" "tgt_ok p" "wf_rx nc ng r"
  shows "\<exists>res msg h'. apply_count h (length p) (length p + code_len r) n m z = Some (res, msg, h') \<and> code_cap h' \<and>
    (res < 0 \<or> res = int (prog_len h') \<and> same_but_prog h (p @ codegen (length p) (count_rx n m z r)) h')"
proof (cases "n = 0")
  case True
  consider "m = 0" | "m = - 1" | "m \<noteq> 0" "m \<noteq> - 1" by blast
  then show ?thesis
  proof cases
    case 1
    have "same_but_prog h p (h\<lparr>prog := p\<rparr>)" "code_cap (h\<lparr>prog := p\<rparr>)"
      using assms(1,2) by (auto simp: same_but_prog_def code_cap_def prog_len_def intro!: exI [of _ "prog_cap h"])
    with True 1 assms(2) show ?thesis by (simp add: apply_count_def Let_def count_rx_def)
  next
    case 2
    with True apply_quantifier_code [OF assms, of "CHR ''*''" z] show ?thesis
      by (auto simp: apply_count_def Let_def count_rx_def quant_rx_def)
  next
    case 3
    obtain res h1 where h1: "apply_quantifier h (length p) CHR ''?'' z = Some (res, h1)" "code_cap h1"
      "res < 0 \<or> res = int (prog_len h1) \<and> same_but_prog h (p @ codegen (length p) (Opt z r)) h1"
      using apply_quantifier_code [OF assms, of "CHR ''?''" z] by (auto simp: quant_rx_def)
    show ?thesis
    proof (cases "res < 0")
      case True
      with \<open>n = 0\<close> 3 h1(1,2) show ?thesis by (simp add: apply_count_def Let_def)
    next
      case False
      with h1(3) have s1: "same_but_prog h (p @ codegen (length p) (Opt z r)) h1" by blast
      note p1 = same_but_progD [OF s1]
      have b: "body_at (length p + 1) r h1" using p1(1,2) by (simp add: body_at_def)
      have t: "tgt_ok (prog h1)"
        using tgt_ok_append_code [OF assms(3), of nc ng "Opt z r"] assms(4) p1(1) by simp
      obtain ok msg h2 where h2: "count_optional (nat (m - 1)) (length p + 1) (code_len r) z h1 = Some (ok, msg, h2)"
        "code_cap h2" "ok \<longrightarrow> same_but_prog h1 (prog h1 @ codegen (prog_len h1) (opts (nat (m - 1)) z r)) h2"
        using count_optional_code [OF p1(3) b assms(4) t] by blast
      have "ok \<longrightarrow> same_but_prog h (p @ codegen (length p) (count_rx n m z r)) h2"
        using same_but_prog_trans [OF s1] h2(3) p1(1,2) 3 \<open>n = 0\<close> by (auto simp: count_rx_def)
      with \<open>n = 0\<close> 3 False h1(1) h2(1,2) show ?thesis by (auto simp: apply_count_def Let_def)
    qed
  qed
next
  case False
  have b: "body_at (length p) r h" using assms(2) by (simp add: body_at_def prog_len_def)
  obtain ok msg h1 where h1: "count_mandatory (nat (n - 1)) (length p) (code_len r) h = Some (ok, msg, h1)"
    "code_cap h1" "ok \<longrightarrow> same_but_prog h (prog h @ codegen (prog_len h) (reps (nat (n - 1)) r)) h1"
    using count_mandatory_code [OF assms(1) b assms(4)] by blast
  show ?thesis
  proof (cases ok)
    case ok: False
    with False h1(1,2) show ?thesis by (simp add: apply_count_def Let_def)
  next
    case True
    with h1(3) have s1: "same_but_prog h (prog h @ codegen (prog_len h) (reps (nat (n - 1)) r)) h1" by blast
    note p1 = same_but_progD [OF s1]
    let ?r1 = "Seq r (reps (nat (n - 1)) r)"
    have q1: "prog h1 = p @ codegen (length p) ?r1" using p1(1) assms(2) by (simp add: prog_len_def)
    have b1: "body_at (length p) r h1" by (rule body_at_append [OF b s1])
    have t1: "tgt_ok (prog h1)"
      using tgt_ok_append_code [OF assms(3), of nc ng ?r1] assms(4) q1 by simp
    show ?thesis
    proof (cases "m = - 1")
      case m: False
      obtain ok2 msg2 h2 where h2: "count_optional (nat (m - n)) (length p) (code_len r) z h1 = Some (ok2, msg2, h2)"
        "code_cap h2" "ok2 \<longrightarrow> same_but_prog h1 (prog h1 @ codegen (prog_len h1) (opts (nat (m - n)) z r)) h2"
        using count_optional_code [OF p1(3) b1 assms(4) t1] by blast
      have "ok2 \<longrightarrow> same_but_prog h (p @ codegen (length p) (count_rx n m z r)) h2"
        using same_but_prog_trans [OF s1] h2(3) q1 False m by (auto simp: count_rx_def prog_len_def add.assoc)
      with False True m h1(1) h2(1,2) show ?thesis by (auto simp: apply_count_def Let_def)
    next
      case m: True
      consider "prog_len h1 + (code_len r + 2) > MAX_INSTRS" | "prog_len h1 + (code_len r + 2) \<le> MAX_INSTRS"
        by linarith
      then show ?thesis
      proof cases
        case 1
        have "apply_count h (length p) (length p + code_len r) n m z
            = Some (- 1, ''{n,m}: pattern too large'', h1)"
          using False True m h1(1) reserve_fails [OF 1] by (simp add: apply_count_def Let_def)
        with h1(2) show ?thesis by auto
      next
        case 2
        then obtain h2 where h2: "re_prog_reserve h1 (code_len r + 2) = (True, h2)" "same_but_prog h1 (prog h1) h2"
          "prog_len h1 + (code_len r + 2) \<le> prog_cap h2"
          using reserve_succeeds [OF p1(3)] by metis
        note p2 = same_but_progD [OF h2(2)]
        have len2: "prog_len h2 = prog_len h1" using p2(2) by (simp add: prog_len_def)
        obtain h3 where h3: "copy_body (length p) (code_len r) h2 = Some h3"
          "same_but_prog h2 (prog h2 @ codegen (prog_len h2) r) h3"
          by (rule copy_body_code [OF _ _ assms(4), of "code_len r" "length p" h2])
            (use b1 h2(3) p2(1) len2 in \<open>auto simp: body_at_def prog_len_def\<close>)
        have s3: "same_but_prog h1 (prog h1 @ codegen (length (prog h1)) r) h3"
          using same_but_prog_trans [OF h2(2) h3(2)] p2(1) by (simp add: prog_len_def)
        note p3 = same_but_progD [OF s3]
        obtain res h4 where h4: "apply_quantifier h3 (length (prog h1)) CHR ''*'' z = Some (res, h4)" "code_cap h4"
          "res < 0 \<or> res = int (prog_len h4) \<and> same_but_prog h3 (prog h1 @ codegen (length (prog h1)) (Star z r)) h4"
          using apply_quantifier_code [OF p3(3) p3(1) t1 assms(4), of "CHR ''*''" z] by (auto simp: quant_rx_def)
        have "apply_count h (length p) (length p + code_len r) n m z = Some (res, [], h4)"
          using False True m h1(1) h2(1) h3(1) h4(1) len2 by (simp add: apply_count_def Let_def prog_len_def)
        moreover have "res < 0 \<or> same_but_prog h (p @ codegen (length p) (count_rx n m z r)) h4"
          using same_but_prog_trans [OF s1 same_but_prog_trans [OF s3]] h4(3) q1 False m
          by (auto simp: count_rx_def add.assoc)
        ultimately show ?thesis using h4(2,3) by auto
      qed
    qed
  qed
qed

end
