(* ===== verification/Regex_Parse.thy ===== *)
theory Regex_Parse
  imports Regex_Code
begin

text \<open>
  Every parse function emits structured code: what a successful parse appends to the program is
  the code of a well-formed regular expression, unless the program has reached the length at
  which an emission without a check of its result is dropped.
\<close>

section \<open>What a parse function does to the compiler state\<close>

abbreviation M_FULL :: nat where "M_FULL \<equiv> MAX_INSTRS - 1"

definition classes_ok :: "'a ReCode_scheme \<Rightarrow> bool" where
  "classes_ok h \<longleftrightarrow> length (classes h) = MAX_CLASSES \<and> n_classes h \<le> MAX_CLASSES \<and>
     (\<forall>k \<in> set (classes h). length k = CLASS_BITMAP_BYTES)"

definition good :: "Compiler \<Rightarrow> bool" where
  "good c \<longleftrightarrow> code_cap (c_re c) \<and> (c_len c < M_FULL \<longrightarrow> tgt_ok (prog (c_re c))) \<and>
     group_counter c < MAX_GROUPS \<and> classes_ok (c_re c)"

text \<open>Groups and classes are only added.\<close>

definition grows :: "Compiler \<Rightarrow> Compiler \<Rightarrow> bool" where
  "grows c c' \<longleftrightarrow> code_cap (c_re c') \<and> classes_ok (c_re c') \<and> group_counter c' < MAX_GROUPS \<and>
     n_classes (c_re c) \<le> n_classes (c_re c') \<and> group_counter c \<le> group_counter c'"

abbreviation wf_in :: "Compiler \<Rightarrow> rx \<Rightarrow> bool" where
  "wf_in c \<equiv> wf_rx (n_classes (c_re c)) (group_counter c)"

text \<open>The code from a given address on; a full program is left alone.\<close>

definition appends :: "ReInstr list \<Rightarrow> Compiler \<Rightarrow> bool" where
  "appends p c' \<longleftrightarrow> (\<exists>q. prog (c_re c') = p @ q \<and> (M_FULL \<le> length p \<longrightarrow> q = []) \<and>
     (c_len c' < M_FULL \<longrightarrow> (\<exists>r. wf_in c' r \<and> q = codegen (length p) r)))"

definition step :: "Compiler \<Rightarrow> Compiler \<Rightarrow> bool" where
  "step c c' \<longleftrightarrow> grows c c' \<and> appends (prog (c_re c)) c'"

definition parse_spec :: "(Compiler \<Rightarrow> parse_result) \<Rightarrow> bool" where
  "parse_spec pe \<longleftrightarrow> (\<forall>c r c'. good c \<longrightarrow> pe c = Some (r, c') \<longrightarrow> \<not> parse_failed r c' \<longrightarrow> step c c')"

lemma c_len_simps [simp]:
  "c_len (adv n c) = c_len c" "c_re (adv n c) = c_re c" "group_counter (adv n c) = group_counter c"
  "had_error (adv n c) = had_error c"
  by (simp_all add: c_len_def adv_def)

lemma c_len_prog: "c_len c = length (prog (c_re c))"
  by (simp add: c_len_def prog_len_def)

lemma good_adv [simp]: "good (adv n c) = good c"
  by (simp add: good_def)

lemma step_adv [simp]: "step (adv n c) c' = step c c'" "step c (adv n c') = step c c'"
  by (simp_all add: step_def grows_def appends_def)

lemma fail_spec: "fail msg c = Some (r, c') \<Longrightarrow> parse_failed r c'"
  by (auto simp: fail_def parse_failed_def)

lemma appendsI:
  "prog (c_re c') = p @ codegen (length p) r \<Longrightarrow> wf_in c' r \<Longrightarrow> length p < M_FULL \<Longrightarrow> appends p c'"
  unfolding appends_def by auto

lemma grows_refl: "good c \<Longrightarrow> grows c c"
  by (simp add: good_def grows_def)

lemma grows_trans: "grows c c1 \<Longrightarrow> grows c1 c2 \<Longrightarrow> grows c c2"
  by (auto simp: grows_def split: if_splits)

lemma step_refl: "good c \<Longrightarrow> step c c"
  by (auto simp: step_def appends_def grows_refl intro!: exI [of _ Eps])

lemma grows_wf: "grows c c' \<Longrightarrow> wf_in c r \<Longrightarrow> wf_in c' r"
  using wf_rx_mono [of "n_classes (c_re c)" "group_counter c" r] by (simp add: grows_def)

lemma step_trans:
  assumes "step c c1" "step c1 c2"
  shows "step c c2"
proof -
  obtain q1 where q1: "prog (c_re c1) = prog (c_re c) @ q1" "M_FULL \<le> c_len c \<longrightarrow> q1 = []"
    "c_len c1 < M_FULL \<longrightarrow> (\<exists>r. wf_in c1 r \<and> q1 = codegen (c_len c) r)"
    using assms(1) by (auto simp: step_def appends_def c_len_prog)
  obtain q2 where q2: "prog (c_re c2) = prog (c_re c1) @ q2" "M_FULL \<le> c_len c1 \<longrightarrow> q2 = []"
    "c_len c2 < M_FULL \<longrightarrow> (\<exists>r. wf_in c2 r \<and> q2 = codegen (c_len c1) r)"
    using assms(2) by (auto simp: step_def appends_def c_len_prog)
  have g: "grows c c1" "grows c1 c2" using assms by (simp_all add: step_def)
  have "appends (prog (c_re c)) c2" unfolding appends_def
  proof (intro exI [of _ "q1 @ q2"] conjI impI)
    show "prog (c_re c2) = prog (c_re c) @ q1 @ q2" using q1(1) q2(1) by simp
    assume "M_FULL \<le> length (prog (c_re c))"
    then show "q1 @ q2 = []" using q1 q2(2) by (simp add: c_len_prog)
  next
    assume l: "c_len c2 < M_FULL"
    then have "c_len c1 < M_FULL" using q2(1) by (simp add: c_len_prog)
    then obtain r1 r2 where r: "wf_in c1 r1" "q1 = codegen (c_len c) r1" "wf_in c2 r2" "q2 = codegen (c_len c1) r2"
      using l q1(3) q2(3) by blast
    then have "q1 @ q2 = codegen (c_len c) (Seq r1 r2)" using q1(1) by (simp add: c_len_prog)
    moreover have "wf_in c2 (Seq r1 r2)" using r grows_wf [OF g(2)] by simp
    ultimately show "\<exists>r. wf_in c2 r \<and> q1 @ q2 = codegen (length (prog (c_re c))) r"
      unfolding c_len_prog by blast
  qed
  then show ?thesis using grows_trans [OF g] by (simp add: step_def)
qed

lemma step_good:
  assumes "good c" "step c c'"
  shows "good c'"
proof -
  have g: "grows c c'" using assms(2) by (simp add: step_def)
  obtain q where q: "prog (c_re c') = prog (c_re c) @ q"
    "c_len c' < M_FULL \<longrightarrow> (\<exists>r. wf_in c' r \<and> q = codegen (c_len c) r)"
    using assms(2) by (auto simp: step_def appends_def c_len_prog)
  have "tgt_ok (prog (c_re c'))" if l: "c_len c' < M_FULL"
  proof -
    obtain r where "wf_in c' r" "q = codegen (c_len c) r" using q(2) l by blast
    moreover have "tgt_ok (prog (c_re c))" using assms(1) l q(1) by (simp add: good_def c_len_prog)
    ultimately show ?thesis using tgt_ok_append_code q(1) by (simp add: c_len_prog)
  qed
  with g assms(1) show ?thesis by (auto simp: good_def grows_def split: if_splits)
qed

text \<open>A change of the program alone.\<close>

lemma grows_same_but_prog:
  "good c \<Longrightarrow> same_but_prog (c_re c) q h \<Longrightarrow> grows c (c\<lparr>c_re := h\<rparr>)"
  using same_but_progD [of "c_re c" q h] by (auto simp: good_def grows_def classes_ok_def)

lemma c_emit_result:
  assumes "good c" "c_emit c p a b = (r, c')" "c_len c < M_FULL"
  obtains h where "c' = c\<lparr>c_re := h\<rparr>" "r = int (c_len c)" "same_but_prog (c_re c) (prog (c_re c) @ [mk_instr p a b]) h"
proof -
  have "code_cap (c_re c)" "prog_len (c_re c) < M_FULL" using assms(1,3) by (simp_all add: good_def c_len_def)
  then obtain h where "emit (c_re c) p a b = (int (prog_len (c_re c)), h)"
    "same_but_prog (c_re c) (prog (c_re c) @ [mk_instr p a b]) h"
    by (rule emit_appends)
  with assms(2) show ?thesis by (intro that) (auto simp: c_emit_def c_len_def)
qed

lemma c_emit_full: "M_FULL \<le> c_len c \<Longrightarrow> c_emit c p a b = (- 1, c)"
  by (simp add: c_emit_def c_len_def emit_fails)

lemma c_emit_step:
  assumes "good c" "c_emit c p a 0 = (r, c')" "0 \<le> r" "wf_in c (Ins p a)"
  shows "step c c'"
proof (cases "c_len c < M_FULL")
  case True
  obtain h where h: "c' = c\<lparr>c_re := h\<rparr>" "same_but_prog (c_re c) (prog (c_re c) @ [mk_instr p a 0]) h"
    using c_emit_result [OF assms(1,2) True] by metis
  have "wf_in c' (Ins p a)" using assms(4) same_but_progD(7) [OF h(2)] h(1) by simp
  then have "appends (prog (c_re c)) c'"
    by (rule appendsI [rotated]) (use same_but_progD(1) [OF h(2)] True h(1) in \<open>simp_all add: c_len_prog\<close>)
  then show ?thesis using grows_same_but_prog [OF assms(1) h(2)] h(1) by (simp add: step_def)
next
  case False
  with assms(2,3) c_emit_full [of c p a 0] show ?thesis by simp
qed

text \<open>An emission whose result is not looked at: in a full program it is dropped.\<close>

lemma c_emit_step_unchecked:
  assumes "good c" "wf_in c (Ins p a)"
  shows "step c (snd (c_emit c p a 0))"
proof (cases "c_len c < M_FULL")
  case True
  obtain r c' where e: "c_emit c p a 0 = (r, c')" by fastforce
  have "0 \<le> r" using c_emit_result [OF assms(1) e True] by (metis of_nat_0_le_iff)
  with e show ?thesis using c_emit_step [OF assms(1) e _ assms(2)] by simp
next
  case False
  with assms(1) show ?thesis by (simp add: c_emit_full step_refl)
qed

section \<open>Atoms\<close>

lemma class_set_all_length: "class_set_all ks cls = Some cls' \<Longrightarrow> length cls' = length cls"
  by (induction ks arbitrary: cls) (auto simp: class_set_def split: bind_splits if_splits)

lemma class_members_length:
  "class_members pat i first cls = Some (bad, cl, j, cls') \<Longrightarrow> length cls' = length cls"
proof (induction "length pat - i" arbitrary: i first cls rule: less_induct)
  case less
  have IH: "class_members pat k f d = Some (bad, cl, j, cls') \<Longrightarrow> i < k \<Longrightarrow> i < length pat \<Longrightarrow> length cls' = length d" for k f d
    using less(1) [of k f d] by simp
  show ?case using less(2)
    by (subst (asm) class_members.simps)
      (auto simp: Let_def class_set_def dest!: class_set_all_length IH split: if_splits bind_splits)
qed

lemma parse_class_body_spec:
  assumes "good c" "parse_class_body c = Some (r, c')" "\<not> parse_failed r c'"
  shows "grows c c' \<and> prog (c_re c') = prog (c_re c) \<and> nat r < n_classes (c_re c') \<and> good c'"
proof (cases "n_classes (c_re c) \<ge> MAX_CLASSES")
  case True
  with assms(2,3) fail_spec show ?thesis by (auto simp: parse_class_body_def Let_def)
next
  case False
  let ?neg = "at_char CHR ''^'' c"
  let ?c = "if ?neg then adv 1 c else c"
  obtain bad cl i cls where m: "class_members (c_pat ?c) (c_pos ?c) True (replicate CLASS_BITMAP_BYTES 0) = Some (bad, cl, i, cls)"
    using assms(2) False by (auto simp: parse_class_body_def Let_def split: bind_splits)
  let ?cls = "if \<not> bad \<and> cl \<and> ?neg then map (\<lambda>b. NOT b) cls else cls"
  let ?h = "(c_re c)\<lparr>n_classes := n_classes (c_re c) + 1, classes := (classes (c_re c))[n_classes (c_re c) := ?cls]\<rparr>"
  have len: "length ?cls = CLASS_BITMAP_BYTES" using class_members_length [OF m] by auto
  have eq: "parse_class_body c = (if bad then fail ''invalid character range'' (?c\<lparr>c_pos := i, c_re := ?h\<rparr>)
     else if \<not> cl then fail (''unclosed character class '' @ quoted ''['') (?c\<lparr>c_pos := i, c_re := ?h\<rparr>)
     else Some (int (n_classes (c_re c)), adv 1 (?c\<lparr>c_pos := i, c_re := ?h\<rparr>)))"
    using False m unfolding parse_class_body_def Let_def by simp
  have res: "r = int (n_classes (c_re c))" "c' = adv 1 (?c\<lparr>c_pos := i, c_re := ?h\<rparr>)"
    using assms(2,3) fail_spec unfolding eq by (auto split: if_splits)
  have cap: "code_cap ?h" using assms(1) by (simp add: good_def code_cap_def prog_len_def)
  have "classes_ok ?h" using assms(1) False len unfolding good_def classes_ok_def
    by (auto dest!: set_update_subset_insert [THEN subsetD])
  with assms(1) cap have "grows c c'" "good c'"
    by (auto simp: res(2) good_def grows_def c_len_prog adv_def)
  then show ?thesis by (auto simp: res adv_def)
qed

lemma parse_escape_spec: "parse_spec parse_escape"
  unfolding parse_spec_def
proof (intro allI impI)
  fix c r c' assume a: "good c" "parse_escape c = Some (r, c')" "\<not> parse_failed r c'"
  have *: "step c c'" if "c_emit (adv n c) p k 0 = (r, c')" "simple_op p" "p \<notin> {OP_CLASS, OP_NCLASS, OP_SAVE}" for n p k
    using c_emit_step [of "adv n c" p k r c'] that a(1,3) by (simp add: parse_failed_def)
  have **: "simple_op p \<and> p \<notin> {OP_CLASS, OP_NCLASS, OP_SAVE}" if "simple_escape e = Some (p, k)" for e p k
    using that by (auto simp: simple_escape_def simple_op_def split: if_splits)
  have adv2: "adv m (adv n c) = adv (n + m) c" for m n by (simp add: adv_def)
  show "step c c'"
    using a(2,3) fail_spec by (auto simp: parse_escape_def Let_def adv2 simple_op_def
      dest!: ** intro!: * split: if_splits option.splits)
qed

lemma parse_lookahead_spec:
  assumes "parse_spec pe"
  shows "parse_spec (parse_lookahead pe neg)"
  unfolding parse_spec_def
proof (intro allI impI)
  fix c r c' assume a: "good c" "parse_lookahead pe neg c = Some (r, c')" "\<not> parse_failed r c'"
  let ?p = "prog (c_re c)"
  show "step c c'"
  proof (cases "c_len c < M_FULL")
    case False
    then show ?thesis using a(2,3) by (simp add: parse_lookahead_def c_emit_full parse_failed_def)
  next
    case True
    obtain la c1 where e1: "c_emit c OP_LOOKAHEAD 0 0 = (la, c1)" by fastforce
    obtain h1 where h1: "c1 = c\<lparr>c_re := h1\<rparr>" "la = int (c_len c)" "same_but_prog (c_re c) (?p @ [mk_instr OP_LOOKAHEAD 0 0]) h1"
      using c_emit_result [OF a(1) e1 True] by metis
    note p1 = same_but_progD [OF h1(3)]
    have g1: "grows c c1" unfolding h1(1) by (rule grows_same_but_prog [OF a(1) h1(3)])
    have good1: "good c1"
    proof -
      have "tgt_ok (?p @ [mk_instr OP_LOOKAHEAD 0 0])"
        using a(1) True by (auto simp: good_def intro!: tgt_ok_append)
      with g1 p1(1) h1(1) show ?thesis by (simp add: good_def grows_def)
    qed
    obtain r2 c2 where r2: "pe c1 = Some (r2, c2)" using a(2) e1 h1(2) by (auto simp: parse_lookahead_def split: bind_splits)
    let ?c3 = "snd (c_emit (adv 1 c2) OP_MATCH 0 0)"
    let ?f = "\<lambda>i. i\<lparr>operand_a := c_len c2 + 1, operand_b := neg\<rparr>"
    have fin: "\<not> parse_failed r2 c2" "c_set_instr la ?f ?c3 = Some c'"
      using a(2,3) e1 h1(2) r2 fail_spec
      by (auto simp: parse_lookahead_def Let_def parse_failed_def fail_def comp_error_def split: bind_splits if_splits)
    have s2: "step c1 c2" using assms good1 r2 fin(1) by (auto simp: parse_spec_def)
    note good2 = step_good [OF good1 s2]
    obtain q where q: "prog (c_re c2) = ?p @ mk_instr OP_LOOKAHEAD 0 0 # q"
      "c_len c2 < M_FULL \<longrightarrow> (\<exists>r. wf_in c2 r \<and> q = codegen (c_len c + 1) r)"
      using s2 p1(1) h1(1) by (auto simp: step_def appends_def c_len_prog)
    have L: "la = int (length ?p)" using h1(2) by (simp add: c_len_prog)
    show ?thesis
    proof (cases "c_len c2 < M_FULL")
      case False
      then have "?c3 = adv 1 c2" by (simp add: c_emit_full)
      then have c': "c' = (adv 1 c2)\<lparr>c_re := (c_re c2)\<lparr>prog := ?p @ ?f (mk_instr OP_LOOKAHEAD 0 0) # q\<rparr>\<rparr>"
        using fin(2) L q(1) by (simp add: c_set_instr_def set_instr_def prog_len_def list_update_append)
      have "grows c c'" using grows_trans [OF g1, of c2] s2 q(1)
        by (auto simp: c' step_def grows_def code_cap_def prog_len_def classes_ok_def)
      moreover have "appends ?p c'" using False q(1) True by (auto simp: appends_def c' c_len_prog)
      ultimately show ?thesis by (simp add: step_def)
    next
      case lt: True
      then obtain rx where rx: "wf_in c2 rx" "q = codegen (c_len c + 1) rx" using q(2) by blast
      obtain m c3 where e3: "c_emit (adv 1 c2) OP_MATCH 0 0 = (m, c3)" by fastforce
      obtain h3 where h3: "c3 = (adv 1 c2)\<lparr>c_re := h3\<rparr>" "same_but_prog (c_re c2) (prog (c_re c2) @ [mk_instr OP_MATCH 0 0]) h3"
        using c_emit_result [of "adv 1 c2", OF _ e3] good2 lt by auto
      have h3': "same_but_prog (c_re c2) (?p @ mk_instr OP_LOOKAHEAD 0 0 # (q @ [mk_instr OP_MATCH 0 0])) h3"
        using h3(2) q(1) by simp
      obtain h4 where h4: "set_instr (int (length ?p)) ?f h3 = Some h4"
        "same_but_prog (c_re c2) (?p @ ?f (mk_instr OP_LOOKAHEAD 0 0) # (q @ [mk_instr OP_MATCH 0 0])) h4"
        by (rule set_instr_at [OF h3', of ?f]) (rule that)
      have c': "c' = c3\<lparr>c_re := h4\<rparr>" using fin(2) e3 h3(1) h4(1) L by (simp add: c_set_instr_def)
      have len2: "c_len c2 = length ?p + 1 + code_len rx" using q(1) rx(2) by (simp add: c_len_prog)
      have "?f (mk_instr OP_LOOKAHEAD 0 0) # (q @ [mk_instr OP_MATCH 0 0]) = codegen (length ?p) (Look neg rx)"
        using len2 rx(2) by (simp add: mk_instr_def c_len_prog)
      with h4(2) have s4: "same_but_prog (c_re c2) (?p @ codegen (length ?p) (Look neg rx)) h4" by simp
      note p4 = same_but_progD [OF s4]
      have "grows c2 c'" using grows_same_but_prog [OF good2 s4] h3(1) c' by (simp add: grows_def)
      then have "grows c c'" using grows_trans [OF g1] grows_trans [of c1 c2 c'] s2 by (simp add: step_def)
      moreover have "appends ?p c'"
        by (rule appendsI [of _ _ "Look neg rx"]) (use p4 rx(1) True in \<open>simp_all add: c' h3(1) c_len_prog\<close>)
      ultimately show ?thesis by (simp add: step_def)
    qed
  qed
qed


lemma step_fields [simp]:
  "step c (c'\<lparr>c_re := (c_re c')\<lparr>n_groups := k\<rparr>\<rparr>) = step c c'"
  "step c (c'\<lparr>c_re := (c_re c')\<lparr>named := ns\<rparr>\<rparr>) = step c c'"
  "step c (c'\<lparr>c_re := (c_re c')\<lparr>flags := f\<rparr>\<rparr>) = step c c'"
  "step c ((adv n d)\<lparr>c_re := (c_re d)\<lparr>flags := f\<rparr>\<rparr>) = step c d"
  by (simp_all add: step_def grows_def appends_def code_cap_def classes_ok_def c_len_prog prog_len_def)

lemma parse_group_body_spec:
  assumes "parse_spec pe" "good c" "gid > 0 \<Longrightarrow> gid \<le> group_counter c"
    and "parse_group_body pe gid c = Some (r, c')" "\<not> parse_failed r c'"
  shows "step c c'"
proof -
  obtain so c1 where e: "(if gid > 0 then c_emit c OP_SAVE (gid * 2) 0 else (0, c)) = (so, c1)" by fastforce
  have so: "0 \<le> so" using assms(4,5) e by (auto simp: parse_group_body_def parse_failed_def split: if_splits)
  have s1: "step c c1"
  proof (cases "gid > 0")
    case True
    with e show ?thesis using c_emit_step [OF assms(2) _ so, of OP_SAVE "gid * 2" c1] assms(3)
      by (simp add: simple_op_def)
  next
    case False
    with e assms(2) show ?thesis by (simp add: step_refl)
  qed
  obtain r2 c2 where r2: "pe c1 = Some (r2, c2)"
    using assms(4) e so by (auto simp: parse_group_body_def split: bind_splits)
  have ok: "\<not> parse_failed r2 c2" "at_char CHR '')'' c2"
    using assms(4,5) e so r2 fail_spec by (auto simp: parse_group_body_def parse_failed_def fail_def comp_error_def split: if_splits)
  let ?c3 = "if gid > 0 then snd (c_emit (adv 1 c2) OP_SAVE (gid * 2 + 1) 0) else adv 1 c2"
  have c': "c' = (if gid > n_groups (c_re ?c3) then ?c3\<lparr>c_re := (c_re ?c3)\<lparr>n_groups := gid\<rparr>\<rparr> else ?c3)"
    using assms(4) e so r2 ok by (auto simp: parse_group_body_def Let_def)
  have s2: "step c1 c2" using assms(1) step_good [OF assms(2) s1] r2 ok(1) by (auto simp: parse_spec_def)
  have good2: "good c2" by (rule step_good [OF step_good [OF assms(2) s1] s2])
  have gid: "gid > 0 \<Longrightarrow> gid \<le> group_counter c2" using assms(3) s1 s2 by (auto simp: step_def grows_def)
  have s3: "step c2 ?c3"
  proof (cases "gid > 0")
    case True
    then show ?thesis using c_emit_step_unchecked [of "adv 1 c2" OP_SAVE "gid * 2 + 1"] good2 gid
      by (simp add: simple_op_def)
  next
    case False
    with good2 show ?thesis by (simp add: step_refl)
  qed
  have "step c ?c3" by (rule step_trans [OF step_trans [OF s1 s2] s3])
  then show ?thesis unfolding c' by (cases "0 < gid") simp_all
qed

lemma re_alloc_group_spec:
  assumes "re_alloc_group c = (gid, c')" "0 \<le> gid" "good c"
  shows "good c'" "step c' c'' \<Longrightarrow> step c c''" "nat gid > 0" "nat gid \<le> group_counter c'"
  using assms by (auto simp: re_alloc_group_def good_def c_len_prog step_def grows_def appends_def MAX_GROUPS_def split: if_splits)

lemma good_fields [simp]:
  "good (c\<lparr>c_re := (c_re c)\<lparr>named := ns\<rparr>\<rparr>) = good c"
  "step (c\<lparr>c_re := (c_re c)\<lparr>named := ns\<rparr>\<rparr>) c' = step c c'"
  by (simp_all add: good_def step_def grows_def appends_def code_cap_def classes_ok_def c_len_prog prog_len_def)

lemma parse_named_group_spec:
  assumes "parse_spec pe"
  shows "parse_spec (parse_named_group pe)"
  unfolding parse_spec_def
proof (intro allI impI)
  fix c r c' assume a: "good c" "parse_named_group pe c = Some (r, c')" "\<not> parse_failed r c'"
  let ?n = "length (upto_char CHR ''>'' c)"
  have more: "more (adv ?n c)" using a(2,3) fail_spec by (auto simp: parse_named_group_def Let_def split: if_splits)
  obtain gid c1 where g: "re_alloc_group (adv 1 (adv ?n c)) = (gid, c1)" by fastforce
  have pos: "0 \<le> gid" using a(2,3) more g by (auto simp: parse_named_group_def Let_def parse_failed_def split: if_splits)
  have "good (adv 1 (adv ?n c))" using a(1) by simp
  note al = re_alloc_group_spec [OF g pos this]
  have "parse_group_body pe (nat gid) c1 = Some (r, c') \<or> (\<exists>ns. parse_group_body pe (nat gid)
      (c1\<lparr>c_re := (c_re c1)\<lparr>named := ns\<rparr>\<rparr>) = Some (r, c'))"
    using a(2) more g pos by (auto simp: parse_named_group_def Let_def split: if_splits)
  then have "step c1 c'"
  proof (elim disjE exE)
    assume "parse_group_body pe (nat gid) c1 = Some (r, c')"
    then show ?thesis by (rule parse_group_body_spec [OF assms al(1) al(4) _ a(3)])
  next
    fix ns assume b: "parse_group_body pe (nat gid) (c1\<lparr>c_re := (c_re c1)\<lparr>named := ns\<rparr>\<rparr>) = Some (r, c')"
    have "step (c1\<lparr>c_re := (c_re c1)\<lparr>named := ns\<rparr>\<rparr>) c'"
      by (rule parse_group_body_spec [OF assms _ _ b a(3)]) (use al(1,4) in simp_all)
    then show ?thesis by simp
  qed
  with al(2) show "step c c'" by simp
qed

lemma parse_group_spec:
  assumes "parse_spec pe"
  shows "parse_spec (parse_group pe)"
  unfolding parse_spec_def
proof (intro allI impI)
  fix c r c' assume a: "good c" "parse_group pe c = Some (r, c')" "\<not> parse_failed r c'"
  have la: "step d c'" if "parse_lookahead pe n d = Some (r, c')" "good d" for n d
    using parse_lookahead_spec [OF assms, of n] that a(3) by (auto simp: parse_spec_def)
  have ng: "step d c'" if "parse_named_group pe d = Some (r, c')" "good d" for d
    using parse_named_group_spec [OF assms] that a(3) by (auto simp: parse_spec_def)
  have fl: "step d c'" if "parse_inline_flags d = Some (r, c')" "good d" for d
    using that by (auto simp: parse_inline_flags_def Let_def step_refl split: if_splits)
  have gb: "step d c'" if "parse_group_body pe 0 d = Some (r, c')" "good d" for d
    using parse_group_body_spec [OF assms that(2) _ that(1) a(3)] by simp
  have al: "step c c'" if "re_alloc_group c = (gid, d)" "0 \<le> gid" "parse_group_body pe (nat gid) d = Some (r, c')" for gid d
    using re_alloc_group_spec [OF that(1,2) a(1)] parse_group_body_spec [OF assms _ _ that(3) a(3)] by blast
  show "step c c'"
    using a(2) a(3) a(1) unfolding parse_group_def Let_def
    by (auto simp: parse_failed_def dest: fail_spec dest!: la ng fl gb intro: al split: if_splits prod.splits)
qed

lemma parse_atom_spec:
  assumes "parse_spec pe"
  shows "parse_spec (parse_atom pe)"
  unfolding parse_spec_def
proof (intro allI impI)
  fix c r c' assume a: "good c" "parse_atom pe c = Some (r, c')" "\<not> parse_failed r c'"
  have gr: "step d c'" if "parse_group pe d = Some (r, c')" "good d" for d
    using parse_group_spec [OF assms] that a(3) by (auto simp: parse_spec_def)
  have es: "step d c'" if "parse_escape d = Some (r, c')" "good d" for d
    using parse_escape_spec that a(3) by (auto simp: parse_spec_def)
  have em: "step c c'" if "c_emit (adv n c) p k 0 = (r, c')" "simple_op p" "p \<notin> {OP_CLASS, OP_NCLASS, OP_SAVE}" for n p k
    using c_emit_step [of "adv n c" p k r c'] that a(1,3) by (simp add: parse_failed_def)
  have cl: "step c c'" if cb: "parse_class_body (adv 1 c) = Some (cid, d)" "\<not> parse_failed cid d"
    and e: "c_emit d OP_CLASS (nat cid) 0 = (r, c')" for cid d
  proof -
    have h: "grows (adv 1 c) d" "prog (c_re d) = prog (c_re c)" "nat cid < n_classes (c_re d)" "good d"
      using parse_class_body_spec [OF _ cb] a(1) by auto
    have "step d c'" by (rule c_emit_step [OF h(4) e]) (use a(3) h(3) in \<open>auto simp: parse_failed_def simple_op_def\<close>)
    moreover have "step c d" using h by (auto simp: step_def grows_def appends_def c_len_prog intro!: exI [of _ Eps])
    ultimately show ?thesis by (rule step_trans [rotated])
  qed
  show "step c c'"
    using a(2) a(3) a(1) unfolding parse_atom_def Let_def
    by (auto simp: parse_failed_def simple_op_def step_refl dest: gr es intro: cl em split: if_splits bind_splits prod.splits)
qed

section \<open>Pieces\<close>

text \<open>In a full program a quantifier keeps what is before its operand, and the program stays full.\<close>

lemma apply_quantifier_full:
  assumes "code_cap h" "prog h = p @ q" "tgt_ok p" "M_FULL \<le> prog_len h"
    and "apply_quantifier h (length p) qc z = Some (res, h')" "0 \<le> res" "qc \<in> {CHR ''?'', CHR ''*'', CHR ''+''}"
  obtains q' where "same_but_prog h (p @ q') h'" "M_FULL \<le> prog_len h'"
proof -
  obtain q' where "same_but_prog h (p @ q') h'" "length q \<le> length q'"
    using apply_quantifier_body [OF assms(1-3,7), of z] assms(5,6) by (auto split: if_splits)
  with assms(2,4) that show ?thesis using same_but_progD(2) [of h "p @ q'" h'] by (auto simp: prog_len_def)
qed

lemma count_loops_full:
  "M_FULL \<le> prog_len h \<Longrightarrow> count_optional k bs n z h = Some (ok, msg, h') \<Longrightarrow> ok \<Longrightarrow> h' = h"
  "M_FULL \<le> prog_len h \<Longrightarrow> count_mandatory k bs n h = Some (ok, msg, h') \<Longrightarrow> ok \<Longrightarrow> h' = h"
  by (cases k; auto simp: MAX_INSTRS_def)+

lemma apply_count_full:
  assumes "code_cap h" "prog h = p @ q" "tgt_ok p" "M_FULL \<le> prog_len h" "\<not> (n = 0 \<and> m = 0)"
    and "apply_count h (length p) e n m z = Some (res, msg, h')" "0 \<le> res"
  obtains q' where "same_but_prog h (p @ q') h'" "M_FULL \<le> prog_len h'"
proof -
  note quant = apply_quantifier_full [OF assms(1-4), where z = z]
  show ?thesis
  proof (cases "n = 0")
    case True
    show ?thesis
    proof (cases "m = - 1")
      case m: True
      then have "apply_quantifier h (length p) CHR ''*'' z = Some (res, h')"
        using True assms(6) by (auto simp: apply_count_def Let_def split: bind_splits)
      then show ?thesis by (rule quant [OF _ assms(7)]) (auto intro: that)
    next
      case m: False
      then obtain r1 h1 where h1: "apply_quantifier h (length p) CHR ''?'' z = Some (r1, h1)" "0 \<le> r1"
        using True assms(5-7) by (auto simp: apply_count_def Let_def split: bind_splits if_splits)
      obtain q' where q': "same_but_prog h (p @ q') h1" "M_FULL \<le> prog_len h1"
        by (rule quant [OF h1]) auto
      obtain ok msg' h2 where h2: "count_optional (nat (m - 1)) (length p + 1) (e - length p) z h1 = Some (ok, msg', h2)"
        "ok" "h' = h2"
        using True m assms(5-7) h1 by (auto simp: apply_count_def Let_def split: bind_splits if_splits)
      then show ?thesis using count_loops_full(1) [OF q'(2) h2(1)] q' that by blast
    qed
  next
    case False
    obtain msg1 h1 where h1: "count_mandatory (nat (n - 1)) (length p) (e - length p) h = Some (True, msg1, h1)"
      using False assms(6,7) by (auto simp: apply_count_def Let_def split: bind_splits if_splits)
    have eq: "h1 = h" by (rule count_loops_full(2) [OF assms(4) h1 TrueI])
    have "m \<noteq> - 1"
      using False assms(4,6,7) h1 eq reserve_fails [of h "e - length p + 2"]
      by (auto simp: apply_count_def Let_def)
    then obtain msg2 h2 where h2: "count_optional (nat (m - n)) (length p) (e - length p) z h = Some (True, msg2, h2)" "h' = h2"
      using False assms(6,7) h1 eq by (auto simp: apply_count_def Let_def split: bind_splits if_splits)
    have "h' = h" unfolding h2(2) by (rule count_loops_full(1) [OF assms(4) h2(1) TrueI])
    then show ?thesis using that [of q] same_but_prog_refl [OF assms(1)] assms(2,4) by simp
  qed
qed

text \<open>The step of a piece from the step of its atom and what a repetition does to the program.\<close>

lemma rep_step:
  assumes "good c" "step c c1" "c_len c1 \<noteq> c_len c" "c_re c2 = c_re c1" "group_counter c2 = group_counter c1"
    and "\<And>r. prog (c_re c1) = prog (c_re c) @ codegen (c_len c) r \<Longrightarrow> wf_in c1 r \<Longrightarrow>
      \<exists>r'. wf_in c1 r' \<and> same_but_prog (c_re c1) (prog (c_re c) @ codegen (c_len c) r') h"
    and "\<And>q. prog (c_re c1) = prog (c_re c) @ q \<Longrightarrow> M_FULL \<le> prog_len (c_re c1) \<Longrightarrow>
      \<exists>q'. same_but_prog (c_re c1) (prog (c_re c) @ q') h \<and> M_FULL \<le> prog_len h"
  shows "step c (c2\<lparr>c_re := h\<rparr>)"
proof -
  have good1: "good c1" by (rule step_good [OF assms(1,2)])
  obtain q where q: "prog (c_re c1) = prog (c_re c) @ q" "M_FULL \<le> c_len c \<longrightarrow> q = []"
    "c_len c1 < M_FULL \<longrightarrow> (\<exists>r. wf_in c1 r \<and> q = codegen (c_len c) r)"
    using assms(2) by (auto simp: step_def appends_def c_len_prog)
  have lt: "c_len c < M_FULL" using q(1,2) assms(3) by (auto simp: c_len_prog)
  have main: "step c (c2\<lparr>c_re := h\<rparr>)"
    if s: "same_but_prog (c_re c1) (prog (c_re c) @ q') h"
      and w: "prog_len h < M_FULL \<Longrightarrow> \<exists>r'. wf_in c1 r' \<and> q' = codegen (c_len c) r'" for q'
  proof -
    note p = same_but_progD [OF s]
    have "grows c1 (c1\<lparr>c_re := h\<rparr>)" by (rule grows_same_but_prog [OF good1 s])
    then have "grows c (c1\<lparr>c_re := h\<rparr>)" using assms(2) grows_trans by (auto simp: step_def)
    then have "grows c (c2\<lparr>c_re := h\<rparr>)" using assms(5) by (simp add: grows_def)
    then show ?thesis using p w lt assms(5) by (auto simp: step_def appends_def c_len_prog prog_len_def)
  qed
  show ?thesis
  proof (cases "c_len c1 < M_FULL")
    case True
    then obtain r where "wf_in c1 r" "q = codegen (c_len c) r" using q(3) by blast
    then obtain r' where "wf_in c1 r'" "same_but_prog (c_re c1) (prog (c_re c) @ codegen (c_len c) r') h"
      using assms(6) q(1) by blast
    then show ?thesis using main by blast
  next
    case False
    then obtain q' where "same_but_prog (c_re c1) (prog (c_re c) @ q') h" "M_FULL \<le> prog_len h"
      using assms(7) q(1) by (auto simp: c_len_def)
    then show ?thesis using main by auto
  qed
qed

lemma parse_number_re: "parse_number c = Some (n, c') \<Longrightarrow> \<exists>k. c' = adv k c"
  by (auto simp: parse_number_def split: bind_splits)

lemma adv_adv [simp]: "adv m (adv n c) = adv (n + m) c"
  by (simp add: adv_def)

lemma adv_0 [simp]: "adv 0 c = c"
  by (simp add: adv_def)

lemma lazy_mark_re: "lazy_mark c = (z, c') \<Longrightarrow> \<exists>k. c' = adv k c"
  by (auto simp: lazy_mark_def intro: exI [of _ 0] split: if_splits)

text \<open>A successful counted quantifier either removes its operand or calls \<open>apply_count\<close>.\<close>

lemma parse_count_cases:
  assumes "parse_count start e c = Some (r, c')" "\<not> parse_failed r c'"
  obtains k where "c' = (adv k c)\<lparr>c_re := (c_re c)\<lparr>prog := take start (prog (c_re c))\<rparr>\<rparr>"
  | k n m z h where "apply_count (c_re c) start e n m z = Some (r, [], h)" "c' = (adv k c)\<lparr>c_re := h\<rparr>"
      "\<not> (n = 0 \<and> m = 0)" "0 \<le> n" "m = -1 \<or> n \<le> m"
proof -
  obtain n c1 where n: "parse_number c = Some (n, c1)" using assms(1) by (auto simp: parse_count_def split: bind_splits)
  obtain k1 where k1: "c1 = adv k1 c" using parse_number_re [OF n] by blast
  let ?comma = "at_char CHR '','' c1"
  let ?c2 = "if ?comma then adv 1 c1 else c1"
  obtain m c3 where m: "(if ?comma then
                  (if more ?c2 \<and> cur ?c2 \<noteq> CHR ''}''
                   then do { (m, c) \<leftarrow> parse_number ?c2; Some (int m, c) } else Some (- 1, ?c2))
                else Some (0, ?c2)) = Some (m, c3)"
    using assms(1) n by (auto simp: parse_count_def Let_def split: bind_splits if_splits)
  have k3: "\<exists>k. c3 = adv k c" using m k1 by (auto split: if_splits bind_splits dest!: parse_number_re)
  obtain z c4 where z: "lazy_mark (adv 1 c3) = (z, c4)" by fastforce
  obtain k4 where k4: "c4 = adv k4 c" using lazy_mark_re [OF z] k3 by auto
  let ?m = "if ?comma then m else int n"
  have res: "(if ?m \<noteq> - 1 \<and> ?m > 255 then fail ''{n,m}: m exceeds limit 255'' c4
                else if ?m \<noteq> - 1 \<and> ?m < int n then fail ''{n,m}: m < n'' c4
                else if n = 0 \<and> ?m = 0 then
                  Some (int start, c4\<lparr>c_re := (c_re c4)\<lparr>prog := take start (prog (c_re c4))\<rparr>\<rparr>)
                else do {
                  (r, msg, h) \<leftarrow> apply_count (c_re c4) start e (int n) ?m z;
                  let c = c4\<lparr>c_re := h\<rparr>;
                  Some (r, if msg = [] then c else comp_error msg c) }) = Some (r, c')"
  proof -
    have "at_char CHR ''}'' c3"
      using assms n m fail_spec by (auto simp: parse_count_def Let_def split: if_splits)
    then show ?thesis using assms(1) n m z by (simp add: parse_count_def Let_def)
  qed
  have err: "had_error (comp_error msg d)" for msg d by (simp add: comp_error_def)
  show ?thesis
  proof (cases "n = 0 \<and> ?m = 0")
    case True
    then show ?thesis using res that(1) [of k4] k4 by (auto split: if_splits)
  next
    case False
    then obtain msg h where "apply_count (c_re c4) start e (int n) ?m z = Some (r, msg, h)"
      "c' = (if msg = [] then c4\<lparr>c_re := h\<rparr> else comp_error msg (c4\<lparr>c_re := h\<rparr>))" "?m = - 1 \<or> int n \<le> ?m"
      using res assms(2) fail_spec by (auto simp: Let_def not_less split: bind_splits if_splits)
    then show ?thesis using that(2) [of "int n" ?m z h k4] False k4 assms(2) err
      by (auto simp: parse_failed_def split: if_splits)
  qed
qed


lemma parse_piece_spec:
  assumes "parse_spec pe"
  shows "parse_spec (parse_piece pe)"
  unfolding parse_spec_def
proof (intro allI impI)
  fix c r c' assume a: "good c" "parse_piece pe c = Some (r, c')" "\<not> parse_failed r c'"
  obtain r1 c1 where r1: "parse_atom pe c = Some (r1, c1)" using a(2) by (auto simp: parse_piece_def Let_def split: bind_splits)
  have ok1: "\<not> parse_failed r1 c1" using a(2,3) r1 by (auto simp: parse_piece_def Let_def parse_failed_def split: if_splits)
  have s1: "step c c1" using parse_atom_spec [OF assms] a(1) r1 ok1 by (auto simp: parse_spec_def)
  note good1 = step_good [OF a(1) s1]
  have cap: "code_cap (c_re c1)" using good1 by (simp add: good_def)
  have tgt: "tgt_ok (prog (c_re c))" if "c_len c1 \<noteq> c_len c"
    using that a(1) s1 by (auto simp: good_def step_def appends_def c_len_prog)
  have res0: "0 \<le> r" using a(3) by (simp add: parse_failed_def)
  consider "c' = c1"
    | qc z c2 h where "c_len c1 \<noteq> c_len c" "qc \<in> {CHR ''?'', CHR ''*'', CHR ''+''}" "\<exists>k. c2 = adv k c1"
        "apply_quantifier (c_re c1) (c_len c) qc z = Some (r, h)" "c' = c2\<lparr>c_re := h\<rparr>"
    | "c_len c1 \<noteq> c_len c" "parse_count (c_len c) (c_len c1) (adv 1 c1) = Some (r, c')"
    using a(2) r1 ok1
    by (auto simp: parse_piece_def Let_def dest!: lazy_mark_re split: if_splits bind_splits prod.splits) (metis adv_adv)+
  then show "step c c'"
  proof cases
    case 1
    with s1 show ?thesis by simp
  next
    case (2 qc z c2 h)
    note cl = c_len_prog [of c]
    show ?thesis unfolding 2(5)
    proof (rule rep_step [OF a(1) s1 2(1)])
      show "c_re c2 = c_re c1" "group_counter c2 = group_counter c1" using 2(3) by auto
    next
      fix rx assume "prog (c_re c1) = prog (c_re c) @ codegen (c_len c) rx" "wf_in c1 rx"
      then show "\<exists>r'. wf_in c1 r' \<and> same_but_prog (c_re c1) (prog (c_re c) @ codegen (c_len c) r') h"
        using apply_quantifier_code [OF cap _ tgt [OF 2(1)] _ 2(2), of rx _ _ z] 2(4) res0
        by (intro exI [of _ "quant_rx qc z rx"]) (auto simp: cl)
    next
      fix q assume q: "prog (c_re c1) = prog (c_re c) @ q" "M_FULL \<le> prog_len (c_re c1)"
      show "\<exists>q'. same_but_prog (c_re c1) (prog (c_re c) @ q') h \<and> M_FULL \<le> prog_len h"
        by (rule apply_quantifier_full [OF cap q(1) tgt [OF 2(1)] q(2) _ res0 2(2), of z h]) (use 2(4) in \<open>auto simp: cl\<close>)
    qed
  next
    case 3
    note cl = c_len_prog [of c]
    show ?thesis
    proof (rule parse_count_cases [OF 3(2) a(3)])
      fix k assume c': "c' = (adv k (adv 1 c1))\<lparr>c_re := (c_re (adv 1 c1))\<lparr>prog := take (c_len c) (prog (c_re (adv 1 c1)))\<rparr>\<rparr>"
      obtain q where q: "prog (c_re c1) = prog (c_re c) @ q" using s1 by (auto simp: step_def appends_def)
      have "same_but_prog (c_re c1) (prog (c_re c)) ((c_re c1)\<lparr>prog := prog (c_re c)\<rparr>)"
        using cap q by (auto simp: same_but_prog_def code_cap_def prog_len_def intro!: exI [of _ "prog_cap (c_re c1)"])
      from grows_same_but_prog [OF good1 this] have "grows c (c1\<lparr>c_re := (c_re c1)\<lparr>prog := prog (c_re c)\<rparr>\<rparr>)"
        using s1 grows_trans by (auto simp: step_def)
      then show ?thesis unfolding c' using q
        by (auto simp: step_def appends_def cl grows_def intro!: exI [of _ Eps])
    next
      fix k n m z h assume h: "apply_count (c_re (adv 1 c1)) (c_len c) (c_len c1) n m z = Some (r, [], h)"
        "c' = (adv k (adv 1 c1))\<lparr>c_re := h\<rparr>" "\<not> (n = 0 \<and> m = 0)" "0 \<le> n" "m = -1 \<or> n \<le> m"
      show ?thesis unfolding h(2)
      proof (rule rep_step [OF a(1) s1 3(1)])
        fix rx assume p: "prog (c_re c1) = prog (c_re c) @ codegen (c_len c) rx" "wf_in c1 rx"
        have "c_len c1 = c_len c + code_len rx" using p(1) by (simp add: c_len_prog)
        then show "\<exists>r'. wf_in c1 r' \<and> same_but_prog (c_re c1) (prog (c_re c) @ codegen (c_len c) r') h"
          using apply_count_code [OF cap _ tgt [OF 3(1)] p(2), of n m z] p h(1) res0
          by (intro exI [of _ "count_rx n m z rx"]) (auto simp: cl)
      next
        fix q assume q: "prog (c_re c1) = prog (c_re c) @ q" "M_FULL \<le> prog_len (c_re c1)"
        show "\<exists>q'. same_but_prog (c_re c1) (prog (c_re c) @ q') h \<and> M_FULL \<le> prog_len h"
          by (rule apply_count_full [OF cap q(1) tgt [OF 3(1)] q(2) h(3) _ res0, of "c_len c1" z "[]" h])
            (use h(1) in \<open>auto simp: cl\<close>)
      qed simp_all
    qed
  qed
qed

section \<open>Concatenation\<close>

lemma parse_concat_spec:
  assumes "parse_spec pe"
  shows "parse_spec (parse_concat pe)"
proof -
  have "parse_concat pe' c = Some y \<Longrightarrow>
    parse_spec pe' \<longrightarrow> good c \<longrightarrow> \<not> parse_failed (fst y) (snd y) \<longrightarrow> step c (snd y)" for pe' c y
  proof (induction rule: parse_concat.raw_induct [rotated, consumes 1, case_names R])
    case (R f pe c y)
    show ?case
    proof (intro impI)
      obtain r c' where y: "y = (r, c')" by fastforce
      assume a': "parse_spec pe" "good c" "\<not> parse_failed (fst y) (snd y)"
      then have a: "parse_spec pe" "good c" "\<not> parse_failed r c'" by (simp_all add: y)
      have "step c c'"
      proof (cases "\<not> more c \<or> cur c = CHR '')'' \<or> cur c = CHR ''|''")
        case True
        then show ?thesis using R(2) a(2) y by (simp add: step_refl)
      next
        case False
        then obtain r1 c1 where p: "parse_piece pe c = Some (r1, c1)" "\<not> parse_failed r1 c1" "f pe c1 = Some (r, c')"
          using R(2) a(3) y by (auto simp: parse_failed_def split: bind_splits if_splits)
        have s: "step c c1" using parse_piece_spec [OF a(1)] a(2) p(1,2) by (auto simp: parse_spec_def)
        from R(1) [OF p(3)] a(1,3) step_good [OF a(2) s] have "step c1 c'" by simp
        with s show ?thesis by (rule step_trans)
      qed
      then show "step c (snd y)" by (simp add: y)
    qed
  qed
  with assms show ?thesis unfolding parse_spec_def [of "parse_concat pe"] by fastforce
qed

section \<open>Alternation\<close>

text \<open>
  The branches closed so far, each with its SPLIT and the JUMP to the end \<open>e\<close>, and the
  positions of the jumps.
\<close>

fun alt_code :: "nat \<Rightarrow> nat \<Rightarrow> rx list \<Rightarrow> ReInstr list" where
  "alt_code e L [] = []"
| "alt_code e L (r # rs) =
     mk_instr OP_SPLIT (L + 1) (L + 2 + code_len r) # codegen (L + 1) r @ mk_instr OP_JUMP e 0
       # alt_code e (L + 2 + code_len r) rs"

fun alt_len :: "rx list \<Rightarrow> nat" where
  "alt_len [] = 0"
| "alt_len (r # rs) = code_len r + 2 + alt_len rs"

fun alt_jumps :: "nat \<Rightarrow> rx list \<Rightarrow> int list" where
  "alt_jumps L [] = []"
| "alt_jumps L (r # rs) = int (L + 1 + code_len r) # alt_jumps (L + 2 + code_len r) rs"

lemma length_alt_code [simp]: "length (alt_code e L rs) = alt_len rs"
  by (induction rs arbitrary: L) simp_all

lemma alt_snoc:
  "alt_len (rs @ [r]) = alt_len rs + code_len r + 2"
  "alt_jumps L (rs @ [r]) = alt_jumps L rs @ [int (L + alt_len rs + 1 + code_len r)]"
  "alt_code e L (rs @ [r]) = alt_code e L rs @ mk_instr OP_SPLIT (L + alt_len rs + 1) (L + alt_len rs + 2 + code_len r)
     # codegen (L + alt_len rs + 1) r @ [mk_instr OP_JUMP e 0]"
  by (induction rs arbitrary: L) (simp_all add: algebra_simps)

lemma codegen_alts:
  "codegen L (foldr Alt rs r) = alt_code (L + alt_len rs + code_len r) L rs @ codegen (L + alt_len rs) r"
  "code_len (foldr Alt rs r) = alt_len rs + code_len r"
  by (induction rs arbitrary: L) (simp_all add: algebra_simps)

lemma wf_alts: "wf_rx nc ng r \<Longrightarrow> \<forall>s \<in> set rs. wf_rx nc ng s \<Longrightarrow> wf_rx nc ng (foldr Alt rs r)"
  by (induction rs) simp_all

lemma alt_code_targets:
  "\<forall>r \<in> set rs. wf_rx nc ng r \<Longrightarrow> ins \<in> set (alt_code e L rs) \<Longrightarrow> t \<in> targets ins \<Longrightarrow> t = e \<or> t \<le> L + alt_len rs"
  by (induction rs arbitrary: L) (auto simp: algebra_simps dest!: codegen_closed, fastforce+)

lemma tgt_ok_alts: "tgt_ok p \<Longrightarrow> length p = L \<Longrightarrow> \<forall>r \<in> set rs. wf_rx nc ng r \<Longrightarrow> tgt_ok (p @ alt_code 0 L rs)"
  by (rule tgt_ok_append) (use alt_code_targets in fastforce)+

text \<open>The slot opened before a branch.\<close>

lemma insert_split_result:
  assumes "insert_split (length p) c = Some (True, c')" "prog (c_re c) = p @ q" "tgt_ok p" "code_cap (c_re c)"
  obtains x h where "c' = c\<lparr>c_re := h\<rparr>" "opcode x = OP_SPLIT"
    "same_but_prog (c_re c) (p @ x # map (map_targets (bump (length p))) q) h"
proof -
  have lt: "prog_len (c_re c) < MAX_INSTRS"
  proof (rule ccontr)
    assume "\<not> ?thesis"
    with assms(1) show False using reserve_fails [of "c_re c" 1] by (simp add: insert_split_def)
  qed
  obtain h1 h2 x where o: "re_prog_reserve (c_re c) 1 = (True, h1)" "open_slot (length p) h1 = Some h2"
    "same_but_prog (c_re c) (p @ x # map (map_targets (bump (length p))) q)
      (h2\<lparr>prog := re_fixup_pcs_after_shift (length p) 1 (prog_len h2) (prog h2)\<rparr>)"
    by (rule open_shift [OF assms(4,2,3) lt]) (rule that)
  obtain h3 where h3: "set_instr (int (length p)) (\<lambda>i. i\<lparr>opcode := OP_SPLIT\<rparr>)
      (h2\<lparr>prog := re_fixup_pcs_after_shift (length p) 1 (prog_len h2) (prog h2)\<rparr>) = Some h3"
    "same_but_prog (c_re c) (p @ x\<lparr>opcode := OP_SPLIT\<rparr> # map (map_targets (bump (length p))) q) h3"
    by (rule set_instr_at [OF o(3), of "\<lambda>i. i\<lparr>opcode := OP_SPLIT\<rparr>"]) (rule that)
  show ?thesis using assms(1) o(1,2) h3 by (intro that [of h3]) (auto simp: insert_split_def Let_def)
qed

text \<open>One round of the loop over the branches, and what it carries.\<close>

lemma alt_loop_round:
  assumes "alt_loop pe A js c = Some (True, js', c')" "at_char CHR ''|'' c"
  obtains j c1 c2 r c3 where "length js < 64" "c_emit (adv 1 c) OP_JUMP 0 0 = (j, c1)"
    "c_set_instr (int A) (\<lambda>i. i\<lparr>operand_a := A + 1, operand_b := c_len c1\<rparr>) c1 = Some c2"
    "parse_concat pe c2 = Some (r, c3)" "\<not> parse_failed r c3"
    "js' = js @ [j] \<and> c' = c3 \<or>
     at_char CHR ''|'' c3 \<and> c_len c3 + 1 < MAX_INSTRS \<and>
       (\<exists>c4. insert_split (c_len c1) c3 = Some (True, c4) \<and> alt_loop pe (c_len c1) (js @ [j]) c4 = Some (True, js', c'))"
  using assms by (subst (asm) alt_loop.simps)
    (auto simp: Let_def not_le not_less split: if_splits bind_splits prod.splits)

lemma alt_loop_jumps: "alt_loop pe A js c = Some (True, js', c') \<Longrightarrow> set js \<subseteq> set js'"
proof (induction "64 - length js" arbitrary: A js c rule: less_induct)
  case less
  show ?case
  proof (cases "at_char CHR ''|'' c")
    case True
    have IH: "set (js @ [j]) \<subseteq> set js'"
      if "length js < 64" "alt_loop pe A' (js @ [j]) c4 = Some (True, js', c')" for j A' c4
      by (rule less(1) [OF _ that(2)]) (use that(1) in simp)
    show ?thesis
      by (rule alt_loop_round [OF less(2) True]) (use IH in force)
  next
    case False
    with less(2) show ?thesis by (subst (asm) alt_loop.simps) simp
  qed
qed

lemma set_instr_same:
  assumes "set_instr (int (length p)) f h = Some h'" "prog h = p @ x # q"
  shows "h' = h\<lparr>prog := p @ f x # q\<rparr>"
  using assms by (simp add: set_instr_def prog_len_def list_update_append)

lemma grows_prog: "grows c c' \<Longrightarrow> length q \<le> prog_cap (c_re c') \<Longrightarrow> grows c (c'\<lparr>c_re := (c_re c')\<lparr>prog := q\<rparr>\<rparr>)"
  by (simp add: grows_def code_cap_def classes_ok_def prog_len_def)

lemma alt_loop_spec:
  assumes pe: "parse_spec pe" and p: "tgt_ok p" "length p = L"
  shows "alt_loop pe A js c = Some (True, js', c') \<Longrightarrow> at_char CHR ''|'' c \<Longrightarrow> grows c0 c \<Longrightarrow>
    js = alt_jumps L rs \<Longrightarrow> A = L + alt_len rs \<Longrightarrow>
    prog (c_re c) = p @ alt_code 0 L rs @ x # codegen (A + 1) r \<Longrightarrow> opcode x = OP_SPLIT \<Longrightarrow>
    wf_in c r \<Longrightarrow> \<forall>s \<in> set rs. wf_in c s \<Longrightarrow> - 1 \<notin> set js' \<Longrightarrow>
    grows c0 c' \<and> (\<exists>rs' q. js' = alt_jumps L rs' \<and> prog (c_re c') = p @ alt_code 0 L rs' @ q \<and>
      (\<forall>s \<in> set rs'. wf_in c' s) \<and>
      (c_len c' < M_FULL \<longrightarrow> (\<exists>r. wf_in c' r \<and> q = codegen (L + alt_len rs') r)))"
proof (induction "64 - length js" arbitrary: A js c rs x r rule: less_induct)
  case less
  obtain j c1 c2 r' c3 where rd: "length js < 64" "c_emit (adv 1 c) OP_JUMP 0 0 = (j, c1)"
    "c_set_instr (int A) (\<lambda>i. i\<lparr>operand_a := A + 1, operand_b := c_len c1\<rparr>) c1 = Some c2"
    "parse_concat pe c2 = Some (r', c3)" "\<not> parse_failed r' c3"
    "js' = js @ [j] \<and> c' = c3 \<or>
     at_char CHR ''|'' c3 \<and> c_len c3 + 1 < MAX_INSTRS \<and>
       (\<exists>c4. insert_split (c_len c1) c3 = Some (True, c4) \<and> alt_loop pe (c_len c1) (js @ [j]) c4 = Some (True, js', c'))"
    by (rule alt_loop_round [OF less(2,3)]) (rule that)
  have "j \<in> set js'" using rd(6) alt_loop_jumps by fastforce
  with less(11) have "j \<noteq> - 1" by auto
  then have lt: "c_len c < M_FULL" using rd(2) c_emit_full [of "adv 1 c" OP_JUMP 0 0] by fastforce
  have cap: "code_cap (c_re c)" using less(4) by (simp add: grows_def)
  obtain h where h: "emit (c_re c) OP_JUMP 0 0 = (int (prog_len (c_re c)), h)"
    "same_but_prog (c_re c) (prog (c_re c) @ [mk_instr OP_JUMP 0 0]) h"
    using emit_appends [OF cap] lt by (metis c_len_def)
  have c1: "c1 = (adv 1 c)\<lparr>c_re := h\<rparr>" "j = int (c_len c)" using rd(2) h(1) by (simp_all add: c_emit_def c_len_def)
  note ph = same_but_progD [OF h(2)]
  have len1: "c_len c1 = A + 2 + code_len r" using ph(2) less(6,7) p(2) by (simp add: c1 c_len_def prog_len_def)
  let ?rs = "rs @ [r]"
  have c2: "c2 = c1\<lparr>c_re := h\<lparr>prog := p @ alt_code 0 L ?rs\<rparr>\<rparr>"
  proof -
    obtain h2 where h2: "set_instr (int (length (p @ alt_code 0 L rs))) (\<lambda>i. i\<lparr>operand_a := A + 1, operand_b := c_len c1\<rparr>) h = Some h2"
      "c2 = c1\<lparr>c_re := h2\<rparr>"
      using rd(3) p(2) less(6) by (auto simp: c_set_instr_def c1 split: bind_splits)
    have "prog h = (p @ alt_code 0 L rs) @ x # (codegen (A + 1) r @ [mk_instr OP_JUMP 0 0])"
      using ph(1) less(7) by simp
    from set_instr_same [OF h2(1) this] show ?thesis
      using h2(2) less(6,8) len1 by (cases x) (simp add: alt_snoc mk_instr_def)
  qed
  have g2: "grows c0 c2"
  proof -
    have "grows c0 c1" using less(4) ph by (simp add: c1 grows_def classes_ok_def)
    then show ?thesis unfolding c2 using grows_prog [of c0 c1 "p @ alt_code 0 L ?rs"] ph(2,3) less(6,7) p(2)
      by (simp add: c1 code_cap_def prog_len_def alt_snoc)
  qed
  have wf2: "\<forall>s \<in> set ?rs. wf_in c2 s" using less(9,10) ph(7) by (simp add: c2 c1)
  have "tgt_ok (prog (c_re c2))" using tgt_ok_alts [OF p wf2] by (simp add: c2)
  then have good2: "good c2" using g2 by (simp add: good_def grows_def)
  have s3: "step c2 c3" using parse_concat_spec [OF pe] good2 rd(4,5) by (auto simp: parse_spec_def)
  have g3: "grows c0 c3" using g2 s3 grows_trans by (auto simp: step_def)
  have wf3: "\<forall>s \<in> set ?rs. wf_in c3 s" using wf2 s3 grows_wf by (auto simp: step_def)
  obtain q where q: "prog (c_re c3) = (p @ alt_code 0 L ?rs) @ q"
    "c_len c3 < M_FULL \<longrightarrow> (\<exists>r. wf_in c3 r \<and> q = codegen (L + alt_len ?rs) r)"
    using s3 p(2) by (auto simp: step_def appends_def c2 c_len_prog)
  have js: "js @ [j] = alt_jumps L ?rs" using c1(2) less(5,6,7) p(2) by (simp add: alt_snoc c_len_prog)
  from rd(6) show ?case
  proof (elim disjE conjE exE)
    assume "js' = js @ [j]" "c' = c3"
    then show ?thesis using g3 js q wf3 by (intro conjI exI [of _ ?rs] exI [of _ q]) (simp_all del: alt_code.simps)
  next
    fix c4 assume a: "at_char CHR ''|'' c3" "c_len c3 + 1 < MAX_INSTRS"
      "insert_split (c_len c1) c3 = Some (True, c4)" "alt_loop pe (c_len c1) (js @ [j]) c4 = Some (True, js', c')"
    obtain rn where rn: "wf_in c3 rn" "q = codegen (L + alt_len ?rs) rn" using q(2) a(2) by auto
    have lenA: "c_len c1 = length (p @ alt_code 0 L ?rs)" "c_len c1 = L + alt_len ?rs"
      using len1 less(6) p(2) by (simp_all add: alt_snoc)
    have cap3: "code_cap (c_re c3)" using g3 by (simp add: grows_def)
    obtain y h4 where y: "c4 = c3\<lparr>c_re := h4\<rparr>" "opcode y = OP_SPLIT"
      "same_but_prog (c_re c3) ((p @ alt_code 0 L ?rs) @ y # map (map_targets (bump (c_len c1))) q) h4"
      using insert_split_result [OF a(3) [unfolded lenA(1)] q(1) _ cap3] tgt_ok_alts [OF p wf2] lenA(1) by metis
    note p4 = same_but_progD [OF y(3)]
    have code4: "prog h4 = p @ alt_code 0 L ?rs @ y # codegen (c_len c1 + 1) rn"
      using p4(1) rn(2) bump_codegen [OF rn(1), of "c_len c1"] lenA(2) by simp
    have g4: "grows c0 c4" using g3 p4 by (simp add: y(1) grows_def classes_ok_def)
    show ?thesis
      by (rule less(1) [OF _ a(4) _ g4 js lenA(2) _ y(2), of rn])
        (use rd(1) a(1) code4 rn(1) wf3 p4(7) less(11) in \<open>simp_all add: y(1) at_char_def more_def cur_def pat_len_def\<close>)
  qed
qed


lemma patch_jumps_dropped: "- 1 \<in> set js \<Longrightarrow> patch_jumps js e c = None"
proof (induction js arbitrary: c)
  case (Cons j js)
  then show ?case by (cases "j = - 1") (auto simp: c_set_instr_def set_instr_def split: bind_split)
qed simp

lemma patch_jumps_alts:
  "patch_jumps (alt_jumps L rs) e c = Some c' \<Longrightarrow> prog (c_re c) = p @ alt_code d L rs @ q \<Longrightarrow> length p = L \<Longrightarrow>
   c' = c\<lparr>c_re := (c_re c)\<lparr>prog := p @ alt_code e L rs @ q\<rparr>\<rparr>"
proof (induction rs arbitrary: L c p)
  case Nil
  then show ?case by simp
next
  case (Cons r rs)
  let ?hd = "mk_instr OP_SPLIT (L + 1) (L + 2 + code_len r) # codegen (L + 1) r"
  obtain h where h: "set_instr (int (length (p @ ?hd))) (\<lambda>i. i\<lparr>operand_a := e\<rparr>) (c_re c) = Some h"
    "patch_jumps (alt_jumps (L + 2 + code_len r) rs) e (c\<lparr>c_re := h\<rparr>) = Some c'"
    using Cons.prems(1,3) by (auto simp: c_set_instr_def split: bind_splits)
  have "prog (c_re c) = (p @ ?hd) @ mk_instr OP_JUMP d 0 # (alt_code d (L + 2 + code_len r) rs @ q)"
    using Cons.prems(2) by simp
  from set_instr_same [OF h(1) this]
  have h': "h = (c_re c)\<lparr>prog := (p @ ?hd @ [mk_instr OP_JUMP e 0]) @ alt_code d (L + 2 + code_len r) rs @ q\<rparr>"
    by (simp add: mk_instr_def)
  show ?case
    using Cons.IH [OF h(2), of "p @ ?hd @ [mk_instr OP_JUMP e 0]"] h' Cons.prems(3) by simp
qed

lemma parse_expr_inner_spec:
  assumes "parse_spec pe"
  shows "parse_spec (parse_expr_inner pe)"
  unfolding parse_spec_def
proof (intro allI impI)
  fix c r c' assume a: "good c" "parse_expr_inner pe c = Some (r, c')" "\<not> parse_failed r c'"
  obtain r1 c1 where r1: "parse_concat pe c = Some (r1, c1)"
    using a(2) by (auto simp: parse_expr_inner_def Let_def split: bind_splits)
  have ok1: "\<not> parse_failed r1 c1"
    using a(2,3) r1 by (auto simp: parse_expr_inner_def Let_def parse_failed_def split: if_splits)
  have s1: "step c c1" using parse_concat_spec [OF assms] a(1) r1 ok1 by (auto simp: parse_spec_def)
  show "step c c'"
  proof (cases "at_char CHR ''|'' c1")
    case False
    then show ?thesis using a(2) r1 ok1 s1 by (simp add: parse_expr_inner_def Let_def)
  next
    case True
    let ?p = "prog (c_re c)"
    have lt1: "c_len c1 + 2 < MAX_INSTRS"
    proof (rule ccontr)
      assume "\<not> ?thesis"
      then have "fail ''pattern too long'' c1 = Some (r, c')"
        using a(2) r1 ok1 True by (simp add: parse_expr_inner_def Let_def)
      with a(3) fail_spec show False by blast
    qed
    obtain ok c2 where c2: "insert_split (c_len c) c1 = Some (ok, c2)"
      using a(2) r1 ok1 True lt1 by (auto simp: parse_expr_inner_def Let_def split: bind_splits)
    have ok: ok using a(2,3) r1 ok1 True lt1 c2
      by (cases ok) (auto simp: parse_expr_inner_def Let_def parse_failed_def)
    obtain ok' js c3 where c3: "alt_loop pe (c_len c) [] c2 = Some (ok', js, c3)"
      using a(2) r1 ok1 True lt1 c2 ok by (auto simp: parse_expr_inner_def Let_def split: bind_splits)
    have ok': ok' using a(2,3) r1 ok1 True lt1 c2 ok c3
      by (cases ok') (auto simp: parse_expr_inner_def Let_def parse_failed_def)
    have c': "patch_jumps js (c_len c3) c3 = Some c'"
      using a(2) r1 ok1 True lt1 c2 ok c3 ok' by (auto simp: parse_expr_inner_def Let_def split: bind_splits)
    have js: "- 1 \<notin> set js" using c' patch_jumps_dropped by fastforce
    obtain q where q: "prog (c_re c1) = ?p @ q" "c_len c1 < M_FULL \<longrightarrow> (\<exists>r. wf_in c1 r \<and> q = codegen (c_len c) r)"
      using s1 by (auto simp: step_def appends_def c_len_prog)
    obtain rx where rx: "wf_in c1 rx" "q = codegen (c_len c) rx" using q(2) lt1 by auto
    have tgt: "tgt_ok ?p" using a(1) q(1) lt1 by (simp add: good_def c_len_prog)
    have cap1: "code_cap (c_re c1)" using s1 by (simp add: step_def grows_def)
    obtain x h2 where x: "c2 = c1\<lparr>c_re := h2\<rparr>" "opcode x = OP_SPLIT"
      "same_but_prog (c_re c1) (?p @ x # map (map_targets (bump (length ?p))) q) h2"
      using insert_split_result [of ?p c1 c2, OF _ q(1) tgt cap1] c2 ok by (metis c_len_prog)
    note p2 = same_but_progD [OF x(3)]
    have g2: "grows c c2" using s1 p2 by (simp add: x(1) step_def grows_def classes_ok_def)
    have code2: "prog (c_re c2) = ?p @ alt_code 0 (c_len c) [] @ x # codegen (c_len c + 1) rx"
      using p2(1) rx(2) bump_codegen [OF rx(1), of "c_len c"] by (simp add: x(1) c_len_prog)
    have at2: "at_char CHR ''|'' c2" using True by (simp add: x(1) at_char_def more_def cur_def pat_len_def)
    have wf2: "wf_in c2 rx" using rx(1) p2(7) by (simp add: x(1))
    have loop: "grows c c3 \<and> (\<exists>rs' q. js = alt_jumps (c_len c) rs' \<and> prog (c_re c3) = ?p @ alt_code 0 (c_len c) rs' @ q \<and>
      (\<forall>s \<in> set rs'. wf_in c3 s) \<and>
      (c_len c3 < M_FULL \<longrightarrow> (\<exists>r. wf_in c3 r \<and> q = codegen (c_len c + alt_len rs') r)))"
      by (rule alt_loop_spec [OF assms tgt _ _ at2 g2 _ _ code2 x(2) wf2 _ js]) (use c3 ok' in \<open>simp_all add: c_len_prog\<close>)
    then obtain rs' q' where l: "js = alt_jumps (c_len c) rs'" "prog (c_re c3) = ?p @ alt_code 0 (c_len c) rs' @ q'"
      "\<forall>s \<in> set rs'. wf_in c3 s"
      "c_len c3 < M_FULL \<longrightarrow> (\<exists>r. wf_in c3 r \<and> q' = codegen (c_len c + alt_len rs') r)" by blast
    have fin: "c' = c3\<lparr>c_re := (c_re c3)\<lparr>prog := ?p @ alt_code (c_len c3) (c_len c) rs' @ q'\<rparr>\<rparr>"
      by (rule patch_jumps_alts [OF _ l(2)]) (use c' l(1) in \<open>simp_all add: c_len_prog\<close>)
    have g': "grows c c'" unfolding fin
      by (rule grows_prog) (use loop l(2) in \<open>auto simp: grows_def code_cap_def prog_len_def\<close>)
    have "c_len c < M_FULL" using q(1) lt1 by (simp add: c_len_prog)
    moreover have "\<exists>r. wf_in c' r \<and> alt_code (c_len c3) (c_len c) rs' @ q' = codegen (c_len c) r" if lt: "c_len c' < M_FULL"
    proof -
      have "c_len c3 = c_len c'" using l(2) by (simp add: fin c_len_prog)
      then obtain rn where rn: "wf_in c3 rn" "q' = codegen (c_len c + alt_len rs') rn" using l(4) lt by auto
      have "c_len c3 = c_len c + alt_len rs' + code_len rn" using l(2) rn(2) by (simp add: c_len_prog)
      then have "alt_code (c_len c3) (c_len c) rs' @ q' = codegen (c_len c) (foldr Alt rs' rn)"
        using rn(2) by (simp add: codegen_alts)
      moreover have "wf_in c' (foldr Alt rs' rn)" using wf_alts [OF rn(1) l(3)] by (simp add: fin)
      ultimately show ?thesis by blast
    qed
    ultimately have "appends ?p c'" unfolding appends_def
      by (intro exI [of _ "alt_code (c_len c3) (c_len c) rs' @ q'"]) (simp add: fin c_len_prog)
    with g' show ?thesis by (simp add: step_def)
  qed
qed

section \<open>The whole expression\<close>

lemma step_depth [simp]:
  "step (c\<lparr>c_depth := d\<rparr>) c' = step c c'" "step c (c'\<lparr>c_depth := d\<rparr>) = step c c'"
  "good (c\<lparr>c_depth := d\<rparr>) = good c" "parse_failed r (c'\<lparr>c_depth := d\<rparr>) = parse_failed r c'"
  by (simp_all add: step_def grows_def appends_def good_def c_len_def parse_failed_def)

lemma parse_expr_spec: "parse_spec (parse_expr n)"
proof (induction n)
  case 0
  show ?case by (auto simp: parse_spec_def dest: fail_spec)
next
  case (Suc n)
  note inner = parse_expr_inner_spec [OF Suc]
  show ?case unfolding parse_spec_def
  proof (intro allI impI)
    fix c r c' assume a: "good c" "parse_expr (Suc n) c = Some (r, c')" "\<not> parse_failed r c'"
    then obtain c1 where c1: "parse_expr_inner (parse_expr n) (c\<lparr>c_depth := c_depth c + 1\<rparr>) = Some (r, c1)"
      "c' = c1\<lparr>c_depth := c_depth c1 - 1\<rparr>"
      using fail_spec by (auto split: if_splits bind_splits)
    have "step (c\<lparr>c_depth := c_depth c + 1\<rparr>) c1"
      by (rule inner [unfolded parse_spec_def, rule_format, OF _ c1(1)]) (use a(1,3) c1(2) in simp_all)
    then show "step c c'" by (simp add: c1(2))
  qed
qed

end
