(* ===== verification/Regex_Structure.thy ===== *)
theory Regex_Structure
  imports Regex_Parse Regex_Analysis
begin

text \<open>
  The compiled program as a whole: the code of a well-formed regular expression between the
  two SAVEs of group 0, with every address, class and slot in range, and what the compiler
  rejects.
\<close>

section \<open>From the parse to the handle\<close>

lemma good_init: "good (init_compiler pat f)"
  by (simp add: good_def init_compiler_def emit_def zero_code_def code_cap_def prog_len_def classes_ok_def
    c_len_def tgt_ok_def targets_def MAX_GROUPS_def MAX_INSTRS_def Let_def)

lemma init_prog: "prog (c_re (init_compiler pat f)) = [mk_instr OP_SAVE 0 0]"
  by (simp add: init_compiler_def emit_def zero_code_def prog_len_def MAX_INSTRS_def Let_def mk_instr_def)

lemma prefilter_keeps:
  "prog (re_build_prefilter h) = prog h" "classes (re_build_prefilter h) = classes h"
  "n_classes (re_build_prefilter h) = n_classes h" "n_groups (re_build_prefilter h) = n_groups h"
  by (simp_all add: re_build_prefilter_def Let_def)

lemma detect_anchor_keeps:
  "prog (re_detect_anchor h) = prog h" "classes (re_detect_anchor h) = classes h"
  "n_classes (re_detect_anchor h) = n_classes h" "n_groups (re_detect_anchor h) = n_groups h"
  by (simp_all add: re_detect_anchor_def Let_def)

lemma zero_handle_keeps:
  "prog (zero_handle h) = prog h" "classes (zero_handle h) = classes h"
  "n_classes (zero_handle h) = n_classes h" "n_groups (zero_handle h) = n_groups h"
  by (simp_all add: zero_handle_def ReCode.defs)

lemma emit_keeps:
  "classes (snd (emit h p a b)) = classes h" "n_classes (snd (emit h p a b)) = n_classes h"
  by (simp_all add: emit_def Let_def)

lemma tables_keep:
  "re_build_onepass_tables h = Some h' \<Longrightarrow> prog h' = prog h"
  "re_build_onepass_tables h = Some h' \<Longrightarrow> classes h' = classes h"
  "re_build_onepass_tables h = Some h' \<Longrightarrow> n_classes h' = n_classes h"
  "re_build_onepass_tables h = Some h' \<Longrightarrow> n_groups h' = n_groups h"
  by (auto simp: re_build_onepass_tables_def split: bind_splits if_splits)

lemma finish_compile_keeps:
  assumes "finish_compile c = Some h"
  shows "prog h = prog (snd (emit (snd (emit (c_re c) OP_SAVE 1 0)) OP_MATCH 0 0))"
    "classes h = classes (c_re c)" "n_classes h = n_classes (c_re c)" "n_groups h = group_counter c"
proof -
  define h0 where "h0 = re_detect_anchor (re_build_prefilter (zero_handle
    ((snd (emit (snd (emit (c_re c) OP_SAVE 1 0)) OP_MATCH 0 0))\<lparr>n_groups := group_counter c\<rparr>)))"
  have h0: "prog h0 = prog (snd (emit (snd (emit (c_re c) OP_SAVE 1 0)) OP_MATCH 0 0))"
    "classes h0 = classes (c_re c)" "n_classes h0 = n_classes (c_re c)" "n_groups h0 = group_counter c"
    by (simp_all add: h0_def prefilter_keeps detect_anchor_keeps zero_handle_keeps emit_keeps)
  obtain one h1 where h1: "(if one then re_build_onepass_tables (h0\<lparr>onepass := one\<rparr>) else Some (h0\<lparr>onepass := one\<rparr>)) = Some h1"
    "h = (let h = h1\<lparr>dfa_eligible := re_dfa_check_eligible h1\<rparr>
          in if dfa_eligible h then h\<lparr>dfa_trans := replicate (prog_len h * 256) RE_DFA_UNFILLED\<rparr> else h)"
    using assms unfolding finish_compile_def Let_def h0_def [symmetric] by (auto split: bind_splits)
  have "prog h1 = prog h0 \<and> classes h1 = classes h0 \<and> n_classes h1 = n_classes h0 \<and> n_groups h1 = n_groups h0"
    using h1(1) tables_keep [of "h0\<lparr>onepass := one\<rparr>" h1] by (cases one) auto
  moreover have "prog h = prog h1 \<and> classes h = classes h1 \<and> n_classes h = n_classes h1 \<and> n_groups h = n_groups h1"
    using h1(2) by (simp add: Let_def)
  ultimately show "prog h = prog (snd (emit (snd (emit (c_re c) OP_SAVE 1 0)) OP_MATCH 0 0))"
    "classes h = classes (c_re c)" "n_classes h = n_classes (c_re c)" "n_groups h = group_counter c"
    using h0 by simp_all
qed

lemma regex_compile_cases:
  assumes "regex_compile pat f = Some (Inr h)"
  obtains r c where "parse_expr RE_MAX_DEPTH (init_compiler pat f) = Some (r, c)" "\<not> parse_failed r c"
    "\<not> c_pos c < pat_len c" "finish_compile c = Some h"
  using assms by (auto simp: regex_compile_def split: bind_splits if_splits)

lemma regex_compile_code:
  assumes "regex_compile pat f = Some (Inr h)" "prog_len h < MAX_INSTRS - 1"
  obtains r where "wf_rx (n_classes h) (n_groups h) r"
    "prog h = mk_instr OP_SAVE 0 0 # codegen 1 r @ [mk_instr OP_SAVE 1 0, mk_instr OP_MATCH 0 0]"
    "n_groups h < MAX_GROUPS" "classes_ok h"
proof -
  obtain res c where c: "parse_expr RE_MAX_DEPTH (init_compiler pat f) = Some (res, c)" "\<not> parse_failed res c"
    "finish_compile c = Some h"
    by (rule regex_compile_cases [OF assms(1)])
  note fin = finish_compile_keeps [OF c(3)]
  have s: "step (init_compiler pat f) c"
    using parse_expr_spec good_init c(1,2) by (auto simp: parse_spec_def)
  have g: "good c" by (rule step_good [OF good_init s])
  then have cap: "code_cap (c_re c)" by (simp add: good_def)
  have lt: "prog_len (c_re c) < M_FULL"
  proof (rule ccontr)
    assume "\<not> ?thesis"
    with fin(1) assms(2) show False by (simp add: emit_fails prog_len_def)
  qed
  obtain h1 where h1: "emit (c_re c) OP_SAVE 1 0 = (int (prog_len (c_re c)), h1)"
    "same_but_prog (c_re c) (prog (c_re c) @ [mk_instr OP_SAVE 1 0]) h1"
    by (rule emit_appends [OF cap lt])
  note p1 = same_but_progD [OF h1(2)]
  have lt1: "prog_len h1 < M_FULL"
  proof (rule ccontr)
    assume "\<not> ?thesis"
    with fin(1) h1(1) assms(2) show False by (simp add: emit_fails prog_len_def)
  qed
  obtain h2 where h2: "emit h1 OP_MATCH 0 0 = (int (prog_len h1), h2)"
    "same_but_prog h1 (prog h1 @ [mk_instr OP_MATCH 0 0]) h2"
    by (rule emit_appends [OF p1(3) lt1])
  have prog: "prog h = prog (c_re c) @ [mk_instr OP_SAVE 1 0, mk_instr OP_MATCH 0 0]"
    using fin(1) h1(1) h2(1) p1(1) same_but_progD(1) [OF h2(2)] by simp
  have "c_len c < M_FULL" using lt by (simp add: c_len_def)
  then obtain r where r: "wf_in c r" "prog (c_re c) = mk_instr OP_SAVE 0 0 # codegen 1 r"
    using s by (auto simp: step_def appends_def init_prog)
  show ?thesis
  proof (rule that [of r])
    show "wf_rx (n_classes h) (n_groups h) r" using r(1) fin by simp
    show "prog h = mk_instr OP_SAVE 0 0 # codegen 1 r @ [mk_instr OP_SAVE 1 0, mk_instr OP_MATCH 0 0]"
      using prog r(2) by simp
    show "n_groups h < MAX_GROUPS" using g fin by (simp add: good_def)
    show "classes_ok h" using g fin by (simp add: good_def classes_ok_def)
  qed
qed

section \<open>The program stays in bounds\<close>

text \<open>What an instruction may refer to when the program runs.\<close>

definition instr_ok :: "nat \<Rightarrow> nat \<Rightarrow> nat \<Rightarrow> ReInstr \<Rightarrow> bool" where
  "instr_ok plen nc slots i \<longleftrightarrow>
     (\<forall>t \<in> targets i. t < plen) \<and>
     (opcode i \<in> {OP_CLASS, OP_NCLASS} \<longrightarrow> operand_a i < nc) \<and>
     (opcode i = OP_SAVE \<longrightarrow> operand_a i < slots)"

lemma codegen_ok:
  "wf_rx nc ng r \<Longrightarrow> i \<in> set (codegen L r) \<Longrightarrow>
    (opcode i \<in> {OP_CLASS, OP_NCLASS} \<longrightarrow> operand_a i < nc) \<and>
    (opcode i = OP_SAVE \<longrightarrow> 2 \<le> operand_a i \<and> operand_a i \<le> 2 * ng + 1)"
proof (induction r arbitrary: L)
  case (Ins p a)
  then show ?case by (auto simp: mk_instr_def)
qed (auto simp: mk_instr_def split_instr_def)

lemma program_ok:
  assumes "wf_rx nc ng r" "ng < MAX_GROUPS"
    and "p = mk_instr OP_SAVE 0 0 # codegen 1 r @ [mk_instr OP_SAVE 1 0, mk_instr OP_MATCH 0 0]"
    and "i \<in> set p"
  shows "instr_ok (length p) nc (2 * (ng + 1)) i"
proof -
  consider "i = mk_instr OP_SAVE 0 0" | "i \<in> set (codegen 1 r)" | "i = mk_instr OP_SAVE 1 0" | "i = mk_instr OP_MATCH 0 0"
    using assms(3,4) by auto
  then show ?thesis
  proof cases
    case 2
    then show ?thesis using codegen_ok [OF assms(1) 2] codegen_closed [OF assms(1) 2] assms(3)
      by (fastforce simp: instr_ok_def)
  qed (simp_all add: instr_ok_def targets_def mk_instr_def)
qed


section \<open>The bitmap of a class\<close>

lemma class_set_all_test:
  assumes "k < 128"
  shows "length cls = CLASS_BITMAP_BYTES \<Longrightarrow>
    (case class_set_all ks cls of
       None \<Rightarrow> \<not> list_all (\<lambda>j. j < 128) ks
     | Some cls' \<Rightarrow> list_all (\<lambda>j. j < 128) ks \<and> length cls' = CLASS_BITMAP_BYTES \<and>
         bit (cls' ! (k div 8)) (k mod 8) = (bit (cls ! (k div 8)) (k mod 8) \<or> k \<in> set ks))"
proof (induction ks arbitrary: cls)
  case (Cons j ks)
  show ?case
  proof (cases "j < 128")
    case False
    then show ?thesis by (auto simp: class_set_def CLASS_BITMAP_BYTES_def)
  next
    case True
    let ?c = "cls[j div 8 := cls ! (j div 8) OR push_bit (j mod 8) 1]"
    have s: "class_set cls j = Some ?c" using True by (auto simp: class_set_def CLASS_BITMAP_BYTES_def)
    have b: "bit (?c ! (k div 8)) (k mod 8) = (bit (cls ! (k div 8)) (k mod 8) \<or> k = j)"
    proof (cases "k div 8 = j div 8")
      case eq: True
      then have "k mod 8 = j mod 8 \<longleftrightarrow> k = j" by (metis div_mult_mod_eq)
      with eq True Cons.prems show ?thesis
        by (auto simp: CLASS_BITMAP_BYTES_def bit_or_iff bit_exp_iff possible_bit_word)
    next
      case False
      then show ?thesis by auto
    qed
    show ?thesis using Cons.IH [of ?c] Cons.prems True b s by (auto split: option.splits)
  qed
qed simp

section \<open>A sample\<close>

definition sample_pattern :: string where
  "sample_pattern = CHR 0x5C # ''b(?:a|[b-d]*)''"

lemma sample_compiles: "\<exists>h. regex_compile sample_pattern 0 = Some (Inr h) \<and> prog_len h = 10"
proof -
  have "(case regex_compile sample_pattern 0 of Some (Inr h) \<Rightarrow> prog_len h = 10 | _ \<Rightarrow> False)"
    by code_simp
  then show ?thesis by (auto split: option.splits sum.splits)
qed

section \<open>A program that is full\<close>

text \<open>The last two emissions are not checked: 2046 literals fill the program to the length at which
  \<open>emit\<close> gives up, the SAVE and the MATCH that should follow are dropped without an error, and a
  thread that has read the literals runs past the last instruction.\<close>

definition letters :: "nat \<Rightarrow> string" where "letters n = replicate n CHR ''a''"

lemma letters_piece:
  assumes "c_pat c = letters n" "c_pos c < n" "code_cap (c_re c)" "c_len c < M_FULL" "\<not> had_error c"
  obtains h where "parse_piece pe c = Some (int (c_len c) + 1, (adv 1 c)\<lparr>c_re := h\<rparr>)"
    "same_but_prog (c_re c) (prog (c_re c) @ [mk_instr OP_CHAR 97 0]) h"
proof -
  obtain h where h: "emit (c_re c) OP_CHAR 97 0 = (int (prog_len (c_re c)), h)"
    "same_but_prog (c_re c) (prog (c_re c) @ [mk_instr OP_CHAR 97 0]) h"
    using emit_appends assms(3,4) by (metis c_len_def)
  note p = same_but_progD [OF h(2)]
  let ?d = "(adv 1 c)\<lparr>c_re := h\<rparr>"
  have cur: "Regex_Compile.more c" "cur c = CHR ''a''"
    using assms(1,2) by (simp_all add: Regex_Compile.more_def pat_len_def cur_def letters_def)
  have a: "ccode CHR ''a'' = 97" by code_simp
  have atom: "parse_atom pe c = Some (int (c_len c), ?d)"
    using cur h(1) a by (simp add: parse_atom_def c_emit_def adv_def c_len_def)
  have d: "c_len ?d = c_len c + 1" "\<not> had_error ?d" using p(2) assms(5) by (simp_all add: c_len_def adv_def prog_len_def)
  have nxt: "cur ?d = CHR ''a''" if "Regex_Compile.more ?d"
    using that assms(1) by (simp add: Regex_Compile.more_def pat_len_def cur_def letters_def adv_def)
  have "parse_piece pe c = Some (int (c_len c) + 1, ?d)"
    using atom d nxt by (cases "Regex_Compile.more ?d") (simp_all add: parse_piece_def parse_failed_def Let_def)
  then show ?thesis using h(2) by (rule that)
qed

lemma letters_concat:
  assumes "c_pat c = letters n" "c_pos c + k = n" "code_cap (c_re c)" "c_len c + k \<le> M_FULL" "\<not> had_error c"
  shows "\<exists>h. parse_concat pe c = Some (int (c_len c + k), (adv k c)\<lparr>c_re := h\<rparr>) \<and>
    same_but_prog (c_re c) (prog (c_re c) @ replicate k (mk_instr OP_CHAR 97 0)) h"
  using assms
proof (induction k arbitrary: c)
  case 0
  then have "\<not> Regex_Compile.more c" by (simp add: Regex_Compile.more_def pat_len_def letters_def)
  moreover have "(adv 0 c)\<lparr>c_re := c_re c\<rparr> = c" by (simp add: adv_def)
  moreover have "same_but_prog (c_re c) (prog (c_re c)) (c_re c)"
    using "0.prems"(3) by (auto simp: same_but_prog_def code_cap_def prog_len_def intro!: exI [of _ "prog_cap (c_re c)"])
  ultimately show ?case by (subst parse_concat.simps) (auto intro!: exI [of _ "c_re c"])
next
  case (Suc k)
  have m: "Regex_Compile.more c" "cur c = CHR ''a''" using Suc.prems(1,2) by (simp_all add: Regex_Compile.more_def pat_len_def cur_def letters_def)
  obtain h where h: "parse_piece pe c = Some (int (c_len c) + 1, (adv 1 c)\<lparr>c_re := h\<rparr>)"
    "same_but_prog (c_re c) (prog (c_re c) @ [mk_instr OP_CHAR 97 0]) h"
    using letters_piece [of c n pe] Suc.prems by force
  note p = same_but_progD [OF h(2)]
  let ?c = "(adv 1 c)\<lparr>c_re := h\<rparr>"
  have l: "c_len ?c = c_len c + 1" using p(1) by (simp add: c_len_def prog_len_def)
  obtain h' where h': "parse_concat pe ?c = Some (int (c_len ?c + k), (adv k ?c)\<lparr>c_re := h'\<rparr>)"
    "same_but_prog (c_re ?c) (prog (c_re ?c) @ replicate k (mk_instr OP_CHAR 97 0)) h'"
    using Suc.IH [of ?c] Suc.prems p(3) l by (auto simp: adv_def)
  have "same_but_prog (c_re c) (prog (c_re c) @ replicate (Suc k) (mk_instr OP_CHAR 97 0)) h'"
    using same_but_prog_trans [OF h(2)] h'(2) p(1) by simp
  moreover have "parse_concat pe c = Some (int (c_len c + Suc k), (adv (Suc k) c)\<lparr>c_re := h'\<rparr>)"
    using h(1) h'(1) m Suc.prems(5) l
    by (subst parse_concat.simps) (simp add: parse_failed_def adv_def)
  ultimately show ?case by blast
qed

lemma full_program_loses_match:
  "regex_compile (letters 2046) f \<noteq> Some (Inl msg)"
  "regex_compile (letters 2046) f = Some (Inr h) \<Longrightarrow>
    prog h = mk_instr OP_SAVE 0 0 # replicate 2046 (mk_instr OP_CHAR 97 0)"
proof -
  let ?c = "(init_compiler (letters 2046) f)\<lparr>c_depth := 1\<rparr>"
  have c: "c_pat ?c = letters 2046" "c_pos ?c + 2046 = 2046" "\<not> had_error ?c" "c_depth (init_compiler (letters 2046) f) = 0"
    by (simp_all add: init_compiler_def)
  have g: "code_cap (c_re ?c)" "prog (c_re ?c) = [mk_instr OP_SAVE 0 0]" "c_len ?c = 1"
    using good_init [of "letters 2046" f] init_prog [of "letters 2046" f] by (simp_all add: good_def c_len_def prog_len_def)
  obtain h0 where h0: "parse_concat (parse_expr 255) ?c = Some (int (1 + 2046), (adv 2046 ?c)\<lparr>c_re := h0\<rparr>)"
    "same_but_prog (c_re ?c) (prog (c_re ?c) @ replicate 2046 (mk_instr OP_CHAR 97 0)) h0"
    using letters_concat [OF c(1,2) g(1) _ c(3), of "parse_expr 255"] g(3) by (auto simp: MAX_INSTRS_def)
  let ?d = "(adv 2046 ?c)\<lparr>c_re := h0\<rparr>"
  have p: "prog h0 = mk_instr OP_SAVE 0 0 # replicate 2046 (mk_instr OP_CHAR 97 0)" "prog_len h0 = 2047"
    using same_but_progD(1,2) [OF h0(2)] g(2) by simp_all
  have d: "\<not> Regex_Compile.more ?d" "\<not> had_error ?d" using c(1-3) by (simp_all add: Regex_Compile.more_def pat_len_def adv_def letters_def)
  have dep: "c_depth (adv m x) = c_depth x" for m x by (simp add: adv_def)
  have D: "RE_MAX_DEPTH = Suc 255" by (simp add: RE_MAX_DEPTH_def)
  have e: "parse_expr RE_MAX_DEPTH (init_compiler (letters 2046) f) = Some (2047, ?d\<lparr>c_depth := 0\<rparr>)"
    using h0(1) p(2) c(4) d unfolding D parse_expr.simps(2)
    
    by (simp add: parse_expr.simps(2) parse_expr_inner_def parse_failed_def at_char_def g(3) c_len_def RE_MAX_DEPTH_def
        dep del: parse_expr.simps One_nat_def)
  have fin: "prog h' = prog h0" if "finish_compile (?d\<lparr>c_depth := 0\<rparr>) = Some h'" for h'
    using finish_compile_keeps(1) [OF that] p(2) by (simp add: emit_fails MAX_INSTRS_def)
  have "regex_compile (letters 2046) f = do { h \<leftarrow> finish_compile (?d\<lparr>c_depth := 0\<rparr>); Some (Inr h) }"
    using e d c(1) by (simp add: regex_compile_def parse_failed_def Regex_Compile.more_def pat_len_def)
  then show "regex_compile (letters 2046) f \<noteq> Some (Inl msg)"
    "regex_compile (letters 2046) f = Some (Inr h) \<Longrightarrow>
      prog h = mk_instr OP_SAVE 0 0 # replicate 2046 (mk_instr OP_CHAR 97 0)"
    using fin p(1) by (auto split: bind_splits)
qed

section \<open>Properties\<close>

text \<open>C4: When compiling a pattern succeeds and the program has not reached the length at which an
  emission is dropped, the program is SAVE 0, the code of a well-formed regular expression, SAVE 1
  and MATCH: the in-place shifts, the copies of counted repetitions, the relocation of addresses and
  the late patching of jumps leave exactly the code that the syntax tree stands for.\<close>

theorem regex_compile_structured:
  assumes "regex_compile pat f = Some (Inr h)" "prog_len h < MAX_INSTRS - 1"
  shows "\<exists>r. wf_rx (n_classes h) (n_groups h) r \<and>
    prog h = mk_instr OP_SAVE 0 0 # codegen 1 r @ [mk_instr OP_SAVE 1 0, mk_instr OP_MATCH 0 0]"
  by (rule regex_compile_code [OF assms]) blast

lemma regex_compile_structured_witness:
  "\<exists>h r. regex_compile sample_pattern 0 = Some (Inr h) \<and> wf_rx (n_classes h) (n_groups h) r \<and>
    prog h = mk_instr OP_SAVE 0 0 # codegen 1 r @ [mk_instr OP_SAVE 1 0, mk_instr OP_MATCH 0 0]"
proof -
  obtain h where "regex_compile sample_pattern 0 = Some (Inr h)" "prog_len h < MAX_INSTRS - 1"
    using sample_compiles by (auto simp: MAX_INSTRS_def)
  with regex_compile_structured [OF this] show ?thesis by blast
qed

text \<open>C5: When compiling a pattern succeeds with a program of less than 2047 instructions, the length
  at which emissions are dropped, every instruction of it stays in bounds when it runs: its jump
  targets are instructions, its class was filled in, and the slot it saves is among the slots a thread
  carries.  A program that reaches that length has no MATCH and can be left by its last thread
  (\<open>full_program_loses_match\<close>).\<close>

theorem regex_compile_in_bounds:
  assumes "regex_compile pat f = Some (Inr h)" "prog_len h < MAX_INSTRS - 1" "i \<in> set (prog h)"
  shows "instr_ok (prog_len h) (n_classes h) (re_slot_count h) i \<and> n_classes h \<le> length (classes h)"
proof -
  obtain r where r: "wf_rx (n_classes h) (n_groups h) r" "n_groups h < MAX_GROUPS" "classes_ok h"
    "prog h = mk_instr OP_SAVE 0 0 # codegen 1 r @ [mk_instr OP_SAVE 1 0, mk_instr OP_MATCH 0 0]"
    by (rule regex_compile_code [OF assms(1,2)])
  have "re_slot_count h = 2 * (n_groups h + 1)" using r(2) by (simp add: re_slot_count_def MAX_GROUPS_def Let_def)
  then show ?thesis using program_ok [OF r(1,2,4) assms(3)] r(3) by (simp add: prog_len_def classes_ok_def)
qed

lemma regex_compile_in_bounds_witness:
  "\<exists>h i. regex_compile sample_pattern 0 = Some (Inr h) \<and> i \<in> set (prog h) \<and>
     instr_ok (prog_len h) (n_classes h) (re_slot_count h) i"
proof -
  obtain h where h: "regex_compile sample_pattern 0 = Some (Inr h)" "prog_len h = 10"
    using sample_compiles by blast
  then have "prog h ! 2 \<in> set (prog h)" by (simp add: prog_len_def)
  with regex_compile_in_bounds [OF h(1) _ this] h show ?thesis by (auto simp: MAX_INSTRS_def)
qed

text \<open>A counted repetition expands its operand in place: \<open>{n,m}\<close> becomes \<open>n\<close> copies and
  \<open>m - n\<close> optional copies, \<open>{n,}\<close> becomes \<open>n\<close> copies and a star, each a relocated copy of the same
  code; the rest of the handle is untouched, and the result is the new end of the program, or negative
  when the program would grow too long.\<close>

theorem counted_repetition_expands:
  assumes "code_cap h" "prog h = p @ codegen (length p) r" "tgt_ok p" "wf_rx nc ng r"
  shows "\<exists>res msg h'. apply_count h (length p) (prog_len h) n m z = Some (res, msg, h') \<and>
    (res < 0 \<or> res = int (prog_len h') \<and> same_but_prog h (p @ codegen (length p) (count_rx n m z r)) h')"
  using apply_count_code [OF assms, of n m z] assms(2) by (auto simp: prog_len_def)

lemma counted_repetition_expands_witness:
  "\<exists>res msg h'. apply_count (snd (emit (zero_code 0) OP_CHAR 97 0)) 0 1 2 3 False = Some (res, msg, h') \<and>
    (res < 0 \<or> res = int (prog_len h') \<and>
      same_but_prog (snd (emit (zero_code 0) OP_CHAR 97 0)) (codegen 0 (count_rx 2 3 False (Ins OP_CHAR 97))) h')"
proof -
  let ?h = "snd (emit (zero_code 0) OP_CHAR 97 0)"
  have p: "prog ?h = [mk_instr OP_CHAR 97 0]" "code_cap ?h"
    by (simp_all add: emit_def zero_code_def prog_len_def MAX_INSTRS_def mk_instr_def code_cap_def)
  show ?thesis
    using counted_repetition_expands [of ?h "[]" "Ins OP_CHAR 97" 0 0 2 3 False] p
    by (simp add: tgt_ok_def simple_op_def prog_len_def del: split_paired_Ex)
qed

text \<open>The bitmap of a class holds exactly the bytes set in it, and complementing its bytes
  complements the class; setting a byte of 128 or more writes outside the bitmap, whatever the others.\<close>

theorem class_bitmap_holds_members:
  assumes "k < 128"
  shows "(case class_set_all ks (replicate CLASS_BITMAP_BYTES 0) of
      None \<Rightarrow> \<not> list_all (\<lambda>j. j < 128) ks
    | Some cls \<Rightarrow> list_all (\<lambda>j. j < 128) ks \<and> class_test cls k = Some (k \<in> set ks) \<and>
        class_test (map (\<lambda>b. NOT b) cls) k = Some (k \<notin> set ks))"
  using class_set_all_test [OF assms, of "replicate CLASS_BITMAP_BYTES 0" ks] assms
  by (auto simp: class_test_def CLASS_BITMAP_BYTES_def bit_not_iff less_mult_imp_div_less split: option.splits)

lemma class_bitmap_holds_members_witness:
  "(case class_set_all [97, 98] (replicate CLASS_BITMAP_BYTES 0) of
      None \<Rightarrow> False
    | Some cls \<Rightarrow> class_test cls 98 = Some True \<and> class_test (map (\<lambda>b. NOT b) cls) 98 = Some False)"
  using class_bitmap_holds_members [of 98 "[97, 98]"] by (simp split: option.splits)

end
