(* ===== verification/Regex_Match.thy ===== *)
theory Regex_Match
  imports Regex_Path Regex_Structure
begin

text \<open>
  The Pike VM is correct: on a program whose consuming instructions fit the thread list it
  returns, it reports a match exactly when a path through the program accepts, and the capture
  slots it reports are those of such a path.
\<close>

section \<open>Regions\<close>

text \<open>Where control can go from an instruction, whatever the text.\<close>

definition static_succ :: "'a ReCode_scheme \<Rightarrow> nat \<Rightarrow> nat set" where
  "static_succ h p =
     (case opcode (prog h ! p) of
        OP_JUMP \<Rightarrow> {operand_a (prog h ! p)}
      | OP_LOOKAHEAD \<Rightarrow> {operand_a (prog h ! p)}
      | OP_SPLIT \<Rightarrow> {operand_a (prog h ! p), operand_b (prog h ! p)}
      | OP_MATCH \<Rightarrow> {}
      | _ \<Rightarrow> {p + 1})"

definition region :: "'a ReCode_scheme \<Rightarrow> nat set \<Rightarrow> bool" where
  "region h R \<longleftrightarrow> (\<forall>p \<in> R. p < prog_len h \<longrightarrow> static_succ h p \<subseteq> R)"

lemma eps_static: "p' \<in> eps_succ la h tx i p \<Longrightarrow> p' \<in> static_succ h p"
  by (auto simp: eps_succ_def static_succ_def position_tests_def split: if_splits ReOpCode.splits option.splits)

lemma consuming_static: "consuming (prog h ! p) \<Longrightarrow> p + 1 \<in> static_succ h p"
  by (auto simp: consuming_def zero_width_ops_def static_succ_def split: ReOpCode.splits)

text \<open>The slots every SAVE of the region may write, and the lookaheads of the region return.\<close>

definition runs :: "lookahead \<Rightarrow> 'a ReCode_scheme \<Rightarrow> nat set \<Rightarrow> bool" where
  "runs la h R \<longleftrightarrow> region h R \<and> few_threads h \<and>
     (\<forall>p \<in> R. p < prog_len h \<longrightarrow>
        (opcode (prog h ! p) = OP_SAVE \<longrightarrow> operand_a (prog h ! p) < MAX_GROUPS * 2) \<and>
        (opcode (prog h ! p) = OP_LOOKAHEAD \<longrightarrow> (\<forall>i. la i (p + 1) \<noteq> None)))"

lemma path_region:
  assumes "path la h tx c c'" "region h R" "fst c \<in> R"
  shows "fst c' \<in> R \<and> length (fst (snd c')) = length (fst (snd c))"
  using assms(1)
proof (induction rule: rtranclp_induct)
  case base
  then show ?case using assms(3) by simp
next
  case (step c1 c2)
  from step(2,3) assms(2) show ?case
  proof (cases rule: pstep.cases)
    case (eps p p' i sl)
    then show ?thesis using step(3) assms(2) eps_static [OF eps(4)]
      by (auto simp: region_def save_slot_def)
  next
    case (chr p i sl)
    then show ?thesis using step(3) assms(2) consuming_static [OF chr(4)] by (auto simp: region_def)
  qed
qed

section \<open>The closure returns\<close>

lemma add_thread_returns:
  assumes "runs la h R"
  shows "card ({..<prog_len h} - vset (prog_len h) vis) < n \<Longrightarrow> vis_inv (prog_len h) vis \<Longrightarrow> room h vis nxt \<Longrightarrow>
    pc t \<in> R \<Longrightarrow> length (slots t) = MAX_GROUPS * 2 \<Longrightarrow> \<exists>r. add_thread n la h tx i t nxt vis ms = Some r"
proof (induction n arbitrary: t nxt vis ms)
  case 0
  then show ?case by simp
next
  case (Suc n)
  show ?case
  proof (cases "pc t < prog_len h \<and> pc t \<notin> vset (prog_len h) vis")
    case False
    then show ?thesis using Suc.prems(2) visited.test_member by auto
  next
    case True
    let ?p = "pc t" and ?vis = "visited_set (pc t) vis" and ?ins = "prog h ! pc t"
    have lt: "?p < prog_len h" and fresh: "?p \<notin> vset (prog_len h) vis" using True by auto
    note ctx = Suc.prems(2) lt fresh
    have inv': "vis_inv (prog_len h) ?vis" by (rule vset_marked(2) [OF ctx])
    have room': "room h ?vis nxt" using Suc.prems(3) vset_marked(1) [OF ctx] by (auto simp: room_def)
    have "{..<prog_len h} - vset (prog_len h) ?vis \<subset> {..<prog_len h} - vset (prog_len h) vis"
      using vset_marked(1) [OF ctx] lt fresh by auto
    then have "card ({..<prog_len h} - vset (prog_len h) ?vis) < card ({..<prog_len h} - vset (prog_len h) vis)"
      by (intro psubset_card_mono) auto
    then have fuel: "card ({..<prog_len h} - vset (prog_len h) ?vis) < n" using Suc.prems(1) by simp
    have succ: "static_succ h ?p \<subseteq> R" using assms lt Suc.prems(4) by (auto simp: runs_def region_def)
    have next': "\<exists>r. add_thread n la h tx i t' nxt ?vis ms = Some r"
      if "pc t' \<in> static_succ h ?p" "length (slots t') = length (slots t)" for t'
      using Suc.IH [OF fuel inv' room'] that succ Suc.prems(5) by auto
    have nt: "\<not> visited_test vis ?p" using visited.test_member [OF Suc.prems(2) lt] fresh by simp
    have nge: "\<not> prog_len h \<le> ?p" using lt by simp
    have run: "add_thread (Suc n) la h tx i t nxt vis ms =
       (if opcode ?ins \<in> position_tests then
              (if anchor_ok h (opcode ?ins) tx i
               then add_thread n la h tx i (t\<lparr>pc := ?p + 1\<rparr>) nxt ?vis ms else Some (False, nxt, ?vis, ms))
            else case opcode ?ins of
              OP_SAVE \<Rightarrow>
                if operand_a ?ins < length (slots t)
                then add_thread n la h tx i
                       (t\<lparr>slots := (slots t)[operand_a ?ins := int i], pc := ?p + 1\<rparr>) nxt ?vis ms
                else None
            | OP_SPLIT \<Rightarrow> do {
                (found_a, nxt1, vis, ms) \<leftarrow> add_thread n la h tx i (t\<lparr>pc := operand_a ?ins\<rparr>) nxt ?vis ms;
                (found_b, nxt2, vis, ms, len_b) \<leftarrow>
                  (if found_a then Some (False, nxt1, vis, ms, 0)
                   else do {
                     (fb, nxt2, vis, ms) \<leftarrow> add_thread n la h tx i (t\<lparr>pc := operand_b ?ins\<rparr>) nxt1 vis ms;
                     Some (fb, nxt2, vis, ms, length nxt2 - length nxt1) });
                Some (found_a \<or> found_b, swap_blocks (length nxt) (length nxt1 - length nxt) len_b nxt2, vis, ms) }
            | OP_JUMP \<Rightarrow> add_thread n la h tx i (t\<lparr>pc := operand_a ?ins\<rparr>) nxt ?vis ms
            | OP_LOOKAHEAD \<Rightarrow> do {
                ok \<leftarrow> la i (?p + 1);
                if ok \<noteq> (operand_b ?ins \<noteq> 0)
                then add_thread n la h tx i (t\<lparr>pc := operand_a ?ins\<rparr>) nxt ?vis ms
                else Some (False, nxt, ?vis, ms) }
            | OP_MATCH \<Rightarrow> Some (True, nxt, ?vis, copy_slots h (slots t) ms)
            | _ \<Rightarrow> Some (False, if length nxt < MAX_THREADS then nxt @ [t] else nxt, ?vis, ms))"
      by (simp only: add_thread.simps if_not_P [OF nt] if_not_P [OF nge] Let_def)
    show ?thesis
    proof (cases "opcode ?ins \<in> position_tests")
      case pt: True
      then have "?p + 1 \<in> static_succ h ?p" by (auto simp: position_tests_def static_succ_def)
      then show ?thesis unfolding run using pt next' by auto
    next
      case npt: False
      show ?thesis
      proof (cases "opcode ?ins = OP_SPLIT")
        case False
        have "\<exists>ok. la i (?p + 1) = Some ok" if "opcode ?ins = OP_LOOKAHEAD"
          using assms that lt Suc.prems(4) by (fastforce simp: runs_def)
        moreover have "operand_a ?ins < length (slots t)" if "opcode ?ins = OP_SAVE"
          using assms that lt Suc.prems(4,5) by (auto simp: runs_def)
        ultimately show ?thesis unfolding run using npt False next'
          by (cases "opcode ?ins") (auto simp: static_succ_def)
      next
        case split: True
        obtain ga nxt1 vis1 ms1 where a: "add_thread n la h tx i (t\<lparr>pc := operand_a ?ins\<rparr>) nxt ?vis ms = Some (ga, nxt1, vis1, ms1)"
          using next' [of "t\<lparr>pc := operand_a ?ins\<rparr>"] split by (auto simp: static_succ_def)
        have fewt: "few_threads h" using assms by (simp add: runs_def)
        note ca = add_thread_ok [OF fewt a inv' room']
        have room1: "room h vis1 nxt1" by (rule closure_room [OF ca room'])
        have "vset (prog_len h) ?vis \<subseteq> vset (prog_len h) vis1" and inv1: "vis_inv (prog_len h) vis1"
          using ca by (simp_all add: closure_ok_def)
        then have "card ({..<prog_len h} - vset (prog_len h) vis1) \<le> card ({..<prog_len h} - vset (prog_len h) ?vis)"
          by (intro card_mono) auto
        then have fuel1: "card ({..<prog_len h} - vset (prog_len h) vis1) < n" using fuel by simp
        have "\<exists>r. add_thread n la h tx i (t\<lparr>pc := operand_b ?ins\<rparr>) nxt1 vis1 ms1 = Some r"
          by (rule Suc.IH [OF fuel1 inv1 room1]) (use succ split Suc.prems(5) in \<open>auto simp: static_succ_def\<close>)
        then show ?thesis unfolding run using npt split a by auto
      qed
    qed
  qed
qed

section \<open>One text position\<close>

text \<open>A thread at position \<open>i\<close>: a consuming instruction reached by a path from \<open>c0\<close>.\<close>

definition thread_ok :: "lookahead \<Rightarrow> 'a ReCode_scheme \<Rightarrow> string \<Rightarrow> config \<Rightarrow> nat \<Rightarrow> ReThread \<Rightarrow> bool" where
  "thread_ok la h tx c0 i u \<longleftrightarrow>
     path la h tx c0 (pc u, slots u, i) \<and> pc u < prog_len h \<and> consuming (prog h ! pc u)"

text \<open>The slots in use hold those of an accepting path.\<close>

definition match_slots :: "lookahead \<Rightarrow> 'a ReCode_scheme \<Rightarrow> string \<Rightarrow> config \<Rightarrow> int list \<Rightarrow> bool" where
  "match_slots la h tx c0 fs \<longleftrightarrow> re_slot_count h \<le> length fs \<and>
     (\<exists>sl j. match_from la h tx c0 sl j \<and> take (re_slot_count h) fs = take (re_slot_count h) sl)"

text \<open>Every byte of the text can be tested against every instruction.\<close>

definition text_ok :: "'a ReCode_scheme \<Rightarrow> string \<Rightarrow> bool" where
  "text_ok h tx \<longleftrightarrow> (\<forall>p < prog_len h. \<forall>ch \<in> set tx. match_char h (prog h ! p) ch \<noteq> None)"

definition start_config :: "config \<Rightarrow> nat set \<Rightarrow> bool" where
  "start_config c0 R \<longleftrightarrow> fst c0 \<in> R \<and> length (fst (snd c0)) = MAX_GROUPS * 2"

lemma slot_count_le: "re_slot_count h \<le> MAX_GROUPS * 2"
  by (simp add: re_slot_count_def Let_def)

lemma take_copy_slots: "length sl = MAX_GROUPS * 2 \<Longrightarrow> take (re_slot_count h) (copy_slots h sl fs) = take (re_slot_count h) sl"
  using slot_count_le [of h] by (simp add: copy_slots_def)

lemma thread_ok_step:
  assumes "thread_ok la h tx c0 i t" "i < length tx" "match_char h (prog h ! pc t) (tx ! i) = Some True"
  shows "path la h tx c0 (pc t + 1, slots t, i + 1)"
  using assms pstep.chr [of "pc t" h i tx la "slots t"]
  by (auto simp: thread_ok_def intro: rtranclp.rtrancl_into_rtrancl)

text \<open>The invariant of the walk over the threads at \<open>i\<close>: the next list at \<open>i + 1\<close>.\<close>

definition next_ok :: "lookahead \<Rightarrow> 'a ReCode_scheme \<Rightarrow> string \<Rightarrow> config \<Rightarrow> nat \<Rightarrow> ReThread list \<Rightarrow> Visited \<Rightarrow> bool" where
  "next_ok la h tx c0 i nxt vis \<longleftrightarrow>
     vis_inv (prog_len h) vis \<and> room h vis nxt \<and> (\<forall>u \<in> set nxt. thread_ok la h tx c0 i u)"

abbreviation all_closed :: "lookahead \<Rightarrow> 'a ReCode_scheme \<Rightarrow> string \<Rightarrow> nat \<Rightarrow> Visited \<Rightarrow> ReThread list \<Rightarrow> bool" where
  "all_closed la h tx i vis nxt \<equiv>
     closed_at la h tx i (vset (prog_len h) vis) (vset (prog_len h) vis) (pc ` set nxt)"

text \<open>A closure started inside the walk.\<close>

lemma closure_next:
  assumes "runs la h R" "start_config c0 R" "path la h tx c0 (pc t, slots t, i)" "next_ok la h tx c0 i nxt vis"
  obtains got nxt' vis' ms' where "add_thread (prog_len h + 1) la h tx i t nxt vis ms = Some (got, nxt', vis', ms')"
    "next_ok la h tx c0 i nxt' vis'" "vset (prog_len h) vis \<subseteq> vset (prog_len h) vis'"
    "if got then match_slots la h tx c0 ms' \<and> (\<exists>sl. match_from la h tx c0 sl i \<and> ms' = copy_slots h sl ms)
     else ms' = ms \<and> (pc t < prog_len h \<longrightarrow> pc t \<in> vset (prog_len h) vis')"
    "\<not> got \<Longrightarrow> all_closed la h tx i vis nxt \<Longrightarrow> all_closed la h tx i vis' nxt'"
proof -
  let ?V = "vset (prog_len h)"
  have few: "few_threads h" and reg: "region h R" using assms(1) by (simp_all add: runs_def)
  have pr: "pc t \<in> R" "length (slots t) = MAX_GROUPS * 2"
    using path_region [OF assms(3) reg] assms(2) by (auto simp: start_config_def)
  have inv: "vis_inv (prog_len h) vis" "room h vis nxt" using assms(4) by (simp_all add: next_ok_def)
  have "card ({..<prog_len h} - ?V vis) \<le> card {..<prog_len h}" by (intro card_mono) auto
  then have "card ({..<prog_len h} - ?V vis) < prog_len h + 1" by simp
  from add_thread_returns [OF assms(1) this inv pr]
  obtain r where r: "add_thread (prog_len h + 1) la h tx i t nxt vis ms = Some r" by blast
  note ok = add_thread_ok [OF few r inv]
  obtain got nxt' vis' ms' where r': "r = (got, nxt', vis', ms')" by (cases r)
  obtain new where n: "nxt' = nxt @ new"
    "\<forall>u \<in> set new. pc u \<in> ?V vis' - ?V vis \<and> consuming (prog h ! pc u) \<and> path la h tx (pc t, slots t, i) (pc u, slots u, i)"
    "vis_inv (prog_len h) vis'" "?V vis \<subseteq> ?V vis'"
    "got \<longrightarrow> (\<exists>sl. match_from la h tx (pc t, slots t, i) sl i \<and> ms' = copy_slots h sl ms)"
    "\<not> got \<longrightarrow> ms' = ms \<and> (pc t < prog_len h \<longrightarrow> pc t \<in> ?V vis') \<and> closed_at la h tx i (?V vis' - ?V vis) (?V vis') (pc ` set new)"
    using ok unfolding r' closure_ok_def prod.case by (cases got) auto
  have "next_ok la h tx c0 i nxt' vis'"
    using assms(3,4) n(1,2,3) closure_room [OF ok [unfolded r'] inv(2)]
    by (auto simp: next_ok_def thread_ok_def vset_def)
  moreover have "match_slots la h tx c0 ms' \<and> (\<exists>sl. match_from la h tx c0 sl i \<and> ms' = copy_slots h sl ms)" if got
  proof -
    obtain sl where sl: "match_from la h tx (pc t, slots t, i) sl i" "ms' = copy_slots h sl ms" using n(5) \<open>got\<close> by blast
    then obtain p where p: "path la h tx (pc t, slots t, i) (p, sl, i)" "at_match h p" by (auto simp: match_from_def)
    have "length sl = MAX_GROUPS * 2" using path_region [OF p(1) reg] pr by simp
    moreover have "match_from la h tx c0 sl i"
      unfolding match_from_def using rtranclp_trans [OF assms(3) p(1)] p(2) by blast
    ultimately show ?thesis using sl(2) slot_count_le [of h]
      by (auto simp: match_slots_def take_copy_slots) (simp add: copy_slots_def)
  qed
  moreover have "all_closed la h tx i vis' nxt'" if "\<not> got" "all_closed la h tx i vis nxt"
  proof -
    have "closed_at la h tx i (?V vis' - ?V vis) (?V vis') (pc ` set nxt')"
      by (rule closed_at_mono [of la h tx i "?V vis' - ?V vis" "?V vis'" "pc ` set new"]) (use n(1,6) that(1) in auto)
    moreover have "closed_at la h tx i (?V vis) (?V vis') (pc ` set nxt')"
      by (rule closed_at_mono [OF that(2) n(4)]) (auto simp: n(1))
    moreover have "?V vis' = (?V vis' - ?V vis) \<union> ?V vis" using n(4) by auto
    ultimately show ?thesis using closed_at_Un by metis
  qed
  ultimately show ?thesis using that [OF r [unfolded r']] n(4,6) by auto
qed

lemma vm_threads_ok:
  assumes "runs la h R" "start_config c0 R" "text_ok h tx"
  shows "\<forall>t \<in> set ts. thread_ok la h tx c0 i t \<Longrightarrow> next_ok la h tx c0 (i + 1) nxt vis \<Longrightarrow>
    \<exists>nxt' vis' fs' found' bs'. vm_threads la h tx i ts (nxt, vis, fs, found, bs) = Some (nxt', vis', fs', found', bs') \<and>
      next_ok la h tx c0 (i + 1) nxt' vis' \<and> vset (prog_len h) vis \<subseteq> vset (prog_len h) vis' \<and> (found \<longrightarrow> found') \<and>
      (found' \<and> match_slots la h tx c0 fs' \<or>
       found' = found \<and> fs' = fs \<and>
       (all_closed la h tx (i + 1) vis nxt \<longrightarrow> all_closed la h tx (i + 1) vis' nxt') \<and>
       (\<forall>t \<in> set ts. i < length tx \<longrightarrow> match_char h (prog h ! pc t) (tx ! i) = Some True \<longrightarrow>
          pc t + 1 < prog_len h \<longrightarrow> pc t + 1 \<in> vset (prog_len h) vis'))"
proof (induction ts arbitrary: nxt vis bs)
  case Nil
  then show ?case by simp
next
  case (Cons t ts)
  have t: "thread_ok la h tx c0 i t" "pc t < prog_len h" using Cons.prems(1) by (auto simp: thread_ok_def)
  have ts: "\<forall>u \<in> set ts. thread_ok la h tx c0 i u" using Cons.prems(1) by simp
  show ?case
  proof (cases "i < length tx \<and> match_char h (prog h ! pc t) (tx ! i) = Some True")
    case False
    have "match_char h (prog h ! pc t) (tx ! i) = Some False" if "i < length tx"
      using assms(3) [unfolded text_ok_def, rule_format, OF t(2) nth_mem [OF that]] that False by auto
    then have "vm_threads la h tx i (t # ts) (nxt, vis, fs, found, bs) = vm_threads la h tx i ts (nxt, vis, fs, found, bs)"
      using t(2) by (cases "i < length tx") simp_all
    then show ?thesis using Cons.IH [OF ts Cons.prems(2), of bs] False by auto
  next
    case True
    let ?t = "t\<lparr>pc := pc t + 1\<rparr>"
    have "path la h tx c0 (pc ?t, slots ?t, i + 1)" using thread_ok_step [OF t(1)] True by simp
    then obtain got nxt1 vis1 ms where c: "add_thread (prog_len h + 1) la h tx (i + 1) ?t nxt vis fs = Some (got, nxt1, vis1, ms)"
      "next_ok la h tx c0 (i + 1) nxt1 vis1" "vset (prog_len h) vis \<subseteq> vset (prog_len h) vis1"
      "if got then match_slots la h tx c0 ms \<and> (\<exists>sl. match_from la h tx c0 sl (i + 1) \<and> ms = copy_slots h sl fs)
       else ms = fs \<and> (pc ?t < prog_len h \<longrightarrow> pc ?t \<in> vset (prog_len h) vis1)"
      "\<not> got \<Longrightarrow> all_closed la h tx (i + 1) vis nxt \<Longrightarrow> all_closed la h tx (i + 1) vis1 nxt1"
      using closure_next [OF assms(1,2) _ Cons.prems(2), of ?t fs] by metis
    define bs1 where "bs1 = (if length nxt1 - length nxt > 0 \<and> length bs < MAX_THREADS
                        then bs @ [(length nxt, length nxt1 - length nxt)] else bs)"
    have run: "vm_threads la h tx i (t # ts) (nxt, vis, fs, found, bs) =
        (if got then Some (nxt1, vis1, copy_slots h ms fs, True, bs1)
         else vm_threads la h tx i ts (nxt1, vis1, fs, found, bs1))"
      using True t(2) c(1) by (simp add: bs1_def Let_def)
    show ?thesis
    proof (cases got)
      case g: True
      obtain sl j where sl: "match_from la h tx c0 sl j" "take (re_slot_count h) ms = take (re_slot_count h) sl"
        "re_slot_count h \<le> length ms"
        using c(4) g by (auto simp: match_slots_def)
      have "take (re_slot_count h) (copy_slots h ms fs) = take (re_slot_count h) ms" "re_slot_count h \<le> length (copy_slots h ms fs)"
        using sl(3) by (simp_all add: copy_slots_def)
      then have "match_slots la h tx c0 (copy_slots h ms fs)" using sl by (auto simp: match_slots_def)
      moreover have "vm_threads la h tx i (t # ts) (nxt, vis, fs, found, bs) = Some (nxt1, vis1, copy_slots h ms fs, True, bs1)"
        using run g by simp
      ultimately show ?thesis using c(2,3) by blast
    next
      case False
      have c5: "all_closed la h tx (i + 1) vis nxt \<Longrightarrow> all_closed la h tx (i + 1) vis1 nxt1" using c(5) False by blast
      have c4: "pc t + 1 < prog_len h \<longrightarrow> pc t + 1 \<in> vset (prog_len h) vis1" using c(4) False by simp
      obtain nxt' vis' fs' found' bs' where v: "vm_threads la h tx i ts (nxt1, vis1, fs, found, bs1) = Some (nxt', vis', fs', found', bs')"
        "next_ok la h tx c0 (i + 1) nxt' vis'" "vset (prog_len h) vis1 \<subseteq> vset (prog_len h) vis'" "found \<longrightarrow> found'"
        "found' \<and> match_slots la h tx c0 fs' \<or>
         found' = found \<and> fs' = fs \<and>
         (all_closed la h tx (i + 1) vis1 nxt1 \<longrightarrow> all_closed la h tx (i + 1) vis' nxt') \<and>
         (\<forall>t \<in> set ts. i < length tx \<longrightarrow> match_char h (prog h ! pc t) (tx ! i) = Some True \<longrightarrow>
            pc t + 1 < prog_len h \<longrightarrow> pc t + 1 \<in> vset (prog_len h) vis')"
        using Cons.IH [OF ts c(2), of bs1] by blast
      have "vm_threads la h tx i (t # ts) (nxt, vis, fs, found, bs) = Some (nxt', vis', fs', found', bs')"
        using run v(1) False by simp
      moreover have "vset (prog_len h) vis \<subseteq> vset (prog_len h) vis'" using c(3) v(3) by (rule subset_trans)
      moreover have "found' \<and> match_slots la h tx c0 fs' \<or>
         found' = found \<and> fs' = fs \<and>
         (all_closed la h tx (i + 1) vis nxt \<longrightarrow> all_closed la h tx (i + 1) vis' nxt') \<and>
         (\<forall>t \<in> set (t # ts). i < length tx \<longrightarrow> match_char h (prog h ! pc t) (tx ! i) = Some True \<longrightarrow>
            pc t + 1 < prog_len h \<longrightarrow> pc t + 1 \<in> vset (prog_len h) vis')"
        using v(5)
      proof (elim disjE)
        assume a: "found' = found \<and> fs' = fs \<and>
         (all_closed la h tx (i + 1) vis1 nxt1 \<longrightarrow> all_closed la h tx (i + 1) vis' nxt') \<and>
         (\<forall>t \<in> set ts. i < length tx \<longrightarrow> match_char h (prog h ! pc t) (tx ! i) = Some True \<longrightarrow>
            pc t + 1 < prog_len h \<longrightarrow> pc t + 1 \<in> vset (prog_len h) vis')"
        have "pc t + 1 < prog_len h \<longrightarrow> pc t + 1 \<in> vset (prog_len h) vis'" using c4 v(3) by blast
        with a c5 show ?thesis by simp
      qed simp
      ultimately show ?thesis using v(2,4) by blast
    qed
  qed
qed


section \<open>All positions\<close>

text \<open>From a closed set, a match takes a first consuming step from one of its threads.\<close>

lemma first_step:
  assumes "path la h tx c d" "d = (q, sl', j)" "at_match h q"
    and "closed_at la h tx i V V T" "fst c \<in> V" "snd (snd c) = i" "fst c < prog_len h"
  shows "\<exists>p sl. p \<in> T \<and> i < length tx \<and> match_char h (prog h ! p) (tx ! i) = Some True \<and>
    path la h tx (p + 1, sl, i + 1) (q, sl', j)"
  using assms
proof (induction rule: converse_rtranclp_induct)
  case base
  then show ?case by (auto simp: closed_at_def at_match_def)
next
  case (step c c1)
  from step(1) show ?case
  proof (cases rule: pstep.cases)
    case (eps p p' k sl)
    have "p' < prog_len h"
    proof (rule ccontr)
      assume n: "\<not> p' < prog_len h"
      from step(2) show False
      proof (cases rule: converse_rtranclpE)
        case base
        then show ?thesis using step.prems(1,2) eps(2) n by (simp add: at_match_def)
      next
        case (step y)
        then show ?thesis using eps(2) n by (auto elim: pstep.cases)
      qed
    qed
    moreover have "k = i" using step.prems(5) eps(1) by simp
    ultimately have "fst c1 \<in> V" using step.prems(3,4) eps by (fastforce simp: closed_at_def)
    with \<open>p' < prog_len h\<close> show ?thesis using step.IH step.prems eps by auto
  next
    case (chr p k sl)
    then have "p \<in> T" using step.prems(3,4) by (auto simp: closed_at_def)
    then show ?thesis using chr step.prems(1,5) step(2) by auto
  qed
qed

lemma vm_loop_ok:
  assumes "runs la h R" "start_config c0 R" "text_ok h tx"
  shows "\<forall>t \<in> set cur_ts. thread_ok la h tx c0 i t \<Longrightarrow> vis_inv (prog_len h) vis \<Longrightarrow> length tx + 1 \<le> i + k \<Longrightarrow>
    (found \<longrightarrow> match_slots la h tx c0 fs) \<Longrightarrow>
    \<exists>vis' fs' found'. vm_loop k la h tx i cur_ts vis fs found = Some (vis', fs', found') \<and>
      vis_inv (prog_len h) vis' \<and> (found \<longrightarrow> found') \<and> (found' \<longrightarrow> match_slots la h tx c0 fs') \<and>
      (\<not> found' \<longrightarrow> (\<forall>V p sl sl' j. closed_at la h tx i V V (pc ` set cur_ts) \<longrightarrow> p \<in> V \<longrightarrow> p < prog_len h \<longrightarrow>
         \<not> match_from la h tx (p, sl, i) sl' j))"
proof (induction k arbitrary: cur_ts i vis fs found)
  case 0
  have "\<not> match_from la h tx (p, sl, i) sl' j" if "closed_at la h tx i V V (pc ` set cur_ts)" "p \<in> V" "p < prog_len h"
    for V p sl sl' j
    using first_step [OF _ refl _ that(1)] that(2,3) 0(3) by (fastforce simp: match_from_def)
  with 0 show ?case by auto
next
  case (Suc k)
  have none: "\<not> match_from la h tx (p, sl, i) sl' j"
    if "cur_ts = []" "closed_at la h tx i V V (pc ` set cur_ts)" "p \<in> V" "p < prog_len h" for V p sl sl' j
    using first_step [OF _ refl _ that(2)] that(1,3,4) by (fastforce simp: match_from_def)
  show ?case
  proof (cases "cur_ts = []")
    case True
    then show ?thesis using Suc.prems none by auto
  next
    case False
    let ?vis = "visited_clear (prog_len h) vis"
    have ts: "\<forall>t \<in> set (rev cur_ts). thread_ok la h tx c0 i t" using Suc.prems(1) by simp
    have n0: "next_ok la h tx c0 (i + 1) [] ?vis" using vis_clear [OF Suc.prems(2)] by (simp add: next_ok_def room_def)
    have cl0: "all_closed la h tx (i + 1) ?vis []" using vis_clear [OF Suc.prems(2)] by (simp add: closed_at_def)
    obtain nxt1 vis1 fs1 found1 bs1 where v: "vm_threads la h tx i (rev cur_ts) ([], ?vis, fs, found, []) = Some (nxt1, vis1, fs1, found1, bs1)"
      "next_ok la h tx c0 (i + 1) nxt1 vis1" "found \<longrightarrow> found1"
      "found1 \<and> match_slots la h tx c0 fs1 \<or>
       found1 = found \<and> fs1 = fs \<and> all_closed la h tx (i + 1) vis1 nxt1 \<and>
       (\<forall>t \<in> set cur_ts. i < length tx \<longrightarrow> match_char h (prog h ! pc t) (tx ! i) = Some True \<longrightarrow>
          pc t + 1 < prog_len h \<longrightarrow> pc t + 1 \<in> vset (prog_len h) vis1)"
      using vm_threads_ok [OF assms ts n0, of fs found "[]"] cl0 by auto
    let ?cur = "restore_order bs1 nxt1"
    have cur: "set ?cur = set nxt1" by (rule set_restore_order)
    have th: "\<forall>t \<in> set ?cur. thread_ok la h tx c0 (i + 1) t" "vis_inv (prog_len h) vis1"
      using v(2) cur by (simp_all add: next_ok_def)
    have f1: "found1 \<longrightarrow> match_slots la h tx c0 fs1" using v(4) Suc.prems(4) by auto
    obtain vis' fs' found' where l: "vm_loop k la h tx (i + 1) ?cur vis1 fs1 found1 = Some (vis', fs', found')"
      "vis_inv (prog_len h) vis'" "found1 \<longrightarrow> found'" "found' \<longrightarrow> match_slots la h tx c0 fs'"
      "\<not> found' \<longrightarrow> (\<forall>V p sl sl' j. closed_at la h tx (i + 1) V V (pc ` set ?cur) \<longrightarrow> p \<in> V \<longrightarrow> p < prog_len h \<longrightarrow>
         \<not> match_from la h tx (p, sl, i + 1) sl' j)"
      using Suc.IH [OF th _ f1] Suc.prems(3) by auto
    have run: "vm_loop (Suc k) la h tx i cur_ts vis fs found = Some (vis', fs', found')"
      using False v(1) l(1) by simp
    have "\<not> match_from la h tx (p, sl, i) sl' j"
      if nf: "\<not> found'" and cl: "closed_at la h tx i V V (pc ` set cur_ts)" "p \<in> V" "p < prog_len h" for V p sl sl' j
    proof
      assume "match_from la h tx (p, sl, i) sl' j"
      then obtain q where q: "path la h tx (p, sl, i) (q, sl', j)" "at_match h q" by (auto simp: match_from_def)
      obtain p1 s1 where p1: "p1 \<in> pc ` set cur_ts" "i < length tx" "match_char h (prog h ! p1) (tx ! i) = Some True"
        "path la h tx (p1 + 1, s1, i + 1) (q, sl', j)"
        using first_step [OF q(1) refl q(2) cl(1)] cl(2,3) by auto
      have m: "match_from la h tx (p1 + 1, s1, i + 1) sl' j" using p1(4) q(2) by (auto simp: match_from_def)
      have lt: "p1 + 1 < prog_len h"
      proof (rule ccontr)
        assume n: "\<not> ?thesis"
        from p1(4) show False
        proof (cases rule: converse_rtranclpE)
          case base
          then show ?thesis using q(2) n by (simp add: at_match_def)
        next
          case (step y)
          then show ?thesis using n by (auto elim: pstep.cases)
        qed
      qed
      have c: "all_closed la h tx (i + 1) vis1 nxt1" "p1 + 1 \<in> vset (prog_len h) vis1"
        using v(3,4) l(3) nf p1(1-3) lt by auto
      show False using l(5) nf c(1) [folded cur] c(2) lt m by blast
    qed
    then show ?thesis using run l v(3) by auto
  qed
qed


section \<open>A run from one start position\<close>

definition start_of :: "nat \<Rightarrow> nat \<Rightarrow> config" where
  "start_of p i = (p, replicate (MAX_GROUPS * 2) (- 1), i)"

lemma slot_count_ge: "2 \<le> re_slot_count h"
  by (simp add: re_slot_count_def Let_def MAX_GROUPS_def)

theorem vm_exec_range_ok:
  assumes "runs la h R" "pc_start \<in> R" "text_ok h tx" "vis_inv (prog_len h) vis"
  shows "\<exists>ok ms' vis'. vm_exec_range la h tx i pc_start ms vis = Some (ok, ms', vis') \<and> vis_inv (prog_len h) vis' \<and>
    (ok \<longrightarrow> match_slots la h tx (start_of pc_start i) ms') \<and>
    (\<not> ok \<longrightarrow> ms' = ms \<and>
       ((\<forall>sl. match_from la h tx (start_of pc_start i) sl i \<longrightarrow> 0 \<le> sl ! 0 \<and> 0 \<le> sl ! 1) \<longrightarrow>
        (\<forall>sl j. \<not> match_from la h tx (start_of pc_start i) sl j)))"
proof -
  let ?c0 = "start_of pc_start i" and ?none = "replicate (MAX_GROUPS * 2) (- 1 :: int)"
  let ?t = "\<lparr>pc = pc_start, slots = ?none\<rparr>" and ?vis = "visited_clear (prog_len h) vis"
  have st: "start_config ?c0 R" using assms(2) by (simp add: start_config_def start_of_def)
  have n0: "next_ok la h tx ?c0 i [] ?vis" using vis_clear [OF assms(4)] by (simp add: next_ok_def room_def)
  have cl0: "all_closed la h tx i ?vis []" using vis_clear [OF assms(4)] by (simp add: closed_at_def)
  have p0: "path la h tx ?c0 (pc ?t, slots ?t, i)" by (simp add: start_of_def)
  obtain got cur vis1 fs where a: "add_thread (prog_len h + 1) la h tx i ?t [] ?vis ?none = Some (got, cur, vis1, fs)"
    "next_ok la h tx ?c0 i cur vis1"
    "if got then match_slots la h tx ?c0 fs \<and> (\<exists>sl. match_from la h tx ?c0 sl i \<and> fs = copy_slots h sl ?none)
     else fs = ?none \<and> (pc ?t < prog_len h \<longrightarrow> pc ?t \<in> vset (prog_len h) vis1)"
    "\<not> got \<Longrightarrow> all_closed la h tx i vis1 cur"
    using closure_next [OF assms(1) st p0 n0, of ?none] cl0 by metis
  define found where "found = (fs ! 0 \<ge> 0 \<and> fs ! 1 \<ge> 0)"
  have f: "found \<longrightarrow> match_slots la h tx ?c0 fs"
    using a(3) by (cases got) (auto simp: found_def MAX_GROUPS_def)
  have th: "\<forall>t \<in> set cur. thread_ok la h tx ?c0 i t" "vis_inv (prog_len h) vis1" using a(2) by (simp_all add: next_ok_def)
  have k: "length tx + 1 \<le> i + (length tx + 1 - i)" by simp
  obtain vis' fs' found' where l: "vm_loop (length tx + 1 - i) la h tx i cur vis1 fs found = Some (vis', fs', found')"
    "vis_inv (prog_len h) vis'" "found \<longrightarrow> found'" "found' \<longrightarrow> match_slots la h tx ?c0 fs'"
    "\<not> found' \<longrightarrow> (\<forall>V p sl sl' j. closed_at la h tx i V V (pc ` set cur) \<longrightarrow> p \<in> V \<longrightarrow> p < prog_len h \<longrightarrow>
       \<not> match_from la h tx (p, sl, i) sl' j)"
    using vm_loop_ok [OF assms(1) st assms(3) th k f] by blast
  have run: "vm_exec_range la h tx i pc_start ms vis = Some (found', if found' then copy_slots h fs' ms else ms, vis')"
    using a(1) l(1) by (simp add: vm_exec_range_def Let_def found_def)
  define ms' where "ms' = (if found' then copy_slots h fs' ms else ms)"
  have sound: "match_slots la h tx ?c0 ms'" if found'
    using l(4) that by (auto simp: match_slots_def copy_slots_def ms'_def)
  have same: "ms' = ms" if "\<not> found'" using that by (simp add: ms'_def)
  have complete: "\<not> match_from la h tx ?c0 sl j"
    if nf: "\<not> found'" and pre: "\<forall>sl. match_from la h tx ?c0 sl i \<longrightarrow> 0 \<le> sl ! 0 \<and> 0 \<le> sl ! 1" for sl j
  proof
    assume m: "match_from la h tx ?c0 sl j"
    show False
    proof (cases got)
      case True
      then obtain sl0 where sl0: "match_from la h tx ?c0 sl0 i" "fs = copy_slots h sl0 ?none" using a(3) by auto
      have reg: "region h R" using assms(1) by (simp add: runs_def)
      have "length sl0 = MAX_GROUPS * 2" using sl0(1) path_region [OF _ reg] assms(2)
        by (fastforce simp: match_from_def start_of_def)
      then have "fs ! 0 = sl0 ! 0" "fs ! 1 = sl0 ! 1"
        using sl0(2) slot_count_ge [of h] slot_count_le [of h] by (simp_all add: copy_slots_def nth_append)
      then have "found" using pre sl0(1) by (simp add: found_def)
      with nf l(3) show False by simp
    next
      case False
      have lt: "pc_start < prog_len h"
      proof (rule ccontr)
        assume n: "\<not> ?thesis"
        obtain q where q: "path la h tx ?c0 (q, sl, j)" "at_match h q" using m by (auto simp: match_from_def)
        from q(1) show False
        proof (cases rule: converse_rtranclpE)
          case base
          then show ?thesis using q(2) n by (simp add: at_match_def start_of_def)
        next
          case (step y)
          then show ?thesis using n by (auto simp: start_of_def elim: pstep.cases)
        qed
      qed
      have c: "all_closed la h tx i vis1 cur" "pc_start \<in> vset (prog_len h) vis1" using a(3,4) False lt by simp_all
      show False using l(5) nf c lt m unfolding start_of_def by blast
    qed
  qed
  show ?thesis
  proof (intro exI conjI)
    show "vm_exec_range la h tx i pc_start ms vis = Some (found', ms', vis')" using run by (simp add: ms'_def)
    show "vis_inv (prog_len h) vis'" by (rule l(2))
    show "found' \<longrightarrow> match_slots la h tx ?c0 ms'" using sound by (rule impI)
    show "\<not> found' \<longrightarrow> ms' = ms \<and> ((\<forall>sl. match_from la h tx ?c0 sl i \<longrightarrow> 0 \<le> sl ! 0 \<and> 0 \<le> sl ! 1) \<longrightarrow>
        (\<forall>sl j. \<not> match_from la h tx ?c0 sl j))"
      by (rule impI, rule conjI, erule same, rule impI, rule allI, rule allI, erule complete)
  qed
qed

end
