(* ===== verification/Regex_Lang.thy ===== *)
theory Regex_Lang
  imports Regex_Match
begin

text \<open>
  What a regular expression means, and the proof that the paths through its code are its
  matches: a run that enters the code of an expression leaves it at its end, at a position the
  expression can match up to.
\<close>

section \<open>Code at an address\<close>

definition code_at :: "ReInstr list \<Rightarrow> nat \<Rightarrow> ReInstr list \<Rightarrow> bool" where
  "code_at P L q \<longleftrightarrow> (\<exists>a b. P = a @ q @ b \<and> length a = L)"

lemma code_at_Nil: "code_at P L [] \<longleftrightarrow> L \<le> length P"
proof
  assume "L \<le> length P"
  then have "P = take L P @ [] @ drop L P" "length (take L P) = L" by simp_all
  then show "code_at P L []" unfolding code_at_def by blast
qed (auto simp: code_at_def)

lemma code_at_append: "code_at P L (q @ q') \<longleftrightarrow> code_at P L q \<and> code_at P (L + length q) q'"
proof
  assume "code_at P L (q @ q')"
  then obtain a b where "P = a @ q @ q' @ b" "length a = L" by (auto simp: code_at_def)
  moreover from this have "P = (a @ q) @ q' @ b" "length (a @ q) = L + length q" by simp_all
  ultimately show "code_at P L q \<and> code_at P (L + length q) q'" unfolding code_at_def by metis
next
  assume "code_at P L q \<and> code_at P (L + length q) q'"
  then obtain a b where p1: "P = a @ q @ b" "length a = L" by (auto simp: code_at_def)
  obtain c d where p2: "P = c @ q' @ d" "length c = L + length q"
    using \<open>code_at P L q \<and> code_at P (L + length q) q'\<close> by (auto simp: code_at_def)
  note p = p1 p2
  then have "(a @ q) @ b = c @ q' @ d" "length (a @ q) = length c" by simp_all
  then have "b = q' @ d" by (metis append_eq_append_conv)
  with p(1,2) show "code_at P L (q @ q')" by (auto simp: code_at_def)
qed

lemma code_at_Cons: "code_at P L (x # q) \<longleftrightarrow> L < length P \<and> P ! L = x \<and> code_at P (L + 1) q"
proof -
  have "code_at P L [x] \<longleftrightarrow> L < length P \<and> P ! L = x"
  proof
    assume "L < length P \<and> P ! L = x"
    then have "P = take L P @ [x] @ drop (Suc L) P" "length (take L P) = L" by (auto simp: id_take_nth_drop)
    then show "code_at P L [x]" unfolding code_at_def by blast
  qed (auto simp: code_at_def nth_append)
  then show ?thesis using code_at_append [of P L "[x]" q] by simp
qed

lemmas code_at_simps = code_at_Nil code_at_append code_at_Cons

lemma code_at_length: "code_at P L q \<Longrightarrow> L + length q \<le> length P"
  by (auto simp: code_at_def)

section \<open>The part of the code outside lookaheads\<close>

fun outer :: "nat \<Rightarrow> rx \<Rightarrow> nat set" where
  "outer L Eps = {}"
| "outer L (Ins p a) = {L}"
| "outer L (Seq r s) = outer L r \<union> outer (L + code_len r) s"
| "outer L (Opt z r) = {L} \<union> outer (L + 1) r"
| "outer L (Star z r) = {L, L + 1 + code_len r} \<union> outer (L + 1) r"
| "outer L (Plus z r) = {L + code_len r} \<union> outer L r"
| "outer L (Alt r s) = {L, L + 1 + code_len r} \<union> outer (L + 1) r \<union> outer (L + 2 + code_len r) s"
| "outer L (Look n r) = {L}"

lemma outer_range: "p \<in> outer L r \<Longrightarrow> L \<le> p \<and> p < L + code_len r"
  by (induction r arbitrary: L p) fastforce+

lemma outer_entry: "L \<in> outer L r \<union> {L + code_len r}"
proof (induction r arbitrary: L)
  case (Seq r s)
  then show ?case using Seq.IH(1) [of L] Seq.IH(2) [of "L + code_len r"] by (cases "code_len r = 0") auto
qed (auto dest: outer_range)

text \<open>A property of every lookahead outside the others, by the address of its code.\<close>

fun look_all :: "(nat \<Rightarrow> rx \<Rightarrow> bool) \<Rightarrow> nat \<Rightarrow> rx \<Rightarrow> bool" where
  "look_all Q L Eps = True"
| "look_all Q L (Ins p a) = True"
| "look_all Q L (Seq r s) = (look_all Q L r \<and> look_all Q (L + code_len r) s)"
| "look_all Q L (Opt z r) = look_all Q (L + 1) r"
| "look_all Q L (Star z r) = look_all Q (L + 1) r"
| "look_all Q L (Plus z r) = look_all Q L r"
| "look_all Q L (Alt r s) = (look_all Q (L + 1) r \<and> look_all Q (L + 2 + code_len r) s)"
| "look_all Q L (Look n r) = Q (L + 1) r"

lemma static_succ_simple:
  "prog h ! p = mk_instr ps a b \<Longrightarrow> simple_op ps \<Longrightarrow> static_succ h p = {p + 1}"
  by (cases ps) (auto simp: static_succ_def mk_instr_def simple_op_def)

lemma static_succ_mk:
  "prog h ! p = mk_instr OP_JUMP a b \<Longrightarrow> static_succ h p = {a}"
  "prog h ! p = mk_instr OP_SPLIT a b \<Longrightarrow> static_succ h p = {a, b}"
  "prog h ! p = split_instr z a b \<Longrightarrow> static_succ h p = {a, b}"
  "prog h ! p = mk_instr OP_LOOKAHEAD a b \<Longrightarrow> static_succ h p = {a}"
  "prog h ! p = mk_instr OP_MATCH a b \<Longrightarrow> static_succ h p = {}"
  "prog h ! p = mk_instr OP_SAVE a b \<Longrightarrow> static_succ h p = {p + 1}"
  by (auto simp: static_succ_def mk_instr_def split_instr_def)

lemma outer_closed:
  "wf_rx nc ng r \<Longrightarrow> code_at (prog h) L (codegen L r) \<Longrightarrow> p \<in> outer L r \<Longrightarrow>
    static_succ h p \<subseteq> outer L r \<union> {L + code_len r}"
proof (induction r arbitrary: L p)
  case (Ins ps a)
  then show ?case by (simp add: code_at_simps static_succ_simple)
next
  case (Seq r s)
  then have c: "code_at (prog h) L (codegen L r)" "code_at (prog h) (L + code_len r) (codegen (L + code_len r) s)"
    "wf_rx nc ng r" "wf_rx nc ng s"
    by (simp_all add: code_at_simps)
  have e: "L + code_len r \<in> outer (L + code_len r) s \<union> {L + code_len r + code_len s}" by (rule outer_entry)
  have "p \<in> outer L r \<or> p \<in> outer (L + code_len r) s" using Seq.prems(3) by simp
  then have "static_succ h p \<subseteq> outer L r \<union> outer (L + code_len r) s \<union> {L + code_len r + code_len s}"
    using Seq.IH(1) [OF c(3,1)] Seq.IH(2) [OF c(4,2)] e by blast
  then show ?case by (simp add: add.assoc)
next
  case (Opt z r)
  then have c: "code_at (prog h) (L + 1) (codegen (L + 1) r)" "wf_rx nc ng r"
    "prog h ! L = split_instr z (L + 1) (L + 1 + code_len r)"
    by (simp_all add: code_at_simps)
  show ?case using Opt.IH [OF c(2,1)] Opt.prems(3) static_succ_mk(3) [OF c(3)] outer_entry [of "L + 1" r] by auto
next
  case (Star z r)
  then have c: "code_at (prog h) (L + 1) (codegen (L + 1) r)" "wf_rx nc ng r"
    "prog h ! L = split_instr z (L + 1) (L + 2 + code_len r)" "prog h ! (L + 1 + code_len r) = mk_instr OP_JUMP L 0"
    by (simp_all add: code_at_simps)
  show ?case using Star.IH [OF c(2,1)] Star.prems(3) static_succ_mk(3) [OF c(3)] static_succ_mk(1) [OF c(4)]
    outer_entry [of "L + 1" r] by auto
next
  case (Plus z r)
  then have c: "code_at (prog h) L (codegen L r)" "wf_rx nc ng r"
    "prog h ! (L + code_len r) = split_instr z L (L + 1 + code_len r)"
    by (simp_all add: code_at_simps)
  show ?case using Plus.IH [OF c(2,1)] Plus.prems(3) static_succ_mk(3) [OF c(3)] outer_entry [of L r] by auto
next
  case (Alt r s)
  then have c: "code_at (prog h) (L + 1) (codegen (L + 1) r)" "wf_rx nc ng r"
    "code_at (prog h) (L + 2 + code_len r) (codegen (L + 2 + code_len r) s)" "wf_rx nc ng s"
    "prog h ! L = mk_instr OP_SPLIT (L + 1) (L + 2 + code_len r)"
    "prog h ! (L + 1 + code_len r) = mk_instr OP_JUMP (L + 2 + code_len r + code_len s) 0"
    by (simp_all add: code_at_simps)
  show ?case using Alt.IH(1) [OF c(2,1)] Alt.IH(2) [OF c(4,3)] Alt.prems(3) static_succ_mk(2) [OF c(5)]
    static_succ_mk(1) [OF c(6)] outer_entry [of "L + 1" r] outer_entry [of "L + 2 + code_len r" s]
    by (auto simp: add.assoc)
next
  case (Look n r)
  then have "prog h ! L = mk_instr OP_LOOKAHEAD (L + 2 + code_len r) n" by (simp add: code_at_simps)
  from static_succ_mk(4) [OF this] show ?case using Look.prems(3) by auto
qed simp

text \<open>The lookaheads met outside others, and the other instructions met there.\<close>

lemma outer_look:
  "wf_rx nc ng r \<Longrightarrow> code_at (prog h) L (codegen L r) \<Longrightarrow> look_all Q L r \<Longrightarrow> p \<in> outer L r \<Longrightarrow>
    opcode (prog h ! p) = OP_LOOKAHEAD \<Longrightarrow> \<exists>s. Q (p + 1) s"
proof (induction r arbitrary: L p)
  case (Ins ps a)
  then show ?case by (auto simp: code_at_simps mk_instr_def simple_op_def)
next
  case (Look n r)
  then show ?case by auto
qed (auto simp: code_at_simps mk_instr_def split_instr_def split: if_splits)

lemma outer_ops:
  "wf_rx nc ng r \<Longrightarrow> code_at (prog h) L (codegen L r) \<Longrightarrow> p \<in> outer L r \<Longrightarrow>
    opcode (prog h ! p) \<noteq> OP_MATCH \<and>
    (opcode (prog h ! p) = OP_SAVE \<longrightarrow> 2 \<le> operand_a (prog h ! p) \<and> operand_a (prog h ! p) \<le> 2 * ng + 1)"
proof (induction r arbitrary: L p)
  case (Ins ps a)
  then show ?case by (auto simp: code_at_simps mk_instr_def simple_op_def)
qed (auto simp: code_at_simps mk_instr_def split_instr_def split: if_splits)

section \<open>What an expression matches\<close>

text \<open>
  \<open>rx_match h tx r i j\<close>: the expression matches the text from position \<open>i\<close> up to \<open>j\<close>.  The
  handle gives the flags and the classes.  Greedy and lazy quantifiers match the same spans.
\<close>

fun rx_match :: "'a ReCode_scheme \<Rightarrow> string \<Rightarrow> rx \<Rightarrow> nat \<Rightarrow> nat \<Rightarrow> bool" where
  "rx_match h tx Eps i j = (i = j)"
| "rx_match h tx (Ins p a) i j =
     (if p \<in> position_tests then anchor_ok h p tx i \<and> i = j
      else if p = OP_SAVE then i = j
      else i < length tx \<and> match_char h (mk_instr p a 0) (tx ! i) = Some True \<and> j = i + 1)"
| "rx_match h tx (Seq r s) i j = (\<exists>k. rx_match h tx r i k \<and> rx_match h tx s k j)"
| "rx_match h tx (Opt z r) i j = (i = j \<or> rx_match h tx r i j)"
| "rx_match h tx (Star z r) i j = (rx_match h tx r)\<^sup>*\<^sup>* i j"
| "rx_match h tx (Plus z r) i j = (rx_match h tx r)\<^sup>+\<^sup>+ i j"
| "rx_match h tx (Alt r s) i j = (rx_match h tx r i j \<or> rx_match h tx s i j)"
| "rx_match h tx (Look n r) i j = (i = j \<and> (\<exists>k. rx_match h tx r i k) = (n = 0))"

text \<open>The lookahead is answered as the expression says.\<close>

abbreviation la_ok :: "lookahead \<Rightarrow> 'a ReCode_scheme \<Rightarrow> string \<Rightarrow> nat \<Rightarrow> rx \<Rightarrow> bool" where
  "la_ok la h tx \<equiv> look_all (\<lambda>L s. \<forall>i. la i L = Some (\<exists>k. rx_match h tx s i k))"

section \<open>Steps at the instructions of the code\<close>

lemma pstep_split:
  assumes "prog h ! p = split_instr z a b \<or> prog h ! p = mk_instr OP_SPLIT a b" "p < prog_len h"
  shows "pstep la h tx (p, sl, i) c \<longleftrightarrow> c = (a, sl, i) \<or> c = (b, sl, i)"
  using assms by (auto simp: eps_succ_def position_tests_def save_slot_def mk_instr_def split_instr_def consuming_def
    zero_width_ops_def elim!: pstepE intro: pstep.eps split: if_splits)
    (auto simp: pstep.simps eps_succ_def position_tests_def save_slot_def)

lemma pstep_jump:
  assumes "prog h ! p = mk_instr OP_JUMP a b" "p < prog_len h"
  shows "pstep la h tx (p, sl, i) c \<longleftrightarrow> c = (a, sl, i)"
  using assms by (auto simp: pstep.simps eps_succ_def position_tests_def save_slot_def mk_instr_def consuming_def
    zero_width_ops_def)

lemma pstep_look:
  assumes "prog h ! p = mk_instr OP_LOOKAHEAD a b" "p < prog_len h" "la i (p + 1) = Some ok"
  shows "pstep la h tx (p, sl, i) c \<longleftrightarrow> c = (a, sl, i) \<and> ok = (b = 0)"
  using assms by (auto simp: pstep.simps eps_succ_def position_tests_def save_slot_def mk_instr_def consuming_def
    zero_width_ops_def)

lemma pstep_simple:
  assumes "prog h ! p = mk_instr ps a 0" "p < prog_len h" "simple_op ps"
  shows "pstep la h tx (p, sl, i) c \<longleftrightarrow>
    (\<exists>j. rx_match h tx (Ins ps a) i j \<and> c = (p + 1, if ps = OP_SAVE then sl[a := int i] else sl, j))"
proof (cases "ps \<in> position_tests \<or> ps = OP_SAVE")
  case True
  then show ?thesis using assms
    by (auto simp: pstep.simps eps_succ_def save_slot_def mk_instr_def consuming_def zero_width_ops_def position_tests_def)
next
  case False
  then have c: "consuming (prog h ! p)" "eps_succ la h tx i p = {}"
    using assms(1,3) by (auto simp: consuming_def zero_width_ops_def mk_instr_def simple_op_def eps_succ_def split: ReOpCode.splits)
  then show ?thesis using False assms(1,2) by (auto simp: pstep.simps)
qed

section \<open>Entering and leaving the code\<close>

lemma codegen_lt: "code_at (prog h) L (codegen L r) \<Longrightarrow> k < code_len r \<Longrightarrow> L + k < prog_len h"
  using code_at_length [of "prog h" L "codegen L r"] by (simp add: prog_len_def)

text \<open>A match has a path through the code.\<close>

lemma match_path:
  "wf_rx nc ng r \<Longrightarrow> code_at (prog h) L (codegen L r) \<Longrightarrow> la_ok la h tx L r \<Longrightarrow> rx_match h tx r i j \<Longrightarrow>
    \<exists>sl'. path la h tx (L, sl, i) (L + code_len r, sl', j)"
proof (induction r arbitrary: L i j sl)
  case Eps
  then show ?case by auto
next
  case (Ins ps a)
  then have "pstep la h tx (L, sl, i) (L + 1, if ps = OP_SAVE then sl[a := int i] else sl, j)"
    by (subst pstep_simple [of h L ps a]) (auto simp: code_at_simps prog_len_def)
  then show ?case by (auto intro: r_into_rtranclp)
next
  case (Seq r s)
  then obtain k where k: "rx_match h tx r i k" "rx_match h tx s k j" by auto
  obtain s1 where "path la h tx (L, sl, i) (L + code_len r, s1, k)"
    using Seq.IH(1) [of L i k sl] Seq.prems k(1) by (auto simp: code_at_simps)
  moreover obtain s2 where "path la h tx (L + code_len r, s1, k) (L + code_len r + code_len s, s2, j)"
    using Seq.IH(2) [of "L + code_len r" k j s1] Seq.prems k(2) by (auto simp: code_at_simps)
  ultimately show ?case by (auto simp: add.assoc intro: rtranclp_trans)
next
  case (Opt z r)
  have c: "prog h ! L = split_instr z (L + 1) (L + 1 + code_len r)" "L < prog_len h"
    using Opt.prems(2) by (simp_all add: code_at_simps prog_len_def)
  have st: "pstep la h tx (L, sl, i) (L + 1, sl, i)" "pstep la h tx (L, sl, i) (L + 1 + code_len r, sl, i)"
    by (simp_all only: pstep_split [OF disjI1 [OF c(1)] c(2)] simp_thms)
  show ?case
  proof (cases "i = j")
    case True
    then show ?thesis using st(2) by auto
  next
    case False
    then obtain s1 where "path la h tx (L + 1, sl, i) (L + 1 + code_len r, s1, j)"
      using Opt.IH [of "L + 1" i j sl] Opt.prems by (auto simp: code_at_simps)
    then show ?thesis using st(1) by (auto intro: converse_rtranclp_into_rtranclp)
  qed
next
  case (Star z r)
  have c: "prog h ! L = split_instr z (L + 1) (L + 2 + code_len r)" "L < prog_len h"
    "prog h ! (L + 1 + code_len r) = mk_instr OP_JUMP L 0" "L + 1 + code_len r < prog_len h"
    using Star.prems(2) by (simp_all add: code_at_simps prog_len_def)
  have st: "pstep la h tx (L, sl, k) (L + 1, sl, k)" "pstep la h tx (L, sl, k) (L + 2 + code_len r, sl, k)"
    "pstep la h tx (L + 1 + code_len r, sl, k) (L, sl, k)" for sl k
    by (simp_all only: pstep_split [OF disjI1 [OF c(1)] c(2)] pstep_jump [OF c(3,4)] simp_thms)
  have body: "\<exists>s1. path la h tx (L + 1, sl, k) (L + 1 + code_len r, s1, k')" if "rx_match h tx r k k'" for sl k k'
    using Star.IH [of "L + 1" k k' sl] Star.prems that by (auto simp: code_at_simps)
  have "(rx_match h tx r)\<^sup>*\<^sup>* i j" using Star.prems by simp
  then have "\<exists>s1. path la h tx (L, sl, i) (L, s1, j)"
  proof (induction rule: rtranclp_induct)
    case base
    then show ?case by blast
  next
    case (step k k')
    then obtain s1 where s1: "path la h tx (L, sl, i) (L, s1, k)" by blast
    obtain s2 where s2: "path la h tx (L + 1, s1, k) (L + 1 + code_len r, s2, k')" using body step(2) by blast
    have "path la h tx (L, s1, k) (L, s2, k')"
      using converse_rtranclp_into_rtranclp [OF st(1) rtranclp.rtrancl_into_rtrancl [OF s2 st(3)]] .
    with s1 show ?case by (blast intro: rtranclp_trans)
  qed
  then show ?case using st(2) by (auto intro: rtranclp.rtrancl_into_rtrancl)
next
  case (Plus z r)
  have c: "prog h ! (L + code_len r) = split_instr z L (L + 1 + code_len r)" "L + code_len r < prog_len h"
    using Plus.prems(2) by (simp_all add: code_at_simps prog_len_def)
  have st: "pstep la h tx (L + code_len r, sl, k) (L, sl, k)" "pstep la h tx (L + code_len r, sl, k) (L + 1 + code_len r, sl, k)" for sl k
    by (simp_all only: pstep_split [OF disjI1 [OF c(1)] c(2)] simp_thms)
  have body: "\<exists>s1. path la h tx (L, sl, k) (L + code_len r, s1, k')" if "rx_match h tx r k k'" for sl k k'
    using Plus.IH [of L k k' sl] Plus.prems that by (auto simp: code_at_simps)
  have "(rx_match h tx r)\<^sup>+\<^sup>+ i j" using Plus.prems by simp
  then have "\<exists>s1. path la h tx (L, sl, i) (L + code_len r, s1, j)"
  proof (induction rule: tranclp_induct)
    case (base k)
    then show ?case by (rule body)
  next
    case (step k k')
    then obtain s1 where s1: "path la h tx (L, sl, i) (L + code_len r, s1, k)" by blast
    obtain s2 where s2: "path la h tx (L, s1, k) (L + code_len r, s2, k')" using body step(2) by blast
    have "path la h tx (L + code_len r, s1, k) (L + code_len r, s2, k')"
      by (rule converse_rtranclp_into_rtranclp [OF st(1) s2])
    with s1 show ?case by (blast intro: rtranclp_trans)
  qed
  then show ?case using st(2) by (auto intro: rtranclp.rtrancl_into_rtrancl)
next
  case (Alt r s)
  have c: "prog h ! L = mk_instr OP_SPLIT (L + 1) (L + 2 + code_len r)" "L < prog_len h"
    "prog h ! (L + 1 + code_len r) = mk_instr OP_JUMP (L + 2 + code_len r + code_len s) 0" "L + 1 + code_len r < prog_len h"
    using Alt.prems(2) by (simp_all add: code_at_simps prog_len_def)
  have st: "pstep la h tx (L, sl, k) (L + 1, sl, k)" "pstep la h tx (L, sl, k) (L + 2 + code_len r, sl, k)"
    "pstep la h tx (L + 1 + code_len r, sl, k) (L + 2 + code_len r + code_len s, sl, k)" for sl k
    by (simp_all only: pstep_split [OF disjI2 [OF c(1)] c(2)] pstep_jump [OF c(3,4)] simp_thms)
  from Alt.prems(4) consider "rx_match h tx r i j" | "rx_match h tx s i j" by auto
  then show ?case
  proof cases
    case 1
    then obtain s1 where "path la h tx (L + 1, sl, i) (L + 1 + code_len r, s1, j)"
      using Alt.IH(1) [of "L + 1" i j sl] Alt.prems by (auto simp: code_at_simps)
    then have "path la h tx (L, sl, i) (L + 2 + code_len r + code_len s, s1, j)"
      using st(1,3) by (meson converse_rtranclp_into_rtranclp rtranclp.rtrancl_into_rtrancl)
    then show ?thesis by (auto simp: algebra_simps)
  next
    case 2
    then obtain s1 where "path la h tx (L + 2 + code_len r, sl, i) (L + 2 + code_len r + code_len s, s1, j)"
      using Alt.IH(2) [of "L + 2 + code_len r" i j sl] Alt.prems by (auto simp: code_at_simps)
    then have "path la h tx (L, sl, i) (L + 2 + code_len r + code_len s, s1, j)"
      using st(2) by (meson converse_rtranclp_into_rtranclp)
    then show ?thesis by (auto simp: algebra_simps)
  qed
next
  case (Look n r)
  have c: "prog h ! L = mk_instr OP_LOOKAHEAD (L + 2 + code_len r) n" "L < prog_len h"
    using Look.prems(2) by (simp_all add: code_at_simps prog_len_def)
  have la: "la i (L + 1) = Some (\<exists>k. rx_match h tx r i k)" using Look.prems(3) by simp
  have "pstep la h tx (L, sl, i) (L + 2 + code_len r, sl, i)"
    by (rule iffD2 [OF pstep_look [where la = la and i = i and p = L, OF c la]])
      (use Look.prems(4) in auto)
  then show ?case using Look.prems(4) by auto
qed


text \<open>A run that leaves the code of an expression has matched it.\<close>

lemma first_of_run:
  assumes "(pstep la h tx ^^ n) (p, sl, i) d" "fst d \<noteq> p"
  obtains n' c where "n = Suc n'" "pstep la h tx (p, sl, i) c" "(pstep la h tx ^^ n') c d"
proof (cases n)
  case 0
  then show ?thesis using assms by auto
next
  case (Suc n')
  then show ?thesis using assms(1) that by (metis relpowp_Suc_D2)
qed

lemma run_exit:
  "wf_rx nc ng r \<Longrightarrow> code_at (prog h) L (codegen L r) \<Longrightarrow> la_ok la h tx L r \<Longrightarrow>
    (pstep la h tx ^^ n) (L, sl, i) d \<Longrightarrow> fst d \<notin> outer L r \<Longrightarrow>
    \<exists>m \<le> n. \<exists>k sl'. rx_match h tx r i k \<and> (pstep la h tx ^^ m) (L + code_len r, sl', k) d"
proof (induction r arbitrary: L n sl i)
  case Eps
  then show ?case by auto
next
  case (Ins ps a)
  then have c: "prog h ! L = mk_instr ps a 0" "L < prog_len h" "simple_op ps" "fst d \<noteq> L"
    by (simp_all add: code_at_simps prog_len_def)
  obtain n' c' where n: "n = Suc n'" "pstep la h tx (L, sl, i) c'" "(pstep la h tx ^^ n') c' d"
    using first_of_run [OF Ins.prems(4) c(4)] .
  then obtain j sl' where "rx_match h tx (Ins ps a) i j" "c' = (L + 1, sl', j)"
    using pstep_simple [where la = la and i = i, OF c(1-3)] by blast
  then show ?case using n by (intro exI [of _ n'] conjI exI [of _ j] exI [of _ sl']) auto
next
  case (Seq r s)
  then have c: "code_at (prog h) L (codegen L r)" "code_at (prog h) (L + code_len r) (codegen (L + code_len r) s)"
    "wf_rx nc ng r" "wf_rx nc ng s" "la_ok la h tx L r" "la_ok la h tx (L + code_len r) s"
    "fst d \<notin> outer L r" "fst d \<notin> outer (L + code_len r) s"
    by (simp_all add: code_at_simps)
  obtain m k sl1 where 1: "m \<le> n" "rx_match h tx r i k" "(pstep la h tx ^^ m) (L + code_len r, sl1, k) d"
    using Seq.IH(1) [OF c(3,1,5) Seq.prems(4) c(7)] by blast
  obtain m' k' sl2 where 2: "m' \<le> m" "rx_match h tx s k k'"
    "(pstep la h tx ^^ m') (L + code_len r + code_len s, sl2, k') d"
    using Seq.IH(2) [OF c(4,2,6) 1(3) c(8)] by blast
  show ?case using 1 2 by (intro exI [of _ m'] conjI exI [of _ k'] exI [of _ sl2]) (auto simp: add.assoc)
next
  case (Opt z r)
  then have c: "code_at (prog h) (L + 1) (codegen (L + 1) r)" "wf_rx nc ng r" "la_ok la h tx (L + 1) r"
    "prog h ! L = split_instr z (L + 1) (L + 1 + code_len r)" "L < prog_len h" "fst d \<noteq> L" "fst d \<notin> outer (L + 1) r"
    by (simp_all add: code_at_simps prog_len_def)
  obtain n' c' where n: "n = Suc n'" "pstep la h tx (L, sl, i) c'" "(pstep la h tx ^^ n') c' d"
    using first_of_run [OF Opt.prems(4) c(6)] .
  then consider "c' = (L + 1, sl, i)" | "c' = (L + 1 + code_len r, sl, i)"
    using pstep_split [where la = la and i = i, OF disjI1 [OF c(4)] c(5)] by blast
  then show ?case
  proof cases
    case 1
    then obtain m k sl1 where "m \<le> n'" "rx_match h tx r i k" "(pstep la h tx ^^ m) (L + 1 + code_len r, sl1, k) d"
      using Opt.IH [OF c(2,1,3) _ c(7)] n(3) by blast
    then show ?thesis using n(1) by (intro exI [of _ m] conjI exI [of _ k] exI [of _ sl1]) auto
  next
    case 2
    then show ?thesis using n by (intro exI [of _ n'] conjI exI [of _ i] exI [of _ sl]) auto
  qed
next
  case (Star z r)
  then have c: "code_at (prog h) (L + 1) (codegen (L + 1) r)" "wf_rx nc ng r" "la_ok la h tx (L + 1) r"
    "prog h ! L = split_instr z (L + 1) (L + 2 + code_len r)" "L < prog_len h" "fst d \<noteq> L" "fst d \<notin> outer (L + 1) r"
    "prog h ! (L + 1 + code_len r) = mk_instr OP_JUMP L 0" "L + 1 + code_len r < prog_len h" "fst d \<noteq> L + 1 + code_len r"
    by (simp_all add: code_at_simps prog_len_def)
  show ?case using Star.prems(4)
  proof (induction n arbitrary: sl i rule: less_induct)
    case (less n)
    obtain n' c' where n: "n = Suc n'" "pstep la h tx (L, sl, i) c'" "(pstep la h tx ^^ n') c' d"
      using first_of_run [OF less.prems c(6)] .
    then consider "c' = (L + 1, sl, i)" | "c' = (L + 2 + code_len r, sl, i)"
      using pstep_split [where la = la and i = i, OF disjI1 [OF c(4)] c(5)] by blast
    then show ?case
    proof cases
      case 1
      then obtain m k sl1 where m: "m \<le> n'" "rx_match h tx r i k" "(pstep la h tx ^^ m) (L + 1 + code_len r, sl1, k) d"
        using Star.IH [OF c(2,1,3) _ c(7)] n(3) by blast
      obtain m' c2 where m': "m = Suc m'" "pstep la h tx (L + 1 + code_len r, sl1, k) c2" "(pstep la h tx ^^ m') c2 d"
        using first_of_run [OF m(3) c(10)] .
      then have "(pstep la h tx ^^ m') (L, sl1, k) d" "m' < n"
        using pstep_jump [where la = la and i = k, OF c(8,9)] m(1) n(1) by auto
      then obtain m2 k2 sl2 where "m2 \<le> m'" "rx_match h tx (Star z r) k k2" "(pstep la h tx ^^ m2) (L + code_len (Star z r), sl2, k2) d"
        using less.IH by blast
      then show ?thesis using m(2) \<open>m' < n\<close>
        by (intro exI [of _ m2] conjI exI [of _ k2] exI [of _ sl2]) (auto intro: converse_rtranclp_into_rtranclp)
    next
      case 2
      then show ?thesis using n by (intro exI [of _ n'] conjI exI [of _ i] exI [of _ sl]) (auto simp: add.assoc)
    qed
  qed
next
  case (Plus z r)
  then have c: "code_at (prog h) L (codegen L r)" "wf_rx nc ng r" "la_ok la h tx L r" "fst d \<notin> outer L r"
    "prog h ! (L + code_len r) = split_instr z L (L + 1 + code_len r)" "L + code_len r < prog_len h"
    "fst d \<noteq> L + code_len r"
    by (simp_all add: code_at_simps prog_len_def)
  show ?case using Plus.prems(4)
  proof (induction n arbitrary: sl i rule: less_induct)
    case (less n)
    obtain m k sl1 where m: "m \<le> n" "rx_match h tx r i k" "(pstep la h tx ^^ m) (L + code_len r, sl1, k) d"
      using Plus.IH [OF c(2,1,3) less.prems c(4)] by blast
    obtain m' c2 where m': "m = Suc m'" "pstep la h tx (L + code_len r, sl1, k) c2" "(pstep la h tx ^^ m') c2 d"
      using first_of_run [OF m(3) c(7)] .
    then consider "c2 = (L, sl1, k)" | "c2 = (L + 1 + code_len r, sl1, k)"
      using pstep_split [where la = la and i = k, OF disjI1 [OF c(5)] c(6)] by blast
    then show ?case
    proof cases
      case 1
      then have "(pstep la h tx ^^ m') (L, sl1, k) d" "m' < n" using m' m(1) by simp_all
      then obtain m2 k2 sl2 where "m2 \<le> m'" "rx_match h tx (Plus z r) k k2" "(pstep la h tx ^^ m2) (L + code_len (Plus z r), sl2, k2) d"
        using less.IH by blast
      then show ?thesis using m(2) \<open>m' < n\<close>
        by (intro exI [of _ m2] conjI exI [of _ k2] exI [of _ sl2]) (auto intro: tranclp_into_tranclp2)
    next
      case 2
      then show ?thesis using m m' by (intro exI [of _ m'] conjI exI [of _ k] exI [of _ sl1]) auto
    qed
  qed
next
  case (Alt r s)
  then have c: "code_at (prog h) (L + 1) (codegen (L + 1) r)" "wf_rx nc ng r" "la_ok la h tx (L + 1) r"
    "prog h ! L = mk_instr OP_SPLIT (L + 1) (L + 2 + code_len r)" "L < prog_len h" "fst d \<noteq> L" "fst d \<notin> outer (L + 1) r"
    "code_at (prog h) (L + 2 + code_len r) (codegen (L + 2 + code_len r) s)" "wf_rx nc ng s"
    "la_ok la h tx (L + 2 + code_len r) s" "fst d \<notin> outer (L + 2 + code_len r) s"
    "prog h ! (L + 1 + code_len r) = mk_instr OP_JUMP (L + 2 + code_len r + code_len s) 0" "L + 1 + code_len r < prog_len h"
    "fst d \<noteq> L + 1 + code_len r"
    by (simp_all add: code_at_simps prog_len_def)
  obtain n' c' where n: "n = Suc n'" "pstep la h tx (L, sl, i) c'" "(pstep la h tx ^^ n') c' d"
    using first_of_run [OF Alt.prems(4) c(6)] .
  then consider "c' = (L + 1, sl, i)" | "c' = (L + 2 + code_len r, sl, i)"
    using pstep_split [where la = la and i = i, OF disjI2 [OF c(4)] c(5)] by blast
  then show ?case
  proof cases
    case 1
    then obtain m k sl1 where m: "m \<le> n'" "rx_match h tx r i k" "(pstep la h tx ^^ m) (L + 1 + code_len r, sl1, k) d"
      using Alt.IH(1) [OF c(2,1,3) _ c(7)] n(3) by blast
    obtain m' c2 where m': "m = Suc m'" "pstep la h tx (L + 1 + code_len r, sl1, k) c2" "(pstep la h tx ^^ m') c2 d"
      using first_of_run [OF m(3) c(14)] .
    then have "(pstep la h tx ^^ m') (L + 2 + code_len r + code_len s, sl1, k) d"
      using pstep_jump [where la = la and i = k, OF c(12,13)] by auto
    then show ?thesis using n(1) m(1,2) m'(1)
      by (intro exI [of _ m'] conjI exI [of _ k] exI [of _ sl1]) (auto simp: add.assoc)
  next
    case 2
    then obtain m k sl1 where "m \<le> n'" "rx_match h tx s i k" "(pstep la h tx ^^ m) (L + 2 + code_len r + code_len s, sl1, k) d"
      using Alt.IH(2) [OF c(9,8,10) _ c(11)] n(3) by blast
    then show ?thesis using n(1) by (intro exI [of _ m] conjI exI [of _ k] exI [of _ sl1]) (auto simp: add.assoc)
  qed
next
  case (Look q r)
  then have c: "prog h ! L = mk_instr OP_LOOKAHEAD (L + 2 + code_len r) q" "L < prog_len h" "fst d \<noteq> L"
    "la i (L + 1) = Some (\<exists>k. rx_match h tx r i k)"
    by (simp_all add: code_at_simps prog_len_def)
  obtain n' c' where n: "n = Suc n'" "pstep la h tx (L, sl, i) c'" "(pstep la h tx ^^ n') c' d"
    using first_of_run [OF Look.prems(4) c(3)] .
  have "c' = (L + 2 + code_len r, sl, i) \<and> (\<exists>k. rx_match h tx r i k) = (q = 0)"
    using pstep_look [where la = la and i = i, OF c(1,2,4)] n(2) by blast
  then show ?case using n by (intro exI [of _ n'] conjI exI [of _ i] exI [of _ sl]) (auto simp: add.assoc)
qed

end
