(* ===== verification/Regex_Lookahead.thy ===== *)
theory Regex_Lookahead
  imports Regex_Lang
begin

text \<open>
  Lookaheads: a run of the machine on the body of a lookahead returns, and answers whether the
  body matches at the position, when the body cannot match the empty span.
\<close>


text \<open>A match of the whole: the code followed by a MATCH.\<close>

lemma code_match:
  assumes "wf_rx nc ng r" "code_at (prog h) L (codegen L r)" "la_ok la h tx L r"
    "L + code_len r < prog_len h" "opcode (prog h ! (L + code_len r)) = OP_MATCH"
  shows "(\<exists>sl'. match_from la h tx (L, sl, i) sl' j) \<longleftrightarrow> rx_match h tx r i j"
proof
  have m: "at_match h (L + code_len r)" using assms(4,5) by (simp add: at_match_def)
  show "rx_match h tx r i j" if "\<exists>sl'. match_from la h tx (L, sl, i) sl' j"
  proof -
    obtain sl' p where p: "path la h tx (L, sl, i) (p, sl', j)" "at_match h p"
      using \<open>\<exists>sl'. _\<close> by (auto simp: match_from_def)
    have "p \<notin> outer L r" using outer_ops [OF assms(1,2)] p(2) by (auto simp: at_match_def)
    moreover obtain n where "(pstep la h tx ^^ n) (L, sl, i) (p, sl', j)" using p(1) rtranclp_imp_relpowp by metis
    ultimately obtain q k sl1 where k: "rx_match h tx r i k" "(pstep la h tx ^^ q) (L + code_len r, sl1, k) (p, sl', j)"
      using run_exit [OF assms(1-3), of n sl i "(p, sl', j)"] by auto
    have "path la h tx (L + code_len r, sl1, k) (p, sl', j)" using k(2) by (rule relpowp_imp_rtranclp)
    then have "k = j" by (cases rule: converse_rtranclpE) (use at_match_no_step [OF m] in auto)
    with k(1) show ?thesis by simp
  qed
  show "\<exists>sl'. match_from la h tx (L, sl, i) sl' j" if "rx_match h tx r i j"
    using match_path [OF assms(1-3) that] m unfolding match_from_def by blast
qed

section \<open>Lookaheads\<close>

text \<open>Expressions that can match the empty span, and those whose lookaheads all consume.\<close>

fun nullable :: "rx \<Rightarrow> bool" where
  "nullable Eps = True"
| "nullable (Ins p a) = (p \<in> position_tests \<or> p = OP_SAVE)"
| "nullable (Seq r s) = (nullable r \<and> nullable s)"
| "nullable (Opt z r) = True"
| "nullable (Star z r) = True"
| "nullable (Plus z r) = nullable r"
| "nullable (Alt r s) = (nullable r \<or> nullable s)"
| "nullable (Look n r) = True"

fun looks_consume :: "rx \<Rightarrow> bool" where
  "looks_consume (Seq r s) = (looks_consume r \<and> looks_consume s)"
| "looks_consume (Opt z r) = looks_consume r"
| "looks_consume (Star z r) = looks_consume r"
| "looks_consume (Plus z r) = looks_consume r"
| "looks_consume (Alt r s) = (looks_consume r \<and> looks_consume s)"
| "looks_consume (Look n r) = (\<not> nullable r \<and> looks_consume r)"
| "looks_consume r = True"

fun look_depth :: "rx \<Rightarrow> nat" where
  "look_depth (Seq r s) = max (look_depth r) (look_depth s)"
| "look_depth (Opt z r) = look_depth r"
| "look_depth (Star z r) = look_depth r"
| "look_depth (Plus z r) = look_depth r"
| "look_depth (Alt r s) = max (look_depth r) (look_depth s)"
| "look_depth (Look n r) = Suc (look_depth r)"
| "look_depth r = 0"

lemma rx_match_le: "rx_match h tx r i j \<Longrightarrow> i \<le> j"
proof (induction r arbitrary: i j)
  case (Seq r s)
  then obtain k where "rx_match h tx r i k" "rx_match h tx s k j" by auto
  with Seq.IH(1) [of i k] Seq.IH(2) [of k j] show ?case by simp
next
  case (Star z r)
  then have "(rx_match h tx r)\<^sup>*\<^sup>* i j" by simp
  then show ?case by (induction rule: rtranclp_induct) (auto dest: Star.IH)
next
  case (Plus z r)
  then have "(rx_match h tx r)\<^sup>+\<^sup>+ i j" by simp
  then show ?case by (induction rule: tranclp_induct) (auto dest: Plus.IH)
qed (auto split: if_splits)

lemma not_nullable: "rx_match h tx r i j \<Longrightarrow> \<not> nullable r \<Longrightarrow> i < j"
proof (induction r arbitrary: i j)
  case (Seq r s)
  then obtain k where "rx_match h tx r i k" "rx_match h tx s k j" by auto
  with Seq.IH(1) [of i k] Seq.IH(2) [of k j] Seq.prems(2) rx_match_le [of h tx r i k] rx_match_le [of h tx s k j]
  show ?case by auto
next
  case (Plus z r)
  then have "(rx_match h tx r)\<^sup>+\<^sup>+ i j" by simp
  then show ?case by (induction rule: tranclp_induct) (use Plus in \<open>force+\<close>)
qed (auto split: if_splits)

lemma look_depth_len: "look_depth r \<le> code_len r"
  by (induction r) auto

lemma not_nullable_start: "\<not> nullable r \<Longrightarrow> \<not> rx_match h tx r i i"
  using not_nullable by blast

text \<open>The code of a lookahead body can run.\<close>

lemma body_runs:
  assumes "wf_rx nc ng r" "code_at (prog h) L (codegen L r)" "look_all (\<lambda>L s. \<forall>i. la i L \<noteq> None) L r"
    "opcode (prog h ! (L + code_len r)) = OP_MATCH" "few_threads h" "ng < MAX_GROUPS"
  shows "runs la h (insert (L + code_len r) (outer L r))"
  unfolding runs_def region_def
proof (intro conjI ballI impI allI)
  let ?R = "insert (L + code_len r) (outer L r)"
  show "few_threads h" by (rule assms(5))
  fix p assume p: "p \<in> ?R" "p < prog_len h"
  show "static_succ h p \<subseteq> ?R"
    using p(1) outer_closed [OF assms(1,2)] assms(4) by (auto simp: static_succ_def)
  show "operand_a (prog h ! p) < MAX_GROUPS * 2" if "opcode (prog h ! p) = OP_SAVE"
    using p(1) that outer_ops [OF assms(1,2), of p] assms(4,6) by auto
  show "la i (p + 1) \<noteq> None" if "opcode (prog h ! p) = OP_LOOKAHEAD" for i
    using p(1) that outer_look [OF assms(1,2,3), of p] assms(4) by auto
qed

lemma look_all_mono: "look_all P L r \<Longrightarrow> (\<And>M s. P M s \<Longrightarrow> Q M s) \<Longrightarrow> look_all Q L r"
  by (induction P L r rule: look_all.induct) auto

text \<open>A lookahead returns when the nesting bound covers the nesting of its expression.\<close>

lemma lookahead_returns:
  "wf_rx nc ng r \<Longrightarrow> code_at (prog h) L (codegen L r) \<Longrightarrow> few_threads h \<Longrightarrow> ng < MAX_GROUPS \<Longrightarrow> text_ok h tx \<Longrightarrow>
    look_depth r \<le> d \<Longrightarrow> look_all (\<lambda>L s. \<forall>i. vm_exec_lookahead d h tx i L \<noteq> None) L r"
proof (induction r arbitrary: L d)
  case (Look n r)
  then obtain d' where d: "d = Suc d'" "look_depth r \<le> d'" by (cases d) auto
  have c: "wf_rx nc ng r" "code_at (prog h) (L + 1) (codegen (L + 1) r)" "opcode (prog h ! (L + 1 + code_len r)) = OP_MATCH"
    using Look.prems(1,2) by (simp_all add: code_at_simps mk_instr_def)
  have run: "runs (vm_exec_lookahead d' h tx) h (insert (L + 1 + code_len r) (outer (L + 1) r))"
    by (rule body_runs [OF c(1,2) Look.IH [OF c(1,2) Look.prems(3-5) d(2)] c(3) Look.prems(3,4)])
  have e: "L + 1 \<in> insert (L + 1 + code_len r) (outer (L + 1) r)" using outer_entry [of "L + 1" r] by auto
  have "vm_exec_lookahead d h tx i (L + 1) \<noteq> None" for i
    using vm_exec_range_ok [OF run e Look.prems(5) vis_inv_init, of i "replicate (MAX_GROUPS * 2) (- 1)"] d(1) by auto
  then show ?case by simp
qed (simp_all add: code_at_simps)

text \<open>And it answers as the expression says when the bodies cannot match the empty span.\<close>

lemma lookahead_agrees:
  "wf_rx nc ng r \<Longrightarrow> code_at (prog h) L (codegen L r) \<Longrightarrow> few_threads h \<Longrightarrow> ng < MAX_GROUPS \<Longrightarrow> text_ok h tx \<Longrightarrow>
    look_depth r \<le> d \<Longrightarrow> looks_consume r \<Longrightarrow> la_ok (vm_exec_lookahead d h tx) h tx L r"
proof (induction r arbitrary: L d)
  case (Look n r)
  then obtain d' where d: "d = Suc d'" "look_depth r \<le> d'" by (cases d) auto
  let ?la = "vm_exec_lookahead d' h tx" and ?L = "L + 1"
  have c: "wf_rx nc ng r" "code_at (prog h) ?L (codegen ?L r)" "opcode (prog h ! (?L + code_len r)) = OP_MATCH"
    "?L + code_len r < prog_len h" "\<not> nullable r" "looks_consume r"
    using Look.prems(1,2,7) by (simp_all add: code_at_simps mk_instr_def prog_len_def)
  have la: "la_ok ?la h tx ?L r" by (rule Look.IH [OF c(1,2) Look.prems(3-5) d(2) c(6)])
  have some: "look_all (\<lambda>L s. \<forall>i. ?la i L \<noteq> None) ?L r" by (rule look_all_mono [OF la]) simp
  have run: "runs ?la h (insert (?L + code_len r) (outer ?L r))" by (rule body_runs [OF c(1,2) some c(3) Look.prems(3,4)])
  have e: "?L \<in> insert (?L + code_len r) (outer ?L r)" using outer_entry [of ?L r] by auto
  have m: "(\<exists>sl'. match_from ?la h tx (start_of ?L i) sl' j) \<longleftrightarrow> rx_match h tx r i j" for i j
    unfolding start_of_def by (rule code_match [OF c(1,2) la c(4,3)])
  have "vm_exec_lookahead d h tx i ?L = Some (\<exists>k. rx_match h tx r i k)" for i
  proof -
    obtain ok ms' vis' where v: "vm_exec_range ?la h tx i ?L (replicate (MAX_GROUPS * 2) (- 1)) (visited_init (prog_len h)) = Some (ok, ms', vis')"
      "ok \<longrightarrow> match_slots ?la h tx (start_of ?L i) ms'"
      "\<not> ok \<longrightarrow> (\<forall>sl. match_from ?la h tx (start_of ?L i) sl i \<longrightarrow> 0 \<le> sl ! 0 \<and> 0 \<le> sl ! 1) \<longrightarrow>
        (\<forall>sl j. \<not> match_from ?la h tx (start_of ?L i) sl j)"
      using vm_exec_range_ok [OF run e Look.prems(5) vis_inv_init] by blast
    have "ok \<longleftrightarrow> (\<exists>k. rx_match h tx r i k)"
    proof
      assume ok
      then show "\<exists>k. rx_match h tx r i k" using v(2) m unfolding match_slots_def by blast
    next
      assume x: "\<exists>k. rx_match h tx r i k"
      have none: "\<not> match_from ?la h tx (start_of ?L i) sl i" for sl using m not_nullable_start [OF c(5)] by blast
      show ok
      proof (rule ccontr)
        assume "\<not> ok"
        then have "\<not> match_from ?la h tx (start_of ?L i) sl j" for sl j using v(3) none by blast
        then show False using x m by blast
      qed
    qed
    then show ?thesis using v(1) d(1) by simp
  qed
  then show ?case by simp
qed (simp_all add: code_at_simps)

end
