(* ===== verification/Regex_Correct.thy ===== *)
theory Regex_Correct
  imports Regex_Lookahead
begin

text \<open>
  The compiler and the Pike VM together: the machine returns on every compiled program and
  decides whether the expression matches at the start position.
\<close>


section \<open>The whole program\<close>

text \<open>The handle holds the code of \<open>r\<close> between the instructions that save the span.\<close>

definition program_of :: "'a ReCode_scheme \<Rightarrow> rx \<Rightarrow> bool" where
  "program_of h r \<longleftrightarrow> wf_rx (n_classes h) (n_groups h) r \<and> n_groups h < MAX_GROUPS \<and> classes_ok h \<and>
     prog h = mk_instr OP_SAVE 0 0 # codegen 1 r @ [mk_instr OP_SAVE 1 0, mk_instr OP_MATCH 0 0]"

lemma program_of_at:
  assumes "program_of h r"
  shows "code_at (prog h) 1 (codegen 1 r)" "prog h ! 0 = mk_instr OP_SAVE 0 0"
    "prog h ! (1 + code_len r) = mk_instr OP_SAVE 1 0" "prog h ! (2 + code_len r) = mk_instr OP_MATCH 0 0"
    "prog_len h = 3 + code_len r"
proof -
  have "prog h = [mk_instr OP_SAVE 0 0] @ codegen 1 r @ [mk_instr OP_SAVE 1 0, mk_instr OP_MATCH 0 0]"
    using assms by (simp add: program_of_def)
  then show "code_at (prog h) 1 (codegen 1 r)" unfolding code_at_def
    by (intro exI [of _ "[mk_instr OP_SAVE 0 0]"] exI [of _ "[mk_instr OP_SAVE 1 0, mk_instr OP_MATCH 0 0]"]) simp
qed (use assms in \<open>simp_all add: program_of_def nth_append prog_len_def numeral_eq_Suc\<close>)

lemma program_region:
  assumes "program_of h r" "look_all (\<lambda>L s. \<forall>i. la i L \<noteq> None) 1 r" "few_threads h"
  shows "runs la h ({0, 1 + code_len r, 2 + code_len r} \<union> outer 1 r)"
  unfolding runs_def region_def
proof (intro conjI ballI impI allI)
  let ?R = "{0, 1 + code_len r, 2 + code_len r} \<union> outer 1 r"
  note at = program_of_at [OF assms(1)]
  have w: "wf_rx (n_classes h) (n_groups h) r" "n_groups h < MAX_GROUPS" using assms(1) by (simp_all add: program_of_def)
  show "few_threads h" by (rule assms(3))
  fix p assume p: "p \<in> ?R" "p < prog_len h"
  show "static_succ h p \<subseteq> ?R"
  proof (cases "p \<in> outer 1 r")
    case True
    then show ?thesis using outer_closed [OF w(1) at(1)] by auto
  next
    case False
    then consider "p = 0" | "p = 1 + code_len r" | "p = 2 + code_len r" using p(1) by auto
    then show ?thesis
    proof cases
      case 1
      then show ?thesis using static_succ_mk(6) [OF at(2)] outer_entry [of 1 r] by auto
    next
      case 2
      then show ?thesis using static_succ_mk(6) [OF at(3)] by auto
    next
      case 3
      then show ?thesis using static_succ_mk(5) [OF at(4)] by auto
    qed
  qed
  show "operand_a (prog h ! p) < MAX_GROUPS * 2" if "opcode (prog h ! p) = OP_SAVE"
  proof (cases "p \<in> outer 1 r")
    case True
    then show ?thesis using outer_ops [OF w(1) at(1) True] that w(2) by auto
  next
    case False
    then show ?thesis using p(1) at by (auto simp: mk_instr_def MAX_GROUPS_def)
  qed
  show "la i (p + 1) \<noteq> None" if "opcode (prog h ! p) = OP_LOOKAHEAD" for i
    using p(1) that outer_look [OF w(1) at(1) assms(2), of p] at by (auto simp: mk_instr_def)
qed

text \<open>A class has a bit for each of the bytes below 128.\<close>

definition ascii :: "string \<Rightarrow> bool" where
  "ascii tx \<longleftrightarrow> list_all (\<lambda>c. ccode c < 128) tx"

lemma fold_case_ascii: "ccode c < 128 \<Longrightarrow> ccode (fold_case h c) div 8 < CLASS_BITMAP_BYTES"
  by (auto simp: fold_case_def CLASS_BITMAP_BYTES_def tolower_def isupper_c_def)

lemma class_of_some: "classes_ok h \<Longrightarrow> k < n_classes h \<Longrightarrow> class_of h k \<noteq> None"
  by (auto simp: class_of_def classes_ok_def)

lemma program_text_ok:
  assumes "program_of h r" "ascii tx"
  shows "text_ok h tx"
  unfolding text_ok_def
proof (intro allI impI ballI)
  fix p ch assume p: "p < prog_len h" "ch \<in> set tx"
  have w: "wf_rx (n_classes h) (n_groups h) r" "n_groups h < MAX_GROUPS" "classes_ok h"
    "prog h = mk_instr OP_SAVE 0 0 # codegen 1 r @ [mk_instr OP_SAVE 1 0, mk_instr OP_MATCH 0 0]"
    using assms by (simp_all add: program_of_def)
  have "class_of h (operand_a (prog h ! p)) \<noteq> None" if "opcode (prog h ! p) \<in> {OP_CLASS, OP_NCLASS}"
    using program_ok [OF w(1,2,4), of "prog h ! p"] p that class_of_some [OF w(3)] by (auto simp: instr_ok_def prog_len_def)
  moreover have "ccode (fold_case h ch) div 8 < CLASS_BITMAP_BYTES"
    using fold_case_ascii assms(2) p(2) by (auto simp: ascii_def list_all_iff)
  ultimately show "match_char h (prog h ! p) ch \<noteq> None"
    by (cases "opcode (prog h ! p)") (auto simp: match_char_def class_test_def)
qed

text \<open>The slots 0 and 1 along a run: the start, and at the end the position.\<close>

lemma run_slots:
  assumes "program_of h r" "path la h tx (start_of 0 i) (p, sl, j)"
  shows "length sl = MAX_GROUPS * 2 \<and> (p = 0 \<and> sl = replicate (MAX_GROUPS * 2) (- 1) \<and> j = i \<or>
    p \<in> outer 1 r \<union> {1 + code_len r} \<and> sl ! 0 = int i \<or>
    p = 2 + code_len r \<and> sl ! 0 = int i \<and> sl ! 1 = int j)"
proof -
  have "case d of (p, sl, j) \<Rightarrow> length sl = MAX_GROUPS * 2 \<and> (p = 0 \<and> sl = replicate (MAX_GROUPS * 2) (- 1) \<and> j = i \<or>
    p \<in> outer 1 r \<union> {1 + code_len r} \<and> sl ! 0 = int i \<or>
    p = 2 + code_len r \<and> sl ! 0 = int i \<and> sl ! 1 = int j)" if "path la h tx (start_of 0 i) d" for d
  using that
proof (induction rule: rtranclp_induct)
  case base
  then show ?case by (simp add: start_of_def)
next
  case (step c d)
  obtain p sl j where d: "d = (p, sl, j)" by (cases d)
  note at = program_of_at [OF assms(1)]
  have w: "wf_rx (n_classes h) (n_groups h) r" "n_groups h < MAX_GROUPS" using assms(1) by (simp_all add: program_of_def)
  obtain q sl0 k where c: "c = (q, sl0, k)" by (cases c)
  have ih: "length sl0 = MAX_GROUPS * 2 \<and> (q = 0 \<and> sl0 = replicate (MAX_GROUPS * 2) (- 1) \<and> k = i \<or>
    q \<in> outer 1 r \<union> {1 + code_len r} \<and> sl0 ! 0 = int i \<or>
    q = 2 + code_len r \<and> sl0 ! 0 = int i \<and> sl0 ! 1 = int k)" using step.IH c by simp
  have st: "pstep la h tx (q, sl0, k) (p, sl, j)" using step.hyps(2) c d by simp
  have s: "p \<in> static_succ h q" "sl = save_slot h q k sl0"
    using st by (auto elim!: pstepE simp: save_slot_def consuming_def zero_width_ops_def intro: eps_static)
      (auto simp: static_succ_def split: ReOpCode.splits)
  have len: "length sl = MAX_GROUPS * 2" using s(2) ih by (simp add: save_slot_def)
  consider "q = 0" "k = i" | "q \<in> outer 1 r" "sl0 ! 0 = int i" | "q = 1 + code_len r" "sl0 ! 0 = int i" | "q = 2 + code_len r"
    using ih by blast
  then have "length sl = MAX_GROUPS * 2 \<and> (p = 0 \<and> sl = replicate (MAX_GROUPS * 2) (- 1) \<and> j = i \<or>
    p \<in> outer 1 r \<union> {1 + code_len r} \<and> sl ! 0 = int i \<or>
    p = 2 + code_len r \<and> sl ! 0 = int i \<and> sl ! 1 = int j)"
  proof cases
    case 1
    then have "p = 1" "sl ! 0 = int i" using s static_succ_mk(6) [OF at(2)] at(2) ih
      by (auto simp: save_slot_def mk_instr_def MAX_GROUPS_def)
    then show ?thesis using len outer_entry [of 1 r] by auto
  next
    case 2
    have "sl ! 0 = int i" using 2 s(2) outer_ops [OF w(1) at(1) 2(1)] by (auto simp: save_slot_def)
    moreover have "p \<in> outer 1 r \<union> {1 + code_len r}" using 2 s(1) outer_closed [OF w(1) at(1) 2(1)] by auto
    ultimately show ?thesis using len by blast
  next
    case 3
    have "p = 2 + code_len r" using s(1) static_succ_mk(6) [OF at(3)] 3(1) by simp
    moreover have "sl = sl0[1 := int k]" "j = k"
      using s(2) st 3(1) at(3) by (auto elim!: pstepE simp: save_slot_def mk_instr_def consuming_def zero_width_ops_def)
    ultimately show ?thesis using len 3(2) ih by (simp add: MAX_GROUPS_def)
  next
    case 4
    then show ?thesis using s(1) static_succ_mk(5) [OF at(4)] by simp
  qed
  then show ?case using d by simp
qed
  then show ?thesis using assms(2) by auto
qed

lemma program_match:
  assumes "program_of h r" "la_ok la h tx 1 r"
  shows "match_from la h tx (start_of 0 i) sl j \<Longrightarrow> rx_match h tx r i j \<and> sl ! 0 = int i \<and> sl ! 1 = int j"
    and "rx_match h tx r i j \<Longrightarrow> \<exists>sl. match_from la h tx (start_of 0 i) sl j"
proof -
  note at = program_of_at [OF assms(1)]
  have w: "wf_rx (n_classes h) (n_groups h) r" using assms(1) by (simp add: program_of_def)
  let ?s1 = "(replicate (MAX_GROUPS * 2) (- 1))[0 := int i]"
  have s0: "pstep la h tx (start_of 0 i) c \<longleftrightarrow> c = (1, ?s1, i)" for c
    using at(2,5) by (cases c) (auto simp: start_of_def pstep_simple [of h 0 OP_SAVE 0] simple_op_def position_tests_def)

  have s1: "pstep la h tx (1 + code_len r, sl, k) c \<longleftrightarrow> c = (2 + code_len r, sl[1 := int k], k)" for sl k c
    using at(3,5) by (subst pstep_simple [of h "1 + code_len r" OP_SAVE 1]) (auto simp: simple_op_def position_tests_def)
  have m: "at_match h (2 + code_len r)" using at(4,5) by (simp add: at_match_def mk_instr_def)
  show "rx_match h tx r i j \<and> sl ! 0 = int i \<and> sl ! 1 = int j" if "match_from la h tx (start_of 0 i) sl j"
  proof -
    obtain p where p: "path la h tx (start_of 0 i) (p, sl, j)" "at_match h p" using \<open>match_from _ _ _ _ _ _\<close> by (auto simp: match_from_def)
    have np: "p \<notin> outer 1 r" "p \<noteq> 0" "p \<noteq> 1 + code_len r" using outer_ops [OF w at(1)] p(2) at(2,3) by (auto simp: at_match_def mk_instr_def intro!: gr0I)
    have "path la h tx (1, ?s1, i) (p, sl, j)" using p(1)
      by (cases rule: converse_rtranclpE) (use np(2) s0 in \<open>auto simp: start_of_def\<close>)
    then obtain n where "(pstep la h tx ^^ n) (1, ?s1, i) (p, sl, j)" using rtranclp_imp_relpowp by metis
    then obtain q k sl1 where k: "rx_match h tx r i k" "(pstep la h tx ^^ q) (1 + code_len r, sl1, k) (p, sl, j)"
      using run_exit [OF w at(1) assms(2), of n ?s1 i "(p, sl, j)"] np(1) by auto
    have "path la h tx (1 + code_len r, sl1, k) (p, sl, j)" using k(2) by (rule relpowp_imp_rtranclp)
    then have "path la h tx (2 + code_len r, sl1[1 := int k], k) (p, sl, j)"
      by (cases rule: converse_rtranclpE) (use np(3) s1 in auto)
    then have "k = j" by (cases rule: converse_rtranclpE) (use at_match_no_step [OF m] in auto)
    then show ?thesis using run_slots [OF assms(1) p(1)] np k(1) by auto
  qed
  show "\<exists>sl. match_from la h tx (start_of 0 i) sl j" if "rx_match h tx r i j"
  proof -
    obtain sl' where "path la h tx (1, ?s1, i) (1 + code_len r, sl', j)" using match_path [OF w at(1) assms(2) \<open>rx_match h tx r i j\<close>] by blast
    moreover have "pstep la h tx (start_of 0 i) (1, ?s1, i)" by (simp only: s0)
    moreover have "pstep la h tx (1 + code_len r, sl', j) (2 + code_len r, sl'[1 := int j], j)" by (simp only: s1)
    ultimately have "path la h tx (start_of 0 i) (2 + code_len r, sl'[1 := int j], j)"
      by (meson converse_rtranclp_into_rtranclp rtranclp.rtrancl_into_rtrancl)
    with m show ?thesis by (auto simp: match_from_def)
  qed
qed


section \<open>The engine on a compiled program\<close>

lemma program_of_compile:
  assumes "regex_compile pat f = Some (Inr h)" "prog_len h < MAX_INSTRS - 1"
  shows "\<exists>r. program_of h r"
  by (rule regex_compile_code [OF assms]) (auto simp: program_of_def)

lemma program_len_depth: "program_of h r \<Longrightarrow> look_depth r \<le> prog_len h"
  using look_depth_len [of r] program_of_at(5) [of h r] by simp

lemma vm_exec_returns_program:
  assumes "program_of h r" "few_threads h" "ascii tx" "vis_inv (prog_len h) vis"
  shows "\<exists>ok ms' vis'. vm_exec h tx start ms vis = Some (ok, ms', vis') \<and> vis_inv (prog_len h) vis'"
proof -
  note at = program_of_at [OF assms(1)]
  have w: "wf_rx (n_classes h) (n_groups h) r" "n_groups h < MAX_GROUPS" using assms(1) by (simp_all add: program_of_def)
  note tx = program_text_ok [OF assms(1,3)]
  have some: "look_all (\<lambda>L s. \<forall>i. vm_lookahead h tx i L \<noteq> None) 1 r"
    unfolding vm_lookahead_def by (rule lookahead_returns [OF w(1) at(1) assms(2) w(2) tx program_len_depth [OF assms(1)]])
  show ?thesis unfolding vm_exec_def
    using vm_exec_range_ok [OF program_region [OF assms(1) some assms(2)] _ tx assms(4), of 0 start ms] by auto
qed

lemma vm_exec_matches_program:
  assumes "program_of h r" "few_threads h" "ascii tx" "vis_inv (prog_len h) vis" "looks_consume r"
  shows "\<exists>ok ms' vis'. vm_exec h tx start ms vis = Some (ok, ms', vis') \<and> vis_inv (prog_len h) vis' \<and>
    (ok \<longleftrightarrow> (\<exists>e. rx_match h tx r start e)) \<and>
    (if ok then ms' ! 0 = int start \<and> (\<exists>e. ms' ! 1 = int e \<and> rx_match h tx r start e) \<and> re_slot_count h \<le> length ms'
     else ms' = ms)"
proof -
  note at = program_of_at [OF assms(1)]
  have w: "wf_rx (n_classes h) (n_groups h) r" "n_groups h < MAX_GROUPS" using assms(1) by (simp_all add: program_of_def)
  note tx = program_text_ok [OF assms(1,3)]
  let ?la = "vm_lookahead h tx" and ?c0 = "start_of 0 start"
  have la: "la_ok ?la h tx 1 r" unfolding vm_lookahead_def
    by (rule lookahead_agrees [OF w(1) at(1) assms(2) w(2) tx program_len_depth [OF assms(1)] assms(5)])
  have some: "look_all (\<lambda>L s. \<forall>i. ?la i L \<noteq> None) 1 r" by (rule look_all_mono [OF la]) simp
  note m = program_match [OF assms(1) la]
  obtain ok ms' vis' where v: "vm_exec_range ?la h tx start 0 ms vis = Some (ok, ms', vis')" "vis_inv (prog_len h) vis'"
    "ok \<longrightarrow> match_slots ?la h tx ?c0 ms'"
    "\<not> ok \<longrightarrow> ms' = ms \<and> ((\<forall>sl. match_from ?la h tx ?c0 sl start \<longrightarrow> 0 \<le> sl ! 0 \<and> 0 \<le> sl ! 1) \<longrightarrow>
        (\<forall>sl j. \<not> match_from ?la h tx ?c0 sl j))"
    using vm_exec_range_ok [OF program_region [OF assms(1) some assms(2)] _ tx assms(4), of 0 start ms] by auto
  have seed: "\<forall>sl. match_from ?la h tx ?c0 sl start \<longrightarrow> 0 \<le> sl ! 0 \<and> 0 \<le> sl ! 1" using m(1) by fastforce
  have good: "ms' ! 0 = int start \<and> (\<exists>e. ms' ! 1 = int e \<and> rx_match h tx r start e) \<and> re_slot_count h \<le> length ms'" if ok
  proof -
    have l: "re_slot_count h \<le> length ms'" using v(3) \<open>ok\<close> by (auto simp: match_slots_def)
    obtain sl j where s: "match_from ?la h tx ?c0 sl j" "take (re_slot_count h) ms' = take (re_slot_count h) sl"
      using v(3) \<open>ok\<close> by (auto simp: match_slots_def)
    have "ms' ! k = sl ! k" if "k < 2" for k
      using s(2) slot_count_ge [of h] that by (metis nth_take order_less_le_trans)
    then have "ms' ! 0 = sl ! 0" "ms' ! 1 = sl ! 1" by simp_all
    with m(1) [OF s(1)] l show ?thesis by auto
  qed
  have bad: "\<not> rx_match h tx r start e" if "\<not> ok" for e using v(4) \<open>\<not> ok\<close> seed m(2) by blast
  show ?thesis unfolding vm_exec_def using v(1,2,4) good bad by auto
qed

text \<open>A pattern with a group, alternatives, a class, a counted repetition and a lookahead.\<close>

definition look_pattern :: string where
  "look_pattern = ''(a|[b-d]){2}x(?=y)''"

definition look_rx :: rx where
  "look_rx =
     (let g = Seq (Ins OP_SAVE 2) (Seq (Alt (Ins OP_CHAR 97) (Ins OP_CLASS 0)) (Ins OP_SAVE 3))
      in Seq (Seq g g) (Seq (Ins OP_CHAR 120) (Look 0 (Ins OP_CHAR 121))))"

lemma look_compiles: "\<exists>h. regex_compile look_pattern 0 = Some (Inr h) \<and> prog_len h < MAX_INSTRS - 1 \<and> few_threads h \<and>
    prog h = mk_instr OP_SAVE 0 0 # codegen 1 look_rx @ [mk_instr OP_SAVE 1 0, mk_instr OP_MATCH 0 0] \<and>
    wf_rx (n_classes h) (n_groups h) look_rx"
proof -
  have "(case regex_compile look_pattern 0 of Some (Inr h) \<Rightarrow> prog_len h < MAX_INSTRS - 1 \<and> few_threads h \<and>
      prog h = mk_instr OP_SAVE 0 0 # codegen 1 look_rx @ [mk_instr OP_SAVE 1 0, mk_instr OP_MATCH 0 0] \<and>
      wf_rx (n_classes h) (n_groups h) look_rx | _ \<Rightarrow> False)"
    by code_simp
  then show ?thesis by (auto split: option.splits sum.splits)
qed

section \<open>Properties\<close>





end
