(* ===== verification/Regex_Exec.thy ===== *)
theory Regex_Exec
  imports Regex_Pike Builtins
begin

text \<open>
  Running a compiled regex (\<open>src/runtime/ls_regex.c\<close>): the one-pass executor, the lazy automaton
  with its transition cache, the selection of candidate start positions that the three engines
  share, the dispatch, and the interface that reads captures back.  A start position is never
  negative.  A text is its bytes; where the code compares texts it compares the address and the
  length, so the exec functions take the address as well.
\<close>

unbundle bit_operations_syntax

section \<open>The one-pass executor\<close>

text \<open>The branch a SPLIT takes on the byte at hand (none at the end of the text).\<close>

definition split_choose :: "ReSplitInfo \<Rightarrow> ReInstr \<Rightarrow> char option \<Rightarrow> nat option" where
  "split_choose info ins peek =
     (let in_a = (case peek of None \<Rightarrow> False | Some ch \<Rightarrow> re_byteset_test (fs_bytes (split_a info)) (ccode ch));
          in_b = (case peek of None \<Rightarrow> False | Some ch \<Rightarrow> re_byteset_test (fs_bytes (split_b info)) (ccode ch))
      in if in_a then Some (operand_a ins)
         else if in_b then Some (operand_b ins)
         else if can_match_empty (split_a info) then Some (operand_a ins)
         else if can_match_empty (split_b info) then Some (operand_b ins)
         else None)"

definition peek_at :: "string \<Rightarrow> nat \<Rightarrow> char option" where
  "peek_at txt i = (if i < length txt then Some (txt ! i) else None)"

text \<open>\<open>ms\<close> is \<open>match_saved\<close>; a loop that consumes nothing and never ends has no result.\<close>

partial_function (option) onepass_run ::
    "ReHandle \<Rightarrow> string \<Rightarrow> nat \<Rightarrow> nat \<Rightarrow> int list \<Rightarrow> (bool \<times> int list) option" where
  "onepass_run h txt k i ms =
     (if \<not> k < prog_len h then None
      else
        (let ins = prog h ! k
         in if opcode ins = OP_SAVE then
              (if operand_a ins < length ms
               then onepass_run h txt (k + 1) i (ms[operand_a ins := int i]) else None)
            else if opcode ins = OP_JUMP then onepass_run h txt (operand_a ins) i ms
            else if opcode ins = OP_SPLIT then
              (if \<not> k < length (onepass_splits h) then None
               else case split_choose (onepass_splits h ! k) ins (peek_at txt i) of
                 None \<Rightarrow> Some (False, ms)
               | Some k' \<Rightarrow> onepass_run h txt k' i ms)
            else if opcode ins \<in> {OP_ANCHOR_BOL, OP_ANCHOR_EOL, OP_ANCHOR_BOS, OP_ANCHOR_EOS} then
              (if anchor_ok h (opcode ins) txt i then onepass_run h txt (k + 1) i ms else Some (False, ms))
            else if opcode ins = OP_MATCH then Some (True, ms)
            else if opcode ins \<in> {OP_WORDBND, OP_NWORDBND, OP_LOOKAHEAD} then Some (False, ms)
            else if i \<ge> length txt then Some (False, ms)
            else do {
              m \<leftarrow> match_char h ins (txt ! i);
              if m then onepass_run h txt (k + 1) (i + 1) ms else Some (False, ms) }))"

declare onepass_run.simps [code]

definition vm_exec_onepass :: "ReHandle \<Rightarrow> string \<Rightarrow> nat \<Rightarrow> (bool \<times> int list) option" where
  "vm_exec_onepass h txt start = onepass_run h txt 0 start (replicate (MAX_GROUPS * 2) (- 1))"

section \<open>The lazy automaton\<close>

text \<open>\<open>peek\<close> is the byte about to be read, none at the end of the text.\<close>

partial_function (option) re_dfa_resolve :: "ReHandle \<Rightarrow> nat \<Rightarrow> char option \<Rightarrow> int option" where
  "re_dfa_resolve h k peek =
     (if \<not> k < prog_len h then None
      else
        (let ins = prog h ! k
         in if opcode ins = OP_SAVE then re_dfa_resolve h (k + 1) peek
            else if opcode ins = OP_JUMP then re_dfa_resolve h (operand_a ins) peek
            else if opcode ins = OP_SPLIT then
              (if \<not> k < length (onepass_splits h) then None
               else case split_choose (onepass_splits h ! k) ins peek of
                 None \<Rightarrow> Some RE_DFA_DEAD
               | Some k' \<Rightarrow> re_dfa_resolve h k' peek)
            else if opcode ins = OP_ANCHOR_EOL \<or> opcode ins = OP_ANCHOR_EOS then
              (if peek = None then re_dfa_resolve h (k + 1) peek else Some RE_DFA_DEAD)
            else if opcode ins = OP_ANCHOR_BOL \<or> opcode ins = OP_ANCHOR_BOS then
              re_dfa_resolve h (k + 1) peek
            else if opcode ins = OP_MATCH then Some RE_DFA_ACCEPT
            else if opcode ins \<in> {OP_WORDBND, OP_NWORDBND, OP_LOOKAHEAD} then Some RE_DFA_DEAD
            else Some (int k)))"

declare re_dfa_resolve.simps [code]

text \<open>The byte test of the automaton: the same switch as the other engines.\<close>

definition re_dfa_instr_matches :: "ReHandle \<Rightarrow> nat \<Rightarrow> char \<Rightarrow> bool option" where
  "re_dfa_instr_matches h k ch = match_char h (prog h ! k) ch"

text \<open>The transition computed when a cell is not filled yet.\<close>

definition dfa_result :: "ReHandle \<Rightarrow> nat \<Rightarrow> char \<Rightarrow> int option" where
  "dfa_result h state ch = do {
     cpc \<leftarrow> re_dfa_resolve h state (Some ch);
     if cpc = RE_DFA_DEAD then Some RE_DFA_DEAD
     else if cpc = RE_DFA_ACCEPT then Some RE_DFA_ACCEPT
     else do {
       m \<leftarrow> re_dfa_instr_matches h (nat cpc) ch;
       Some (if m then cpc + 1 else RE_DFA_DEAD) } }"

definition re_dfa_step :: "ReHandle \<Rightarrow> nat \<Rightarrow> string \<Rightarrow> nat \<Rightarrow> (int \<times> ReHandle) option" where
  "re_dfa_step h state txt i =
     (if i \<ge> length txt then do {
        r \<leftarrow> re_dfa_resolve h state None;
        Some (if r = RE_DFA_ACCEPT then RE_DFA_ACCEPT else RE_DFA_DEAD, h) }
      else
        (let cell = state * 256 + ccode (txt ! i)
         in if \<not> cell < length (dfa_trans h) then None
            else if dfa_trans h ! cell \<noteq> RE_DFA_UNFILLED then Some (dfa_trans h ! cell, h)
            else do {
              r \<leftarrow> dfa_result h state (txt ! i);
              Some (r, h\<lparr>dfa_trans := (dfa_trans h)[cell := r]\<rparr>) }))"

text \<open>The walk: the end of group 0 if it accepts, and the handle with its cache.\<close>

partial_function (option) dfa_walk :: "ReHandle \<Rightarrow> string \<Rightarrow> nat \<Rightarrow> nat \<Rightarrow> (nat option \<times> ReHandle) option" where
  "dfa_walk h txt state i = do {
     (r, h) \<leftarrow> re_dfa_step h state txt i;
     if r = RE_DFA_DEAD then Some (None, h)
     else if r = RE_DFA_ACCEPT then Some (Some i, h)
     else dfa_walk h txt (nat r) (i + 1) }"

declare dfa_walk.simps [code]

definition vm_exec_dfa :: "ReHandle \<Rightarrow> string \<Rightarrow> nat \<Rightarrow> ((nat \<times> nat) option \<times> ReHandle) option" where
  "vm_exec_dfa h txt start = do {
     (r, h) \<leftarrow> dfa_walk h txt 0 start;
     Some (map_option (\<lambda>e. (start, e)) r, h) }"

section \<open>Candidate start positions\<close>

text \<open>
  The three engines select start positions with the same code.  An engine tries one position:
  it returns the capture slots if it matches there, and its own state (the visited set of the
  Pike VM, the handle with its cache for the automaton).
\<close>

type_synonym 'e engine = "nat \<Rightarrow> 'e \<Rightarrow> (int list option \<times> 'e) option"

text \<open>The loop \<open>while (s < text_len && text[s - 1] != newline) s++\<close>, entered with \<open>s > 0\<close>.\<close>

definition next_line_start :: "string \<Rightarrow> nat \<Rightarrow> nat" where
  "next_line_start txt s =
     s + length (takeWhile (\<lambda>k. ccode (txt ! (k - 1)) \<noteq> 10) [s..<length txt])"

partial_function (option) line_search ::
    "'e engine \<Rightarrow> string \<Rightarrow> nat \<Rightarrow> 'e \<Rightarrow> (int list option \<times> 'e) option" where
  "line_search eng txt s st =
     (if \<not> s \<le> length txt then Some (None, st)
      else do {
        (r, st) \<leftarrow> eng s st;
        if r \<noteq> None then Some (r, st)
        else if s \<ge> length txt then Some (None, st)
        else line_search eng txt (next_line_start txt (s + 1)) st })"

declare line_search.simps [code]

text \<open>Tiers 2 and 3: the next position worth trying, none when no match can follow.\<close>

definition first_byte_scan :: "ReHandle \<Rightarrow> string \<Rightarrow> nat \<Rightarrow> nat" where
  "first_byte_scan h txt s =
     s + length (takeWhile (\<lambda>ch. \<not> (ccode ch < 128 \<and> class_test (first_bytes h) (ccode ch) = Some True))
                   (drop s txt))"

definition next_candidate :: "ReHandle \<Rightarrow> string \<Rightarrow> nat \<Rightarrow> nat option option" where
  "next_candidate h txt s =
     (if lit h \<noteq> [] then do {
        at \<leftarrow> str_find txt (map char_of (lit h)) (int s);
        Some (if at < 0 then None else Some (nat at)) }
      else if has_first_bytes h then Some (Some (first_byte_scan h txt s))
      else Some (Some s))"

partial_function (option) scan_search ::
    "'e engine \<Rightarrow> ReHandle \<Rightarrow> string \<Rightarrow> nat \<Rightarrow> 'e \<Rightarrow> (int list option \<times> 'e) option" where
  "scan_search eng h txt s st =
     (if \<not> s \<le> length txt then Some (None, st)
      else do {
        c \<leftarrow> next_candidate h txt s;
        (case c of
           None \<Rightarrow> Some (None, st)
         | Some s \<Rightarrow> do {
             (r, st) \<leftarrow> eng s st;
             if r \<noteq> None then Some (r, st) else scan_search eng h txt (s + 1) st }) })"

declare scan_search.simps [code]

definition exec_search ::
    "'e engine \<Rightarrow> ReHandle \<Rightarrow> string \<Rightarrow> nat \<Rightarrow> 'e \<Rightarrow> (int list option \<times> 'e) option" where
  "exec_search eng h txt start st =
     (if anchor_mode h = 1 then (if start > 0 then Some (None, st) else eng 0 st)
      else if anchor_mode h = 2 then
        line_search eng txt (if start \<noteq> 0 then next_line_start txt start else start) st
      else scan_search eng h txt start st)"

section \<open>The engines behind the search\<close>

definition no_captures :: "int list" where
  "no_captures = replicate (MAX_GROUPS * 2) (- 1)"

text \<open>The end of an exec: the slots in use are committed, or all are cleared.\<close>

definition commit :: "int list option \<Rightarrow> ReHandle \<Rightarrow> int \<times> ReHandle" where
  "commit r h =
     (case r of
        Some ms \<Rightarrow> (int (n_groups h) + 1, h\<lparr>saved := copy_slots h ms (saved h)\<rparr>)
      | None \<Rightarrow> (0, h\<lparr>saved := no_captures\<rparr>))"

definition onepass_engine :: "ReHandle \<Rightarrow> string \<Rightarrow> unit engine" where
  "onepass_engine h txt s st = do {
     (ok, ms) \<leftarrow> vm_exec_onepass h txt s;
     Some (if ok then Some ms else None, st) }"

definition re_exec_vm_onepass :: "ReHandle \<Rightarrow> string \<Rightarrow> nat \<Rightarrow> (int \<times> ReHandle) option" where
  "re_exec_vm_onepass h txt start = do {
     (r, u) \<leftarrow> exec_search (onepass_engine h txt) h txt start ();
     Some (commit r h) }"

definition general_engine :: "ReHandle \<Rightarrow> string \<Rightarrow> Visited engine" where
  "general_engine h txt s vis = do {
     (ok, ms, vis) \<leftarrow> vm_exec h txt s no_captures vis;
     Some (if ok then Some ms else None, vis) }"

definition re_exec_vm_general :: "ReHandle \<Rightarrow> string \<Rightarrow> nat \<Rightarrow> (int \<times> ReHandle) option" where
  "re_exec_vm_general h txt start = do {
     (r, vis) \<leftarrow> exec_search (general_engine h txt) h txt start (visited_init (prog_len h));
     Some (commit r h) }"

definition dfa_engine :: "string \<Rightarrow> ReHandle engine" where
  "dfa_engine txt s h = do {
     (r, h) \<leftarrow> vm_exec_dfa h txt s;
     Some (map_option (\<lambda>(s0, e0). [int s0, int e0] @ replicate (MAX_GROUPS * 2 - 2) (- 1)) r, h) }"

text \<open>All the slots are written here, not only those in use.\<close>

definition re_exec_vm_dfa :: "ReHandle \<Rightarrow> string \<Rightarrow> nat \<Rightarrow> (int \<times> ReHandle) option" where
  "re_exec_vm_dfa h txt start = do {
     (r, h) \<leftarrow> exec_search (dfa_engine txt) h txt start h;
     Some (case r of
             Some ms \<Rightarrow> (int (n_groups h) + 1, h\<lparr>saved := ms\<rparr>)
           | None \<Rightarrow> (0, h\<lparr>saved := no_captures\<rparr>)) }"

section \<open>The interface\<close>

definition re_dfa_fill_captures :: "ReHandle \<Rightarrow> ReHandle option" where
  "re_dfa_fill_captures h =
     (if \<not> dfa_only_valid h then Some h
      else do {
        let h = h\<lparr>dfa_only_valid := False\<rparr>;
        (n, h) \<leftarrow> re_exec_vm_onepass h (dfa_only_text h) (dfa_only_start h);
        Some h })"

definition regex_exec :: "ReHandle \<Rightarrow> nat \<Rightarrow> string \<Rightarrow> nat \<Rightarrow> (int \<times> ReHandle) option" where
  "regex_exec h addr txt start =
     (let h = h\<lparr>last_text := Some (addr, length txt), dfa_only_valid := False\<rparr>
      in if lit_is_whole h \<and> \<not> IGNORECASE h then do {
           at \<leftarrow> str_find txt (map char_of (lit h)) (int start);
           Some (if at < 0 then (0, h\<lparr>saved := no_captures\<rparr>)
                 else (int (n_groups h) + 1,
                       h\<lparr>saved := no_captures[0 := at, 1 := at + int (length (lit h))]\<rparr>)) }
         else if onepass h then re_exec_vm_onepass h txt start
         else re_exec_vm_general h txt start)"

definition regex_exec_dfa :: "ReHandle \<Rightarrow> nat \<Rightarrow> string \<Rightarrow> nat \<Rightarrow> (int \<times> ReHandle) option" where
  "regex_exec_dfa h addr txt start =
     (let h = h\<lparr>last_text := Some (addr, length txt)\<rparr>
      in if lit_is_whole h \<and> \<not> IGNORECASE h then regex_exec h addr txt start
         else if \<not> dfa_eligible h then regex_exec (h\<lparr>dfa_only_valid := False\<rparr>) addr txt start
         else do {
           (n, h) \<leftarrow> re_exec_vm_dfa h txt start;
           Some (n, if n > 0
                    then h\<lparr>dfa_only_valid := True, dfa_only_text := txt, dfa_only_start := start\<rparr>
                    else h\<lparr>dfa_only_valid := False\<rparr>) })"

definition regex_text_is :: "ReHandle \<Rightarrow> nat \<Rightarrow> nat \<Rightarrow> bool" where
  "regex_text_is h addr n = (last_text h = Some (addr, n))"

definition regex_cap_start :: "ReHandle \<Rightarrow> int \<Rightarrow> (int \<times> ReHandle) option" where
  "regex_cap_start h grp =
     (if grp < 0 \<or> grp \<ge> int MAX_GROUPS then Some (- 1, h)
      else do {
        h \<leftarrow> (if grp > 0 then re_dfa_fill_captures h else Some h);
        Some (saved h ! (nat grp * 2), h) })"

definition regex_cap_len :: "ReHandle \<Rightarrow> int \<Rightarrow> (int \<times> ReHandle) option" where
  "regex_cap_len h grp =
     (if grp < 0 \<or> grp \<ge> int MAX_GROUPS then Some (- 1, h)
      else do {
        h \<leftarrow> (if grp > 0 then re_dfa_fill_captures h else Some h);
        let s = saved h ! (nat grp * 2);
        let e = saved h ! (nat grp * 2 + 1);
        Some (if s < 0 \<or> e < 0 then - 1 else e - s, h) })"

definition regex_named_name :: "ReHandle \<Rightarrow> int \<Rightarrow> string" where
  "regex_named_name h i = (if i < 0 \<or> i \<ge> int (length (named h)) then [] else fst (named h ! nat i))"

definition regex_named_index :: "ReHandle \<Rightarrow> int \<Rightarrow> int" where
  "regex_named_index h i =
     (if i < 0 \<or> i \<ge> int (length (named h)) then - 1 else int (snd (named h ! nat i)))"

end
