(* ===== verification/Regex_Search.thy ===== *)
theory Regex_Search
  imports Regex_Correct Regex_Exec
begin

text \<open>
  The selection of start positions the engines share: for every engine that decides whether a
  match starts at a position, and filters no match can slip through, the search returns the least
  start position of a match.  Interpreted on the Pike VM, whose filters are shown to be sound.
\<close>

section \<open>The search over an engine\<close>

text \<open>What a search from \<open>start\<close> must return: \<open>M s\<close> says that a match starts at \<open>s\<close>.\<close>

definition leftmost :: "string \<Rightarrow> (nat \<Rightarrow> bool) \<Rightarrow> (nat \<Rightarrow> int list \<Rightarrow> bool) \<Rightarrow> nat \<Rightarrow> int list option \<Rightarrow> bool" where
  "leftmost tx M res_ok start r \<longleftrightarrow>
     (case r of
        None \<Rightarrow> (\<forall>s. start \<le> s \<longrightarrow> s \<le> length tx \<longrightarrow> \<not> M s)
      | Some ms \<Rightarrow> (\<exists>s. start \<le> s \<and> s \<le> length tx \<and> M s \<and> res_ok s ms \<and> (\<forall>k. start \<le> k \<longrightarrow> k < s \<longrightarrow> \<not> M k)))"

text \<open>The filters let every match through.\<close>

definition filters_sound :: "ReHandle \<Rightarrow> string \<Rightarrow> (nat \<Rightarrow> bool) \<Rightarrow> bool" where
  "filters_sound h tx M \<longleftrightarrow>
     (\<forall>s. M s \<longrightarrow> s \<le> length tx \<longrightarrow>
       (anchor_mode h = 1 \<longrightarrow> s = 0) \<and>
       (anchor_mode h = 2 \<longrightarrow> s = 0 \<or> ccode (tx ! (s - 1)) = 10) \<and>
       (lit h \<noteq> [] \<longrightarrow> occurs_at tx (map char_of (lit h)) s) \<and>
       (has_first_bytes h \<longrightarrow> s < length tx \<and> ccode (tx ! s) < 128 \<and> class_test (first_bytes h) (ccode (tx ! s)) = Some True))"

locale search_engine =
  fixes eng :: "'e engine" and tx :: string and M :: "nat \<Rightarrow> bool" and res_ok :: "nat \<Rightarrow> int list \<Rightarrow> bool"
    and inv :: "'e \<Rightarrow> bool"
  assumes decides: "inv st \<Longrightarrow> s \<le> length tx \<Longrightarrow> \<exists>r st'. eng s st = Some (r, st') \<and> inv st' \<and>
      (case r of None \<Rightarrow> \<not> M s | Some ms \<Rightarrow> M s \<and> res_ok s ms)"
begin

lemma hit: "start \<le> s \<Longrightarrow> s \<le> length tx \<Longrightarrow> (\<And>k. start \<le> k \<Longrightarrow> k < s \<Longrightarrow> \<not> M k) \<Longrightarrow> M s \<Longrightarrow> res_ok s ms \<Longrightarrow>
    leftmost tx M res_ok start (Some ms)"
  by (auto simp: leftmost_def)

lemma skip_to: "leftmost tx M res_ok s r \<Longrightarrow> (\<And>k. start \<le> k \<Longrightarrow> k < s \<Longrightarrow> \<not> M k) \<Longrightarrow> start \<le> s \<Longrightarrow> leftmost tx M res_ok start r"
  by (auto simp: leftmost_def split: option.splits) (metis linorder_not_less, meson le_trans linorder_not_less)

lemma next_line:
  assumes "s \<le> length tx" "0 < s"
  shows "s \<le> next_line_start tx s" "next_line_start tx s \<le> length tx"
    "s \<le> k \<Longrightarrow> k < next_line_start tx s \<Longrightarrow> ccode (tx ! (k - 1)) \<noteq> 10"
proof -
  let ?P = "\<lambda>k. ccode (tx ! (k - 1)) \<noteq> 10" and ?w = "takeWhile (\<lambda>k. ccode (tx ! (k - 1)) \<noteq> 10) [s..<length tx]"
  have len: "length ?w \<le> length tx - s" using length_takeWhile_le [of ?P "[s..<length tx]"] by simp
  then show "s \<le> next_line_start tx s" "next_line_start tx s \<le> length tx" using assms by (auto simp: next_line_start_def)
  assume k: "s \<le> k" "k < next_line_start tx s"
  then have "k - s < length ?w" by (auto simp: next_line_start_def)
  from set_takeWhileD [OF nth_mem [OF this]] have "?P (?w ! (k - s))" ..
  moreover have "?w ! (k - s) = k" using \<open>k - s < length ?w\<close> len k(1) by (simp add: takeWhile_nth)
  ultimately show "?P k" by simp
qed

lemma line_search_least:
  assumes "filters_sound h tx M" "anchor_mode h = 2"
  shows "inv st \<Longrightarrow> s \<le> length tx \<Longrightarrow> \<exists>r st'. line_search eng tx s st = Some (r, st') \<and> inv st' \<and> leftmost tx M res_ok s r"
proof (induction "length tx - s" arbitrary: s st rule: less_induct)
  case less
  obtain r st' where e: "eng s st = Some (r, st')" "inv st'" "case r of None \<Rightarrow> \<not> M s | Some ms \<Rightarrow> M s \<and> res_ok s ms"
    using decides [OF less.prems] by blast
  show ?case
  proof (cases r)
    case (Some ms)
    then have "leftmost tx M res_ok s r" using e(3) less.prems(2) hit [of s s ms] by simp
    then show ?thesis using e Some less.prems(2) by (subst line_search.simps) simp
  next
    case None
    show ?thesis
    proof (cases "length tx \<le> s")
      case True
      then have "leftmost tx M res_ok s None" using None e(3) less.prems(2) by (auto simp: leftmost_def dest: le_antisym)
      then show ?thesis using e None True less.prems(2) by (subst line_search.simps) simp
    next
      case False
      let ?n = "next_line_start tx (s + 1)"
      note n = next_line [of "s + 1"]
      have lt: "length tx - ?n < length tx - s" using n(1) False by simp
      obtain r2 st2 where r2: "line_search eng tx ?n st' = Some (r2, st2)" "inv st2" "leftmost tx M res_ok ?n r2"
        using less.hyps [OF lt e(2)] n(2) False by auto
      have skip: "\<not> M k" if "s \<le> k" "k < ?n" for k
      proof (cases "k = s")
        case True
        then show ?thesis using None e(3) by simp
      next
        case neq: False
        then have "ccode (tx ! (k - 1)) \<noteq> 10" "k \<le> length tx" using n(2) n(3) [of k] that False by auto
        then show ?thesis using assms neq that by (force simp: filters_sound_def)
      qed
      have "leftmost tx M res_ok s r2" using skip_to [OF r2(3) skip] n(1) False by simp
      then show ?thesis using e None False less.prems(2) r2 by (subst line_search.simps) simp
    qed
  qed
qed

lemma first_byte_scan_least:
  assumes "s \<le> length tx"
  shows "s \<le> first_byte_scan h tx s" "first_byte_scan h tx s \<le> length tx"
    "s \<le> k \<Longrightarrow> k < first_byte_scan h tx s \<Longrightarrow> \<not> (ccode (tx ! k) < 128 \<and> class_test (first_bytes h) (ccode (tx ! k)) = Some True)"
proof -
  let ?P = "\<lambda>ch. \<not> (ccode ch < 128 \<and> class_test (first_bytes h) (ccode ch) = Some True)"
  let ?w = "takeWhile ?P (drop s tx)"
  have len: "length ?w \<le> length tx - s" using length_takeWhile_le [of ?P "drop s tx"] by simp
  then show "s \<le> first_byte_scan h tx s" "first_byte_scan h tx s \<le> length tx" using assms by (auto simp: first_byte_scan_def)
  assume k: "s \<le> k" "k < first_byte_scan h tx s"
  then have l: "k - s < length ?w" by (auto simp: first_byte_scan_def)
  from set_takeWhileD [OF nth_mem [OF l]] have "?P (?w ! (k - s))" ..
  moreover have "?w ! (k - s) = tx ! k" using l k(1) assms by (simp add: takeWhile_nth)
  ultimately show "?P (tx ! k)" by simp
qed

lemma next_candidate_least:
  assumes "filters_sound h tx M" "s \<le> length tx" "length tx < 2 ^ 31"
  shows "\<exists>c. next_candidate h tx s = Some c \<and>
    (case c of None \<Rightarrow> (\<forall>k. s \<le> k \<longrightarrow> k \<le> length tx \<longrightarrow> \<not> M k)
     | Some t \<Rightarrow> s \<le> t \<and> t \<le> length tx \<and> (\<forall>k. s \<le> k \<longrightarrow> k < t \<longrightarrow> \<not> M k))"
proof -
  consider "lit h \<noteq> []" | "lit h = []" "has_first_bytes h" | "lit h = []" "\<not> has_first_bytes h" by blast
  then show ?thesis
  proof cases
    case 1
    let ?n = "map char_of (lit h)"
    obtain r where r: "str_find tx ?n (int s) = Some r" "is_first tx ?n s r"
      using str_find_first [OF assms(3), of ?n "int s"] assms(2) by auto
    have f: "\<not> M k" if "\<not> occurs_at tx ?n k" "k \<le> length tx" for k
      using assms(1) 1 that by (auto simp: filters_sound_def)
    from r(2) consider "r = - 1" "\<forall>k \<ge> s. \<not> occurs_at tx ?n k"
      | t where "s \<le> t" "r = int t" "occurs_at tx ?n t" "\<forall>k. s \<le> k \<and> k < t \<longrightarrow> \<not> occurs_at tx ?n k"
      unfolding is_first_def by blast
    then show ?thesis
    proof cases
      case 1
      then show ?thesis using \<open>lit h \<noteq> []\<close> r(1) f by (simp add: next_candidate_def)
    next
      case (2 t)
      have "t \<le> length tx" using 2(3) by (rule occurs_at_bound)
      then show ?thesis using \<open>lit h \<noteq> []\<close> r(1) f 2(1,2,4) by (simp add: next_candidate_def)
    qed
  next
    case 2
    then show ?thesis using first_byte_scan_least [where h = h, OF assms(2)] assms(1)
      by (fastforce simp: next_candidate_def filters_sound_def)
  next
    case 3
    then show ?thesis using assms(2) by (simp add: next_candidate_def)
  qed
qed

lemma scan_search_least:
  assumes "filters_sound h tx M" "length tx < 2 ^ 31"
  shows "inv st \<Longrightarrow> \<exists>r st'. scan_search eng h tx s st = Some (r, st') \<and> inv st' \<and> leftmost tx M res_ok s r"
proof (induction "length tx + 1 - s" arbitrary: s st rule: less_induct)
  case less
  show ?case
  proof (cases "s \<le> length tx")
    case False
    then show ?thesis using less.prems by (subst scan_search.simps) (simp add: leftmost_def)
  next
    case True
    obtain c where c: "next_candidate h tx s = Some c"
      "case c of None \<Rightarrow> (\<forall>k. s \<le> k \<longrightarrow> k \<le> length tx \<longrightarrow> \<not> M k)
       | Some t \<Rightarrow> s \<le> t \<and> t \<le> length tx \<and> (\<forall>k. s \<le> k \<longrightarrow> k < t \<longrightarrow> \<not> M k)"
      using next_candidate_least [OF assms(1) True assms(2)] by blast
    show ?thesis
    proof (cases c)
      case None
      then show ?thesis using c True less.prems by (subst scan_search.simps) (simp add: leftmost_def)
    next
      case (Some t)
      then have t: "s \<le> t" "t \<le> length tx" "\<And>k. s \<le> k \<Longrightarrow> k < t \<Longrightarrow> \<not> M k" using c(2) by auto
      obtain r st' where e: "eng t st = Some (r, st')" "inv st'" "case r of None \<Rightarrow> \<not> M t | Some ms \<Rightarrow> M t \<and> res_ok t ms"
        using decides [OF less.prems t(2)] by blast
      show ?thesis
      proof (cases r)
        case r: (Some ms)
        then have "leftmost tx M res_ok s r" using e(3) t hit [of s t ms] by simp
        then show ?thesis using e r Some c(1) True by (subst scan_search.simps) simp
      next
        case r: None
        have lt: "length tx + 1 - (t + 1) < length tx + 1 - s" using t(1,2) by simp
        obtain r2 st2 where r2: "scan_search eng h tx (t + 1) st' = Some (r2, st2)" "inv st2" "leftmost tx M res_ok (t + 1) r2"
          using less.hyps [OF lt e(2)] by blast
        have "\<not> M k" if "s \<le> k" "k < t + 1" for k
          using that t(3) [of k] r e(3) by (cases "k = t") auto
        then have "leftmost tx M res_ok s r2" using skip_to [OF r2(3)] t(1) by simp
        then show ?thesis using e r Some c(1) True r2 by (subst scan_search.simps) simp
      qed
    qed
  qed
qed

theorem exec_search_leftmost:
  assumes "filters_sound h tx M" "length tx < 2 ^ 31" "inv st" "start \<le> length tx"
  shows "\<exists>r st'. exec_search eng h tx start st = Some (r, st') \<and> inv st' \<and> leftmost tx M res_ok start r"
proof -
  consider "anchor_mode h = 1" | "anchor_mode h = 2" | "anchor_mode h \<noteq> 1" "anchor_mode h \<noteq> 2" by blast
  then show ?thesis
  proof cases
    case 1
    have only0: "\<not> M k" if "0 < k" "k \<le> length tx" for k using assms(1) 1 that by (auto simp: filters_sound_def)
    show ?thesis
    proof (cases "start > 0")
      case True
      then show ?thesis using 1 assms(3) only0 by (simp add: exec_search_def leftmost_def)
    next
      case False
      obtain r st' where "eng 0 st = Some (r, st')" "inv st'" "case r of None \<Rightarrow> \<not> M 0 | Some ms \<Rightarrow> M 0 \<and> res_ok 0 ms"
        using decides [OF assms(3), of 0] by auto
      moreover from this have "leftmost tx M res_ok 0 r" using only0 unfolding leftmost_def
        by (cases r) (auto, metis neq0_conv)
      ultimately show ?thesis using 1 False by (simp add: exec_search_def)
    qed
  next
    case 2
    let ?s = "if start \<noteq> 0 then next_line_start tx start else start"
    have s: "start \<le> ?s" "?s \<le> length tx" using next_line [of start] assms(4) by auto
    obtain r st' where r: "line_search eng tx ?s st = Some (r, st')" "inv st'" "leftmost tx M res_ok ?s r"
      using line_search_least [OF assms(1) 2 assms(3) s(2)] by blast
    have "\<not> M k" if k: "start \<le> k" "k < ?s" for k
    proof -
      have "start \<noteq> 0" using k by (auto split: if_splits)
      then have "k \<noteq> 0" "k \<le> length tx" "ccode (tx ! (k - 1)) \<noteq> 10"
        using k s(2) next_line(3) [of start k] assms(4) by auto
      then show ?thesis using assms(1) 2 by (auto simp: filters_sound_def)
    qed
    then have "leftmost tx M res_ok start r" using skip_to [OF r(3) _ s(1)] by blast
    then show ?thesis using r 2 by (simp add: exec_search_def)
  next
    case 3
    then show ?thesis using scan_search_least [OF assms(1,2,3)] by (simp add: exec_search_def)
  qed
qed

end

section \<open>The filters of a compiled program\<close>

text \<open>What the compiler derives from the program for the search.\<close>

definition filters_of :: "ReHandle \<Rightarrow> bool" where
  "filters_of h \<longleftrightarrow>
     lit h = (if IGNORECASE h then [] else literal_run (tl (prog h))) \<and>
     (lit_is_whole h \<longrightarrow> lit h \<noteq> [] \<and> (let p = 1 + length (lit h) in p + 1 < prog_len h \<and>
        opcode (prog h ! p) = OP_SAVE \<and> operand_a (prog h ! p) = 1 \<and> opcode (prog h ! (p + 1)) = OP_MATCH)) \<and>
     (has_first_bytes h \<longrightarrow> \<not> IGNORECASE h \<and> opcode (prog h ! 1) = OP_CLASS \<and> operand_a (prog h ! 1) < n_classes h \<and>
        first_bytes h = classes h ! operand_a (prog h ! 1)) \<and>
     (anchor_mode h = 1 \<longrightarrow> opcode (prog h ! 1) = OP_ANCHOR_BOS \<or> opcode (prog h ! 1) = OP_ANCHOR_BOL \<and> \<not> MULTILINE h) \<and>
     (anchor_mode h = 2 \<longrightarrow> opcode (prog h ! 1) = OP_ANCHOR_BOL)"

lemma prefilter_flags: "flags (re_build_prefilter h) = flags h" "flags (re_detect_anchor h) = flags h"
  "flags (zero_handle c) = flags c"
  by (simp_all add: re_build_prefilter_def re_detect_anchor_def zero_handle_def ReCode.defs Let_def)

lemma detect_anchor_filters:
  "lit (re_detect_anchor h) = lit h" "lit_is_whole (re_detect_anchor h) = lit_is_whole h"
  "has_first_bytes (re_detect_anchor h) = has_first_bytes h" "first_bytes (re_detect_anchor h) = first_bytes h"
  by (simp_all add: re_detect_anchor_def Let_def)

lemma prefilter_filters:
  assumes "prog h = mk_instr OP_SAVE 0 0 # q"
  shows "filters_of (re_detect_anchor (re_build_prefilter h))"
proof -
  let ?g = "re_build_prefilter h"
  have p: "prog h \<noteq> []" "opcode (prog h ! 0) = OP_SAVE" "operand_a (prog h ! 0) = 0" "drop (Suc 0) (prog h) = tl (prog h)"
    using assms by (simp_all add: mk_instr_def)
  have l: "lit ?g = (if IGNORECASE h then [] else literal_run (tl (prog h)))"
    using p by (simp add: re_build_prefilter_def Let_def IGNORECASE_def)
  have w: "lit_is_whole ?g \<longrightarrow> lit ?g \<noteq> [] \<and> (let p = 1 + length (lit ?g) in p + 1 < prog_len h \<and>
        opcode (prog h ! p) = OP_SAVE \<and> operand_a (prog h ! p) = 1 \<and> opcode (prog h ! (p + 1)) = OP_MATCH)"
    using p by (simp add: re_build_prefilter_def Let_def prog_len_def IGNORECASE_def)
  have f: "has_first_bytes ?g \<longrightarrow> \<not> IGNORECASE h \<and> opcode (prog h ! 1) = OP_CLASS \<and> operand_a (prog h ! 1) < n_classes h \<and>
        first_bytes ?g = classes h ! operand_a (prog h ! 1)"
    using p by (simp add: re_build_prefilter_def Let_def IGNORECASE_def)
  have a: "anchor_mode (re_detect_anchor ?g) = 1 \<longrightarrow> opcode (prog h ! 1) = OP_ANCHOR_BOS \<or> opcode (prog h ! 1) = OP_ANCHOR_BOL \<and> \<not> MULTILINE h"
    "anchor_mode (re_detect_anchor ?g) = 2 \<longrightarrow> opcode (prog h ! 1) = OP_ANCHOR_BOL"
    by (auto simp: re_detect_anchor_def Let_def prefilter_keeps MULTILINE_def prefilter_flags)
  show ?thesis unfolding filters_of_def
    using l w f a by (simp add: detect_anchor_filters detect_anchor_keeps prefilter_keeps prefilter_flags IGNORECASE_def MULTILINE_def prog_len_def)
qed

lemma tables_keep_filters:
  assumes "re_build_onepass_tables h = Some h'"
  shows "flags h' = flags h" "lit h' = lit h" "lit_is_whole h' = lit_is_whole h" "has_first_bytes h' = has_first_bytes h"
    "first_bytes h' = first_bytes h" "anchor_mode h' = anchor_mode h"
  using assms by (auto simp: re_build_onepass_tables_def split: bind_splits if_splits)


lemma finish_filters:
  assumes "finish_compile c = Some h" "prog h = mk_instr OP_SAVE 0 0 # q"
  shows "filters_of h"
proof -
  define z where "z = zero_handle ((snd (emit (snd (emit (c_re c) OP_SAVE 1 0)) OP_MATCH 0 0))\<lparr>n_groups := group_counter c\<rparr>)"
  define h0 where "h0 = re_detect_anchor (re_build_prefilter z)"
  obtain one h1 where h1: "(if one then re_build_onepass_tables (h0\<lparr>onepass := one\<rparr>) else Some (h0\<lparr>onepass := one\<rparr>)) = Some h1"
    "h = (let h = h1\<lparr>dfa_eligible := re_dfa_check_eligible h1\<rparr>
          in if dfa_eligible h then h\<lparr>dfa_trans := replicate (prog_len h * 256) RE_DFA_UNFILLED\<rparr> else h)"
    using assms(1) unfolding finish_compile_def Let_def h0_def [unfolded z_def, symmetric] by (auto split: bind_splits)
  have e1: "prog h1 = prog h0" "classes h1 = classes h0" "n_classes h1 = n_classes h0" "flags h1 = flags h0" "lit h1 = lit h0"
    "lit_is_whole h1 = lit_is_whole h0" "has_first_bytes h1 = has_first_bytes h0" "first_bytes h1 = first_bytes h0"
    "anchor_mode h1 = anchor_mode h0"
  proof -
    have t: "re_build_onepass_tables (h0\<lparr>onepass := one\<rparr>) = Some h1 \<or> h1 = h0\<lparr>onepass := one\<rparr>"
      using h1(1) by (cases one) auto
    show "prog h1 = prog h0" using t by (auto dest: tables_keep)
    show "classes h1 = classes h0" using t by (auto dest: tables_keep)
    show "n_classes h1 = n_classes h0" using t by (auto dest: tables_keep)
    show "flags h1 = flags h0" using t by (auto dest: tables_keep_filters)
    show "lit h1 = lit h0" using t by (auto dest: tables_keep_filters)
    show "lit_is_whole h1 = lit_is_whole h0" using t by (auto dest: tables_keep_filters)
    show "has_first_bytes h1 = has_first_bytes h0" using t by (auto dest: tables_keep_filters)
    show "first_bytes h1 = first_bytes h0" using t by (auto dest: tables_keep_filters)
    show "anchor_mode h1 = anchor_mode h0" using t by (auto dest: tables_keep_filters)
  qed
  have e2: "prog h = prog h1" "classes h = classes h1" "n_classes h = n_classes h1" "flags h = flags h1" "lit h = lit h1"
    "lit_is_whole h = lit_is_whole h1" "has_first_bytes h = has_first_bytes h1" "first_bytes h = first_bytes h1"
    "anchor_mode h = anchor_mode h1"
    using h1(2) by (simp_all add: Let_def)
  have "prog z = mk_instr OP_SAVE 0 0 # q" using assms(2) e1(1) e2(1) by (simp add: h0_def detect_anchor_keeps prefilter_keeps)
  then have "filters_of h0" unfolding h0_def by (rule prefilter_filters)
  then show ?thesis unfolding filters_of_def e1 e2 IGNORECASE_def MULTILINE_def prog_len_def .
qed

text \<open>The run through leading CHAR instructions.\<close>

lemma char_run:
  assumes "\<And>q. q < n \<Longrightarrow> opcode (prog h ! (p + q)) = OP_CHAR" "match_from la h tx (p, sl, i) sl' j"
  shows "match_from la h tx (p + n, sl, i + n) sl' j \<and> i + n \<le> length tx + (if n = 0 then i else 0) \<and>
    (\<forall>q < n. match_char h (prog h ! (p + q)) (tx ! (i + q)) = Some True)"
  using assms(1)
proof (induction n)
  case 0
  then show ?case using assms(2) by simp
next
  case (Suc n)
  then have m: "match_from la h tx (p + n, sl, i + n) sl' j" "\<forall>q < n. match_char h (prog h ! (p + q)) (tx ! (i + q)) = Some True"
    by auto
  have op: "opcode (prog h ! (p + n)) = OP_CHAR" using Suc.prems by simp
  obtain d where d: "path la h tx (p + n, sl, i + n) (d, sl', j)" "at_match h d" using m(1) by (auto simp: match_from_def)
  obtain c where c: "pstep la h tx (p + n, sl, i + n) c" "path la h tx c (d, sl', j)"
    using d op by (auto simp: at_match_def elim: converse_rtranclpE)
  have "c = (p + n + 1, sl, i + n + 1) \<and> i + n < length tx \<and> match_char h (prog h ! (p + n)) (tx ! (i + n)) = Some True"
    using c(1) op by (auto elim!: pstepE simp: eps_succ_def position_tests_def)
  then show ?case using m(2) c(2) d(2) by (auto simp: match_from_def less_Suc_eq)
qed

lemma literal_run_nth:
  assumes "q < length (literal_run is)"
  shows "opcode (is ! q) = OP_CHAR" "literal_run is ! q = operand_a (is ! q) mod 256" "q < length is"
proof -
  have l: "q < length (takeWhile (\<lambda>i. opcode i = OP_CHAR) is)" using assms by (simp add: literal_run_def)
  show "opcode (is ! q) = OP_CHAR" using set_takeWhileD [OF nth_mem [OF l]] l by (simp add: takeWhile_nth)
  show "literal_run is ! q = operand_a (is ! q) mod 256" using assms l by (simp add: literal_run_def takeWhile_nth)
  show "q < length is" using l length_takeWhile_le order_less_le_trans by blast
qed

lemma occurs_at_chars:
  "occurs_at hay needle i \<longleftrightarrow> i + length needle \<le> length hay \<and> (\<forall>q < length needle. hay ! (i + q) = needle ! q)"
  by (auto simp: occurs_at_def list_eq_iff_nth_eq)

lemma match_lit:
  assumes "\<not> IGNORECASE h" "opcode ins = OP_CHAR"
  shows "match_char h ins c = Some True \<longleftrightarrow> c = char_of (operand_a ins mod 256)"
  using assms by (simp add: match_char_def)

lemma program_filters_sound:
  assumes "program_of h r" "filters_of h" "la_ok (vm_lookahead h tx) h tx 1 r"
  shows "filters_sound h tx (\<lambda>s. \<exists>e. rx_match h tx r s e)"
  unfolding filters_sound_def
proof (intro allI impI)
  fix s assume m: "\<exists>e. rx_match h tx r s e" "s \<le> length tx"
  let ?la = "vm_lookahead h tx" and ?s1 = "(replicate (MAX_GROUPS * 2) (- 1))[0 := int s]"
  note at = program_of_at [OF assms(1)]
  have tl: "prog h ! (1 + q) = tl (prog h) ! q" if "q < length (tl (prog h))" for q using that by (simp add: nth_tl)
  obtain sl j where "match_from ?la h tx (start_of 0 s) sl j" using m program_match(2) [OF assms(1,3)] by blast
  then obtain d where d: "path ?la h tx (start_of 0 s) (d, sl, j)" "at_match h d" by (auto simp: match_from_def)
  have s0: "pstep ?la h tx (start_of 0 s) c \<longleftrightarrow> c = (1, ?s1, s)" for c
    using at(2,5) by (cases c) (auto simp: start_of_def pstep_simple [of h 0 OP_SAVE 0] simple_op_def position_tests_def)
  have "d \<noteq> 0" using d(2) at(2) by (auto simp: at_match_def mk_instr_def intro!: gr0I)
  with d(1) have p1: "path ?la h tx (1, ?s1, s) (d, sl, j)"
    by (cases rule: converse_rtranclpE) (use s0 in \<open>auto simp: start_of_def\<close>)
  then have m1: "match_from ?la h tx (1, ?s1, s) sl j" using d(2) by (auto simp: match_from_def)
  have first: "\<exists>c. pstep ?la h tx (1, ?s1, s) c" if "opcode (prog h ! 1) \<noteq> OP_MATCH"
    using p1 by (cases rule: converse_rtranclpE) (use d(2) that in \<open>auto simp: at_match_def\<close>)
  have anchor: "anchor_ok h (opcode (prog h ! 1)) tx s" if "opcode (prog h ! 1) \<in> position_tests"
    using first that by (auto elim!: pstepE simp: eps_succ_def position_tests_def consuming_def zero_width_ops_def split: if_splits)
  have lit: "occurs_at tx (map char_of (lit h)) s" if l: "lit h \<noteq> []"
  proof -
    have e: "\<not> IGNORECASE h" "lit h = literal_run (tl (prog h))" using assms(2) l by (auto simp: filters_of_def split: if_splits)
    have ch: "opcode (prog h ! (1 + q)) = OP_CHAR" if "q < length (lit h)" for q
      using literal_run_nth(1,3) [of q "tl (prog h)"] that e(2) tl [of q] by simp
    note run = char_run [where n = "length (lit h)", OF ch m1]
    have "tx ! (s + q) = char_of (lit h ! q)" if "q < length (lit h)" for q
    proof -
      have "match_char h (prog h ! (1 + q)) (tx ! (s + q)) = Some True" using run that by blast
      then have "tx ! (s + q) = char_of (operand_a (prog h ! (1 + q)) mod 256)" using match_lit [OF e(1) ch [OF that]] by blast
      then show ?thesis using that literal_run_nth(2,3) [of q "tl (prog h)"] e(2) tl [of q] by simp
    qed
    then show ?thesis using run l by (simp add: occurs_at_chars)
  qed
  have fb: "s < length tx \<and> ccode (tx ! s) < 128 \<and> class_test (first_bytes h) (ccode (tx ! s)) = Some True" if b: "has_first_bytes h"
  proof -
    have c: "\<not> IGNORECASE h" "opcode (prog h ! 1) = OP_CLASS" "first_bytes h = classes h ! operand_a (prog h ! 1)"
      using assms(2) b by (auto simp: filters_of_def)
    have "s < length tx \<and> match_char h (prog h ! 1) (tx ! s) = Some True"
      using first c(2) by (auto elim!: pstepE simp: eps_succ_def position_tests_def)
    then show ?thesis using c by (auto simp: match_char_def fold_case_def class_of_def class_test_def CLASS_BITMAP_BYTES_def
      split: if_splits bind_splits)
  qed
  have "s = 0" if "anchor_mode h = 1"
    using assms(2) that anchor by (auto simp: filters_of_def position_tests_def anchor_ok_def bol_ok_def)
  moreover have "s = 0 \<or> ccode (tx ! (s - 1)) = 10" if "anchor_mode h = 2"
    using assms(2) that anchor by (auto simp: filters_of_def position_tests_def anchor_ok_def bol_ok_def)
  ultimately show "(anchor_mode h = 1 \<longrightarrow> s = 0) \<and> (anchor_mode h = 2 \<longrightarrow> s = 0 \<or> ccode (tx ! (s - 1)) = 10) \<and>
    (lit h \<noteq> [] \<longrightarrow> occurs_at tx (map char_of (lit h)) s) \<and>
    (has_first_bytes h \<longrightarrow> s < length tx \<and> ccode (tx ! s) < 128 \<and> class_test (first_bytes h) (ccode (tx ! s)) = Some True)"
    using lit fb by blast
qed


section \<open>A pattern that is a literal\<close>

lemma char_path:
  assumes "\<And>q. q < n \<Longrightarrow> opcode (prog h ! (p + q)) = OP_CHAR" "p + n \<le> prog_len h" "i + n \<le> length tx"
    "\<And>q. q < n \<Longrightarrow> match_char h (prog h ! (p + q)) (tx ! (i + q)) = Some True"
  shows "path la h tx (p, sl, i) (p + n, sl, i + n)"
  using assms
proof (induction n)
  case (Suc n)
  have "pstep la h tx (p + n, sl, i + n) (p + n + 1, sl, i + n + 1)"
    using Suc.prems by (intro pstep.chr) (auto simp: consuming_def zero_width_ops_def position_tests_def)
  moreover have "path la h tx (p, sl, i) (p + n, sl, i + n)" using Suc by simp
  ultimately show ?case by (simp add: rtranclp.rtrancl_into_rtrancl)
qed simp

lemma whole_literal:
  assumes "program_of h r" "filters_of h" "la_ok (vm_lookahead h tx) h tx 1 r" "lit_is_whole h"
  shows "rx_match h tx r s e \<longleftrightarrow> occurs_at tx (map char_of (lit h)) s \<and> e = s + length (lit h)"
proof -
  let ?la = "vm_lookahead h tx" and ?s1 = "(replicate (MAX_GROUPS * 2) (- 1))[0 := int s]" and ?n = "length (lit h)"
  note at = program_of_at [OF assms(1)]
  have f: "lit h \<noteq> []" "prog_len h > 2 + ?n" "opcode (prog h ! (1 + ?n)) = OP_SAVE" "operand_a (prog h ! (1 + ?n)) = 1"
    "opcode (prog h ! (2 + ?n)) = OP_MATCH" "\<not> IGNORECASE h" "lit h = literal_run (tl (prog h))"
    using assms(2,4) by (auto simp: filters_of_def Let_def split: if_splits)
  have tl: "prog h ! (1 + q) = tl (prog h) ! q" if "q < length (tl (prog h))" for q using that by (simp add: nth_tl)
  have ch: "opcode (prog h ! (1 + q)) = OP_CHAR" if "q < length (lit h)" for q
    using literal_run_nth(1,3) [of q "tl (prog h)"] that f(7) tl [of q] by simp
  have lit: "match_char h (prog h ! (1 + q)) c = Some True \<longleftrightarrow> c = char_of (lit h ! q)" if "q < length (lit h)" for q c
    using match_lit [OF f(6) ch [OF that]] literal_run_nth(2,3) [of q "tl (prog h)"] f(7) that tl [of q] by simp
  have s0: "pstep ?la h tx (start_of 0 s) c \<longleftrightarrow> c = (1, ?s1, s)" for c
    using at(2,5) by (cases c) (auto simp: start_of_def pstep_simple [of h 0 OP_SAVE 0] simple_op_def position_tests_def)
  have sv: "pstep ?la h tx (1 + ?n, sl, i) c \<longleftrightarrow> c = (2 + ?n, sl[1 := int i], i)" for sl i c
    using f(2-4) by (cases c) (auto simp: pstep.simps eps_succ_def save_slot_def position_tests_def consuming_def zero_width_ops_def)
  have m: "at_match h (2 + ?n)" using f(2,5) by (simp add: at_match_def)
  show ?thesis
  proof
    assume "rx_match h tx r s e"
    then obtain sl where "match_from ?la h tx (start_of 0 s) sl e" using program_match(2) [OF assms(1,3)] by blast
    then obtain d where d: "path ?la h tx (start_of 0 s) (d, sl, e)" "at_match h d" by (auto simp: match_from_def)
    have "d \<noteq> 0" using d(2) at(2) by (auto simp: at_match_def mk_instr_def intro!: gr0I)
    with d(1) have "path ?la h tx (1, ?s1, s) (d, sl, e)"
      by (cases rule: converse_rtranclpE) (use s0 in \<open>auto simp: start_of_def\<close>)
    then have m1: "match_from ?la h tx (1, ?s1, s) sl e" using d(2) by (auto simp: match_from_def)
    note run = char_run [where n = ?n, OF ch m1]
    obtain d2 where d2: "path ?la h tx (1 + ?n, ?s1, s + ?n) (d2, sl, e)" "at_match h d2" using run by (auto simp: match_from_def)
    have "d2 \<noteq> 1 + ?n" using d2(2) f(3) by (auto simp: at_match_def)
    with d2(1) have "path ?la h tx (2 + ?n, ?s1[1 := int (s + ?n)], s + ?n) (d2, sl, e)"
      by (cases rule: converse_rtranclpE) (use sv in auto)
    then have "e = s + ?n" by (cases rule: converse_rtranclpE) (use at_match_no_step [OF m] in auto)
    moreover have "tx ! (s + q) = char_of (lit h ! q)" if "q < ?n" for q
    proof -
      have "match_char h (prog h ! (1 + q)) (tx ! (s + q)) = Some True" using run that by blast
      then show ?thesis using lit [OF that] by blast
    qed
    ultimately show "occurs_at tx (map char_of (lit h)) s \<and> e = s + ?n" using run f(1) by (simp add: occurs_at_chars)
  next
    assume o: "occurs_at tx (map char_of (lit h)) s \<and> e = s + ?n"
    have "path ?la h tx (1, ?s1, s) (1 + ?n, ?s1, s + ?n)"
      using o f(2) ch lit by (intro char_path) (auto simp: occurs_at_chars)
    moreover have "pstep ?la h tx (start_of 0 s) (1, ?s1, s)" by (simp only: s0)
    moreover have "pstep ?la h tx (1 + ?n, ?s1, s + ?n) (2 + ?n, ?s1[1 := int (s + ?n)], s + ?n)" by (simp only: sv)
    ultimately have "path ?la h tx (start_of 0 s) (2 + ?n, ?s1[1 := int (s + ?n)], s + ?n)"
      by (meson converse_rtranclp_into_rtranclp rtranclp.rtrancl_into_rtrancl)
    then have "match_from ?la h tx (start_of 0 s) (?s1[1 := int (s + ?n)]) e" using m o by (auto simp: match_from_def)
    then show "rx_match h tx r s e" using program_match(1) [OF assms(1,3)] by blast
  qed
qed

section \<open>The search on the Pike VM\<close>

definition ready :: "ReHandle \<Rightarrow> rx \<Rightarrow> string \<Rightarrow> bool" where
  "ready h r tx \<longleftrightarrow> program_of h r \<and> few_threads h \<and> looks_consume r \<and> ascii tx"

definition span_at :: "ReHandle \<Rightarrow> string \<Rightarrow> rx \<Rightarrow> nat \<Rightarrow> int list \<Rightarrow> bool" where
  "span_at h tx r s ms \<longleftrightarrow> re_slot_count h \<le> length ms \<and> ms ! 0 = int s \<and> (\<exists>e. ms ! 1 = int e \<and> rx_match h tx r s e)"

interpretation general: search_engine "general_engine h tx" tx "\<lambda>s. \<exists>e. rx_match h tx r s e" "span_at h tx r"
  "\<lambda>vis. ready h r tx \<and> vis_inv (prog_len h) vis"
proof unfold_locales
  fix st s assume a: "ready h r tx \<and> vis_inv (prog_len h) st" "s \<le> length tx"
  then have "program_of h r" "few_threads h" "ascii tx" "vis_inv (prog_len h) st" "looks_consume r" by (simp_all add: ready_def)
  from vm_exec_matches_program [OF this, of s no_captures] obtain ok ms' vis' where
    v: "vm_exec h tx s no_captures st = Some (ok, ms', vis')" "vis_inv (prog_len h) vis'" "ok \<longleftrightarrow> (\<exists>e. rx_match h tx r s e)"
    "if ok then ms' ! 0 = int s \<and> (\<exists>e. ms' ! 1 = int e \<and> rx_match h tx r s e) \<and> re_slot_count h \<le> length ms'
     else ms' = no_captures"
    by blast
  show "\<exists>res st'. general_engine h tx s st = Some (res, st') \<and> (ready h r tx \<and> vis_inv (prog_len h) st') \<and>
      (case res of None \<Rightarrow> \<not> (\<exists>e. rx_match h tx r s e) | Some ms \<Rightarrow> (\<exists>e. rx_match h tx r s e) \<and> span_at h tx r s ms)"
    using v a by (cases ok) (auto simp: general_engine_def span_at_def)
qed

lemma ready_la: "ready h r tx \<Longrightarrow> la_ok (vm_lookahead h tx) h tx 1 r"
  unfolding ready_def vm_lookahead_def
  by (rule lookahead_agrees [OF _ program_of_at(1) _ _ program_text_ok program_len_depth]) (auto simp: program_of_def)


lemma rx_match_text_info: "rx_match (h\<lparr>last_text := t, dfa_only_valid := b\<rparr>) tx r = rx_match h tx r"
proof -
  have "match_char (h\<lparr>last_text := t, dfa_only_valid := b\<rparr>) = match_char h"
    by (intro ext) (simp add: match_char_def class_of_def fold_case_def IGNORECASE_def DOTALL_def cong: ReOpCode.case_cong)
  moreover have "anchor_ok (h\<lparr>last_text := t, dfa_only_valid := b\<rparr>) = anchor_ok h"
    by (intro ext) (simp add: anchor_ok_def bol_ok_def eol_ok_def MULTILINE_def cong: ReOpCode.case_cong)
  ultimately show ?thesis by (induction r) (intro ext; simp)+
qed

lemma ready_text_info: "ready (h\<lparr>last_text := t, dfa_only_valid := b\<rparr>) r tx = ready h r tx"
  by (simp add: ready_def program_of_def classes_ok_def few_threads_def)

lemma filters_text_info: "filters_of (h\<lparr>last_text := t, dfa_only_valid := b\<rparr>) = filters_of h"
  by (simp add: filters_of_def prog_len_def IGNORECASE_def MULTILINE_def)

text \<open>A result of an exec: the count of groups and the saved slots, or nothing.\<close>

definition exec_result :: "ReHandle \<Rightarrow> string \<Rightarrow> rx \<Rightarrow> nat \<Rightarrow> int \<Rightarrow> int list \<Rightarrow> bool" where
  "exec_result h tx r start n sl \<longleftrightarrow>
     (if n = 0 then sl = no_captures \<and> (\<forall>s e. start \<le> s \<longrightarrow> s \<le> length tx \<longrightarrow> \<not> rx_match h tx r s e)
      else n = int (n_groups h) + 1 \<and>
        (\<exists>s e. start \<le> s \<and> s \<le> length tx \<and> rx_match h tx r s e \<and> sl ! 0 = int s \<and> sl ! 1 = int e \<and>
           (\<forall>k e. start \<le> k \<longrightarrow> k < s \<longrightarrow> \<not> rx_match h tx r k e)))"

lemma regex_exec_result:
  assumes "ready h r tx" "filters_of h" "\<not> onepass h" "length tx < 2 ^ 31" "start \<le> length tx"
  shows "\<exists>n h'. regex_exec h addr tx start = Some (n, h') \<and> exec_result h tx r start n (saved h')"
proof -
  let ?h = "h\<lparr>last_text := Some (addr, length tx), dfa_only_valid := False\<rparr>"
  have eq: "rx_match ?h tx r = rx_match h tx r" by (rule rx_match_text_info)
  have rd: "ready ?h r tx" and f: "filters_of ?h"
    using assms(1,2) by (simp_all only: ready_text_info filters_text_info)
  have po: "program_of ?h r" using rd by (simp add: ready_def)
  note la = ready_la [OF rd]
  show ?thesis
  proof (cases "lit_is_whole h \<and> \<not> IGNORECASE h")
    case True
    let ?n = "map char_of (lit h)"
    have lw: "lit_is_whole ?h" using True by simp
    have m: "rx_match h tx r s e \<longleftrightarrow> occurs_at tx ?n s \<and> e = s + length (lit h)" for s e
      using whole_literal [OF po f la lw, of s e] by (simp add: eq)
    obtain at where at: "str_find tx ?n (int start) = Some at" "is_first tx ?n start at"
      using str_find_first [OF assms(4), of ?n "int start"] assms(5) by auto
    from at(2) consider "at = - 1" "\<forall>k \<ge> start. \<not> occurs_at tx ?n k"
      | t where "start \<le> t" "at = int t" "occurs_at tx ?n t" "\<forall>k. start \<le> k \<and> k < t \<longrightarrow> \<not> occurs_at tx ?n k"
      unfolding is_first_def by blast
    then show ?thesis
    proof cases
      case 1
      then show ?thesis using True at(1) by (simp add: regex_exec_def Let_def exec_result_def m IGNORECASE_def)
    next
      case (2 t)
      have "t \<le> length tx" using 2(3) by (rule occurs_at_bound)
      then show ?thesis using True at(1) 2
        by (simp add: regex_exec_def Let_def exec_result_def m IGNORECASE_def no_captures_def MAX_GROUPS_def)
    qed
  next
    case False
    have fs: "filters_sound ?h tx (\<lambda>s. \<exists>e. rx_match ?h tx r s e)" by (rule program_filters_sound [OF po f la])
    obtain res vis where s: "exec_search (general_engine ?h tx) ?h tx start (visited_init (prog_len ?h)) = Some (res, vis)"
      "leftmost tx (\<lambda>s. \<exists>e. rx_match ?h tx r s e) (span_at ?h tx r) start res"
      using general.exec_search_leftmost [OF fs assms(4) conjI [OF rd vis_inv_init] assms(5)] by blast
    have run: "regex_exec h addr tx start = Some (commit res ?h)"
      using s(1) False assms(3) by (auto simp: regex_exec_def Let_def IGNORECASE_def re_exec_vm_general_def)
    show ?thesis
    proof (cases res)
      case None
      then show ?thesis using run s(2) by (simp add: commit_def exec_result_def leftmost_def eq)
    next
      case (Some ms)
      have g: "copy_slots ?h ms sl ! 0 = ms ! 0" "copy_slots ?h ms sl ! 1 = ms ! 1" if "re_slot_count ?h \<le> length ms" for sl
        using that slot_count_ge [of ?h] by (simp_all add: copy_slots_def nth_append)
      obtain s where "start \<le> s" "s \<le> length tx" "span_at ?h tx r s ms" "\<forall>k. start \<le> k \<longrightarrow> k < s \<longrightarrow> \<not> (\<exists>e. rx_match ?h tx r k e)"
        using s(2) Some by (auto simp: leftmost_def)
      then show ?thesis using run Some g by (auto simp: commit_def exec_result_def span_at_def eq)
    qed
  qed
qed

section \<open>Property\<close>

text \<open>C1: A search on the general engine finds the leftmost match.  The statement covers handles
  that were not classified as one-pass, whose program is the code of \<open>r\<close> and shorter than 2047
  instructions (a longer one may have lost its MATCH, \<open>full_program_loses_match\<close>), with at most 512
  consuming instructions (the length of the thread list), in which no body of a lookahead matches the
  empty span, on ASCII texts shorter than \<open>2 ^ 31\<close> and a start inside the text.  For these,
  \<open>regex_exec\<close> from \<open>start\<close> returns 0 with all capture slots cleared exactly if the expression matches
  at no position from \<open>start\<close> to the end of the text, and otherwise the number of groups with slots 0
  and 1 holding a match at the least such position: the literal prefix scan, the first-byte filter, the
  anchor modes and the pure-literal path skip no match.  Outside these conditions it fails:
  \<open>onepass_misses_match\<close> and \<open>lookahead_empty_body_fails\<close> are patterns whose match is missed.\<close>

theorem regex_exec_leftmost:
  assumes "regex_compile pat f = Some (Inr h)" "prog_len h < MAX_INSTRS - 1"
    "prog h = mk_instr OP_SAVE 0 0 # codegen 1 r @ [mk_instr OP_SAVE 1 0, mk_instr OP_MATCH 0 0]"
    "wf_rx (n_classes h) (n_groups h) r" "looks_consume r" "few_threads h" "\<not> onepass h"
    "ascii tx" "length tx < 2 ^ 31" "start \<le> length tx"
  shows "\<exists>n h'. regex_exec h addr tx start = Some (n, h') \<and> exec_result h tx r start n (saved h')"
proof (rule regex_exec_result [OF _ _ assms(7,9,10)])
  show "ready h r tx"
    using program_of_compile [OF assms(1,2)] assms(3-6,8) by (auto simp: program_of_def ready_def)
  show "filters_of h" using assms(1,3) finish_filters by (auto elim!: regex_compile_cases)
qed

lemma regex_exec_leftmost_witness:
  "\<exists>h n h'. regex_compile look_pattern 0 = Some (Inr h) \<and> regex_exec h 0 ''zacxy'' 0 = Some (n, h') \<and>
     exec_result h ''zacxy'' look_rx 0 n (saved h')"
proof -
  have "(case regex_compile look_pattern 0 of Some (Inr h) \<Rightarrow> \<not> onepass h | _ \<Rightarrow> False)" by code_simp
  then obtain h where h: "regex_compile look_pattern 0 = Some (Inr h)" "\<not> onepass h" by (auto split: option.splits sum.splits)
  obtain g where g: "regex_compile look_pattern 0 = Some (Inr g)" "prog_len g < MAX_INSTRS - 1"
    "prog g = mk_instr OP_SAVE 0 0 # codegen 1 look_rx @ [mk_instr OP_SAVE 1 0, mk_instr OP_MATCH 0 0]"
    "wf_rx (n_classes g) (n_groups g) look_rx" "few_threads g"
    using look_compiles by auto
  have "g = h" using h(1) g(1) by simp
  moreover have "ascii ''zacxy''" "looks_consume look_rx" by code_simp+
  ultimately show ?thesis
    using regex_exec_leftmost [OF g(1-4) _ g(5), of "''zacxy''" 0 0] h g(1) by auto
qed

end
