(* ===== verification/Regex_Tiers.thy ===== *)
theory Regex_Tiers
  imports Regex_Search
begin

text \<open>
  The faster engines.  The one-pass executor follows a path of the program, so what it reports is a
  match; the transition cache of the lazy automaton never changes an answer.  Two patterns show
  where these engines and the Pike VM differ.
\<close>

section \<open>Engines that report only matches\<close>

definition reports :: "'e engine \<Rightarrow> (nat \<Rightarrow> int list \<Rightarrow> bool) \<Rightarrow> bool" where
  "reports eng res_ok \<longleftrightarrow> (\<forall>s st ms st'. eng s st = Some (Some ms, st') \<longrightarrow> res_ok s ms)"

lemma line_search_reports:
  "line_search eng tx s st = Some y \<Longrightarrow> reports eng res_ok \<Longrightarrow>
    fst y = Some ms \<Longrightarrow> \<exists>k \<ge> s. res_ok k ms"
proof (induction rule: line_search.raw_induct [rotated, consumes 1, case_names 1])
  case (1 rec eng tx s st y)
  obtain r st' where e: "s \<le> length tx" "eng s st = Some (r, st')"
    using 1(2,4) by (auto split: if_splits bind_splits)
  show ?case
  proof (cases r)
    case (Some ms')
    then show ?thesis using 1(2,3,4) e unfolding reports_def by (intro exI [of _ s]) force
  next
    case None
    then have "rec eng tx (next_line_start tx (s + 1)) st' = Some y"
      using 1(2,4) e by (auto split: if_splits)
    from 1(1) [OF this 1(3,4)] obtain k where "next_line_start tx (s + 1) \<le> k" "res_ok k ms" by blast
    moreover have "s \<le> next_line_start tx (s + 1)" by (simp add: next_line_start_def)
    ultimately show ?thesis by (intro exI [of _ k]) simp
  qed
qed

lemma next_candidate_later: "next_candidate h tx s = Some (Some t) \<Longrightarrow> s \<le> length tx \<Longrightarrow> length tx < 2 ^ 31 \<Longrightarrow> s \<le> t"
proof -
  assume c: "next_candidate h tx s = Some (Some t)" "s \<le> length tx" "length tx < 2 ^ 31"
  show ?thesis
  proof (cases "lit h = []")
    case True
    then show ?thesis using c(1) by (auto simp: next_candidate_def first_byte_scan_def split: if_splits)
  next
    case False
    obtain r where "str_find tx (map char_of (lit h)) (int s) = Some r" "is_first tx (map char_of (lit h)) s r"
      using str_find_first [OF c(3), of "map char_of (lit h)" "int s"] c(2) by auto
    then show ?thesis using c(1) False by (auto simp: next_candidate_def is_first_def)
  qed
qed

lemma scan_search_reports:
  "scan_search eng h tx s st = Some y \<Longrightarrow> reports eng res_ok \<Longrightarrow>
    fst y = Some ms \<Longrightarrow> length tx < 2 ^ 31 \<Longrightarrow> \<exists>k \<ge> s. res_ok k ms"
proof (induction rule: scan_search.raw_induct [rotated, consumes 1, case_names 1])
  case (1 rec eng h tx s st y)
  obtain t r st' where e: "s \<le> length tx" "next_candidate h tx s = Some (Some t)" "eng t st = Some (r, st')"
    using 1(2,4) by (auto split: if_splits bind_splits option.splits)
  have le: "s \<le> t" using next_candidate_later [OF e(2,1) 1(5)] .
  show ?case
  proof (cases r)
    case (Some ms')
    then show ?thesis using 1(2,3,4) e le unfolding reports_def by (intro exI [of _ t]) force
  next
    case None
    then have "rec eng h tx (t + 1) st' = Some y" using 1(2,4) e by (auto split: if_splits)
    from 1(1) [OF this 1(3,4,5)] obtain k where "t + 1 \<le> k" "res_ok k ms" by blast
    then show ?thesis using le by (intro exI [of _ k]) simp
  qed
qed

locale sound_engine =
  fixes eng :: "'e engine" and tx :: string and res_ok :: "nat \<Rightarrow> int list \<Rightarrow> bool"
  assumes sound: "reports eng res_ok"
begin

lemma search_reports:
  assumes "exec_search eng h tx start st = Some (Some ms, st')" "length tx < 2 ^ 31"
  shows "\<exists>k \<ge> start. res_ok k ms"
proof -
  consider "anchor_mode h = 1" | "anchor_mode h = 2" | "anchor_mode h \<noteq> 1" "anchor_mode h \<noteq> 2" by blast
  then show ?thesis
  proof cases
    case 1
    then show ?thesis using assms sound by (force simp: exec_search_def reports_def split: if_splits)
  next
    case 2
    let ?s = "if start \<noteq> 0 then next_line_start tx start else start"
    have "line_search eng tx ?s st = Some (Some ms, st')" using assms(1) 2 by (simp add: exec_search_def)
    then have "\<exists>k \<ge> ?s. res_ok k ms" by (rule line_search_reports) (use sound in auto)
    moreover have "start \<le> ?s" by (simp add: next_line_start_def)
    ultimately show ?thesis by (meson le_trans)
  next
    case 3
    then have "scan_search eng h tx start st = Some (Some ms, st')" using assms(1) by (simp add: exec_search_def)
    then show ?thesis by (rule scan_search_reports) (use sound assms(2) in auto)
  qed
qed

end

section \<open>The one-pass executor follows a path\<close>

lemma onepass_path:
  "onepass_run h tx k i ms = Some y \<Longrightarrow> fst y \<Longrightarrow> \<exists>j. match_from la h tx (k, ms, i) (snd y) j"
proof (induction rule: onepass_run.raw_induct [rotated, consumes 1, case_names 1])
  case (1 rec h tx k i ms y)
  let ?ins = "prog h ! k"
  have k: "k < prog_len h" using 1(2) by (auto split: if_splits)
  have go: "\<exists>j. match_from la h tx (k, ms, i) (snd y) j"
    if "pstep la h tx (k, ms, i) (k', ms', i')" "rec h tx k' i' ms' = Some y" for k' ms' i'
    using 1(1) [OF that(2) 1(3)] that(1) unfolding match_from_def by (blast intro: converse_rtranclp_into_rtranclp)
  have eps: "pstep la h tx (k, ms, i) (k', save_slot h k i ms, i)" if "k' \<in> eps_succ la h tx i k" for k'
    by (rule pstep.eps [OF k that])
  note simps = eps_succ_def save_slot_def position_tests_def
  show ?case
  proof (cases "opcode ?ins")
    case OP_SAVE
    then show ?thesis using 1(2) k eps by (intro go [of "k + 1" "ms[operand_a ?ins := int i]" i]) (auto simp: simps Let_def split: if_splits)
  next
    case OP_JUMP
    then show ?thesis using 1(2) k eps by (intro go [of "operand_a ?ins" ms i]) (auto simp: simps Let_def split: if_splits)
  next
    case OP_SPLIT
    then obtain k' where k': "split_choose (onepass_splits h ! k) ?ins (peek_at tx i) = Some k'" "rec h tx k' i ms = Some y"
      using 1(2,3) k by (auto simp: Let_def split: if_splits option.splits)
    have "k' \<in> {operand_a ?ins, operand_b ?ins}" using k'(1) by (auto simp: split_choose_def Let_def split: if_splits)
    then show ?thesis using OP_SPLIT eps k'(2) by (intro go [of k' ms i]) (auto simp: simps)
  next
    case OP_MATCH
    then have "snd y = ms" "at_match h k" using 1(2) k by (auto simp: at_match_def Let_def)
    then show ?thesis unfolding match_from_def by blast
  next
    case OP_ANCHOR_BOL
    then show ?thesis using 1(2,3) k eps by (intro go [of "k + 1" ms i]) (auto simp: simps Let_def split: if_splits)
  next
    case OP_ANCHOR_EOL
    then show ?thesis using 1(2,3) k eps by (intro go [of "k + 1" ms i]) (auto simp: simps Let_def split: if_splits)
  next
    case OP_ANCHOR_BOS
    then show ?thesis using 1(2,3) k eps by (intro go [of "k + 1" ms i]) (auto simp: simps Let_def split: if_splits)
  next
    case OP_ANCHOR_EOS
    then show ?thesis using 1(2,3) k eps by (intro go [of "k + 1" ms i]) (auto simp: simps Let_def split: if_splits)
  qed (use 1(2,3) k in \<open>auto simp: Let_def consuming_def zero_width_ops_def position_tests_def
        split: if_splits bind_splits intro!: go pstep.chr\<close>)
qed


interpretation onepass: sound_engine "onepass_engine h tx" tx
  "\<lambda>s ms. \<exists>j. match_from (vm_lookahead h tx) h tx (start_of 0 s) ms j"
proof unfold_locales
  show "reports (onepass_engine h tx) (\<lambda>s ms. \<exists>j. match_from (vm_lookahead h tx) h tx (start_of 0 s) ms j)"
    unfolding reports_def
  proof (intro allI impI)
    fix s st ms st'
    assume "onepass_engine h tx s st = Some (Some ms, st')"
    then have "onepass_run h tx 0 s (replicate (MAX_GROUPS * 2) (- 1)) = Some (True, ms)"
      by (auto simp: onepass_engine_def vm_exec_onepass_def split: bind_splits if_splits)
    from onepass_path [OF this] show "\<exists>j. match_from (vm_lookahead h tx) h tx (start_of 0 s) ms j"
      by (simp add: start_of_def)
  qed
qed

lemma onepass_exec_reports:
  assumes "program_of h r" "la_ok (vm_lookahead h tx) h tx 1 r" "re_exec_vm_onepass h tx start = Some (n, h')" "0 < n"
    "length tx < 2 ^ 31"
  shows "\<exists>s e. start \<le> s \<and> rx_match h tx r s e \<and> saved h' ! 0 = int s \<and> saved h' ! 1 = int e"
proof -
  obtain res u where x: "exec_search (onepass_engine h tx) h tx start () = Some (res, u)" "commit res h = (n, h')"
    using assms(3) by (auto simp: re_exec_vm_onepass_def split: bind_splits)
  obtain ms where ms: "res = Some ms" using x(2) assms(4) by (cases res) (auto simp: commit_def)
  have "exec_search (onepass_engine h tx) h tx start () = Some (Some ms, u)" using x(1) ms by simp
  from onepass.search_reports [OF this assms(5)]
  obtain s j where s: "start \<le> s" "match_from (vm_lookahead h tx) h tx (start_of 0 s) ms j" by blast
  have m: "rx_match h tx r s j" "ms ! 0 = int s" "ms ! 1 = int j" using program_match(1) [OF assms(1,2) s(2)] by auto
  obtain d where "path (vm_lookahead h tx) h tx (start_of 0 s) (d, ms, j)" using s(2) by (auto simp: match_from_def)
  then have "length ms = MAX_GROUPS * 2" using run_slots [OF assms(1)] by blast
  then have "copy_slots h ms sl ! 0 = ms ! 0" "copy_slots h ms sl ! 1 = ms ! 1" for sl
    using slot_count_ge [of h] slot_count_le [of h] by (simp_all add: copy_slots_def nth_append)
  then show ?thesis using s(1) m x(2) ms by (auto simp: commit_def)
qed

section \<open>The transition cache\<close>

definition cache_ok :: "ReHandle \<Rightarrow> bool" where
  "cache_ok h \<longleftrightarrow> (\<forall>k c. k * 256 + ccode c < length (dfa_trans h) \<longrightarrow>
     dfa_trans h ! (k * 256 + ccode c) \<noteq> RE_DFA_UNFILLED \<longrightarrow> dfa_result h k c = Some (dfa_trans h ! (k * 256 + ccode c)))"

text \<open>The automaton without a cache.\<close>

definition dfa_next :: "ReHandle \<Rightarrow> nat \<Rightarrow> string \<Rightarrow> nat \<Rightarrow> int option" where
  "dfa_next h state tx i =
     (if i \<ge> length tx then do {
        r \<leftarrow> re_dfa_resolve h state None;
        Some (if r = RE_DFA_ACCEPT then RE_DFA_ACCEPT else RE_DFA_DEAD) }
      else if state * 256 + ccode (tx ! i) < length (dfa_trans h) then dfa_result h state (tx ! i)
      else None)"

partial_function (option) dfa_plain :: "ReHandle \<Rightarrow> string \<Rightarrow> nat \<Rightarrow> nat \<Rightarrow> nat option option" where
  "dfa_plain h tx state i = do {
     r \<leftarrow> dfa_next h state tx i;
     if r = RE_DFA_DEAD then Some None
     else if r = RE_DFA_ACCEPT then Some (Some i)
     else dfa_plain h tx (nat r) (i + 1) }"

text \<open>The cache is the only thing a step changes, and nothing the automaton computes reads it.\<close>

definition cache_only :: "ReHandle \<Rightarrow> ReHandle \<Rightarrow> bool" where
  "cache_only h h' \<longleftrightarrow> (\<exists>tr. h' = h\<lparr>dfa_trans := tr\<rparr> \<and> length tr = length (dfa_trans h))"

lemma resolve_trans_le:
  "re_dfa_resolve h k peek = Some y \<Longrightarrow> re_dfa_resolve (h\<lparr>dfa_trans := tr\<rparr>) k peek = Some y"
proof (induction rule: re_dfa_resolve.raw_induct [rotated, consumes 1, case_names 1])
  case (1 rec h k peek y)
  then show ?case
    by (subst re_dfa_resolve.simps) (auto simp: Let_def prog_len_def split: if_splits option.splits)
qed

lemma resolve_trans: "re_dfa_resolve (h\<lparr>dfa_trans := tr\<rparr>) k peek = re_dfa_resolve h k peek"
proof (cases "re_dfa_resolve h k peek")
  case None
  show ?thesis
  proof (cases "re_dfa_resolve (h\<lparr>dfa_trans := tr\<rparr>) k peek")
    case (Some y)
    from resolve_trans_le [OF this, of "dfa_trans h"] None show ?thesis by simp
  qed (simp add: None)
qed (simp add: resolve_trans_le)

lemma match_char_trans: "match_char (h\<lparr>dfa_trans := tr\<rparr>) = match_char h"
  by (intro ext) (simp add: match_char_def class_of_def fold_case_def IGNORECASE_def DOTALL_def cong: ReOpCode.case_cong)

lemma result_trans: "dfa_result (h\<lparr>dfa_trans := tr\<rparr>) k c = dfa_result h k c"
  by (simp add: dfa_result_def resolve_trans re_dfa_instr_matches_def match_char_trans cong: if_cong)

lemma cell_eq: "k * 256 + ccode c = k' * 256 + ccode c' \<Longrightarrow> k = k' \<and> c = c'"
proof -
  assume a: "k * 256 + ccode c = k' * 256 + ccode c'"
  have "(k * 256 + ccode c) div 256 = k" "(k' * 256 + ccode c') div 256 = k'" for k k' :: nat and c c' by simp_all
  with a have "k = k'" by metis
  with a show ?thesis by (simp add: ccode_def)
qed

lemma step_cache:
  assumes "cache_ok h"
  shows "case re_dfa_step h k tx i of
      None \<Rightarrow> dfa_next h k tx i = None
    | Some (r, h') \<Rightarrow> dfa_next h k tx i = Some r \<and> cache_ok h' \<and> cache_only h h'"
proof (cases "i \<ge> length tx")
  case True
  then show ?thesis using assms by (auto simp: re_dfa_step_def dfa_next_def cache_only_def split: bind_splits intro!: exI [of _ "dfa_trans h"])
next
  case False
  let ?cell = "k * 256 + ccode (tx ! i)"
  consider "\<not> ?cell < length (dfa_trans h)" | "?cell < length (dfa_trans h)" "dfa_trans h ! ?cell \<noteq> RE_DFA_UNFILLED"
    | "?cell < length (dfa_trans h)" "dfa_trans h ! ?cell = RE_DFA_UNFILLED" by blast
  then show ?thesis
  proof cases
    case 1
    then show ?thesis using False by (simp add: re_dfa_step_def dfa_next_def Let_def)
  next
    case 2
    then have "dfa_result h k (tx ! i) = Some (dfa_trans h ! ?cell)" using assms by (simp add: cache_ok_def)
    then show ?thesis using 2 False assms
      by (auto simp: re_dfa_step_def dfa_next_def Let_def cache_only_def intro!: exI [of _ "dfa_trans h"])
  next
    case 3
    show ?thesis
    proof (cases "dfa_result h k (tx ! i)")
      case None
      then show ?thesis using 3 False by (simp add: re_dfa_step_def dfa_next_def Let_def)
    next
      case (Some r)
      let ?h = "h\<lparr>dfa_trans := (dfa_trans h)[?cell := r]\<rparr>"
      have "cache_ok ?h" unfolding cache_ok_def
      proof (intro allI impI)
        fix k' c
        assume c: "k' * 256 + ccode c < length (dfa_trans ?h)" "dfa_trans ?h ! (k' * 256 + ccode c) \<noteq> RE_DFA_UNFILLED"
        show "dfa_result ?h k' c = Some (dfa_trans ?h ! (k' * 256 + ccode c))"
        proof (cases "k' * 256 + ccode c = ?cell")
          case True
          then have "k' = k" "c = tx ! i" using cell_eq by blast+
          then show ?thesis using Some 3(1) by (simp add: result_trans)
        next
          case False
          then show ?thesis using assms c by (simp add: cache_ok_def result_trans)
        qed
      qed
      then show ?thesis using 3 False Some by (auto simp: re_dfa_step_def dfa_next_def Let_def cache_only_def)
    qed
  qed
qed

lemma next_trans: "length tr = length (dfa_trans h) \<Longrightarrow> dfa_next (h\<lparr>dfa_trans := tr\<rparr>) k tx i = dfa_next h k tx i"
  by (simp add: dfa_next_def resolve_trans result_trans)

lemma plain_past_end:
  assumes "i \<ge> length tx"
  shows "dfa_plain h tx k i = map_option (\<lambda>r. if r = RE_DFA_ACCEPT then Some i else None) (re_dfa_resolve h k None)"
  using assms by (subst dfa_plain.simps) (auto simp: dfa_next_def RE_DFA_ACCEPT_def RE_DFA_DEAD_def split: bind_splits)

lemma plain_trans: "length tr = length (dfa_trans h) \<Longrightarrow> dfa_plain (h\<lparr>dfa_trans := tr\<rparr>) tx k i = dfa_plain h tx k i"
proof (induction "length tx - i" arbitrary: k i rule: less_induct)
  case less
  show ?case
  proof (cases "length tx \<le> i")
    case True
    then show ?thesis by (simp add: plain_past_end resolve_trans)
  next
    case False
    then have "dfa_plain (h\<lparr>dfa_trans := tr\<rparr>) tx k' (i + 1) = dfa_plain h tx k' (i + 1)" for k'
      using less.hyps [of "i + 1"] less.prems by simp
    note step = this
    show ?thesis by (subst (1 2) dfa_plain.simps) (simp only: next_trans [OF less.prems] step)
  qed
qed

lemma walk_cache:
  "cache_ok h \<Longrightarrow> case dfa_walk h tx k i of
      None \<Rightarrow> dfa_plain h tx k i = None
    | Some (r, h') \<Rightarrow> dfa_plain h tx k i = Some r \<and> cache_ok h' \<and> cache_only h h'"
proof (induction "length tx + 1 - i" arbitrary: h k i rule: less_induct)
  case less
  note st = step_cache [OF less.prems, of k tx i]
  show ?case
  proof (cases "re_dfa_step h k tx i")
    case None
    then show ?thesis using st by (subst dfa_walk.simps, subst dfa_plain.simps) simp
  next
    case (Some p)
    obtain r h1 where p: "p = (r, h1)" by (cases p)
    have n: "dfa_next h k tx i = Some r" "cache_ok h1" "cache_only h h1" using st Some p by simp_all
    show ?thesis
    proof (cases "r = RE_DFA_DEAD \<or> r = RE_DFA_ACCEPT")
      case True
      then show ?thesis using n Some p by (subst dfa_walk.simps, subst dfa_plain.simps) (auto simp: RE_DFA_ACCEPT_def RE_DFA_DEAD_def)
    next
      case False
      have "\<not> length tx \<le> i" using n(1) False by (auto simp: dfa_next_def split: bind_splits if_splits)
      then have lt: "length tx + 1 - (i + 1) < length tx + 1 - i" by simp
      obtain tr where tr: "h1 = h\<lparr>dfa_trans := tr\<rparr>" "length tr = length (dfa_trans h)" using n(3) by (auto simp: cache_only_def)
      have "dfa_plain h1 tx k' i' = dfa_plain h tx k' i'" for k' i' using plain_trans [OF tr(2)] tr(1) by simp
      moreover have "cache_only h h2" if "cache_only h1 h2" for h2 using that tr by (auto simp: cache_only_def)
      moreover have "dfa_walk h tx k i = dfa_walk h1 tx (nat r) (i + 1)"
        by (subst dfa_walk.simps) (use Some p False in simp)
      moreover have "dfa_plain h tx k i = dfa_plain h tx (nat r) (i + 1)"
        by (subst dfa_plain.simps) (use n(1) False in simp)
      ultimately show ?thesis using less.hyps [OF lt n(2), of "nat r"] by (auto split: option.splits)
    qed
  qed
qed


lemma finish_cache: "finish_compile c = Some h \<Longrightarrow> dfa_eligible h \<Longrightarrow> cache_ok h"
  by (auto simp: finish_compile_def Let_def cache_ok_def split: bind_splits if_splits)

section \<open>Evaluation\<close>

text \<open>The bytes of a single character, without a walk over all 256 bytes.\<close>

lemma fold_single:
  assumes "distinct ks"
  shows "fold (\<lambda>k bs. if k = c then f k bs else bs) ks b = (if c \<in> set ks then f c b else b)"
  using assms by (induction ks arbitrary: b) auto

lemma first_byte_char:
  assumes "opcode ins = OP_CHAR" "\<not> IGNORECASE h" "k < 256"
  shows "first_byte h ins k \<longleftrightarrow> k = operand_a ins mod 256"
  using assms by (auto simp: first_byte_def match_char_def Let_def char_of_eq_iff take_bit_eq_mod)

lemma re_consuming_first_bytes_code [code]:
  "re_consuming_first_bytes h ins =
     (if opcode ins = OP_CHAR \<and> \<not> IGNORECASE h then re_byteset_set (operand_a ins mod 256) byteset_empty
      else fold (\<lambda>k bs. if first_byte h ins k then re_byteset_set k bs else bs) [0..<256] byteset_empty)"
proof (cases "opcode ins = OP_CHAR \<and> \<not> IGNORECASE h")
  case True
  have "fold (\<lambda>k bs. if first_byte h ins k then re_byteset_set k bs else bs) [0..<256] byteset_empty =
    fold (\<lambda>k bs. if k = operand_a ins mod 256 then re_byteset_set k bs else bs) [0..<256] byteset_empty"
    using first_byte_char [of ins h] True by (intro fold_cong) auto
  also have "\<dots> = re_byteset_set (operand_a ins mod 256) byteset_empty" by (simp add: fold_single)
  finally show ?thesis using True by (simp only: re_consuming_first_bytes_def if_True simp_thms)
qed (auto simp: re_consuming_first_bytes_def)

section \<open>Properties\<close>

text \<open>C6: What the one-pass executor reports is a match.  When its search returns a positive count, the
  expression matches the span in slots 0 and 1 and the span begins at or after \<open>start\<close>.  The
  conditions are those of the Pike VM: the program is the code of the expression \<open>r\<close>, shorter than
  2047 instructions and with at most 512 consuming ones, no body of a lookahead matches the empty span,
  and the text is ASCII and shorter than \<open>2 ^ 31\<close>.  The converse fails: \<open>onepass_misses_match\<close>.\<close>

theorem onepass_exec_sound:
  assumes "regex_compile pat f = Some (Inr h)" "prog_len h < MAX_INSTRS - 1"
    "prog h = mk_instr OP_SAVE 0 0 # codegen 1 r @ [mk_instr OP_SAVE 1 0, mk_instr OP_MATCH 0 0]"
    "wf_rx (n_classes h) (n_groups h) r" "looks_consume r" "few_threads h" "ascii tx" "length tx < 2 ^ 31"
    "re_exec_vm_onepass h tx start = Some (n, h')" "0 < n"
  shows "\<exists>s e. start \<le> s \<and> rx_match h tx r s e \<and> saved h' ! 0 = int s \<and> saved h' ! 1 = int e"
proof -
  have "ready h r tx"
    using program_of_compile [OF assms(1,2)] assms(3-7) by (auto simp: program_of_def ready_def)
  from onepass_exec_reports [OF _ ready_la [OF this] assms(9,10,8)] this show ?thesis by (simp add: ready_def)
qed

definition digits_pattern :: string where
  "digits_pattern = ''([0-9])-x''"

definition digits_rx :: rx where
  "digits_rx = Seq (Seq (Ins OP_SAVE 2) (Seq (Ins OP_CLASS 0) (Ins OP_SAVE 3)))
     (Seq (Ins OP_CHAR 45) (Ins OP_CHAR 120))"

lemma onepass_exec_sound_witness:
  "\<exists>h n h' s e. regex_compile digits_pattern 2 = Some (Inr h) \<and> onepass h \<and>
     re_exec_vm_onepass h ''a1-x'' 0 = Some (n, h') \<and> 0 < n \<and>
     rx_match h ''a1-x'' digits_rx s e \<and> saved h' ! 0 = int s \<and> saved h' ! 1 = int e"
proof -
  have "(case regex_compile digits_pattern 2 of Some (Inr h) \<Rightarrow>
      onepass h \<and> prog_len h < MAX_INSTRS - 1 \<and> few_threads h \<and>
      prog h = mk_instr OP_SAVE 0 0 # codegen 1 digits_rx @ [mk_instr OP_SAVE 1 0, mk_instr OP_MATCH 0 0] \<and>
      wf_rx (n_classes h) (n_groups h) digits_rx \<and>
      (case re_exec_vm_onepass h ''a1-x'' 0 of Some (n, h') \<Rightarrow> 0 < n | _ \<Rightarrow> False) | _ \<Rightarrow> False)"
    by code_simp
  then obtain h n h' where h: "regex_compile digits_pattern 2 = Some (Inr h)" "onepass h" "prog_len h < MAX_INSTRS - 1"
    "prog h = mk_instr OP_SAVE 0 0 # codegen 1 digits_rx @ [mk_instr OP_SAVE 1 0, mk_instr OP_MATCH 0 0]"
    "wf_rx (n_classes h) (n_groups h) digits_rx" "few_threads h" "re_exec_vm_onepass h ''a1-x'' 0 = Some (n, h')" "0 < n"
    by (auto split: option.splits sum.splits)
  have "looks_consume digits_rx" "ascii ''a1-x''" by code_simp+
  with onepass_exec_sound [OF h(1,3-5) _ h(6) _ _ h(7,8)] h(1,2,7,8) show ?thesis by auto
qed

text \<open>C7: The transition cache of the lazy automaton never changes an answer.  A freshly compiled
  handle has a valid cache, every run keeps it valid and changes nothing else in the handle, and a
  run with any valid cache gives the span that the automaton computes without one, even when it
  gives none.\<close>

theorem dfa_cache_transparent:
  assumes "cache_ok h"
  shows "case vm_exec_dfa h tx start of
      None \<Rightarrow> dfa_plain h tx 0 start = None
    | Some (r, h') \<Rightarrow> dfa_plain h tx 0 start = Some (map_option snd r) \<and> cache_ok h' \<and> cache_only h h'"
  using walk_cache [OF assms, of tx 0 start]
  by (cases "dfa_walk h tx 0 start") (auto simp: vm_exec_dfa_def option.map_comp comp_def option.map_ident)

lemma dfa_cache_transparent_witness:
  "\<exists>h. regex_compile ''ab'' 0 = Some (Inr h) \<and> dfa_eligible h \<and>
     (case vm_exec_dfa h ''zab'' 1 of
        None \<Rightarrow> dfa_plain h ''zab'' 0 1 = None
      | Some (r, h') \<Rightarrow> dfa_plain h ''zab'' 0 1 = Some (map_option snd r) \<and> cache_ok h' \<and> cache_only h h')"
proof -
  have "(case regex_compile ''ab'' 0 of Some (Inr h) \<Rightarrow> dfa_eligible h | _ \<Rightarrow> False)"
    by code_simp
  then obtain h where h: "regex_compile ''ab'' 0 = Some (Inr h)" "dfa_eligible h"
    by (auto split: option.splits sum.splits)
  have c: "cache_ok h" using h(1,2) finish_cache by (auto elim!: regex_compile_cases)
  show ?thesis by (intro exI conjI) (rule h(1), rule h(2), rule dfa_cache_transparent [OF c])
qed

section \<open>Where the engines differ\<close>

text \<open>The shapes of a result: the count and the first two slots.\<close>

definition outcome :: "(int \<times> ReHandle) option \<Rightarrow> (int \<times> int list) option" where
  "outcome = map_option (\<lambda>(n, h). (n, take 2 (saved h)))"

text \<open>
  The one-pass executor commits to the optional part as soon as its first byte is seen, and fails
  when the rest of it is missing; the Pike VM takes the empty alternative.
\<close>

lemma onepass_misses_match:
  "\<exists>h. regex_compile ''a(?:bc)?'' 2 = Some (Inr h) \<and> onepass h \<and>
     outcome (regex_exec h 0 ''abd'' 0) = Some (0, [- 1, - 1]) \<and>
     outcome (re_exec_vm_general h ''abd'' 0) = Some (1, [0, 1])"
proof -
  have "(case regex_compile ''a(?:bc)?'' 2 of Some (Inr h) \<Rightarrow> onepass h \<and>
     outcome (regex_exec h 0 ''abd'' 0) = Some (0, [- 1, - 1]) \<and>
     outcome (re_exec_vm_general h ''abd'' 0) = Some (1, [0, 1]) | _ \<Rightarrow> False)" by code_simp
  then show ?thesis by (auto split: option.splits sum.splits)
qed

text \<open>
  The automaton passes a leading \<open>^\<close> without testing it, also when a loop comes back to it.
\<close>

lemma dfa_ignores_anchor_in_loop:
  "\<exists>h. regex_compile ''(?:^a)+b'' 0 = Some (Inr h) \<and> dfa_eligible h \<and>
     outcome (regex_exec_dfa h 0 ''aab'' 0) = Some (1, [0, 3]) \<and>
     outcome (regex_exec h 0 ''aab'' 0) = Some (0, [- 1, - 1])"
proof -
  have "(case regex_compile ''(?:^a)+b'' 0 of Some (Inr h) \<Rightarrow> dfa_eligible h \<and>
     outcome (regex_exec_dfa h 0 ''aab'' 0) = Some (1, [0, 3]) \<and>
     outcome (regex_exec h 0 ''aab'' 0) = Some (0, [- 1, - 1]) | _ \<Rightarrow> False)" by code_simp
  then show ?thesis by (auto split: option.splits sum.splits)
qed

text \<open>A lookahead whose body can match the empty span is answered as failed when it does.\<close>

lemma lookahead_empty_body_fails:
  "\<exists>h. regex_compile ''a(?=b*)'' 0 = Some (Inr h) \<and>
     outcome (regex_exec h 0 ''ac'' 0) = Some (0, [- 1, - 1])"
proof -
  have "(case regex_compile ''a(?=b*)'' 0 of Some (Inr h) \<Rightarrow>
     outcome (regex_exec h 0 ''ac'' 0) = Some (0, [- 1, - 1]) | _ \<Rightarrow> False)" by code_simp
  then show ?thesis by (auto split: option.splits sum.splits)
qed

end
