(* ===== verification/Scanner.thy ===== *)
theory Scanner
  imports Prelude
begin

text \<open>
  The lexical analyser (\<open>src/src/scanner.c\<close>, \<open>src/src/scanner.h\<close>, \<open>src/src/token.h\<close>).  The
  source is a C string: the bytes before its NUL, which is read at the index after the last one;
  reading further is undefined.  A pointer into the source is its index.  Line and column numbers
  are natural numbers, for sources of less than 2^31 bytes.  The stack of conditional frames is
  the list of the frames in use, the innermost last; slots beyond \<open>cond_depth\<close> are never read.
\<close>

section \<open>Tokens\<close>

datatype literal_token =
   TOKEN_INT_LIT | TOKEN_FLOAT_LIT | TOKEN_STRING_LIT | TOKEN_RAWSTRING_LIT | TOKEN_RAWSTRING3_LIT
    | TOKEN_CHAR_LIT | TOKEN_TRUE | TOKEN_FALSE | TOKEN_NIL

datatype keyword_token =
   TOKEN_FN | TOKEN_RETURN | TOKEN_IF | TOKEN_ELSE | TOKEN_WHILE | TOKEN_FOR | TOKEN_IN
    | TOKEN_MATCH | TOKEN_STRUCT | TOKEN_ENUM | TOKEN_IMPL | TOKEN_MODULE | TOKEN_IMPORT
    | TOKEN_LOAD | TOKEN_SELF | TOKEN_STATIC | TOKEN_DO | TOKEN_END | TOKEN_BREAK | TOKEN_CONTINUE
    | TOKEN_EXTERN | TOKEN_AS | TOKEN_FROM | TOKEN_PUB | TOKEN_NEW | TOKEN_TRY | TOKEN_TYPE_ALIAS
    | TOKEN_BLOCK | TOKEN_TRAIT | TOKEN_COMPTIME

datatype annotation_token =
   TOKEN_AT_TIME | TOKEN_AT_BENCH | TOKEN_AT_PRINT | TOKEN_AT_INTRINSIC | TOKEN_AT

datatype type_token =
   TOKEN_TYPE_INT | TOKEN_TYPE_I8 | TOKEN_TYPE_I16 | TOKEN_TYPE_I32 | TOKEN_TYPE_I64 | TOKEN_TYPE_U8
    | TOKEN_TYPE_U16 | TOKEN_TYPE_U32 | TOKEN_TYPE_U64 | TOKEN_TYPE_F32 | TOKEN_TYPE_F64
    | TOKEN_TYPE_F16 | TOKEN_TYPE_BF16 | TOKEN_TYPE_BOOL | TOKEN_TYPE_CHAR | TOKEN_TYPE_VOID
    | TOKEN_TYPE_LIB | TOKEN_TYPE_OBJECT | TOKEN_ARRAY | TOKEN_SIMD

datatype operator_token =
   TOKEN_PLUS | TOKEN_MINUS | TOKEN_STAR | TOKEN_SLASH | TOKEN_PERCENT | TOKEN_AMP | TOKEN_PIPE
    | TOKEN_CARET | TOKEN_TILDE | TOKEN_LSHIFT | TOKEN_RSHIFT | TOKEN_AND | TOKEN_OR | TOKEN_BANG
    | TOKEN_EQ | TOKEN_NEQ | TOKEN_LT | TOKEN_GT | TOKEN_LEQ | TOKEN_GEQ

datatype assign_token =
   TOKEN_ASSIGN | TOKEN_PLUS_ASSIGN | TOKEN_MINUS_ASSIGN | TOKEN_STAR_ASSIGN | TOKEN_SLASH_ASSIGN

datatype delimiter_token =
   TOKEN_LPAREN | TOKEN_RPAREN | TOKEN_LBRACE | TOKEN_RBRACE | TOKEN_LBRACKET | TOKEN_RBRACKET
    | TOKEN_SEMICOLON | TOKEN_COLON | TOKEN_COMMA | TOKEN_DOT | TOKEN_ARROW | TOKEN_FAT_ARROW
    | TOKEN_UNDERSCORE | TOKEN_DOTDOT | TOKEN_ELLIPSIS

datatype fstring_token =
   TOKEN_FSTRING_START | TOKEN_FSTRING_TEXT | TOKEN_FSTRING_SPEC | TOKEN_FSTRING_END

datatype TokenType =
   Lit literal_token | Kw keyword_token | Ann annotation_token | Ty type_token | TOKEN_IDENTIFIER
    | Op operator_token | Asg assign_token | Del delimiter_token | FStr fstring_token | TOKEN_EOF
    | TOKEN_ERROR

text \<open>The text of a token points into the source, or is the message of an error.\<close>

datatype lexeme = In_source nat | Message string

record Token =
  ttype :: TokenType
  tstart :: lexeme
  tlength :: nat
  tline :: nat
  tcolumn :: nat

definition token_type_name :: "TokenType \<Rightarrow> string" where
  "token_type_name ty =
     (case ty of
        Lit TOKEN_INT_LIT \<Rightarrow> ''INT_LIT''
      | Lit TOKEN_FLOAT_LIT \<Rightarrow> ''FLOAT_LIT''
      | Lit TOKEN_STRING_LIT \<Rightarrow> ''STRING_LIT''
      | Lit TOKEN_RAWSTRING_LIT \<Rightarrow> ''RAWSTRING_LIT''
      | Lit TOKEN_RAWSTRING3_LIT \<Rightarrow> ''RAWSTRING3_LIT''
      | Lit TOKEN_CHAR_LIT \<Rightarrow> ''CHAR_LIT''
      | Lit TOKEN_TRUE \<Rightarrow> ''TRUE''
      | Lit TOKEN_FALSE \<Rightarrow> ''FALSE''
      | Lit TOKEN_NIL \<Rightarrow> ''NIL''
      | Kw TOKEN_FN \<Rightarrow> ''FN''
      | Kw TOKEN_RETURN \<Rightarrow> ''RETURN''
      | Kw TOKEN_IF \<Rightarrow> ''IF''
      | Kw TOKEN_ELSE \<Rightarrow> ''ELSE''
      | Kw TOKEN_WHILE \<Rightarrow> ''WHILE''
      | Kw TOKEN_FOR \<Rightarrow> ''FOR''
      | Kw TOKEN_IN \<Rightarrow> ''IN''
      | Kw TOKEN_MATCH \<Rightarrow> ''MATCH''
      | Kw TOKEN_STRUCT \<Rightarrow> ''STRUCT''
      | Kw TOKEN_ENUM \<Rightarrow> ''ENUM''
      | Kw TOKEN_IMPL \<Rightarrow> ''IMPL''
      | Kw TOKEN_MODULE \<Rightarrow> ''MODULE''
      | Kw TOKEN_IMPORT \<Rightarrow> ''IMPORT''
      | Kw TOKEN_LOAD \<Rightarrow> ''LOAD''
      | Kw TOKEN_SELF \<Rightarrow> ''SELF''
      | Kw TOKEN_DO \<Rightarrow> ''DO''
      | Kw TOKEN_END \<Rightarrow> ''END''
      | Kw TOKEN_BREAK \<Rightarrow> ''BREAK''
      | Kw TOKEN_CONTINUE \<Rightarrow> ''CONTINUE''
      | Kw TOKEN_EXTERN \<Rightarrow> ''EXTERN''
      | Kw TOKEN_AS \<Rightarrow> ''AS''
      | Kw TOKEN_FROM \<Rightarrow> ''FROM''
      | Kw TOKEN_PUB \<Rightarrow> ''PUB''
      | Kw TOKEN_NEW \<Rightarrow> ''NEW''
      | Kw TOKEN_TRY \<Rightarrow> ''TRY''
      | Kw TOKEN_TYPE_ALIAS \<Rightarrow> ''TYPE_ALIAS''
      | Kw TOKEN_BLOCK \<Rightarrow> ''BLOCK''
      | Kw TOKEN_TRAIT \<Rightarrow> ''TRAIT''
      | Kw TOKEN_COMPTIME \<Rightarrow> ''COMPTIME''
      | Ann TOKEN_AT_TIME \<Rightarrow> ''AT_TIME''
      | Ann TOKEN_AT_BENCH \<Rightarrow> ''AT_BENCH''
      | Ann TOKEN_AT_PRINT \<Rightarrow> ''AT_PRINT''
      | Ann TOKEN_AT_INTRINSIC \<Rightarrow> ''AT_INTRINSIC''
      | Ann TOKEN_AT \<Rightarrow> ''AT''
      | Ty TOKEN_TYPE_INT \<Rightarrow> ''TYPE_INT''
      | Ty TOKEN_TYPE_I8 \<Rightarrow> ''TYPE_I8''
      | Ty TOKEN_TYPE_I16 \<Rightarrow> ''TYPE_I16''
      | Ty TOKEN_TYPE_I32 \<Rightarrow> ''TYPE_I32''
      | Ty TOKEN_TYPE_I64 \<Rightarrow> ''TYPE_I64''
      | Ty TOKEN_TYPE_U8 \<Rightarrow> ''TYPE_U8''
      | Ty TOKEN_TYPE_U16 \<Rightarrow> ''TYPE_U16''
      | Ty TOKEN_TYPE_U32 \<Rightarrow> ''TYPE_U32''
      | Ty TOKEN_TYPE_U64 \<Rightarrow> ''TYPE_U64''
      | Ty TOKEN_TYPE_F32 \<Rightarrow> ''TYPE_F32''
      | Ty TOKEN_TYPE_F64 \<Rightarrow> ''TYPE_F64''
      | Ty TOKEN_TYPE_F16 \<Rightarrow> ''TYPE_F16''
      | Ty TOKEN_TYPE_BF16 \<Rightarrow> ''TYPE_BF16''
      | Ty TOKEN_TYPE_BOOL \<Rightarrow> ''TYPE_BOOL''
      | Ty TOKEN_TYPE_CHAR \<Rightarrow> ''TYPE_CHAR''
      | Ty TOKEN_TYPE_VOID \<Rightarrow> ''TYPE_VOID''
      | Ty TOKEN_TYPE_LIB \<Rightarrow> ''TYPE_LIB''
      | Ty TOKEN_TYPE_OBJECT \<Rightarrow> ''TYPE_OBJECT''
      | Ty TOKEN_ARRAY \<Rightarrow> ''ARRAY''
      | Ty TOKEN_SIMD \<Rightarrow> ''SIMD''
      | TOKEN_IDENTIFIER \<Rightarrow> ''IDENTIFIER''
      | Op TOKEN_PLUS \<Rightarrow> ''PLUS''
      | Op TOKEN_MINUS \<Rightarrow> ''MINUS''
      | Op TOKEN_STAR \<Rightarrow> ''STAR''
      | Op TOKEN_SLASH \<Rightarrow> ''SLASH''
      | Op TOKEN_PERCENT \<Rightarrow> ''PERCENT''
      | Op TOKEN_AMP \<Rightarrow> ''AMP''
      | Op TOKEN_PIPE \<Rightarrow> ''PIPE''
      | Op TOKEN_CARET \<Rightarrow> ''CARET''
      | Op TOKEN_TILDE \<Rightarrow> ''TILDE''
      | Op TOKEN_LSHIFT \<Rightarrow> ''LSHIFT''
      | Op TOKEN_RSHIFT \<Rightarrow> ''RSHIFT''
      | Op TOKEN_AND \<Rightarrow> ''AND''
      | Op TOKEN_OR \<Rightarrow> ''OR''
      | Op TOKEN_BANG \<Rightarrow> ''BANG''
      | Op TOKEN_EQ \<Rightarrow> ''EQ''
      | Op TOKEN_NEQ \<Rightarrow> ''NEQ''
      | Op TOKEN_LT \<Rightarrow> ''LT''
      | Op TOKEN_GT \<Rightarrow> ''GT''
      | Op TOKEN_LEQ \<Rightarrow> ''LEQ''
      | Op TOKEN_GEQ \<Rightarrow> ''GEQ''
      | Asg TOKEN_ASSIGN \<Rightarrow> ''ASSIGN''
      | Asg TOKEN_PLUS_ASSIGN \<Rightarrow> ''PLUS_ASSIGN''
      | Asg TOKEN_MINUS_ASSIGN \<Rightarrow> ''MINUS_ASSIGN''
      | Asg TOKEN_STAR_ASSIGN \<Rightarrow> ''STAR_ASSIGN''
      | Asg TOKEN_SLASH_ASSIGN \<Rightarrow> ''SLASH_ASSIGN''
      | Del TOKEN_LPAREN \<Rightarrow> ''LPAREN''
      | Del TOKEN_RPAREN \<Rightarrow> ''RPAREN''
      | Del TOKEN_LBRACE \<Rightarrow> ''LBRACE''
      | Del TOKEN_RBRACE \<Rightarrow> ''RBRACE''
      | Del TOKEN_LBRACKET \<Rightarrow> ''LBRACKET''
      | Del TOKEN_RBRACKET \<Rightarrow> ''RBRACKET''
      | Del TOKEN_SEMICOLON \<Rightarrow> ''SEMICOLON''
      | Del TOKEN_COLON \<Rightarrow> ''COLON''
      | Del TOKEN_COMMA \<Rightarrow> ''COMMA''
      | Del TOKEN_DOT \<Rightarrow> ''DOT''
      | Del TOKEN_ARROW \<Rightarrow> ''ARROW''
      | Del TOKEN_FAT_ARROW \<Rightarrow> ''FAT_ARROW''
      | Del TOKEN_UNDERSCORE \<Rightarrow> ''UNDERSCORE''
      | Del TOKEN_DOTDOT \<Rightarrow> ''DOTDOT''
      | Del TOKEN_ELLIPSIS \<Rightarrow> ''ELLIPSIS''
      | FStr TOKEN_FSTRING_START \<Rightarrow> ''FSTRING_START''
      | FStr TOKEN_FSTRING_TEXT \<Rightarrow> ''FSTRING_TEXT''
      | FStr TOKEN_FSTRING_END \<Rightarrow> ''FSTRING_END''
      | TOKEN_EOF \<Rightarrow> ''EOF''
      | TOKEN_ERROR \<Rightarrow> ''ERROR''
      | _ \<Rightarrow> ''UNKNOWN'')"

section \<open>The scanner state\<close>

record cond_frame =
  active :: bool
  parent_active :: bool
  branch_taken :: bool

record Scanner =
  src :: string
  tok_start :: nat
  cur :: nat
  line :: nat
  column :: nat
  start_column :: nat
  in_fstring :: bool
  fstring_brace_depth :: nat
  cond_stack :: "cond_frame list"

definition COND_MAX :: nat where "COND_MAX = 16"

definition scanner_init :: "string \<Rightarrow> Scanner" where
  "scanner_init source =
     \<lparr>src = source, tok_start = 0, cur = 0, line = 1, column = 1, start_column = 1,
      in_fstring = False, fstring_brace_depth = 0, cond_stack = []\<rparr>"

section \<open>Helpers\<close>

text \<open>\<open>s->current[k]\<close>.\<close>

definition char_at :: "Scanner \<Rightarrow> nat \<Rightarrow> char option" where
  "char_at s k =
     (if cur s + k < length (src s) then Some (src s ! (cur s + k))
      else if cur s + k = length (src s) then Some NUL else None)"

definition peek :: "Scanner \<Rightarrow> char option" where
  "peek s = char_at s 0"

definition is_at_end :: "Scanner \<Rightarrow> bool option" where
  "is_at_end s = do { c \<leftarrow> peek s; Some (c = NUL) }"

text \<open>The position moved past one byte that was read.\<close>

definition step_byte :: "Scanner \<Rightarrow> Scanner" where
  "step_byte s = s\<lparr>cur := cur s + 1, column := column s + 1\<rparr>"

definition advance :: "Scanner \<Rightarrow> (char \<times> Scanner) option" where
  "advance s = do { c \<leftarrow> peek s; Some (c, step_byte s) }"

text \<open>\<open>advance\<close> where the byte is not used.\<close>

definition skip :: "Scanner \<Rightarrow> Scanner option" where
  "skip s = do { (c, s) \<leftarrow> advance s; Some s }"

definition newline :: "Scanner \<Rightarrow> Scanner" where
  "newline s = s\<lparr>line := line s + 1, cur := cur s + 1, column := 1\<rparr>"

definition peek_next :: "Scanner \<Rightarrow> char option" where
  "peek_next s = do { e \<leftarrow> is_at_end s; if e then Some NUL else char_at s 1 }"

definition match_char2 :: "Scanner \<Rightarrow> char \<Rightarrow> (bool \<times> Scanner) option" where
  "match_char2 s expected = do {
     e \<leftarrow> is_at_end s;
     if e then Some (False, s)
     else do {
       c \<leftarrow> peek s;
       if c \<noteq> expected then Some (False, s) else Some (True, step_byte s) } }"

definition make_token :: "Scanner \<Rightarrow> TokenType \<Rightarrow> Token" where
  "make_token s ty =
     \<lparr>ttype = ty, tstart = In_source (tok_start s), tlength = cur s - tok_start s,
      tline = line s, tcolumn = start_column s\<rparr>"

definition error_token :: "Scanner \<Rightarrow> string \<Rightarrow> Token" where
  "error_token s msg =
     \<lparr>ttype = TOKEN_ERROR, tstart = Message msg, tlength = length msg, tline = line s, tcolumn = start_column s\<rparr>"

text \<open>The loop \<open>while (P(peek(s))) advance(s)\<close>.\<close>

function skip_while :: "(char \<Rightarrow> bool) \<Rightarrow> Scanner \<Rightarrow> Scanner option" where
  "skip_while P s =
     (case peek s of
        None \<Rightarrow> None
      | Some c \<Rightarrow> if P c then skip_while P (step_byte s) else Some s)"
  by auto
termination
  by (relation "measure (\<lambda>(P, s). length (src s) + 1 - cur s)")
    (auto simp: peek_def char_at_def step_byte_def split: if_splits)

declare skip_while.simps [simp del]

section \<open>Whitespace and comments\<close>

text \<open>The body of a block comment, from the depth reached; the result is the depth at the end.\<close>

function block_comment :: "nat \<Rightarrow> Scanner \<Rightarrow> (nat \<times> Scanner) option" where
  "block_comment depth s =
     (case peek s of
        None \<Rightarrow> None
      | Some c \<Rightarrow>
          if c = NUL \<or> depth = 0 then Some (depth, s)
          else if c = CHR ''/'' \<and> peek_next s = Some (CHR ''*'') then block_comment (depth + 1) (step_byte (step_byte s))
          else if c = CHR ''*'' \<and> peek_next s = Some (CHR ''/'') then block_comment (depth - 1) (step_byte (step_byte s))
          else if c = CHR 0x0A then block_comment depth (newline s)
          else block_comment depth (step_byte s))"
  by auto
termination
  by (relation "measure (\<lambda>(d, s). length (src s) + 1 - cur s)")
    (auto simp: peek_def char_at_def step_byte_def newline_def split: if_splits)

declare block_comment.simps [simp del]

partial_function (option) skip_whitespace :: "Scanner \<Rightarrow> (bool \<times> Scanner) option" where
  "skip_whitespace s = do {
     c \<leftarrow> peek s;
     if c = CHR '' '' \<or> c = CHR 0x09 \<or> c = CHR 0x0D then skip_whitespace (step_byte s)
     else if c = CHR 0x0A then skip_whitespace (newline s)
     else if c = CHR ''/'' then do {
       d \<leftarrow> peek_next s;
       if d = CHR ''/'' then do {
         s \<leftarrow> skip_while (\<lambda>c. c \<noteq> NUL \<and> c \<noteq> CHR 0x0A) s;
         skip_whitespace s }
       else if d = CHR ''*'' then do {
         (depth, s) \<leftarrow> block_comment 1 (step_byte (step_byte s));
         if depth > 0 then Some (False, s) else skip_whitespace s }
       else Some (True, s) }
     else Some (True, s) }"

declare skip_whitespace.simps [code]

section \<open>Keywords\<close>

text \<open>The table, with the lengths the code keeps beside the names.\<close>

definition keyword_table :: "(string \<times> TokenType) list" where
  "keyword_table = [
     (''Block'', Kw TOKEN_BLOCK),
     (''Simd'', Ty TOKEN_SIMD),
     (''array'', Ty TOKEN_ARRAY),
     (''as'', Kw TOKEN_AS),
     (''bf16'', Ty TOKEN_TYPE_BF16),
     (''bool'', Ty TOKEN_TYPE_BOOL),
     (''break'', Kw TOKEN_BREAK),
     (''char'', Ty TOKEN_TYPE_CHAR),
     (''comptime'', Kw TOKEN_COMPTIME),
     (''continue'', Kw TOKEN_CONTINUE),
     (''def'', Kw TOKEN_FN),
     (''do'', Kw TOKEN_DO),
     (''else'', Kw TOKEN_ELSE),
     (''end'', Kw TOKEN_END),
     (''enum'', Kw TOKEN_ENUM),
     (''extern'', Kw TOKEN_EXTERN),
     (''f16'', Ty TOKEN_TYPE_F16),
     (''f32'', Ty TOKEN_TYPE_F32),
     (''f64'', Ty TOKEN_TYPE_F64),
     (''false'', Lit TOKEN_FALSE),
     (''for'', Kw TOKEN_FOR),
     (''from'', Kw TOKEN_FROM),
     (''i16'', Ty TOKEN_TYPE_I16),
     (''i32'', Ty TOKEN_TYPE_I32),
     (''i64'', Ty TOKEN_TYPE_I64),
     (''i8'', Ty TOKEN_TYPE_I8),
     (''if'', Kw TOKEN_IF),
     (''import'', Kw TOKEN_IMPORT),
     (''in'', Kw TOKEN_IN),
     (''int'', Ty TOKEN_TYPE_INT),
     (''interface'', Kw TOKEN_TRAIT),
     (''lib'', Ty TOKEN_TYPE_LIB),
     (''load'', Kw TOKEN_LOAD),
     (''match'', Kw TOKEN_MATCH),
     (''methods'', Kw TOKEN_IMPL),
     (''module'', Kw TOKEN_MODULE),
     (''new'', Kw TOKEN_NEW),
     (''nil'', Lit TOKEN_NIL),
     (''object'', Ty TOKEN_TYPE_OBJECT),
     (''public'', Kw TOKEN_PUB),
     (''return'', Kw TOKEN_RETURN),
     (''self'', Kw TOKEN_SELF),
     (''static'', Kw TOKEN_STATIC),
     (''struct'', Kw TOKEN_STRUCT),
     (''true'', Lit TOKEN_TRUE),
     (''try'', Kw TOKEN_TRY),
     (''type'', Kw TOKEN_TYPE_ALIAS),
     (''u16'', Ty TOKEN_TYPE_U16),
     (''u32'', Ty TOKEN_TYPE_U32),
     (''u64'', Ty TOKEN_TYPE_U64),
     (''u8'', Ty TOKEN_TYPE_U8),
     (''void'', Ty TOKEN_TYPE_VOID),
     (''while'', Kw TOKEN_WHILE)]"

text \<open>\<open>strncmp\<close> of two C strings: the sign decides.\<close>

fun strncmp :: "string \<Rightarrow> string \<Rightarrow> nat \<Rightarrow> int" where
  "strncmp a b 0 = 0"
| "strncmp a b (Suc n) =
     (let x = (case a of [] \<Rightarrow> 0 | c # cs \<Rightarrow> ccode c); y = (case b of [] \<Rightarrow> 0 | c # cs \<Rightarrow> ccode c)
      in if x \<noteq> y then int x - int y else if x = 0 then 0 else strncmp (tl a) (tl b) n)"

function keyword_search :: "string \<Rightarrow> nat \<Rightarrow> int \<Rightarrow> int \<Rightarrow> TokenType" where
  "keyword_search w n lo hi =
     (if lo \<le> hi then
        (let mid = (lo + hi) div 2;
             (name, ty) = keyword_table ! nat mid;
             cmp = strncmp w name n
         in if cmp = 0 then
              (if n < length name then keyword_search w n lo (mid - 1)
               else if n > length name then keyword_search w n (mid + 1) hi
               else ty)
            else if cmp < 0 then keyword_search w n lo (mid - 1)
            else keyword_search w n (mid + 1) hi)
      else TOKEN_IDENTIFIER)"
  by auto
termination by (relation "measure (\<lambda>(w, n, lo, hi). nat (hi + 1 - lo))") auto

declare keyword_search.simps [simp del]

text \<open>\<open>start\<close> points into the source; the table is searched from end to end.\<close>

definition check_keyword :: "string \<Rightarrow> nat \<Rightarrow> TokenType" where
  "check_keyword start n = keyword_search start n 0 (int (length keyword_table) - 1)"

section \<open>Number literals\<close>

text \<open>\<open>s->start[0]\<close>; the token has at least one byte.\<close>

definition start_char :: "Scanner \<Rightarrow> char" where
  "start_char s = (if tok_start s < length (src s) then src s ! tok_start s else NUL)"

definition error_at :: "Scanner \<Rightarrow> string \<Rightarrow> (Token \<times> Scanner) option" where
  "error_at s msg = Some (error_token s msg, s)"

definition token_at :: "Scanner \<Rightarrow> TokenType \<Rightarrow> (Token \<times> Scanner) option" where
  "token_at s ty = Some (make_token s ty, s)"

definition scan_fraction :: "Scanner \<Rightarrow> (bool \<times> Scanner) option" where
  "scan_fraction s = do {
     c \<leftarrow> peek s;
     d \<leftarrow> (if c = CHR ''.'' then peek_next s else Some NUL);
     if c = CHR ''.'' \<and> isdigit d then do {
       s \<leftarrow> skip_while isdigit (step_byte s);
       Some (True, s) }
     else Some (False, s) }"

definition scan_decimal :: "Scanner \<Rightarrow> (Token \<times> Scanner) option" where
  "scan_decimal s = do {
     s \<leftarrow> skip_while isdigit s;
     (is_float, s) \<leftarrow> scan_fraction s;
     c \<leftarrow> peek s;
     if c = CHR ''e'' \<or> c = CHR ''E'' then do {
       s \<leftarrow> skip s;
       c \<leftarrow> peek s;
       s \<leftarrow> (if c = CHR ''+'' \<or> c = CHR ''-'' then skip s else Some s);
       c \<leftarrow> peek s;
       if \<not> isdigit c then error_at s ''invalid number: expected digit after exponent''
       else do {
         s \<leftarrow> skip_while isdigit s;
         token_at s (Lit TOKEN_FLOAT_LIT) } }
     else token_at s (Lit (if is_float then TOKEN_FLOAT_LIT else TOKEN_INT_LIT)) }"

definition scan_number :: "Scanner \<Rightarrow> (Token \<times> Scanner) option" where
  "scan_number s = do {
     c \<leftarrow> peek s;
     if start_char s = CHR ''0'' \<and> cur s - tok_start s = 1 \<and> (c = CHR ''x'' \<or> c = CHR ''X'') then do {
       s \<leftarrow> skip s;
       c \<leftarrow> peek s;
       if \<not> isxdigit c then error_at s ''invalid hex literal''
       else do { s \<leftarrow> skip_while isxdigit s; token_at s (Lit TOKEN_INT_LIT) } }
     else if start_char s = CHR ''0'' \<and> cur s - tok_start s = 1 \<and> (c = CHR ''b'' \<or> c = CHR ''B'') then do {
       s \<leftarrow> skip s;
       c \<leftarrow> peek s;
       if c \<noteq> CHR ''0'' \<and> c \<noteq> CHR ''1'' then error_at s ''invalid binary literal''
       else do { s \<leftarrow> skip_while (\<lambda>c. c = CHR ''0'' \<or> c = CHR ''1'') s; token_at s (Lit TOKEN_INT_LIT) } }
     else scan_decimal s }"

section \<open>String and char literals\<close>

text \<open>Messages hold quotation marks, which are written by their code.\<close>

definition raw_message :: "char \<Rightarrow> nat \<Rightarrow> string" where
  "raw_message q n =
     ''unterminated raw string (started with r'' @ replicate n (if q = CHR 0x22 then CHR 0x22 else CHR 0x27) @ '')''"

partial_function (option) scan_raw_string3 :: "Scanner \<Rightarrow> char \<Rightarrow> (Token \<times> Scanner) option" where
  "scan_raw_string3 s quote = do {
     c \<leftarrow> peek s;
     if c = NUL then error_at s (raw_message quote 3)
     else if c = CHR 0x0A then scan_raw_string3 (newline s) quote
     else do {
       d \<leftarrow> (if c = quote then peek_next s else Some NUL);
       e \<leftarrow> (if c = quote \<and> d = quote then char_at s 2 else Some NUL);
       if c = quote \<and> d = quote \<and> e = quote
       then token_at (step_byte (step_byte (step_byte s))) (Lit TOKEN_RAWSTRING3_LIT)
       else scan_raw_string3 (step_byte s) quote } }"

declare scan_raw_string3.simps [code]

partial_function (option) scan_raw_string :: "Scanner \<Rightarrow> char \<Rightarrow> (Token \<times> Scanner) option" where
  "scan_raw_string s quote = do {
     c \<leftarrow> peek s;
     if c = NUL then error_at s (raw_message quote 1)
     else if c = quote then token_at (step_byte s) (Lit TOKEN_RAWSTRING_LIT)
     else if c = CHR 0x0A then scan_raw_string (newline s) quote
     else scan_raw_string (step_byte s) quote }"

declare scan_raw_string.simps [code]

definition simple_escapes :: string where
  "simple_escapes = [CHR ''n'', CHR ''t'', CHR 0x5C, CHR 0x22, CHR ''0'', CHR ''r'', CHR ''a'', CHR ''b'']"

partial_function (option) scan_string :: "Scanner \<Rightarrow> (Token \<times> Scanner) option" where
  "scan_string s = do {
     c \<leftarrow> peek s;
     if c = NUL then error_at s ''unterminated string''
     else if c = CHR 0x22 then token_at (step_byte s) (Lit TOKEN_STRING_LIT)
     else if c = CHR 0x0A then scan_string (newline s)
     else if c = CHR 0x5C then do {
       s \<leftarrow> skip s;
       esc \<leftarrow> peek s;
       if esc = NUL then error_at s ''unterminated string escape''
       else if esc \<in> set simple_escapes then scan_string (step_byte s)
       else if esc = CHR ''x'' then do {
         s \<leftarrow> skip s;
         a \<leftarrow> peek s;
         b \<leftarrow> peek_next s;
         if \<not> isxdigit a \<or> \<not> isxdigit b then error_at s (''invalid '' @ [CHR 0x5C] @ ''xHH escape'')
         else scan_string (step_byte (step_byte s)) }
       else error_at s ''unknown escape sequence'' }
     else scan_string (step_byte s) }"

declare scan_string.simps [code]

definition scan_char :: "Scanner \<Rightarrow> (Token \<times> Scanner) option" where
  "scan_char s = do {
     c \<leftarrow> peek s;
     if c = NUL then error_at s ''unterminated char literal''
     else do {
       s1 \<leftarrow> skip s;
       d \<leftarrow> peek s1;
       if c = CHR 0x5C \<and> d = NUL then error_at s1 ''unterminated char escape''
       else do {
         s \<leftarrow> (if c = CHR 0x5C then skip s1 else Some s1);
         e \<leftarrow> peek s;
         if e \<noteq> CHR 0x27 then error_at s ''unterminated char literal''
         else token_at (step_byte s) (Lit TOKEN_CHAR_LIT) } } }"

section \<open>Identifiers\<close>

text \<open>The text from the start of the token on, as a C string.\<close>

definition start_text :: "Scanner \<Rightarrow> string" where
  "start_text s = drop (tok_start s) (src s)"

definition is_ident_char :: "char \<Rightarrow> bool" where
  "is_ident_char c \<longleftrightarrow> isalnum c \<or> c = CHR ''_''"

definition scan_identifier :: "Scanner \<Rightarrow> (Token \<times> Scanner) option" where
  "scan_identifier s = do {
     s \<leftarrow> skip_while is_ident_char s;
     let n = cur s - tok_start s;
     c \<leftarrow> peek s;
     if n = 1 \<and> start_char s = CHR ''_'' then token_at s (Del TOKEN_UNDERSCORE)
     else if n = 1 \<and> start_char s = CHR ''r'' \<and> (c = CHR 0x22 \<or> c = CHR 0x27) then do {
       s \<leftarrow> skip s;
       a \<leftarrow> peek s;
       b \<leftarrow> (if a = c then peek_next s else Some NUL);
       if a = c \<and> b = c then scan_raw_string3 (step_byte (step_byte s)) c
       else scan_raw_string s c }
     else if n = 1 \<and> start_char s = CHR ''f'' \<and> c = CHR 0x22 then do {
       s \<leftarrow> skip s;
       token_at (s\<lparr>in_fstring := True, fstring_brace_depth := 0\<rparr>) (FStr TOKEN_FSTRING_START) }
     else
       (let ty = check_keyword (start_text s) n
        in if ty = TOKEN_IDENTIFIER \<and> c = CHR ''?'' then token_at (step_byte s) ty
           else if ty = TOKEN_IDENTIFIER \<and> c = CHR ''!'' then do {
             d \<leftarrow> peek_next s;
             token_at (if d \<noteq> CHR ''='' then step_byte s else s) ty }
           else token_at s ty) }"

section \<open>Format strings\<close>

partial_function (option) fstring_run :: "Scanner \<Rightarrow> Scanner option" where
  "fstring_run s = do {
     c \<leftarrow> peek s;
     if c = NUL \<or> c = CHR ''{'' \<or> c = CHR 0x22 then Some s
     else if c = CHR 0x5C then do {
       s \<leftarrow> skip s;
       e \<leftarrow> is_at_end s;
       s \<leftarrow> (if e then Some s else skip s);
       fstring_run s }
     else if c = CHR 0x0A then fstring_run (newline s)
     else fstring_run (step_byte s) }"

declare fstring_run.simps [code]

text \<open>
  At the end of the source with no text left, the code takes the \<open>{\<close> branch and moves past the NUL.
\<close>

definition scan_fstring_text :: "Scanner \<Rightarrow> (Token \<times> Scanner) option" where
  "scan_fstring_text s = do {
     let s = s\<lparr>tok_start := cur s, start_column := column s\<rparr>;
     s \<leftarrow> fstring_run s;
     if cur s > tok_start s then token_at s (FStr TOKEN_FSTRING_TEXT)
     else do {
       c \<leftarrow> peek s;
       if c = CHR 0x22 then do {
         s \<leftarrow> skip s;
         token_at (s\<lparr>in_fstring := False\<rparr>) (FStr TOKEN_FSTRING_END) }
       else do {
         s \<leftarrow> skip s;
         token_at (s\<lparr>fstring_brace_depth := 1\<rparr>) (Del TOKEN_LBRACE) } } }"

section \<open>Conditional compilation\<close>

datatype platform = WIN32 | APPLE | OTHER_PLATFORM

definition cond_platform_name :: "platform \<Rightarrow> string" where
  "cond_platform_name pf = (case pf of WIN32 \<Rightarrow> ''WINDOWS'' | APPLE \<Rightarrow> ''MACOS'' | OTHER_PLATFORM \<Rightarrow> ''LINUX'')"

definition cond_is_emitting :: "Scanner \<Rightarrow> bool" where
  "cond_is_emitting s = (cond_stack s = [] \<or> active (last (cond_stack s)))"

text \<open>The word is clamped to the buffer of 32 bytes with its NUL.\<close>

definition read_directive_word :: "Scanner \<Rightarrow> nat \<Rightarrow> (string \<times> Scanner) option" where
  "read_directive_word s max_len = do {
     s' \<leftarrow> skip_while is_ident_char s;
     Some (take (max_len - 1) (drop (cur s) (take (cur s') (src s))), s') }"

definition skip_inline_ws :: "Scanner \<Rightarrow> Scanner option" where
  "skip_inline_ws s = skip_while (\<lambda>c. c = CHR '' '' \<or> c = CHR 0x09) s"

text \<open>The result is \<open>had_error\<close> and the state; the caller ignores the other result of the code.\<close>

definition directive_if :: "platform \<Rightarrow> Scanner \<Rightarrow> (bool \<times> Scanner) option" where
  "directive_if pf s = do {
     s \<leftarrow> skip_inline_ws s;
     (arg, s) \<leftarrow> read_directive_word s 32;
     if arg = [] \<or> length (cond_stack s) \<ge> COND_MAX then Some (True, s)
     else
       (let parent_emit = cond_is_emitting s;
            act = (parent_emit \<and> arg = cond_platform_name pf)
        in Some (False, s\<lparr>cond_stack := cond_stack s @
                   [\<lparr>active = act, parent_active = parent_emit, branch_taken = act\<rparr>]\<rparr>)) }"

definition directive_else :: "Scanner \<Rightarrow> bool \<times> Scanner" where
  "directive_else s =
     (if cond_stack s = [] then (True, s)
      else
        (let top = last (cond_stack s);
             act = (parent_active top \<and> \<not> branch_taken top);
             top' = top\<lparr>active := act, branch_taken := branch_taken top \<or> act\<rparr>
         in (False, s\<lparr>cond_stack := butlast (cond_stack s) @ [top']\<rparr>)))"

definition directive_end :: "Scanner \<Rightarrow> bool \<times> Scanner" where
  "directive_end s =
     (if cond_stack s = [] then (True, s) else (False, s\<lparr>cond_stack := butlast (cond_stack s)\<rparr>))"

definition process_directive :: "platform \<Rightarrow> Scanner \<Rightarrow> (bool \<times> Scanner) option" where
  "process_directive pf s = do {
     s \<leftarrow> skip s;
     (word, s) \<leftarrow> read_directive_word s 32;
     if word = [] then Some (True, s)
     else if word = ''if'' then directive_if pf s
     else if word = ''else'' then Some (directive_else s)
     else if word = ''end'' \<or> word = ''endif'' then Some (directive_end s)
     else do {
       s \<leftarrow> skip_while (\<lambda>c. c \<noteq> NUL \<and> c \<noteq> CHR 0x0A) s;
       Some (True, s) } }"

section \<open>One token\<close>

definition start_here :: "Scanner \<Rightarrow> Scanner" where
  "start_here s = s\<lparr>tok_start := cur s, start_column := column s\<rparr>"

text \<open>A format specifier, entered at its colon.\<close>

definition scan_fstring_spec :: "Scanner \<Rightarrow> (Token \<times> Scanner) option" where
  "scan_fstring_spec s = do {
     s \<leftarrow> skip s;
     let s = start_here s;
     s \<leftarrow> skip_while (\<lambda>c. c \<noteq> NUL \<and> c \<noteq> CHR ''}'' \<and> c \<noteq> CHR 0x22) s;
     let spec = make_token s (FStr TOKEN_FSTRING_SPEC);
     c \<leftarrow> peek s;
     if c = CHR ''}'' then do {
       s \<leftarrow> skip s;
       Some (spec, s\<lparr>fstring_brace_depth := 0\<rparr>) }
     else Some (spec, s) }"

text \<open>One of several second characters, tried in order.\<close>

fun with_second :: "Scanner \<Rightarrow> (char \<times> TokenType) list \<Rightarrow> TokenType \<Rightarrow> (Token \<times> Scanner) option" where
  "with_second s [] ty = token_at s ty"
| "with_second s ((c, ty2) # rest) ty = do {
     (b, s) \<leftarrow> match_char2 s c;
     if b then token_at s ty2 else with_second s rest ty }"

definition scan_dots :: "Scanner \<Rightarrow> (Token \<times> Scanner) option" where
  "scan_dots s = do {
     (b, s) \<leftarrow> match_char2 s (CHR ''.'');
     if b then do {
       (b, s) \<leftarrow> match_char2 s (CHR ''.'');
       token_at s (Del (if b then TOKEN_ELLIPSIS else TOKEN_DOTDOT)) }
     else token_at s (Del TOKEN_DOT) }"

text \<open>The word \<open>w\<close> stands at the position and ends there as a word.\<close>

definition word_here :: "Scanner \<Rightarrow> string \<Rightarrow> bool option" where
  "word_here s w =
     (if strncmp (drop (cur s) (src s)) w (length w) = 0
      then do { c \<leftarrow> char_at s (length w); Some (\<not> is_ident_char c) } else Some False)"

fun at_words :: "Scanner \<Rightarrow> (string \<times> TokenType) list \<Rightarrow> (Token \<times> Scanner) option" where
  "at_words s [] = do {
     c \<leftarrow> peek s;
     if isalpha c \<or> c = CHR ''_'' then token_at s (Ann TOKEN_AT)
     else error_at s ''unknown annotation (expected @name, e.g. @derive)'' }"
| "at_words s ((w, ty) # rest) = do {
     b \<leftarrow> word_here s w;
     if b then token_at (s\<lparr>cur := cur s + length w, column := column s + length w\<rparr>) ty
     else at_words s rest }"

definition at_table :: "(string \<times> TokenType) list" where
  "at_table =
     [(''time'', Ann TOKEN_AT_TIME), (''bench'', Ann TOKEN_AT_BENCH), (''print'', Ann TOKEN_AT_PRINT),
      (''take'', Ann TOKEN_AT_INTRINSIC), (''dispose'', Ann TOKEN_AT_INTRINSIC),
      (''dup'', Ann TOKEN_AT_INTRINSIC), (''move'', Ann TOKEN_AT_INTRINSIC)]"

definition single_table :: "(char \<times> TokenType) list" where
  "single_table =
     [(CHR ''('', Del TOKEN_LPAREN), (CHR '')'', Del TOKEN_RPAREN), (CHR ''{'', Del TOKEN_LBRACE),
      (CHR ''}'', Del TOKEN_RBRACE), (CHR ''['', Del TOKEN_LBRACKET), (CHR '']'', Del TOKEN_RBRACKET),
      (CHR '';'', Del TOKEN_SEMICOLON), (CHR '','', Del TOKEN_COMMA), (CHR 0x7E, Op TOKEN_TILDE),
      (CHR '':'', Del TOKEN_COLON), (CHR ''%'', Op TOKEN_PERCENT), (CHR ''^'', Op TOKEN_CARET)]"

definition double_table :: "(char \<times> (char \<times> TokenType) list \<times> TokenType) list" where
  "double_table =
     [(CHR ''+'', [(CHR ''='', Asg TOKEN_PLUS_ASSIGN)], Op TOKEN_PLUS),
      (CHR ''-'', [(CHR ''>'', Del TOKEN_ARROW), (CHR ''='', Asg TOKEN_MINUS_ASSIGN)], Op TOKEN_MINUS),
      (CHR ''*'', [(CHR ''='', Asg TOKEN_STAR_ASSIGN)], Op TOKEN_STAR),
      (CHR ''/'', [(CHR ''='', Asg TOKEN_SLASH_ASSIGN)], Op TOKEN_SLASH),
      (CHR ''&'', [(CHR ''&'', Op TOKEN_AND)], Op TOKEN_AMP),
      (CHR ''|'', [(CHR ''|'', Op TOKEN_OR)], Op TOKEN_PIPE),
      (CHR ''!'', [(CHR ''='', Op TOKEN_NEQ)], Op TOKEN_BANG),
      (CHR ''='', [(CHR ''='', Op TOKEN_EQ), (CHR ''>'', Del TOKEN_FAT_ARROW)], Asg TOKEN_ASSIGN),
      (CHR ''<'', [(CHR ''<'', Op TOKEN_LSHIFT), (CHR ''='', Op TOKEN_LEQ)], Op TOKEN_LT),
      (CHR ''>'', [(CHR ''>'', Op TOKEN_RSHIFT), (CHR ''='', Op TOKEN_GEQ)], Op TOKEN_GT)]"

text \<open>The dispatch on the first byte \<open>c\<close>, which has been consumed.\<close>

definition scan_lexeme :: "char \<Rightarrow> Scanner \<Rightarrow> (Token \<times> Scanner) option" where
  "scan_lexeme c s =
     (if isalpha c \<or> c = CHR ''_'' then scan_identifier s
      else if isdigit c then scan_number s
      else if c = CHR 0x22 then scan_string s
      else if c = CHR 0x27 then scan_char s
      else if c = CHR ''.'' then scan_dots s
      else if c = CHR ''@'' then at_words s at_table
      else case map_of single_table c of
        Some ty \<Rightarrow> token_at s ty
      | None \<Rightarrow> (case map_of double_table c of
          Some (seconds, ty) \<Rightarrow> with_second s seconds ty
        | None \<Rightarrow> error_at s ''unexpected character''))"

definition scanner_next_inner :: "Scanner \<Rightarrow> (Token \<times> Scanner) option" where
  "scanner_next_inner s =
     (if in_fstring s \<and> fstring_brace_depth s = 0 then scan_fstring_text s
      else do {
        (ok, s) \<leftarrow> skip_whitespace s;
        if \<not> ok then error_at s ''unterminated block comment''
        else do {
          let s = start_here s;
          c \<leftarrow> peek s;
          if c = NUL then token_at s TOKEN_EOF
          else if in_fstring s \<and> fstring_brace_depth s = 1 \<and> c = CHR '':'' then scan_fstring_spec s
          else do {
            let s = (if in_fstring s \<and> fstring_brace_depth s > 0
                     then if c = CHR ''{'' then s\<lparr>fstring_brace_depth := fstring_brace_depth s + 1\<rparr>
                          else if c = CHR ''}'' then s\<lparr>fstring_brace_depth := fstring_brace_depth s - 1\<rparr> else s
                     else s);
            if in_fstring s \<and> c = CHR ''}'' \<and> fstring_brace_depth s = 0
            then do { s \<leftarrow> skip s; token_at s (Del TOKEN_RBRACE) }
            else do {
              (c, s) \<leftarrow> advance s;
              scan_lexeme c s } } } })"

section \<open>The token stream\<close>

partial_function (option) scanner_next :: "platform \<Rightarrow> Scanner \<Rightarrow> (Token \<times> Scanner) option" where
  "scanner_next pf s = do {
     (ok, s) \<leftarrow> (if in_fstring s \<and> fstring_brace_depth s = 0 then Some (True, s) else skip_whitespace s);
     if \<not> ok then error_at s ''unterminated block comment''
     else do {
       c \<leftarrow> (if in_fstring s then Some NUL else peek s);
       if c = CHR ''#'' then do {
         (err, s) \<leftarrow> process_directive pf s;
         if err then error_at s ''malformed preprocessor directive'' else scanner_next pf s }
       else if cond_is_emitting s then scanner_next_inner s
       else do {
         (t, s) \<leftarrow> scanner_next_inner s;
         if ttype t = TOKEN_EOF \<or> ttype t = TOKEN_ERROR then Some (t, s) else scanner_next pf s } } }"

declare scanner_next.simps [code]

text \<open>The saved copy is restored after the token was read.\<close>

definition scanner_peek :: "platform \<Rightarrow> Scanner \<Rightarrow> (Token \<times> Scanner) option" where
  "scanner_peek pf s = do {
     let saved = s;
     (t, s) \<leftarrow> scanner_next pf s;
     Some (t, saved) }"

text \<open>The tokens of a source, as the parser reads them: up to the end of the source.\<close>

partial_function (option) scan_all :: "platform \<Rightarrow> Scanner \<Rightarrow> Token list option" where
  "scan_all pf s = do {
     (t, s) \<leftarrow> scanner_next pf s;
     if ttype t = TOKEN_EOF then Some [t]
     else do { ts \<leftarrow> scan_all pf s; Some (t # ts) } }"

declare scan_all.simps [code]

definition types_of :: "string \<Rightarrow> TokenType list option" where
  "types_of txt = map_option (map ttype) (scan_all OTHER_PLATFORM (scanner_init txt))"

end
