(* ===== verification/Scanner_Keywords.thy ===== *)
theory Scanner_Keywords
  imports Scanner
begin

text \<open>
  The binary search over the keyword table finds what a look-up in the table finds: the table is
  sorted by the order that \<open>strncmp\<close> and the comparison of the lengths decide.
\<close>

section \<open>The order of the table\<close>

fun byte_less :: "string \<Rightarrow> string \<Rightarrow> bool" where
  "byte_less u [] = False"
| "byte_less [] (y # ys) = True"
| "byte_less (x # xs) (y # ys) = (ccode x < ccode y \<or> x = y \<and> byte_less xs ys)"

lemma byte_less_trans: "byte_less u v \<Longrightarrow> byte_less v w \<Longrightarrow> byte_less u w"
proof (induction u v arbitrary: w rule: byte_less.induct)
  case (2 y ys)
  then show ?case by (cases w) auto
next
  case (3 x xs y ys)
  then obtain z zs where w: "w = z # zs" by (cases w) auto
  show ?case using 3 w by auto
qed simp

lemma byte_less_irrefl [simp]: "\<not> byte_less u u"
  by (induction u) auto

lemma byte_less_linear: "byte_less u v \<or> u = v \<or> byte_less v u"
proof (induction u v rule: byte_less.induct)
  case (1 u)
  then show ?case by (cases u) auto
next
  case (3 x xs y ys)
  then show ?case by (cases "ccode x" "ccode y" rule: linorder_cases) auto
qed simp

lemma ccode_NUL [simp]: "ccode c = 0 \<longleftrightarrow> c = NUL"
proof -
  have "ccode NUL = 0" by (simp add: NUL_def ccode_def)
  then show ?thesis by (metis ccode_inject)
qed

lemma strncmp_order:
  assumes "NUL \<notin> set w" "NUL \<notin> set v" "n \<le> length w"
  shows "(strncmp w v n = 0 \<and> n = length v \<longleftrightarrow> take n w = v) \<and>
    (strncmp w v n < 0 \<or> strncmp w v n = 0 \<and> n < length v \<longleftrightarrow> byte_less (take n w) v) \<and>
    (strncmp w v n = 0 \<longrightarrow> n \<le> length v)"
  using assms
proof (induction n arbitrary: w v)
  case 0
  then show ?case by (cases v) auto
next
  case (Suc n)
  then obtain x xs where w: "w = x # xs" by (cases w) auto
  show ?case
  proof (cases v)
    case Nil
    then show ?thesis using Suc.prems w by (auto simp: Let_def)
  next
    case (Cons y ys)
    then show ?thesis using Suc.IH [of xs ys] Suc.prems w by (auto simp: Let_def)
  qed
qed

section \<open>The search\<close>

lemma keyword_table_sorted: "sorted_wrt byte_less (map fst keyword_table)"
  by code_simp

lemma keyword_names: "list_all (\<lambda>(w, ty). NUL \<notin> set w \<and> ty \<noteq> TOKEN_EOF \<and> ty \<noteq> TOKEN_IDENTIFIER \<and> ty \<noteq> TOKEN_ERROR) keyword_table"
  by code_simp

lemma distinct_sorted: "sorted_wrt byte_less ws \<Longrightarrow> distinct ws"
  by (induction ws) auto

lemma keyword_search_table:
  assumes w: "NUL \<notin> set w" "n \<le> length w"
    and lo: "0 \<le> lo" "\<And>k. k < length keyword_table \<Longrightarrow> int k < lo \<Longrightarrow> byte_less (fst (keyword_table ! k)) (take n w)"
    and hi: "hi < int (length keyword_table)"
      "\<And>k. k < length keyword_table \<Longrightarrow> hi < int k \<Longrightarrow> byte_less (take n w) (fst (keyword_table ! k))"
  shows "keyword_search w n lo hi = (case map_of keyword_table (take n w) of Some ty \<Rightarrow> ty | None \<Rightarrow> TOKEN_IDENTIFIER)"
  using lo hi
proof (induction "nat (hi + 1 - lo)" arbitrary: lo hi rule: less_induct)
  case less
  note srt = keyword_table_sorted
  show ?case
  proof (cases "lo \<le> hi")
    case False
    have "fst e \<noteq> take n w" if "e \<in> set keyword_table" for e
    proof -
      obtain k where "k < length keyword_table" "e = keyword_table ! k" using \<open>e \<in> _\<close> by (auto simp: in_set_conv_nth)
      then show ?thesis using less.prems(2,4) [of k] False by fastforce
    qed
    then have "map_of keyword_table (take n w) = None" by (force simp: map_of_eq_None_iff)
    then show ?thesis using False by (subst keyword_search.simps) simp
  next
    case True
    define mid where "mid = (lo + hi) div 2"
    have mid: "lo \<le> mid" "mid \<le> hi" "0 \<le> mid" "nat mid < length keyword_table"
      using True less.prems(1,3) by (auto simp: mid_def)
    obtain name ty where e: "keyword_table ! nat mid = (name, ty)" by fastforce
    have nz: "NUL \<notin> set name" using keyword_names mid(4) e by (fastforce simp: list_all_length)
    note cmp = strncmp_order [OF w(1) nz w(2)]
    have below: "byte_less (fst (keyword_table ! k)) name" if "k < nat mid" for k
      using sorted_wrt_nth_less [OF srt, of k "nat mid"] that mid(4) e by simp
    have above: "byte_less name (fst (keyword_table ! k))" if "nat mid < k" "k < length keyword_table" for k
      using sorted_wrt_nth_less [OF srt, of "nat mid" k] that e by simp
    have step: "keyword_search w n lo hi =
        (if take n w = name then ty else if byte_less (take n w) name then keyword_search w n lo (mid - 1)
         else keyword_search w n (mid + 1) hi)"
      using True e cmp by (subst keyword_search.simps) (auto simp: Let_def mid_def [symmetric])
    consider "take n w = name" | "byte_less (take n w) name" | "byte_less name (take n w)" using byte_less_linear by blast
    then show ?thesis
    proof cases
      case 1
      have "distinct (map fst keyword_table)" by (rule distinct_sorted [OF srt])
      moreover have "(name, ty) \<in> set keyword_table" using e mid(4) by (metis nth_mem)
      ultimately have "map_of keyword_table name = Some ty" by simp
      then show ?thesis using step 1 by simp
    next
      case 2
      have "keyword_search w n lo (mid - 1) = (case map_of keyword_table (take n w) of Some ty \<Rightarrow> ty | None \<Rightarrow> TOKEN_IDENTIFIER)"
      proof (rule less.hyps)
        fix k assume k: "k < length keyword_table" "mid - 1 < int k"
        show "byte_less (take n w) (fst (keyword_table ! k))"
        proof (cases "k = nat mid")
          case True
          then show ?thesis using 2 e by simp
        next
          case False
          then have "nat mid < k" using k(2) mid(3) by linarith
          then show ?thesis using byte_less_trans [OF 2 above] k(1) by blast
        qed
      qed (use less.prems mid in auto)
      moreover have "take n w \<noteq> name" using 2 by auto
      ultimately show ?thesis using step 2 by simp
    next
      case 3
      have "keyword_search w n (mid + 1) hi = (case map_of keyword_table (take n w) of Some ty \<Rightarrow> ty | None \<Rightarrow> TOKEN_IDENTIFIER)"
      proof (rule less.hyps)
        fix k assume k: "k < length keyword_table" "int k < mid + 1"
        show "byte_less (fst (keyword_table ! k)) (take n w)"
        proof (cases "k = nat mid")
          case True
          then show ?thesis using 3 e by simp
        next
          case False
          then have "k < nat mid" using k(2) mid(3) by linarith
          then show ?thesis using byte_less_trans [OF below 3] by blast
        qed
      qed (use less.prems mid in auto)
      moreover have "take n w \<noteq> name" "\<not> byte_less (take n w) name" using 3 byte_less_trans by fastforce+
      ultimately show ?thesis using step by simp
    qed
  qed
qed

text \<open>C18: The keyword search is a look-up in the table.  For every position in a C source and every
  length up to its end, the binary search with \<open>strncmp\<close> returns the token of the keyword that the
  text spells exactly, and TOKEN_IDENTIFIER when it spells none.\<close>

theorem check_keyword_table:
  assumes "NUL \<notin> set w" "n \<le> length w"
  shows "check_keyword w n = (case map_of keyword_table (take n w) of Some ty \<Rightarrow> ty | None \<Rightarrow> TOKEN_IDENTIFIER)"
  unfolding check_keyword_def using assms by (intro keyword_search_table) auto

lemma check_keyword_table_witness:
  "check_keyword ''methods {'' 7 = Kw TOKEN_IMPL \<and> check_keyword ''method {'' 6 = TOKEN_IDENTIFIER"
  using check_keyword_table [of "''methods {''" 7] check_keyword_table [of "''method {''" 6]
  by (simp add: NUL_def keyword_table_def)

lemma check_keyword_cases:
  assumes "NUL \<notin> set w" "n \<le> length w"
  shows "check_keyword w n \<noteq> TOKEN_EOF \<and> check_keyword w n \<noteq> TOKEN_ERROR"
proof -
  have "keyword_search w n 0 (int (length keyword_table) - 1) =
      (case map_of keyword_table (take n w) of Some ty \<Rightarrow> ty | None \<Rightarrow> TOKEN_IDENTIFIER)"
    using assms by (intro keyword_search_table) auto
  then show ?thesis using keyword_names
    by (auto simp: check_keyword_def list_all_iff split: option.splits dest!: map_of_SomeD)
qed

text \<open>Two tokens have no name of their own.\<close>

lemma token_names_missing:
  "token_type_name (Kw TOKEN_STATIC) = ''UNKNOWN''" "token_type_name (FStr TOKEN_FSTRING_SPEC) = ''UNKNOWN''"
  by code_simp+

end
