(* ===== verification/Scanner_Safety.thy ===== *)
theory Scanner_Safety
  imports Scanner_Keywords
begin

text \<open>
  The scanner stays inside its source and every token advances it, so scanning ends: the only way
  it can leave the source is a format string that the source does not close.
\<close>

section \<open>Moving forward\<close>

text \<open>A C source holds no NUL, and the position is at most at its end.\<close>

definition wf_scan :: "Scanner \<Rightarrow> bool" where
  "wf_scan s \<longleftrightarrow> NUL \<notin> set (src s) \<and> cur s \<le> length (src s)"

definition moved :: "Scanner \<Rightarrow> Scanner \<Rightarrow> bool" where
  "moved s s' \<longleftrightarrow> src s' = src s \<and> tok_start s' = tok_start s \<and> cond_stack s' = cond_stack s \<and>
     in_fstring s' = in_fstring s \<and> fstring_brace_depth s' = fstring_brace_depth s \<and>
     cur s \<le> cur s' \<and> cur s' \<le> length (src s)"

named_theorems moves "what the loops of the scanner return"

lemma moved_refl: "wf_scan s \<Longrightarrow> moved s s"
  by (simp add: moved_def wf_scan_def)

lemma moved_trans: "moved s s' \<Longrightarrow> moved s' s'' \<Longrightarrow> moved s s''"
  by (auto simp: moved_def)

lemma moved_wf: "wf_scan s \<Longrightarrow> moved s s' \<Longrightarrow> wf_scan s'"
  by (simp add: moved_def wf_scan_def)

lemma moved_src: "moved s s' \<Longrightarrow> length (src s') = length (src s)"
  by (simp add: moved_def)

lemma peek_wf: "wf_scan s \<Longrightarrow> peek s = Some (if cur s < length (src s) then src s ! cur s else NUL)"
  by (auto simp: wf_scan_def peek_def char_at_def)

lemma not_at_end: "wf_scan s \<Longrightarrow> peek s = Some c \<Longrightarrow> c \<noteq> NUL \<Longrightarrow> cur s < length (src s)"
  by (auto simp: peek_wf split: if_splits)

lemma at_end: "wf_scan s \<Longrightarrow> peek s = Some NUL \<Longrightarrow> cur s = length (src s)"
  by (auto simp: peek_wf wf_scan_def split: if_splits) (metis nth_mem)

lemma moved_step: "wf_scan s \<Longrightarrow> peek s = Some c \<Longrightarrow> c \<noteq> NUL \<Longrightarrow> moved s (step_byte s) \<and> cur s < cur (step_byte s)"
  using not_at_end [of s c] by (simp add: moved_def step_byte_def wf_scan_def)

lemma moved_newline: "wf_scan s \<Longrightarrow> peek s = Some c \<Longrightarrow> c \<noteq> NUL \<Longrightarrow> moved s (newline s) \<and> cur s < cur (newline s)"
  using not_at_end [of s c] by (simp add: moved_def newline_def wf_scan_def)

lemma skip_wf: "wf_scan s \<Longrightarrow> skip s = Some (step_byte s)"
  by (simp add: skip_def advance_def peek_wf)

lemma peek_next_wf: "wf_scan s \<Longrightarrow> \<exists>c. peek_next s = Some c \<and> (c \<noteq> NUL \<longrightarrow> cur s + 1 < length (src s))"
  by (auto simp: peek_next_def is_at_end_def peek_wf char_at_def wf_scan_def)

lemma moved_step2:
  assumes "wf_scan s" "peek_next s = Some d" "d \<noteq> NUL"
  shows "moved s (step_byte (step_byte s))" "cur s < cur (step_byte (step_byte s))"
  using peek_next_wf [OF assms(1)] assms(2,3) by (auto simp: moved_def step_byte_def)

lemma skip_while_moves [moves]:
  assumes "wf_scan s" "\<not> P NUL"
  shows "\<exists>s'. skip_while P s = Some s' \<and> moved s s'"
  using assms
proof (induction P s rule: skip_while.induct)
  case (1 P s)
  obtain c where c: "peek s = Some c" using peek_wf [OF 1(2)] by blast
  show ?case
  proof (cases "P c")
    case True
    then have "c \<noteq> NUL" using 1(3) by auto
    note st = moved_step [OF 1(2) c this]
    then show ?thesis using 1(1) [OF c True moved_wf [OF 1(2)] 1(3)] c True moved_trans
      by (subst skip_while.simps) fastforce
  next
    case False
    then show ?thesis using c moved_refl [OF 1(2)] by (subst skip_while.simps) simp
  qed
qed

lemma block_comment_moves [moves]:
  "wf_scan s \<Longrightarrow> \<exists>d s'. block_comment depth s = Some (d, s') \<and> moved s s'"
proof (induction depth s rule: block_comment.induct)
  case (1 depth s)
  obtain c where c: "peek s = Some c" using peek_wf [OF 1(5)] by blast
  consider "c = NUL \<or> depth = 0"
    | "\<not> (c = NUL \<or> depth = 0)" "c = CHR ''/'' \<and> peek_next s = Some (CHR ''*'')"
    | "\<not> (c = NUL \<or> depth = 0)" "\<not> (c = CHR ''/'' \<and> peek_next s = Some (CHR ''*''))" "c = CHR ''*'' \<and> peek_next s = Some (CHR ''/'')"
    | "\<not> (c = NUL \<or> depth = 0)" "\<not> (c = CHR ''/'' \<and> peek_next s = Some (CHR ''*''))" "\<not> (c = CHR ''*'' \<and> peek_next s = Some (CHR ''/''))" "c = CHR 0x0A"
    | "\<not> (c = NUL \<or> depth = 0)" "\<not> (c = CHR ''/'' \<and> peek_next s = Some (CHR ''*''))" "\<not> (c = CHR ''*'' \<and> peek_next s = Some (CHR ''/''))" "c \<noteq> CHR 0x0A"
    by blast
  then show ?case
  proof cases
    case 1
    then show ?thesis using c moved_refl [OF \<open>wf_scan s\<close>] by (subst block_comment.simps) simp
  next
    case 2
    have m: "moved s (step_byte (step_byte s))" using moved_step2(1) [OF \<open>wf_scan s\<close>] 2(2) by (simp add: NUL_def)
    show ?thesis using 1(1) [OF c 2 moved_wf [OF \<open>wf_scan s\<close> m]] c 2 moved_trans [OF m]
      by (subst block_comment.simps) fastforce
  next
    case 3
    have m: "moved s (step_byte (step_byte s))" using moved_step2(1) [OF \<open>wf_scan s\<close>] 3(3) by (simp add: NUL_def)
    show ?thesis using 1(2) [OF c 3 moved_wf [OF \<open>wf_scan s\<close> m]] c 3 moved_trans [OF m]
      by (subst block_comment.simps) fastforce
  next
    case 4
    have m: "moved s (newline s)" using moved_newline [OF \<open>wf_scan s\<close> c] 4(1) by simp
    show ?thesis using 1(3) [OF c 4 moved_wf [OF \<open>wf_scan s\<close> m]] c 4 moved_trans [OF m]
      by (subst block_comment.simps) fastforce
  next
    case 5
    have m: "moved s (step_byte s)" using moved_step [OF \<open>wf_scan s\<close> c] 5(1) by simp
    show ?thesis using 1(4) [OF c 5 moved_wf [OF \<open>wf_scan s\<close> m]] c 5 moved_trans [OF m]
      by (subst block_comment.simps) fastforce
  qed
qed


lemma skip_whitespace_moves [moves]:
  "wf_scan s \<Longrightarrow> \<exists>ok s'. skip_whitespace s = Some (ok, s') \<and> moved s s' \<and> (ok \<or> cur s < cur s')"
proof (induction "length (src s) - cur s" arbitrary: s rule: less_induct)
  case less
  note wf = less.prems
  obtain c where c: "peek s = Some c" using peek_wf [OF wf] by blast
  obtain d where d: "peek_next s = Some d" using peek_next_wf [OF wf] by blast
  have again: "\<exists>ok s''. skip_whitespace s' = Some (ok, s'') \<and> moved s s'' \<and> (ok \<or> cur s < cur s'')"
    if m: "moved s s'" "cur s < cur s'" for s'
  proof -
    have "length (src s') - cur s' < length (src s) - cur s" using m by (auto simp: moved_def)
    then obtain ok s'' where x: "skip_whitespace s' = Some (ok, s'')" "moved s' s''"
      using less.hyps [OF _ moved_wf [OF wf m(1)]] by blast
    then have "cur s < cur s''" using m by (simp add: moved_def)
    with x moved_trans [OF m(1)] show ?thesis by blast
  qed
  consider "c = CHR '' '' \<or> c = CHR 0x09 \<or> c = CHR 0x0D" | "c = CHR 0x0A" | "c = CHR ''/''" "d = CHR ''/''"
    | "c = CHR ''/''" "d = CHR ''*''" | "c = CHR ''/''" "d \<noteq> CHR ''/''" "d \<noteq> CHR ''*''"
    | "c \<notin> {CHR '' '', CHR 0x09, CHR 0x0D, CHR 0x0A, CHR ''/''}" by blast
  then show ?case
  proof cases
    case 1
    then have m: "moved s (step_byte s)" "cur s < cur (step_byte s)" using moved_step [OF wf c] by (auto simp: NUL_def)
    show ?thesis using again [OF m] c 1 by (subst skip_whitespace.simps) auto
  next
    case 2
    then have m: "moved s (newline s)" "cur s < cur (newline s)" using moved_newline [OF wf c] by (auto simp: NUL_def)
    show ?thesis using again [OF m] c 2 by (subst skip_whitespace.simps) auto
  next
    case 3
    let ?P = "\<lambda>c. c \<noteq> NUL \<and> c \<noteq> CHR 0x0A"
    have st: "moved s (step_byte s)" "cur s < cur (step_byte s)" using moved_step [OF wf c] 3(1) by (auto simp: NUL_def)
    obtain s' where s': "skip_while ?P (step_byte s) = Some s'" "moved (step_byte s) s'"
      using skip_while_moves [OF moved_wf [OF wf st(1)], of ?P] by auto
    have e: "skip_while ?P s = Some s'" using c 3(1) s'(1) by (subst skip_while.simps) (simp add: NUL_def)
    have "moved s s'" "cur s < cur s'" using moved_trans [OF st(1) s'(2)] st(2) s'(2) by (auto simp: moved_def)
    from again [OF this] show ?thesis using c d 3 e by (subst skip_whitespace.simps) auto
  next
    case 4
    have st: "moved s (step_byte (step_byte s))" "cur s < cur (step_byte (step_byte s))"
      using moved_step2 [OF wf d] 4(2) by (auto simp: NUL_def)
    obtain k s' where s': "block_comment 1 (step_byte (step_byte s)) = Some (k, s')" "moved (step_byte (step_byte s)) s'"
      using block_comment_moves [OF moved_wf [OF wf st(1)]] by blast
    have m: "moved s s'" "cur s < cur s'" using moved_trans [OF st(1) s'(2)] st(2) s'(2) by (auto simp: moved_def)
    show ?thesis
    proof (cases "k > 0")
      case True
      then show ?thesis using c d 4 s'(1) m by (subst skip_whitespace.simps) auto
    next
      case False
      then show ?thesis using again [OF m] c d 4 s'(1) by (subst skip_whitespace.simps) auto
    qed
  next
    case 5
    then show ?thesis using c d moved_refl [OF wf] by (subst skip_whitespace.simps) auto
  next
    case 6
    then show ?thesis using c moved_refl [OF wf] by (subst skip_whitespace.simps) auto
  qed
qed

section \<open>Literals and identifiers\<close>

text \<open>A token read from \<open>s\<close>: it ends at or before the new position.\<close>

definition lexed :: "Scanner \<Rightarrow> Token \<times> Scanner \<Rightarrow> bool" where
  "lexed s r \<longleftrightarrow> (case r of (t, s') \<Rightarrow>
     src s' = src s \<and> cond_stack s' = cond_stack s \<and> cur s \<le> cur s' \<and> cur s' \<le> length (src s) \<and> ttype t \<noteq> TOKEN_EOF \<and>
     (case tstart t of In_source p \<Rightarrow> p = tok_start s \<and> p + tlength t = cur s' | Message m \<Rightarrow> ttype t = TOKEN_ERROR))"

definition token_total :: "Scanner \<Rightarrow> (Token \<times> Scanner) option \<Rightarrow> bool" where
  "token_total s r \<longleftrightarrow> (\<exists>x. r = Some x \<and> lexed s x)"

lemma token_total_token: "moved s s' \<Longrightarrow> tok_start s \<le> cur s \<Longrightarrow> ty \<noteq> TOKEN_EOF \<Longrightarrow> token_total s (token_at s' ty)"
  by (auto simp: token_total_def token_at_def make_token_def lexed_def moved_def)

lemma token_total_error: "moved s s' \<Longrightarrow> token_total s (error_at s' msg)"
  by (auto simp: token_total_def error_at_def error_token_def lexed_def moved_def)

lemma lexed_moved: "moved s s' \<Longrightarrow> lexed s' x \<Longrightarrow> lexed s x"
  by (auto simp: lexed_def moved_def split: prod.splits lexeme.splits)

lemma token_total_moved: "moved s s' \<Longrightarrow> token_total s' r \<Longrightarrow> token_total s r"
  unfolding token_total_def using lexed_moved by blast

lemma moved_start: "moved s s' \<Longrightarrow> tok_start s \<le> cur s \<Longrightarrow> tok_start s' \<le> cur s'"
  by (simp add: moved_def)

lemma skip_step:
  assumes "wf_scan s" "peek s = Some c" "c \<noteq> NUL"
  obtains "skip s = Some (step_byte s)" "moved s (step_byte s)" "wf_scan (step_byte s)"
  using assms moved_step [OF assms] moved_wf skip_wf by blast

lemma scan_decimal_total:
  assumes "wf_scan s" "tok_start s \<le> cur s"
  shows "token_total s (scan_decimal s)"
proof -
  obtain s1 where s1: "skip_while isdigit s = Some s1" "moved s s1" using skip_while_moves [OF assms(1), of isdigit] by auto
  note w1 = moved_wf [OF assms(1) s1(2)]
  have "\<exists>b s2. scan_fraction s1 = Some (b, s2) \<and> moved s1 s2"
  proof -
    obtain c where c: "peek s1 = Some c" using peek_wf [OF w1] by blast
    obtain d where d: "peek_next s1 = Some d" using peek_next_wf [OF w1] by blast
    show ?thesis
    proof (cases "c = CHR ''.'' \<and> isdigit d")
      case True
      then have "c \<noteq> NUL" by (auto simp: NUL_def)
      with w1 c obtain "moved s1 (step_byte s1)" "wf_scan (step_byte s1)" by (blast elim: skip_step)
      then show ?thesis using True c d skip_while_moves [of "step_byte s1" isdigit] moved_trans
        by (fastforce simp: scan_fraction_def)
    next
      case False
      then show ?thesis using c d moved_refl [OF w1] by (auto simp: scan_fraction_def)
    qed
  qed
  then obtain b s2 where s2: "scan_fraction s1 = Some (b, s2)" "moved s1 s2" by blast
  note m2 = moved_trans [OF s1(2) s2(2)]
  note w2 = moved_wf [OF assms(1) m2]
  obtain c where c: "peek s2 = Some c" using peek_wf [OF w2] by blast
  show ?thesis
  proof (cases "c = CHR ''e'' \<or> c = CHR ''E''")
    case False
    then show ?thesis using s1 s2 c token_total_token [OF m2 assms(2)] by (simp add: scan_decimal_def)
  next
    case True
    then have "c \<noteq> NUL" by (auto simp: NUL_def)
    then obtain e: "skip s2 = Some (step_byte s2)" "moved s2 (step_byte s2)" "wf_scan (step_byte s2)"
      using skip_step [OF w2 c] by blast
    note m3 = moved_trans [OF m2 e(2)]
    obtain c3 where c3: "peek (step_byte s2) = Some c3" using peek_wf [OF e(3)] by blast
    obtain s4 where s4: "(if c3 = CHR ''+'' \<or> c3 = CHR ''-'' then skip (step_byte s2) else Some (step_byte s2)) = Some s4"
      "moved (step_byte s2) s4"
    proof (cases "c3 = CHR ''+'' \<or> c3 = CHR ''-''")
      case sign: True
      then have "c3 \<noteq> NUL" by (auto simp: NUL_def)
      with skip_step [OF e(3) c3] sign that show ?thesis by auto
    next
      case False
      with moved_refl [OF e(3)] that show ?thesis by auto
    qed
    note m4 = moved_trans [OF m3 s4(2)]
    note w4 = moved_wf [OF assms(1) m4]
    obtain c4 where c4: "peek s4 = Some c4" using peek_wf [OF w4] by blast
    obtain s5 where s5: "skip_while isdigit s4 = Some s5" "moved s4 s5" using skip_while_moves [OF w4, of isdigit] by auto
    show ?thesis
      using True s1(1) s2(1) c e(1) c3 s4(1) c4 s5(1) token_total_error [OF m4]
        token_total_token [OF moved_trans [OF m4 s5(2)] assms(2)]
      by (simp add: scan_decimal_def)
  qed
qed


lemma scan_number_total:
  assumes "wf_scan s" "tok_start s \<le> cur s"
  shows "token_total s (scan_number s)"
proof -
  obtain c where c: "peek s = Some c" using peek_wf [OF assms(1)] by blast
  have prefixed: "token_total s (do { s \<leftarrow> skip s; c \<leftarrow> peek s; if Q c then error_at s msg
        else do { s \<leftarrow> skip_while P s; token_at s (Lit TOKEN_INT_LIT) } })"
    if nz: "c \<noteq> NUL" and np: "\<not> P NUL" for P Q msg
  proof -
    obtain e: "skip s = Some (step_byte s)" "moved s (step_byte s)" "wf_scan (step_byte s)"
      using skip_step [OF assms(1) c nz] by blast
    obtain d where d: "peek (step_byte s) = Some d" using peek_wf [OF e(3)] by blast
    obtain s2 where s2: "skip_while P (step_byte s) = Some s2" "moved (step_byte s) s2"
      using skip_while_moves [where P = P, OF e(3) np] by blast
    show ?thesis
      using e(1) d s2(1) token_total_error [OF e(2)] token_total_token [OF moved_trans [OF e(2) s2(2)] assms(2)] by simp
  qed
  show ?thesis
    using c scan_decimal_total [OF assms] prefixed [of isxdigit "\<lambda>c. \<not> isxdigit c"]
      prefixed [of "\<lambda>c. c = CHR ''0'' \<or> c = CHR ''1''" "\<lambda>c. c \<noteq> CHR ''0'' \<and> c \<noteq> CHR ''1''"]
    by (simp add: scan_number_def) (auto simp: NUL_def)
qed

text \<open>The loops that end at a quotation mark share the recursion over the rest of the source.\<close>

lemma loop_total:
  assumes "wf_scan s" "tok_start s \<le> cur s"
    and "\<And>s'. wf_scan s' \<Longrightarrow> tok_start s' \<le> cur s' \<Longrightarrow>
      (\<And>s''. moved s' s'' \<Longrightarrow> cur s' < cur s'' \<Longrightarrow> token_total s' (f s'')) \<Longrightarrow> token_total s' (f s')"
  shows "token_total s (f s)"
  using assms(1,2)
proof (induction "length (src s) - cur s" arbitrary: s rule: less_induct)
  case less
  show ?case
  proof (rule assms(3) [OF less.prems])
    fix s'' assume m: "moved s s''" "cur s < cur s''"
    then have "length (src s'') - cur s'' < length (src s) - cur s" by (auto simp: moved_def)
    then have "token_total s'' (f s'')"
      by (rule less.hyps [OF _ moved_wf [OF less.prems(1) m(1)] moved_start [OF m(1) less.prems(2)]])
    then show "token_total s (f s'')" by (rule token_total_moved [OF m(1)])
  qed
qed

lemma scan_raw_string_total:
  assumes "wf_scan s" "tok_start s \<le> cur s"
  shows "token_total s (scan_raw_string s q)"
proof (rule loop_total [OF assms])
  fix s assume a: "wf_scan s" "tok_start s \<le> cur s"
    and again: "\<And>s''. moved s s'' \<Longrightarrow> cur s < cur s'' \<Longrightarrow> token_total s (scan_raw_string s'' q)"
  obtain c where c: "peek s = Some c" using peek_wf [OF a(1)] by blast
  show "token_total s (scan_raw_string s q)"
  proof (cases "c = NUL")
    case True
    then show ?thesis using c token_total_error [OF moved_refl [OF a(1)]] by (subst scan_raw_string.simps) simp
  next
    case False
    note st = moved_step [OF a(1) c False] moved_newline [OF a(1) c False]
    show ?thesis using c False st again token_total_token [OF _ a(2)] by (subst scan_raw_string.simps) auto
  qed
qed

lemma scan_raw_string3_total:
  assumes "wf_scan s" "tok_start s \<le> cur s" "q \<noteq> NUL"
  shows "token_total s (scan_raw_string3 s q)"
proof (rule loop_total [OF assms(1,2)])
  fix s assume a: "wf_scan s" "tok_start s \<le> cur s"
    and again: "\<And>s''. moved s s'' \<Longrightarrow> cur s < cur s'' \<Longrightarrow> token_total s (scan_raw_string3 s'' q)"
  obtain c where c: "peek s = Some c" using peek_wf [OF a(1)] by blast
  obtain d where d: "peek_next s = Some d" "d \<noteq> NUL \<longrightarrow> cur s + 1 < length (src s)" using peek_next_wf [OF a(1)] by blast
  show "token_total s (scan_raw_string3 s q)"
  proof (cases "c = NUL")
    case True
    then show ?thesis using c token_total_error [OF moved_refl [OF a(1)]] by (subst scan_raw_string3.simps) simp
  next
    case False
    note st = moved_step [OF a(1) c False] moved_newline [OF a(1) c False]
    show ?thesis
    proof (cases "c = q \<and> d = q")
      case True
      then have lt: "cur s + 1 < length (src s)" using d(2) assms(3) by simp
      then have "\<exists>e. char_at s 2 = Some e \<and> (e \<noteq> NUL \<longrightarrow> cur s + 2 < length (src s))" by (auto simp: char_at_def)
      then obtain e where e: "char_at s 2 = Some e" "e \<noteq> NUL \<longrightarrow> cur s + 2 < length (src s)" by blast
      have "moved s (step_byte (step_byte (step_byte s)))" if "e \<noteq> NUL"
        using that e(2) by (simp add: moved_def step_byte_def)
      then show ?thesis using c \<open>c \<noteq> NUL\<close> d(1) e(1) st again token_total_token [OF _ a(2)] assms(3) True
        by (subst scan_raw_string3.simps) auto
    next
      case no: False
      then show ?thesis using c \<open>c \<noteq> NUL\<close> d(1) st again by (subst scan_raw_string3.simps) auto
    qed
  qed
qed

lemma scan_string_total:
  assumes "wf_scan s" "tok_start s \<le> cur s"
  shows "token_total s (scan_string s)"
proof (rule loop_total [OF assms])
  fix s assume a: "wf_scan s" "tok_start s \<le> cur s"
    and again: "\<And>s''. moved s s'' \<Longrightarrow> cur s < cur s'' \<Longrightarrow> token_total s (scan_string s'')"
  obtain c where c: "peek s = Some c" using peek_wf [OF a(1)] by blast
  note err = token_total_error [OF moved_refl [OF a(1)]]
  show "token_total s (scan_string s)"
  proof (cases "c = NUL")
    case True
    then show ?thesis using c err by (subst scan_string.simps) simp
  next
    case False
    note st = moved_step [OF a(1) c False] moved_newline [OF a(1) c False]
    show ?thesis
    proof (cases "c = CHR 0x5C")
      case no: False
      then show ?thesis using c False st again token_total_token [OF _ a(2)] by (subst scan_string.simps) auto
    next
      case True
      obtain e: "skip s = Some (step_byte s)" "moved s (step_byte s)" "wf_scan (step_byte s)"
        using skip_step [OF a(1) c False] by blast
      obtain c2 where c2: "peek (step_byte s) = Some c2" using peek_wf [OF e(3)] by blast
      show ?thesis
      proof (cases "c2 = NUL")
        case True
        then show ?thesis using c \<open>c = CHR 0x5C\<close> e(1) c2 token_total_error [OF e(2)] by (subst scan_string.simps) (simp add: NUL_def)
      next
        case n2: False
        obtain e2: "skip (step_byte s) = Some (step_byte (step_byte s))" "moved (step_byte s) (step_byte (step_byte s))"
          "wf_scan (step_byte (step_byte s))"
          using skip_step [OF e(3) c2 n2] by blast
        let ?s2 = "step_byte (step_byte s)"
        note m2 = moved_trans [OF e(2) e2(2)]
        obtain x where x: "peek ?s2 = Some x" using peek_wf [OF e2(3)] by blast
        obtain y where y: "peek_next ?s2 = Some y" using peek_next_wf [OF e2(3)] by blast
        have m4: "moved s (step_byte (step_byte ?s2))" if "isxdigit y"
          using moved_trans [OF m2 moved_step2(1) [OF e2(3) y]] that by (metis not_isalpha_NUL(4))
        show ?thesis
          using c True c2 n2 e(1) e2(1) x y again [OF m2] again [OF m4] token_total_error [OF e(2)] token_total_error [OF m2]
          by (subst scan_string.simps) (auto simp: step_byte_def NUL_def)
      qed
    qed
  qed
qed

lemma scan_char_total:
  assumes "wf_scan s" "tok_start s \<le> cur s"
  shows "token_total s (scan_char s)"
proof -
  obtain c where c: "peek s = Some c" using peek_wf [OF assms(1)] by blast
  show ?thesis
  proof (cases "c = NUL")
    case True
    then show ?thesis using c token_total_error [OF moved_refl [OF assms(1)]] by (simp add: scan_char_def)
  next
    case False
    obtain e: "skip s = Some (step_byte s)" "moved s (step_byte s)" "wf_scan (step_byte s)"
      using skip_step [OF assms(1) c False] by blast
    obtain d where d: "peek (step_byte s) = Some d" using peek_wf [OF e(3)] by blast
    have closing: "token_total s (do { e \<leftarrow> peek s'; if e \<noteq> CHR 0x27 then error_at s' msg
        else token_at (step_byte s') (Lit TOKEN_CHAR_LIT) })" if m: "moved s s'" for s' msg
    proof -
      obtain q where q: "peek s' = Some q" using peek_wf [OF moved_wf [OF assms(1) m]] by blast
      have "moved s (step_byte s')" if "q = CHR 0x27"
        using moved_trans [OF m] moved_step [OF moved_wf [OF assms(1) m] q] that by (auto simp: NUL_def)
      then show ?thesis using q token_total_error [OF m] token_total_token [OF _ assms(2)] by simp
    qed
    show ?thesis
    proof (cases "c = CHR 0x5C")
      case True
      show ?thesis
      proof (cases "d = NUL")
        case True
        then show ?thesis using \<open>c = CHR 0x5C\<close> c d e(1) False token_total_error [OF e(2)] by (simp add: scan_char_def)
      next
        case n2: False
        obtain e2: "skip (step_byte s) = Some (step_byte (step_byte s))" "moved (step_byte s) (step_byte (step_byte s))"
          using skip_step [OF e(3) d n2] by blast
        then show ?thesis using True c d e(1) False n2 closing [OF moved_trans [OF e(2) e2(2)]] by (simp add: scan_char_def)
      qed
    next
      case no: False
      then show ?thesis using c d e(1) False closing [OF e(2)] by (simp add: scan_char_def)
    qed
  qed
qed

end
