(* ===== verification/Scanner_Frames.thy ===== *)
theory Scanner_Frames
  imports Scanner_Stream
begin

text \<open>
  The states the scanner reaches: the one way out of the source, a format string that is not
  closed, and the invariant of the stack of conditional-compilation frames.
\<close>

section \<open>Unclosed format strings\<close>

text \<open>Past the NUL nothing is defined.\<close>

definition overrun :: "Scanner \<Rightarrow> bool" where
  "overrun s \<longleftrightarrow> cur s = length (src s) + 1 \<and> fstring_brace_depth s = 1"

lemma overrun_none:
  assumes "overrun s"
  shows "peek s = None" "skip_whitespace s = None" "process_directive pf s = None" "scanner_next_inner s = None"
    "scanner_next pf s = None"
proof -
  show p: "peek s = None" using assms by (simp add: overrun_def peek_def char_at_def)
  then show w: "skip_whitespace s = None" by (subst skip_whitespace.simps) simp
  show "process_directive pf s = None" using p by (simp add: process_directive_def skip_def advance_def)
  show "scanner_next_inner s = None" using w assms by (simp add: scanner_next_inner_def overrun_def)
  show "scanner_next pf s = None" using w assms by (subst scanner_next.simps) (simp add: overrun_def)
qed

lemma overrun_leading: "overrun s \<Longrightarrow> leading s = None"
  using overrun_none(2) [of s] by (simp add: leading_def overrun_def)

lemma unterminated_inner:
  assumes "wf_scan s" "unterminated s"
  shows "\<exists>t s'. scanner_next_inner s = Some (t, s') \<and> ttype t = Del TOKEN_LBRACE \<and> tstart t = In_source (length (src s)) \<and>
    tlength t = 1 \<and> overrun s' \<and> src s' = src s \<and> cond_stack s' = cond_stack s"
proof -
  let ?s = "start_here s"
  have f: "in_fstring s" "fstring_brace_depth s = 0" "cur s = length (src s)" using assms(2) by (simp_all add: unterminated_def)
  have p: "peek ?s = Some NUL" using f(3) by (simp add: start_here_wf peek_def char_at_def)
  have "fstring_run ?s = Some ?s" using p by (subst fstring_run.simps) simp
  moreover have "skip ?s = Some (step_byte ?s)" by (rule skip_wf [OF start_here_wf(1) [OF assms(1)]])
  ultimately have "scan_fstring_text s = token_at (step_byte ?s\<lparr>fstring_brace_depth := 1\<rparr>) (Del TOKEN_LBRACE)"
    using p by (simp add: scan_fstring_text_def start_here_def [symmetric] Let_def start_here_wf(2,3) NUL_def)
  then show ?thesis using f
    by (simp add: scanner_next_inner_def token_at_def make_token_def overrun_def step_byte_def start_here_wf(2,3,4,5) Let_def)
qed

text \<open>C16: A format string that the source does not close makes the scanner read past the end of the
  source.  At the end of the source inside the text of an f-string, \<open>scanner_next\<close> returns a brace
  token of one byte that is the terminating NUL, and the call after it reads beyond the NUL.\<close>

theorem unterminated_fstring_overruns:
  assumes "NUL \<notin> set (src s)" "unterminated s" "cond_is_emitting s"
  shows "\<exists>t s'. scanner_next pf s = Some (t, s') \<and> ttype t = Del TOKEN_LBRACE \<and>
    tstart t = In_source (length (src s)) \<and> tlength t = 1 \<and> scanner_next pf s' = None"
proof -
  have wf: "wf_scan s" using assms(1,2) by (simp add: wf_scan_def unterminated_def)
  obtain t s' where t: "scanner_next_inner s = Some (t, s')" "ttype t = Del TOKEN_LBRACE"
    "tstart t = In_source (length (src s))" "tlength t = 1" "overrun s'"
    using unterminated_inner [OF wf assms(2)] by blast
  have "scanner_next pf s = Some (t, s')"
    using assms(2,3) t(1) by (subst scanner_next.simps) (simp add: unterminated_def)
  with t overrun_none(5) show ?thesis by blast
qed

lemma unterminated_fstring_overruns_witness:
  "\<exists>t s' t2 s2. scanner_next OTHER_PLATFORM (scanner_init [CHR ''f'', CHR 0x22]) = Some (t, s') \<and>
     scanner_next OTHER_PLATFORM s' = Some (t2, s2) \<and> tlength t2 = 1 \<and> scanner_next OTHER_PLATFORM s2 = None"
proof -
  have "(case scanner_next OTHER_PLATFORM (scanner_init [CHR ''f'', CHR 0x22]) of
      Some (t, s') \<Rightarrow> NUL \<notin> set (src s') \<and> unterminated s' \<and> cond_is_emitting s' | None \<Rightarrow> False)"
    by code_simp
  then obtain t s' where "scanner_next OTHER_PLATFORM (scanner_init [CHR ''f'', CHR 0x22]) = Some (t, s')"
    "NUL \<notin> set (src s')" "unterminated s'" "cond_is_emitting s'"
    by (auto split: option.splits)
  with unterminated_fstring_overruns [OF this(2-4), of OTHER_PLATFORM] show ?thesis by blast
qed

section \<open>Conditional compilation\<close>

text \<open>Every frame knows whether the frame around it is emitting, and only one branch of it is taken.\<close>

fun frames_ok :: "bool \<Rightarrow> cond_frame list \<Rightarrow> bool" where
  "frames_ok outer [] = True"
| "frames_ok outer (f # fs) =
     (parent_active f = outer \<and> (active f \<longrightarrow> outer \<and> branch_taken f) \<and> frames_ok (active f) fs)"

lemma frames_ok_snoc:
  "frames_ok b (fs @ [f]) \<longleftrightarrow> frames_ok b fs \<and>
     (let outer = (if fs = [] then b else active (last fs))
      in parent_active f = outer \<and> (active f \<longrightarrow> outer \<and> branch_taken f))"
  by (induction fs arbitrary: b) (auto simp: Let_def)

lemma frames_ok_last: "frames_ok b fs \<Longrightarrow> b \<Longrightarrow> (fs = [] \<or> active (last fs)) = list_all active fs"
proof (induction fs rule: rev_induct)
  case (snoc f fs)
  then show ?case by (auto simp: frames_ok_snoc Let_def list_all_iff split: if_splits)
qed simp

definition frames_inv :: "Scanner \<Rightarrow> bool" where
  "frames_inv s \<longleftrightarrow> frames_ok True (cond_stack s) \<and> length (cond_stack s) \<le> COND_MAX"

lemma skip_while_frames: "skip_while P s = Some s' \<Longrightarrow> cond_stack s' = cond_stack s"
proof (induction P s rule: skip_while.induct)
  case (1 P s)
  obtain c where c: "peek s = Some c" using 1(2) by (subst (asm) skip_while.simps) (cases "peek s"; simp)
  show ?case
  proof (cases "P c")
    case True
    then have "skip_while P (step_byte s) = Some s'" using 1(2) c by (subst (asm) skip_while.simps) simp
    then show ?thesis using 1(1) [OF c True] by (simp add: step_byte_def)
  next
    case False
    then show ?thesis using 1(2) c by (subst (asm) skip_while.simps) simp
  qed
qed

lemma word_frames: "read_directive_word s n = Some (w, s') \<Longrightarrow> cond_stack s' = cond_stack s"
  using skip_while_frames by (auto simp: read_directive_word_def split: bind_splits)

lemma skip_frames: "skip s = Some s' \<Longrightarrow> cond_stack s' = cond_stack s"
  by (auto simp: skip_def advance_def step_byte_def split: bind_splits if_splits)

lemma frames_inv_cong: "cond_stack s' = cond_stack s \<Longrightarrow> frames_inv s' = frames_inv s"
  by (simp add: frames_inv_def)

lemma frames_inv_push:
  assumes "frames_inv s" "length (cond_stack s) < COND_MAX"
  shows "frames_inv (s\<lparr>cond_stack := cond_stack s @
    [\<lparr>active = cond_is_emitting s \<and> b, parent_active = cond_is_emitting s, branch_taken = cond_is_emitting s \<and> b\<rparr>]\<rparr>)"
  using assms by (auto simp: frames_inv_def frames_ok_snoc Let_def cond_is_emitting_def)

lemma frames_inv_if:
  assumes "frames_inv s" "directive_if pf s = Some (e, s')"
  shows "frames_inv s'"
proof -
  obtain s1 w s2 where s: "skip_inline_ws s = Some s1" "read_directive_word s1 32 = Some (w, s2)"
    using assms(2) by (auto simp: directive_if_def split: bind_splits)
  have "cond_stack s2 = cond_stack s" using s skip_while_frames word_frames by (metis skip_inline_ws_def)
  then have i: "frames_inv s2" using assms(1) frames_inv_cong by blast
  show ?thesis
    using assms(2) s i frames_inv_push [OF i] by (auto simp: directive_if_def Let_def not_le split: if_splits)
qed

lemma frames_inv_else: "frames_inv s \<Longrightarrow> frames_inv (snd (directive_else s))"
  by (cases "cond_stack s" rule: rev_cases)
    (auto simp: directive_else_def frames_inv_def frames_ok_snoc Let_def split: if_splits)

lemma frames_inv_end: "frames_inv s \<Longrightarrow> frames_inv (snd (directive_end s))"
  by (cases "cond_stack s" rule: rev_cases) (auto simp: directive_end_def frames_inv_def frames_ok_snoc)

lemma frames_inv_directive:
  assumes "frames_inv s" "process_directive pf s = Some (e, s')"
  shows "frames_inv s'"
proof -
  obtain s1 w s2 where s: "skip s = Some s1" "read_directive_word s1 32 = Some (w, s2)"
    using assms(2) by (auto simp: process_directive_def split: bind_splits)
  have "cond_stack s2 = cond_stack s" using s skip_frames word_frames by metis
  then have i: "frames_inv s2" using assms(1) frames_inv_cong by blast
  consider "s' = s2" | "directive_if pf s2 = Some (e, s')" | "directive_else s2 = (e, s')" | "directive_end s2 = (e, s')"
    | "skip_while (\<lambda>c. c \<noteq> NUL \<and> c \<noteq> CHR 0x0A) s2 = Some s'"
    using assms(2) s by (auto simp: process_directive_def split: if_splits bind_splits)
  then show ?thesis
  proof cases
    case 3
    then show ?thesis using frames_inv_else [OF i] by simp
  next
    case 4
    then show ?thesis using frames_inv_end [OF i] by simp
  next
    case 5
    then show ?thesis using skip_while_frames frames_inv_cong i by blast
  qed (use i frames_inv_if in blast)+
qed

lemma process_directive_end:
  assumes "wf_scan s" "peek s = Some NUL"
  shows "process_directive pf s = None"
proof -
  have "cur s = length (src s)" using at_end [OF assms] .
  then have "peek (step_byte s) = None" by (simp add: peek_def char_at_def step_byte_def)
  then have "skip_while is_ident_char (step_byte s) = None" by (subst skip_while.simps) simp
  then show ?thesis using skip_wf [OF assms(1)] by (simp add: process_directive_def read_directive_word_def)
qed

text \<open>Every reachable state is inside the source, or one byte past its end and then stuck there.\<close>

lemma reach_inv: "reach pf s0 s \<Longrightarrow> wf_scan s0 \<Longrightarrow> frames_inv s0 \<Longrightarrow> (wf_scan s \<or> overrun s) \<and> frames_inv s"
proof (induction rule: reach.induct)
  case (comment s s')
  then have wf: "wf_scan s" using overrun_leading [of s] by auto
  have "moved s s'" using leading_moves [OF wf] comment(2) by fastforce
  then have "wf_scan s'" "cond_stack s' = cond_stack s" using moved_wf [OF wf] by (auto simp: moved_def)
  then show ?case using comment frames_inv_cong [of s' s] by simp
next
  case (directive s s1 e s')
  then have wf: "wf_scan s" using overrun_leading [of s] by auto
  have m: "moved s s1" using leading_moves [OF wf] directive(2) by fastforce
  note w1 = moved_wf [OF wf m]
  have "past s1 s'" using process_directive_past [OF w1, of "CHR ''#''" pf] directive(3,4) by (auto simp: at_directive_def)
  moreover have "frames_inv s1" using m directive frames_inv_cong [of s1 s] by (simp add: moved_def)
  ultimately show ?case using w1 frames_inv_directive directive(4) by (auto simp: past_def wf_scan_def)
next
  case (lex_token s s1 t s')
  then have wf: "wf_scan s" using overrun_leading [of s] by auto
  have m: "moved s s1" using leading_moves [OF wf] lex_token(2) by fastforce
  note w1 = moved_wf [OF wf m]
  have i: "frames_inv s1" using m lex_token frames_inv_cong [of s1 s] by (simp add: moved_def)
  show ?case
  proof (cases "unterminated s1")
    case True
    then have "overrun s'" "cond_stack s' = cond_stack s1" using unterminated_inner [OF w1] lex_token(4) by auto
    then show ?thesis using frames_inv_cong [of s' s1] i by simp
  next
    case False
    have "token_step s1 (t, s')" "keeps_frames s1 (t, s')" using scanner_next_inner_step [OF w1 False] lex_token(4) by auto
    then show ?thesis using token_step_wf [OF w1] frames_inv_cong [of s' s1] i by (simp add: keeps_frames_def)
  qed
qed auto

text \<open>C17: Conditional compilation nests.  In every state in which the loop of \<open>scanner_next\<close> begins a
  round, in any call on a NUL-free source,
  there are at most 16 frames, each frame records whether the frame around it emits, an active
  frame has its branch marked as taken and lies in an active frame, and so tokens are emitted
  exactly when every open frame is active.\<close>

theorem reach_frames:
  assumes "NUL \<notin> set tx" "reach pf (scanner_init tx) s"
  shows "length (cond_stack s) \<le> 16 \<and> frames_ok True (cond_stack s) \<and>
    (cond_is_emitting s \<longleftrightarrow> list_all active (cond_stack s))"
proof -
  have "wf_scan (scanner_init tx)" "frames_inv (scanner_init tx)"
    using assms(1) by (simp_all add: wf_scan_def frames_inv_def scanner_init_def)
  then have "frames_inv s" using reach_inv [OF assms(2)] by blast
  then show ?thesis using frames_ok_last by (auto simp: frames_inv_def COND_MAX_def cond_is_emitting_def)
qed

lemma reach_frames_witness:
  "\<exists>s. cond_stack s = [\<lparr>active = False, parent_active = True, branch_taken = False\<rparr>] \<and> \<not> cond_is_emitting s \<and>
    length (cond_stack s) \<le> 16 \<and> frames_ok True (cond_stack s) \<and> (cond_is_emitting s \<longleftrightarrow> list_all active (cond_stack s))"
proof -
  have "(case process_directive OTHER_PLATFORM (scanner_init ''#if WINDOWS'') of
      Some (e, s) \<Rightarrow> leading (scanner_init ''#if WINDOWS'') = Some (True, scanner_init ''#if WINDOWS'') \<and>
        at_directive (scanner_init ''#if WINDOWS'') \<and> cond_stack s = [\<lparr>active = False, parent_active = True, branch_taken = False\<rparr>] \<and> \<not> cond_is_emitting s
    | None \<Rightarrow> False)"
    by code_simp
  then obtain e s where s: "process_directive OTHER_PLATFORM (scanner_init ''#if WINDOWS'') = Some (e, s)"
    "cond_stack s = [\<lparr>active = False, parent_active = True, branch_taken = False\<rparr>]" "\<not> cond_is_emitting s"
    "leading (scanner_init ''#if WINDOWS'') = Some (True, scanner_init ''#if WINDOWS'')" "at_directive (scanner_init ''#if WINDOWS'')"
    by (auto split: option.splits)
  have "NUL \<notin> set ''#if WINDOWS''" by (simp add: NUL_def)
  from reach_frames [OF this reach.directive [OF reach.start s(4,5,1)]] show ?thesis using s(2,3) by blast
qed

section \<open>The whole source\<close>

text \<open>After its end-of-file token the scanner returns the same again.\<close>

lemma scan_all_at_end:
  assumes "wf_scan s" "cur s = length (src s)" "\<not> unterminated s"
  shows "scan_all pf s \<noteq> None"
proof -
  have p: "peek s = Some NUL" using assms(2) by (simp add: peek_def char_at_def)
  have w: "skip_whitespace s = Some (True, s)" using p by (subst skip_whitespace.simps) (simp add: NUL_def)
  have t: "\<not> (in_fstring s \<and> fstring_brace_depth s = 0)" using assms(2,3) by (simp add: unterminated_def)
  have l: "leading s = Some (True, s)" using w t by (simp add: leading_def)
  have d: "\<not> at_directive s" using p by (simp add: at_directive_def)
  have "scanner_next_inner s = token_at (start_here s) TOKEN_EOF"
    unfolding scanner_next_inner_def if_not_P [OF t] w by (simp add: Let_def start_here_wf p)
  then have "\<exists>t s'. scanner_next pf s = Some (t, s') \<and> ttype t = TOKEN_EOF"
    using scanner_next_round [OF l p, of pf] d by (simp add: token_at_def make_token_def)
  then show ?thesis by (subst scan_all.simps) auto
qed

text \<open>No token stream continues a state from which there is none.\<close>

lemma scan_all_error: "scanner_next pf s = error_at s' m \<Longrightarrow> scan_all pf s' = None \<Longrightarrow> scan_all pf s = None"
  by (subst scan_all.simps) (simp add: error_at_def error_token_def)

lemma scan_all_next:
  assumes "scanner_next pf s = Some (t, s')" "wf_scan s" "token_step s (t, s') \<or> ttype t \<noteq> TOKEN_EOF"
    "scan_all pf s' = None"
  shows "scan_all pf s = None"
proof (cases "ttype t = TOKEN_EOF")
  case True
  then have st: "token_step s (t, s')" using assms(3) by blast
  have "cur s' = length (src s')" "\<not> unterminated s'" using st True by (simp_all add: token_step_def)
  then show ?thesis using scan_all_at_end [OF token_step_wf [OF assms(2) st], of pf] assms(4) by simp
next
  case False
  then show ?thesis using assms(1,4) by (subst scan_all.simps) simp
qed

lemma scan_all_same: "scanner_next pf s = scanner_next pf s' \<Longrightarrow> scan_all pf s = scan_all pf s'"
  by (subst (1 2) scan_all.simps) simp

lemma reach_none: "reach pf s0 s \<Longrightarrow> wf_scan s0 \<Longrightarrow> frames_inv s0 \<Longrightarrow> scan_all pf s = None \<Longrightarrow> scan_all pf s0 = None"
proof (induction rule: reach.induct)
  case (comment s s')
  then have wf: "wf_scan s" using reach_inv [OF comment(1)] overrun_leading [of s] by auto
  obtain c where c: "peek s' = Some c" using leading_moves [OF wf] comment(2) moved_wf [OF wf] peek_wf by (metis Pair_inject option.inject)
  have "scanner_next pf s = error_at s' ''unterminated block comment''" using scanner_next_round [OF comment(2) c, of pf] by simp
  from scan_all_error [OF this comment(6)] show ?case by (rule comment(3) [OF comment(4,5)])
next
  case (directive s s1 e s')
  have n: "scanner_next pf s = (if e then error_at s' ''malformed preprocessor directive'' else scanner_next pf s')"
    using scanner_next_round [OF directive(2), of "CHR ''#''" pf] directive(3,4) by (simp add: at_directive_def)
  show ?case
  proof (cases e)
    case True
    then have "scanner_next pf s = error_at s' ''malformed preprocessor directive''" using n by simp
    from scan_all_error [OF this directive(8)] show ?thesis by (rule directive(5) [OF directive(6,7)])
  next
    case False
    have "scan_all pf s = scan_all pf s'" by (rule scan_all_same) (use n False in simp)
    then show ?thesis using directive by simp
  qed
next
  case (lex_token s s1 t s')
  then have wf: "wf_scan s" using reach_inv [OF lex_token(1)] overrun_leading [of s] by auto
  have m: "moved s s1" using leading_moves [OF wf] lex_token(2) by fastforce
  note w1 = moved_wf [OF wf m]
  obtain c where c: "peek s1 = Some c" using peek_wf [OF w1] by blast
  have st: "token_step s (t, s') \<or> ttype t \<noteq> TOKEN_EOF"
  proof (cases "unterminated s1")
    case True
    then show ?thesis using unterminated_inner [OF w1] lex_token(4) by auto
  next
    case False
    then have "token_step s1 (t, s')" using scanner_next_inner_step [OF w1] lex_token(4) by auto
    then show ?thesis using token_step_later m by (auto simp: moved_def)
  qed
  have n: "scanner_next pf s = (if cond_is_emitting s1 \<or> ttype t = TOKEN_EOF \<or> ttype t = TOKEN_ERROR then Some (t, s') else scanner_next pf s')"
    using scanner_next_round [OF lex_token(2) c, of pf] lex_token(3,4) by simp
  show ?case
  proof (cases "cond_is_emitting s1 \<or> ttype t = TOKEN_EOF \<or> ttype t = TOKEN_ERROR")
    case True
    then have "scanner_next pf s = Some (t, s')" using n by simp
    from scan_all_next [OF this wf st lex_token(8)] show ?thesis by (rule lex_token(5) [OF lex_token(6,7)])
  next
    case False
    have "scan_all pf s = scan_all pf s'" by (rule scan_all_same) (use n False in simp)
    then show ?thesis using lex_token by simp
  qed
qed auto

lemma unterminated_none:
  assumes "wf_scan s" "unterminated s"
  shows "scan_all pf s = None"
proof -
  obtain t s' where t: "scanner_next_inner s = Some (t, s')" "ttype t = Del TOKEN_LBRACE" "overrun s'"
    using unterminated_inner [OF assms] by blast
  have l: "leading s = Some (True, s)" "\<not> at_directive s" using assms(2) by (auto simp: leading_def unterminated_def at_directive_def)
  obtain c where c: "peek s = Some c" using peek_wf [OF assms(1)] by blast
  have z: "scan_all pf s' = None" by (subst scan_all.simps) (simp add: overrun_none(5) [OF t(3)])
  have "scanner_next pf s = Some (t, s') \<or> scanner_next pf s = None"
    using scanner_next_round [OF l(1) c, of pf] l(2) t(1,2) overrun_none(5) [OF t(3), of pf] by auto
  then show ?thesis using z t(2) by (subst scan_all.simps) auto
qed

text \<open>C15: Scanning ends, inside the source, with one exception.  For every NUL-free source exactly one
  of two things holds.  Either the token stream is complete: it ends with the end-of-file token, every
  token that points into the source lies in it, and the texts of the tokens follow one another without
  overlap, whatever errors, directives and inactive branches there are.  Or there is no token stream,
  because the loop of \<open>scanner_next\<close> begins a round at the end of the source inside the text of a format
  string, from where the scanner reads past the terminating NUL.\<close>

theorem scan_all_total:
  assumes "NUL \<notin> set tx"
  shows "if \<exists>s. reach pf (scanner_init tx) s \<and> unterminated s then scan_all pf (scanner_init tx) = None
    else \<exists>ts. scan_all pf (scanner_init tx) = Some ts \<and> in_order 0 (length tx) ts \<and> ts \<noteq> [] \<and> ttype (last ts) = TOKEN_EOF"
proof -
  have i: "wf_scan (scanner_init tx)" "frames_inv (scanner_init tx)"
    using assms by (simp_all add: wf_scan_def scanner_init_def frames_inv_def)
  show ?thesis
  proof (cases "\<exists>s. reach pf (scanner_init tx) s \<and> unterminated s")
    case True
    then obtain s where s: "reach pf (scanner_init tx) s" "unterminated s" by blast
    then have "wf_scan s" using reach_inv [OF s(1) i] by (auto simp: overrun_def unterminated_def)
    then show ?thesis using True reach_none [OF s(1) i unterminated_none [OF _ s(2)]] by simp
  next
    case False
    then have "\<not> stuck pf (scanner_init tx)" by (simp add: stuck_def)
    from scan_all_ends [OF i(1) this] show ?thesis unfolding if_not_P [OF False] by (simp add: scanner_init_def)
  qed
qed

lemma scan_all_total_witness:
  "\<exists>ts. scan_all OTHER_PLATFORM (scanner_init ''x = @foo 0b2'') = Some ts \<and> in_order 0 12 ts \<and> ttype (last ts) = TOKEN_EOF"
proof -
  have n: "NUL \<notin> set ''x = @foo 0b2''" by (simp add: NUL_def)
  have l: "length ''x = @foo 0b2'' = 12" by simp
  have s: "scan_all OTHER_PLATFORM (scanner_init ''x = @foo 0b2'') \<noteq> None" by code_simp
  show ?thesis using scan_all_total [OF n, of OTHER_PLATFORM] s unfolding l by (simp split: if_splits)
qed

end
