(* ===== verification/Scanner_Roundtrip.thy ===== *)
theory Scanner_Roundtrip
  imports Scanner_Frames
begin

text \<open>
  Printing and scanning.  A token list printed with any blanks between the spellings scans back to
  the same tokens, for the spellings that stand for themselves: keywords, identifiers, decimal
  integers and all operators and delimiters.
\<close>

section \<open>Spellings\<close>

definition blank :: "char \<Rightarrow> bool" where
  "blank c \<longleftrightarrow> c = CHR '' '' \<or> c = CHR 0x09 \<or> c = CHR 0x0D \<or> c = CHR 0x0A"

definition wordlike :: "string \<Rightarrow> bool" where
  "wordlike w \<longleftrightarrow> w \<noteq> [] \<and> w \<noteq> ''_'' \<and> (isalpha (hd w) \<or> hd w = CHR ''_'') \<and> list_all is_ident_char w"

definition punctuation :: "(string \<times> TokenType) list" where
  "punctuation =
     map (\<lambda>(c, ty). ([c], ty)) single_table @
     concat (map (\<lambda>(c, tab, ty). ([c], ty) # map (\<lambda>(d, ty2). ([c, d], ty2)) tab) double_table) @
     [(''.'', Del TOKEN_DOT), (''..'', Del TOKEN_DOTDOT), (''...'', Del TOKEN_ELLIPSIS), (''_'', Del TOKEN_UNDERSCORE)]"

definition spells :: "string \<Rightarrow> TokenType \<Rightarrow> bool" where
  "spells w ty \<longleftrightarrow>
     (w, ty) \<in> set keyword_table \<or>
     wordlike w \<and> w \<notin> set (map fst keyword_table) \<and> ty = TOKEN_IDENTIFIER \<or>
     w \<noteq> [] \<and> list_all isdigit w \<and> ty = Lit TOKEN_INT_LIT \<or>
     (w, ty) \<in> set punctuation"

definition printed :: "(string \<times> string \<times> TokenType) list \<Rightarrow> string" where
  "printed ws = concat (map (\<lambda>(b, w, ty). b @ w) ws)"

definition printable :: "(string \<times> string \<times> TokenType) list \<Rightarrow> bool" where
  "printable ws \<longleftrightarrow> list_all (\<lambda>(b, w, ty). b \<noteq> [] \<and> list_all blank b \<and> spells w ty) ws"

definition text_of :: "string \<Rightarrow> Token \<Rightarrow> string" where
  "text_of tx t = (case tstart t of In_source p \<Rightarrow> take (tlength t) (drop p tx) | Message m \<Rightarrow> m)"

section \<open>Positions\<close>

definition at :: "Scanner \<Rightarrow> string \<Rightarrow> bool" where
  "at s xs \<longleftrightarrow> cur s + length xs = length (src s) \<and> drop (cur s) (src s) = xs"

definition first :: "string \<Rightarrow> char" where
  "first xs = (case xs of [] \<Rightarrow> NUL | c # _ \<Rightarrow> c)"

lemma first_simps [simp]: "first [] = NUL" "first (c # xs) = c"
  by (simp_all add: first_def)

lemma at_peek: "at s xs \<Longrightarrow> peek s = Some (first xs)"
  by (cases xs) (auto simp: at_def peek_def char_at_def first_def nth_via_drop)

lemma at_step: "at s (c # xs) \<Longrightarrow> at (step_byte s) xs" "at s (c # xs) \<Longrightarrow> at (newline s) xs"
  by (auto simp: at_def step_byte_def newline_def) (metis drop_Suc list.sel(3) tl_drop)+

lemma at_src: "at s xs \<Longrightarrow> src (f s) = src s \<Longrightarrow> cur (f s) = cur s \<Longrightarrow> at (f s) xs"
  by (simp add: at_def)

lemma at_skip: "at s (c # xs) \<Longrightarrow> skip s = Some (step_byte s)"
  by (simp add: skip_def advance_def at_peek)

lemma char_at_1: "char_at s 1 = peek (step_byte s)"
  by (simp add: peek_def char_at_def step_byte_def)

lemma at_peek_next: "at s (c # xs) \<Longrightarrow> c \<noteq> NUL \<Longrightarrow> peek_next s = Some (first xs)"
  using at_peek [OF at_step(1)] at_peek [of s "c # xs"]
  by (simp add: peek_next_def is_at_end_def char_at_1 [unfolded One_nat_def])

text \<open>The fields that the scan of a word leaves alone.\<close>

definition same :: "Scanner \<Rightarrow> Scanner \<Rightarrow> bool" where
  "same s s' \<longleftrightarrow> src s' = src s \<and> tok_start s' = tok_start s \<and> in_fstring s' = in_fstring s \<and>
     cond_stack s' = cond_stack s"

lemma step_byte_fields [simp]: "cur (step_byte s) = Suc (cur s)" "tok_start (step_byte s) = tok_start s"
  "src (step_byte s) = src s" "in_fstring (step_byte s) = in_fstring s" "cond_stack (step_byte s) = cond_stack s"
  by (simp_all add: step_byte_def)

lemma same_refl [simp]: "same s s" "same s (step_byte s)" "same s (newline s)"
  by (simp_all add: same_def step_byte_def newline_def)

lemma same_trans: "same s t \<Longrightarrow> same t u \<Longrightarrow> same s u"
  by (simp add: same_def)

lemma skip_while_at:
  "at s (u @ rest) \<Longrightarrow> list_all P u \<Longrightarrow> \<not> P (first rest) \<Longrightarrow>
    \<exists>s'. skip_while P s = Some s' \<and> at s' rest \<and> same s s' \<and> cur s' = cur s + length u"
proof (induction u arbitrary: s)
  case Nil
  then show ?case using at_peek [of s rest] by (subst skip_while.simps) simp
next
  case (Cons c u)
  have "at (step_byte s) (u @ rest)" using at_step(1) [of s c "u @ rest"] Cons.prems by simp
  then obtain s' where s': "skip_while P (step_byte s) = Some s'" "at s' rest" "same (step_byte s) s'"
    "cur s' = cur (step_byte s) + length u" using Cons.IH [of "step_byte s"] Cons.prems(2,3) by auto
  have "skip_while P s = Some s'" using at_peek [OF Cons.prems(1)] Cons.prems(2) s'(1) by (subst skip_while.simps) simp
  then show ?case using s'(2-4) same_trans [OF same_refl(2) s'(3)] by auto
qed

section \<open>Words\<close>

text \<open>A lexeme \<open>c # w\<close> was entered: its first byte is consumed.\<close>

definition entered :: "Scanner \<Rightarrow> char \<Rightarrow> string \<Rightarrow> string \<Rightarrow> bool" where
  "entered s c w rest \<longleftrightarrow> at s (w @ rest) \<and> cur s = tok_start s + 1 \<and> tok_start s < length (src s) \<and>
     drop (tok_start s) (src s) = c # w @ rest"

definition scanned :: "Scanner \<Rightarrow> TokenType \<Rightarrow> nat \<Rightarrow> string \<Rightarrow> (Token \<times> Scanner) option \<Rightarrow> bool" where
  "scanned s ty n rest r \<longleftrightarrow> (\<exists>t s'. r = Some (t, s') \<and> ttype t = ty \<and> tstart t = In_source (tok_start s) \<and>
     tlength t = n \<and> at s' rest \<and> same s s')"

lemma scanned_token: "at s' rest \<Longrightarrow> same s s' \<Longrightarrow> n = cur s' - tok_start s' \<Longrightarrow> scanned s ty n rest (token_at s' ty)"
  by (auto simp: scanned_def token_at_def make_token_def same_def)

lemma entered_start: "entered s c w rest \<Longrightarrow> start_char s = c" "entered s c w rest \<Longrightarrow> start_text s = c # w @ rest"
  by (simp_all add: entered_def start_char_def start_text_def nth_via_drop)

definition ends :: "string \<Rightarrow> bool" where
  "ends rest \<longleftrightarrow> rest = [] \<or> blank (hd rest)"

lemma ends_first: "ends rest \<Longrightarrow> first rest = NUL \<or> blank (first rest)"
  by (cases rest) (auto simp: ends_def)

lemma blank_cases: "blank c \<or> c = NUL \<Longrightarrow> \<not> is_ident_char c \<and> \<not> isdigit c \<and> c \<notin> set ''?!=.eExXbB&|<>+-*/'' \<and> c \<noteq> CHR 0x22 \<and> c \<noteq> CHR 0x27"
  by (auto simp: blank_def NUL_def is_ident_char_def isalnum_def isalpha_def isdigit_def isupper_c_def islower_c_def ccode_def)

lemmas ends_not = blank_cases [OF disj_commute [THEN iffD1], OF ends_first]

lemma scan_identifier_word:
  assumes "entered s c w rest" "wordlike (c # w)" "ends rest" "NUL \<notin> set (src s)"
  shows "scanned s (case map_of keyword_table (c # w) of Some ty \<Rightarrow> ty | None \<Rightarrow> TOKEN_IDENTIFIER) (Suc (length w)) rest (scan_identifier s)"
proof -
  note e = ends_not [OF assms(3)]
  have "at s (w @ rest)" "list_all is_ident_char w" using assms(1,2) by (auto simp: entered_def wordlike_def)
  from skip_while_at [where P = is_ident_char, OF this] e
  obtain s1 where s1: "skip_while is_ident_char s = Some s1" "at s1 rest" "same s s1" "cur s1 = cur s + length w" by blast
  have n: "cur s1 - tok_start s1 = Suc (length w)" using s1(3,4) assms(1) by (simp add: same_def entered_def)
  have "start_char s1 = start_char s" "start_text s1 = start_text s"
    using s1(3) by (simp_all add: same_def start_char_def start_text_def)
  then have st: "start_char s1 = c" "start_text s1 = c # w @ rest"
    using entered_start [OF assms(1)] by simp_all
  have p: "peek s1 = Some (first rest)" by (rule at_peek [OF s1(2)])
  have "NUL \<notin> set (c # w @ rest)"
    using assms(1,4) unfolding entered_def by (metis in_set_dropD)
  then have k: "check_keyword (c # w @ rest) (Suc (length w)) =
      (case map_of keyword_table (c # w) of Some ty \<Rightarrow> ty | None \<Rightarrow> TOKEN_IDENTIFIER)"
    using keyword_search_table [of "c # w @ rest" "Suc (length w)" 0 "int (length keyword_table) - 1"]
    by (simp add: check_keyword_def)
  have nu: "\<not> (length w = 0 \<and> c = CHR ''_'')" using assms(2) by (auto simp: wordlike_def)
  have "scan_identifier s = token_at s1 (check_keyword (c # w @ rest) (Suc (length w)))"
    using s1(1) p n st nu e by (auto simp: scan_identifier_def Let_def)
  then show ?thesis using k scanned_token [OF s1(2,3)] n by simp
qed

lemma scan_number_word:
  assumes "entered s c w rest" "isdigit c" "list_all isdigit w" "ends rest"
  shows "scanned s (Lit TOKEN_INT_LIT) (Suc (length w)) rest (scan_number s)"
proof -
  note e = ends_not [OF assms(4)]
  have a: "at s (w @ rest)" using assms(1) by (simp add: entered_def)
  obtain s1 where s1: "skip_while isdigit s = Some s1" "at s1 rest" "same s s1" "cur s1 = cur s + length w"
    using skip_while_at [where P = isdigit, OF a assms(3)] e by blast
  have p: "peek s1 = Some (first rest)" by (rule at_peek [OF s1(2)])
  have "first (w @ rest) \<notin> set ''xXbB''"
    using assms(3) e by (cases w) (auto simp: isdigit_def ccode_def)
  then have "scan_number s = scan_decimal s" using at_peek [OF a] by (auto simp: scan_number_def)
  also have "\<dots> = token_at s1 (Lit TOKEN_INT_LIT)"
    using s1(1) p e by (auto simp: scan_decimal_def scan_fraction_def)
  finally show ?thesis
    using scanned_token [OF s1(2,3), of "Suc (length w)" "Lit TOKEN_INT_LIT"] s1(3,4) assms(1)
    by (simp add: same_def entered_def)
qed

section \<open>Punctuation\<close>

lemma match_char2_no: "at s xs \<Longrightarrow> first xs \<noteq> e \<Longrightarrow> match_char2 s e = Some (False, s)"
  by (auto simp: match_char2_def is_at_end_def at_peek)

lemma match_char2_yes: "at s (e # xs) \<Longrightarrow> e \<noteq> NUL \<Longrightarrow> match_char2 s e = Some (True, step_byte s)"
  by (auto simp: match_char2_def is_at_end_def at_peek)

lemma with_second_none: "at s rest \<Longrightarrow> first rest \<notin> fst ` set tab \<Longrightarrow> with_second s tab ty = token_at s ty"
  by (induction tab) (auto simp: match_char2_no)

lemma with_second_some:
  "at s (d # rest) \<Longrightarrow> d \<noteq> NUL \<Longrightarrow> map_of tab d = Some ty2 \<Longrightarrow> with_second s tab ty = token_at (step_byte s) ty2"
proof (induction tab)
  case (Cons p tab)
  obtain e ty3 where p: "p = (e, ty3)" by (cases p)
  show ?case using Cons p by (cases "d = e") (auto simp: match_char2_yes match_char2_no split: if_splits)
qed simp

lemma scan_dots_word:
  assumes "entered s c w rest" "list_all (\<lambda>d. d = CHR ''.'') w" "length w < 3" "ends rest"
  shows "scanned s (Del (if w = [] then TOKEN_DOT else if length w = 1 then TOKEN_DOTDOT else TOKEN_ELLIPSIS)) (Suc (length w)) rest (scan_dots s)"
proof -
  note e = ends_not [OF assms(4)]
  have a: "at s (w @ rest)" "cur s = tok_start s + 1" using assms(1) by (simp_all add: entered_def)
  have nz: "CHR ''.'' \<noteq> NUL" by (simp add: NUL_def)
  consider "w = []" | "w = ''.''" | "w = ''..''"
    using assms(2,3) by (cases w; cases "tl w"; cases "tl (tl w)") auto
  then show ?thesis
  proof cases
    case 1
    then have "scan_dots s = token_at s (Del TOKEN_DOT)" using match_char2_no [of s rest "CHR ''.''"] a e by (simp add: scan_dots_def)
    then show ?thesis using scanned_token [of s rest s] a 1 by simp
  next
    case 2
    have b: "at (step_byte s) rest" using at_step(1) a 2 by simp
    then have "scan_dots s = token_at (step_byte s) (Del TOKEN_DOTDOT)"
      using match_char2_yes [of s "CHR ''.''" rest] match_char2_no [OF b, of "CHR ''.''"] a 2 e nz by (simp add: scan_dots_def)
    then show ?thesis using scanned_token [OF b, of s] a 2 by (simp add: numeral_2_eq_2)
  next
    case 3
    have b: "at (step_byte s) (CHR ''.'' # rest)" using at_step(1) a 3 by simp
    then have d: "at (step_byte (step_byte s)) rest" using at_step(1) by blast
    have "scan_dots s = token_at (step_byte (step_byte s)) (Del TOKEN_ELLIPSIS)"
      using match_char2_yes [of s "CHR ''.''" "''.'' @ rest"] match_char2_yes [OF b] a 3 nz by (simp add: scan_dots_def)
    then show ?thesis using scanned_token [OF d same_trans [OF same_refl(2) same_refl(2)]] a 3 by (simp add: numeral_3_eq_3)
  qed
qed

lemma tables:
  "list_all (\<lambda>(c, ty). c \<noteq> NUL \<and> \<not> isalpha c \<and> \<not> isdigit c \<and> c \<notin> set ''_.@'' \<and> c \<noteq> CHR 0x22 \<and> c \<noteq> CHR 0x27) single_table"
  "list_all (\<lambda>(c, r). c \<noteq> NUL \<and> \<not> isalpha c \<and> \<not> isdigit c \<and> c \<notin> set ''_.@'' \<and> c \<noteq> CHR 0x22 \<and> c \<noteq> CHR 0x27 \<and> map_of single_table c = None) double_table"
  "distinct (map fst single_table)" "distinct (map fst double_table)"
  "list_all (\<lambda>(c, tab, ty). distinct (map fst tab) \<and> list_all (\<lambda>(d, ty). d \<noteq> NUL \<and> d \<in> set ''=>&|<>'') tab) double_table"
  "list_all (\<lambda>(c, ty). \<not> blank c \<and> c \<noteq> CHR ''#'' \<and> c \<noteq> CHR ''/'') single_table"
  "list_all (\<lambda>(c, ty). \<not> blank c \<and> c \<noteq> CHR ''#'') double_table"
  "list_all (\<lambda>(w, ty). wordlike w) keyword_table"
  by code_simp+

lemma scan_single:
  assumes "(c, ty) \<in> set single_table" "entered s c [] rest"
  shows "scanned s ty 1 rest (scan_lexeme c s)"
proof -
  have "c \<noteq> NUL \<and> \<not> isalpha c \<and> \<not> isdigit c \<and> c \<notin> set ''_.@'' \<and> c \<noteq> CHR 0x22 \<and> c \<noteq> CHR 0x27"
    using tables(1) assms(1) unfolding list_all_iff by fast
  then have "scan_lexeme c s = token_at s ty"
    using map_of_is_SomeI [OF tables(3) assms(1)] by (simp add: scan_lexeme_def)
  then show ?thesis using assms(2) scanned_token [of s rest s] by (simp add: entered_def)
qed

lemma scan_double:
  assumes "(c, tab, ty) \<in> set double_table"
  shows "scan_lexeme c s = with_second s tab ty"
proof -
  have "c \<noteq> NUL \<and> \<not> isalpha c \<and> \<not> isdigit c \<and> c \<notin> set ''_.@'' \<and> c \<noteq> CHR 0x22 \<and> c \<noteq> CHR 0x27 \<and> map_of single_table c = None"
    using tables(2) assms unfolding list_all_iff by fast
  then show ?thesis using map_of_is_SomeI [OF tables(4) assms] by (simp add: scan_lexeme_def)
qed

lemma scan_double_one:
  assumes "(c, tab, ty) \<in> set double_table" "entered s c [] rest" "ends rest"
  shows "scanned s ty 1 rest (scan_lexeme c s)"
proof -
  have a: "at s rest" "cur s = tok_start s + 1" using assms(2) by (simp_all add: entered_def)
  have "\<forall>(d, ty) \<in> set tab. d \<noteq> NUL \<and> d \<in> set ''=>&|<>''" using assms(1) tables(5) unfolding list_all_iff by fast
  then have "first rest \<notin> fst ` set tab" using ends_not [OF assms(3)] by fastforce
  then have "scan_lexeme c s = token_at s ty" using scan_double [OF assms(1)] with_second_none [OF a(1)] by simp
  then show ?thesis using scanned_token [OF a(1)] a(2) by simp
qed

lemma scan_double_two:
  assumes "(c, tab, ty) \<in> set double_table" "(d, ty2) \<in> set tab" "entered s c [d] rest"
  shows "scanned s ty2 2 rest (scan_lexeme c s)"
proof -
  have a: "at s (d # rest)" "cur s = tok_start s + 1" using assms(3) by (simp_all add: entered_def)
  have t: "distinct (map fst tab)" "d \<noteq> NUL" using assms(1,2) tables(5) unfolding list_all_iff by fast+
  have "d \<noteq> NUL" "map_of tab d = Some ty2" using t map_of_is_SomeI [OF t(1) assms(2)] by simp_all
  then have "scan_lexeme c s = token_at (step_byte s) ty2" using scan_double [OF assms(1)] with_second_some [OF a(1)] by simp
  then show ?thesis using scanned_token [OF at_step(1) [OF a(1)], of s] a(2) by simp
qed

text \<open>Every spelling scans to its token.\<close>

lemma scan_spelling:
  assumes "spells (c # w) ty" "entered s c w rest" "ends rest" "NUL \<notin> set (src s)"
  shows "scanned s ty (Suc (length w)) rest (scan_lexeme c s)"
proof -
  have word: ?thesis if wd: "wordlike (c # w)" and k: "(case map_of keyword_table (c # w) of Some ty \<Rightarrow> ty | None \<Rightarrow> TOKEN_IDENTIFIER) = ty"
  proof -
    have "scan_lexeme c s = scan_identifier s" using wd by (simp add: wordlike_def scan_lexeme_def)
    then show ?thesis using scan_identifier_word [OF assms(2) wd assms(3,4)] k by simp
  qed
  consider "(c # w, ty) \<in> set keyword_table"
    | "wordlike (c # w)" "c # w \<notin> set (map fst keyword_table)" "ty = TOKEN_IDENTIFIER"
    | "isdigit c" "list_all isdigit w" "ty = Lit TOKEN_INT_LIT"
    | "w = []" "(c, ty) \<in> set single_table"
    | tab where "w = []" "(c, tab, ty) \<in> set double_table"
    | tab ty1 d where "w = [d]" "(c, tab, ty1) \<in> set double_table" "(d, ty) \<in> set tab"
    | "c = CHR ''.''" "list_all (\<lambda>d. d = CHR ''.'') w" "length w < 3"
      "ty = Del (if w = [] then TOKEN_DOT else if length w = 1 then TOKEN_DOTDOT else TOKEN_ELLIPSIS)"
    | "c = CHR ''_''" "w = []" "ty = Del TOKEN_UNDERSCORE"
    using assms(1) unfolding spells_def punctuation_def by auto
  then show ?thesis
  proof cases
    case 1
    have "distinct (map fst keyword_table)" by (rule distinct_sorted [OF keyword_table_sorted])
    then have "map_of keyword_table (c # w) = Some ty" using 1 by simp
    moreover have "wordlike (c # w)" using 1 tables(8) by (auto simp: list_all_iff)
    ultimately show ?thesis using word by simp
  next
    case 2
    then have "map_of keyword_table (c # w) = None" by (simp add: map_of_eq_None_iff)
    then show ?thesis using word 2 by simp
  next
    case 3
    have na: "\<not> isalpha c" "c \<noteq> CHR ''_''" using 3(1) by (auto simp: isdigit_def isalpha_def isupper_c_def islower_c_def ccode_def)
    then show ?thesis using scan_number_word [OF assms(2) 3(1,2) assms(3)] 3 by (simp add: scan_lexeme_def)
  next
    case 4
    then show ?thesis using scan_single assms(2) by simp
  next
    case (5 tab)
    then show ?thesis using scan_double_one assms(2,3) by simp
  next
    case (6 tab ty1 d)
    then show ?thesis using scan_double_two assms(2) by (simp add: numeral_2_eq_2)
  next
    case 7
    have "scan_lexeme c s = scan_dots s" using 7(1) by (simp add: scan_lexeme_def isalpha_def isdigit_def isupper_c_def islower_c_def ccode_def)
    then show ?thesis using scan_dots_word [OF assms(2) 7(2,3) assms(3)] 7 by simp
  next
    case 8
    have a: "at s rest" using assms(2) 8 by (simp add: entered_def)
    have sw: "skip_while is_ident_char s = Some s" using at_peek [OF a] ends_not [OF assms(3)] by (subst skip_while.simps) simp
    have "scan_lexeme c s = scan_identifier s" using 8 by (simp add: scan_lexeme_def)
    also have "\<dots> = token_at s (Del TOKEN_UNDERSCORE)"
      using sw at_peek [OF a] entered_start(1) [OF assms(2)] assms(2) 8 by (simp add: scan_identifier_def Let_def entered_def)
    finally show ?thesis using scanned_token [OF a] assms(2) 8 by (simp add: entered_def)
  qed
qed

section \<open>Layout\<close>

definition ready :: "Scanner \<Rightarrow> string \<Rightarrow> bool" where
  "ready s xs \<longleftrightarrow> at s xs \<and> \<not> in_fstring s \<and> cond_stack s = [] \<and> NUL \<notin> set (src s)"

lemma skip_whitespace_here:
  assumes "at s xs" "\<not> blank (first xs)" "first xs = CHR ''/'' \<longrightarrow> first (tl xs) \<notin> set ''/*''"
  shows "skip_whitespace s = Some (True, s)"
proof -
  have "peek_next s = Some (first (tl xs))" if "first xs = CHR ''/''"
    using that assms(1) at_peek_next [of s "CHR ''/''" "tl xs"] by (cases xs) (auto simp: NUL_def)
  then show ?thesis using at_peek [OF assms(1)] assms(2,3)
    by (subst skip_whitespace.simps) (auto simp: blank_def)
qed

lemma skip_whitespace_blank:
  assumes "at s (c # xs)" "blank c"
  shows "\<exists>s'. skip_whitespace s = skip_whitespace s' \<and> at s' xs \<and> same s s' \<and> cur s' = cur s + 1"
proof (cases "c = CHR 0x0A")
  case True
  then have "skip_whitespace s = skip_whitespace (newline s)" using at_peek [OF assms(1)] by (subst skip_whitespace.simps) simp
  moreover have "cur (newline s) = cur s + 1" by (simp add: newline_def)
  ultimately show ?thesis using at_step(2) [OF assms(1)] same_refl(3) by blast
next
  case False
  then have "skip_whitespace s = skip_whitespace (step_byte s)"
    using at_peek [OF assms(1)] assms(2) by (subst skip_whitespace.simps) (auto simp: blank_def)
  moreover have "cur (step_byte s) = cur s + 1" by simp
  ultimately show ?thesis using at_step(1) [OF assms(1)] same_refl(2) by blast
qed

lemma skip_whitespace_blanks:
  "at s (b @ xs) \<Longrightarrow> list_all blank b \<Longrightarrow> \<not> blank (first xs) \<Longrightarrow> first xs = CHR ''/'' \<longrightarrow> first (tl xs) \<notin> set ''/*'' \<Longrightarrow>
    \<exists>s'. skip_whitespace s = Some (True, s') \<and> at s' xs \<and> same s s'"
proof (induction b arbitrary: s)
  case Nil
  then show ?case using skip_whitespace_here by fastforce
next
  case (Cons c b)
  obtain s1 where s1: "skip_whitespace s = skip_whitespace s1" "at s1 (b @ xs)" "same s s1"
    using skip_whitespace_blank [of s c "b @ xs"] Cons.prems by auto
  then show ?case using Cons.IH [of s1] Cons.prems same_trans by fastforce
qed

lemma spelling_starts:
  assumes "spells w ty" "ends rest"
  shows "w \<noteq> []" "\<not> blank (hd w)" "hd w \<noteq> CHR ''#''" "hd w \<noteq> NUL" "first (w @ rest) = hd w"
    "hd w = CHR ''/'' \<longrightarrow> first (tl w @ rest) \<notin> set ''/*''"
proof -
  have ws: "wordlike w \<Longrightarrow> w \<noteq> [] \<and> is_ident_char (hd w)" by (cases w) (auto simp: wordlike_def)
  have ic: "is_ident_char c \<Longrightarrow> \<not> blank c \<and> c \<noteq> CHR ''#'' \<and> c \<noteq> NUL \<and> c \<noteq> CHR ''/''" for c
    using blank_cases [of c] by (auto simp: is_ident_char_def isalnum_def isalpha_def isdigit_def isupper_c_def islower_c_def ccode_def NUL_def)
  have pu: "list_all (\<lambda>(w, ty). w \<noteq> [] \<and> \<not> blank (hd w) \<and> hd w \<noteq> CHR ''#'' \<and> hd w \<noteq> NUL \<and>
     (hd w = CHR ''/'' \<longrightarrow> tl w = [] \<or> hd (tl w) = CHR ''='')) punctuation" by code_simp
  have "w \<noteq> [] \<and> \<not> blank (hd w) \<and> hd w \<noteq> CHR ''#'' \<and> hd w \<noteq> NUL \<and> (hd w = CHR ''/'' \<longrightarrow> tl w = [] \<or> hd (tl w) = CHR ''='')"
    using assms(1) unfolding spells_def
  proof (elim disjE)
    assume "(w, ty) \<in> set keyword_table"
    then have "wordlike w" using tables(8) unfolding list_all_iff by fast
    then show ?thesis using ws ic by blast
  next
    assume "wordlike w \<and> w \<notin> set (map fst keyword_table) \<and> ty = TOKEN_IDENTIFIER"
    then show ?thesis using ws ic by blast
  next
    assume d: "w \<noteq> [] \<and> list_all isdigit w \<and> ty = Lit TOKEN_INT_LIT"
    then have "is_ident_char (hd w)" by (cases w) (auto simp: is_ident_char_def isalnum_def)
    then show ?thesis using ic d by blast
  next
    assume "(w, ty) \<in> set punctuation"
    then show ?thesis using pu unfolding list_all_iff by fast
  qed
  then show "w \<noteq> []" "\<not> blank (hd w)" "hd w \<noteq> CHR ''#''" "hd w \<noteq> NUL" "first (w @ rest) = hd w"
    "hd w = CHR ''/'' \<longrightarrow> first (tl w @ rest) \<notin> set ''/*''"
    using ends_not [OF assms(2)] by (cases w; cases "tl w"; auto)+
qed

lemma start_here_at: "at s xs \<Longrightarrow> at (start_here s) xs"
  by (simp add: at_def start_here_def)

text \<open>One printed token is read by one call.\<close>

lemma scanner_next_word:
  assumes "ready s (b @ w @ rest)" "list_all blank b" "spells w ty" "ends rest"
  shows "\<exists>t s'. scanner_next pf s = Some (t, s') \<and> ttype t = ty \<and> text_of (src s) t = w \<and> ready s' rest \<and> src s' = src s"
proof -
  note sp = spelling_starts [OF assms(3,4)]
  obtain c v where w: "w = c # v" using sp(1) by (cases w) auto
  have r: "at s (b @ w @ rest)" "\<not> in_fstring s" "cond_stack s = []" "NUL \<notin> set (src s)" using assms(1) by (simp_all add: ready_def)
  obtain s1 where s1: "skip_whitespace s = Some (True, s1)" "at s1 (w @ rest)" "same s s1"
    using skip_whitespace_blanks [OF r(1) assms(2)] sp w by auto
  have again: "skip_whitespace s1 = Some (True, s1)" using skip_whitespace_here [OF s1(2)] sp w by auto
  let ?s = "start_here s1" let ?e = "step_byte ?s"
  have f: "src s1 = src s" "in_fstring s1 = False" "cond_stack s1 = []" using s1(3) r by (simp_all add: same_def)
  have a: "at ?s (c # v @ rest)" using start_here_at [OF s1(2)] w by simp
  have p: "peek s1 = Some c" "peek ?s = Some c" using at_peek [OF s1(2)] at_peek [OF a] w by simp_all
  have "entered ?e c v rest"
    using at_step(1) [OF a] a by (auto simp: entered_def at_def start_here_def)
  moreover have "spells (c # v) ty" using assms(3) w by simp
  ultimately have "scanned ?e ty (Suc (length v)) rest (scan_lexeme c ?e)"
    using scan_spelling assms(4) r(4) f(1) start_here_wf(4) by simp
  then obtain t s' where t: "scan_lexeme c ?e = Some (t, s')" "ttype t = ty" "tstart t = In_source (cur s1)"
    "tlength t = Suc (length v)" "at s' rest" "same ?e s'"
    by (auto simp: scanned_def start_here_wf)
  have cc: "c \<noteq> NUL" "c \<noteq> CHR ''#''" using sp(3,4) w by simp_all
  have "scanner_next_inner s1 = Some (t, s')"
    using again p f cc t(1) by (simp add: scanner_next_inner_def Let_def start_here_wf advance_def)
  then have "scanner_next pf s = Some (t, s')"
    using s1(1) r(2) f p cc by (subst scanner_next.simps) (simp add: cond_is_emitting_def)
  moreover have "text_of (src s) t = w"
    using t(3,4) s1(2) f(1) w by (simp add: text_of_def at_def)
  moreover have "ready s' rest" "src s' = src s" using t(5,6) f r(4) by (auto simp: ready_def same_def start_here_wf)
  ultimately show ?thesis using t(2) by blast
qed

lemma scanner_next_end:
  assumes "ready s []"
  shows "\<exists>t s'. scanner_next pf s = Some (t, s') \<and> ttype t = TOKEN_EOF"
proof -
  have a: "at s []" "\<not> in_fstring s" "cond_stack s = []" using assms by (simp_all add: ready_def)
  have w: "skip_whitespace s = Some (True, s)" using skip_whitespace_here [OF a(1)] by (simp add: blank_def NUL_def)
  have p: "peek s = Some NUL" using at_peek [OF a(1)] by simp
  have "scanner_next_inner s = token_at (start_here s) TOKEN_EOF"
    using w p a by (simp add: scanner_next_inner_def Let_def start_here_wf)
  then have "scanner_next pf s = token_at (start_here s) TOKEN_EOF"
    using w p a by (subst scanner_next.simps) (simp add: cond_is_emitting_def)
  then show ?thesis by (simp add: token_at_def make_token_def)
qed

lemma printed_ends: "printable ws \<Longrightarrow> ends (printed ws)"
  by (cases ws) (auto simp: printable_def printed_def ends_def list_all_iff hd_append)

lemma spells_not_end: "spells w ty \<Longrightarrow> ty \<noteq> TOKEN_EOF"
proof -
  have "list_all (\<lambda>(w, ty). ty \<noteq> TOKEN_EOF) (keyword_table @ punctuation)" by code_simp
  then show "spells w ty \<Longrightarrow> ty \<noteq> TOKEN_EOF" unfolding list_all_iff spells_def by auto
qed

lemma scan_all_printed:
  "printable ws \<Longrightarrow> ready s (printed ws) \<Longrightarrow>
    \<exists>ts e. scan_all pf s = Some (ts @ [e]) \<and> ttype e = TOKEN_EOF \<and>
      map (\<lambda>t. (text_of (src s) t, ttype t)) ts = map snd ws"
proof (induction ws arbitrary: s)
  case Nil
  then obtain t s' where "scanner_next pf s = Some (t, s')" "ttype t = TOKEN_EOF"
    using scanner_next_end [of s pf] by (auto simp: printed_def)
  then show ?case by (subst scan_all.simps) auto
next
  case (Cons p ws)
  obtain b w ty where p: "p = (b, w, ty)" by (cases p)
  have sp: "list_all blank b" "spells w ty" and rest: "printable ws" using Cons.prems(1) p by (auto simp: printable_def)
  have "ready s (b @ w @ printed ws)" using Cons.prems(2) p by (simp add: printed_def)
  from scanner_next_word [OF this sp printed_ends [OF rest]]
  obtain t s' where t: "scanner_next pf s = Some (t, s')" "ttype t = ty" "text_of (src s) t = w" "ready s' (printed ws)" "src s' = src s"
    by blast
  obtain ts e where "scan_all pf s' = Some (ts @ [e])" "ttype e = TOKEN_EOF" "map (\<lambda>t. (text_of (src s') t, ttype t)) ts = map snd ws"
    using Cons.IH [OF rest t(4)] by blast
  then have "scan_all pf s = Some ((t # ts) @ [e]) \<and> map (\<lambda>t. (text_of (src s) t, ttype t)) (t # ts) = map snd (p # ws)"
    using t spells_not_end [OF sp(2)] p by (subst scan_all.simps) auto
  then show ?case using \<open>ttype e = TOKEN_EOF\<close> by blast
qed

text \<open>C14: What is printed scans back.  A list of keywords, identifiers that are no keyword, decimal
  integers, operators and delimiters, printed with at least one blank before each of them and any
  layout of blanks and line breaks, scans to exactly these tokens, each with its own text, followed
  by the end-of-file token.\<close>

theorem scan_roundtrip:
  assumes "printable ws"
  shows "\<exists>ts e. scan_all pf (scanner_init (printed ws)) = Some (ts @ [e]) \<and> ttype e = TOKEN_EOF \<and>
    map (\<lambda>t. (text_of (printed ws) t, ttype t)) ts = map snd ws"
proof -
  have "NUL \<notin> set w" if "spells w ty" for w ty
  proof -
    have "list_all (\<lambda>(w, ty). NUL \<notin> set w) (keyword_table @ punctuation)" by code_simp
    moreover have "\<not> is_ident_char NUL" "\<not> isdigit NUL" using blank_cases [of NUL] by auto
    ultimately show ?thesis using that unfolding list_all_iff spells_def wordlike_def by fastforce
  qed
  moreover have "\<not> blank NUL" by (simp add: blank_def NUL_def)
  ultimately have "NUL \<notin> set (printed ws)" using assms by (fastforce simp: printable_def printed_def list_all_iff)
  then have "ready (scanner_init (printed ws)) (printed ws)" by (simp add: ready_def at_def scanner_init_def)
  from scan_all_printed [OF assms this, of pf] show ?thesis by (simp add: scanner_init_def)
qed

lemma scan_roundtrip_witness:
  "\<exists>ts e. scan_all WIN32 (scanner_init ('' if'' @ [CHR 0x0A] @ ''iff = 42 <<'')) = Some (ts @ [e]) \<and> ttype e = TOKEN_EOF \<and>
    map ttype ts = [Kw TOKEN_IF, TOKEN_IDENTIFIER, Asg TOKEN_ASSIGN, Lit TOKEN_INT_LIT, Op TOKEN_LSHIFT]"
proof -
  let ?ws = "[('' '', ''if'', Kw TOKEN_IF), ([CHR 0x0A], ''iff'', TOKEN_IDENTIFIER), ('' '', ''='', Asg TOKEN_ASSIGN),
     ('' '', ''42'', Lit TOKEN_INT_LIT), ('' '', ''<<'', Op TOKEN_LSHIFT)]"
  have p: "printable ?ws" by code_simp
  obtain ts e where t: "scan_all WIN32 (scanner_init (printed ?ws)) = Some (ts @ [e])" "ttype e = TOKEN_EOF"
    "map (\<lambda>t. (text_of (printed ?ws) t, ttype t)) ts = map snd ?ws"
    using scan_roundtrip [OF p, of WIN32] by blast
  have "printed ?ws = '' if'' @ [CHR 0x0A] @ ''iff = 42 <<''" by (simp add: printed_def)
  moreover have "map ttype ts = map snd (map snd ?ws)" using arg_cong [OF t(3), of "map snd"] by (simp only: map_map o_def snd_conv)
  ultimately show ?thesis using t(1,2) by auto
qed

end
