(* ===== verification/Ptr_Table.thy ===== *)
theory Ptr_Table
  imports Prelude
begin

unbundle bit_operations_syntax

text \<open>
  What the two heap trackers share: open-addressing tables keyed by pointers.  A slot holds a
  pointer, 0 when it is empty and 1 when its entry was removed; the slots of a pointer are tried
  from its hash on, cyclically.  The interface of such a table is a locale: what the tables promise
  is that a fresh key is stored and nothing else changes, and what their growth needs is that
  storing many entries one after the other yields the map of all of them.
\<close>

type_synonym addr = "64 word"

definition real_addr :: "addr \<Rightarrow> bool" where
  "real_addr p \<longleftrightarrow> p \<noteq> 0 \<and> p \<noteq> 1"

lemma not_real_addr [simp]: "\<not> real_addr 0" "\<not> real_addr 1"
  by (simp_all add: real_addr_def)

lemma and_mask_mod: "(x :: nat) AND (2 ^ k - 1) = x mod 2 ^ k"
  by (simp add: take_bit_eq_mod [symmetric] take_bit_eq_mask mask_eq_exp_minus_1)

lemma option_eqI: "(\<And>e. x = Some e \<longleftrightarrow> y = Some e) \<Longrightarrow> x = y"
  by (cases x; cases y) auto

section \<open>Probe chains\<close>

text \<open>Every stored pointer is reached from its hash over slots that are not empty.\<close>

definition reaches :: "(addr \<Rightarrow> nat) \<Rightarrow> addr list \<Rightarrow> addr \<Rightarrow> nat \<Rightarrow> nat \<Rightarrow> bool" where
  "reaches h ks p d i \<longleftrightarrow> d < length ks \<and> i = (h p + d) mod length ks \<and>
     (\<forall>j<d. ks ! ((h p + j) mod length ks) \<noteq> 0 \<and> ks ! ((h p + j) mod length ks) \<noteq> p)"

definition chained :: "(addr \<Rightarrow> nat) \<Rightarrow> addr list \<Rightarrow> bool" where
  "chained h ks \<longleftrightarrow> (\<forall>i<length ks. real_addr (ks ! i) \<longrightarrow> (\<exists>d. reaches h ks (ks ! i) d i)) \<and>
     (\<forall>i<length ks. \<forall>j<length ks. real_addr (ks ! i) \<longrightarrow> ks ! i = ks ! j \<longrightarrow> i = j)"

lemma reaches_index: "reaches h ks p d i \<Longrightarrow> i < length ks"
  by (cases "length ks = 0") (auto simp: reaches_def)

lemma nth_update: "ks[k := x] ! m = (if m = k \<and> k < length ks then x else ks ! m)"
  by (cases "k < length ks") (auto simp: list_update_beyond)

lemma chained_empty: "chained h (replicate n 0)"
  by (simp add: chained_def real_addr_def)

lemma chained_inj: "chained h ks \<Longrightarrow> i < length ks \<Longrightarrow> j < length ks \<Longrightarrow> real_addr (ks ! i) \<Longrightarrow> ks ! i = ks ! j \<Longrightarrow> i = j"
  by (simp add: chained_def)

lemma chained_reaches: "chained h ks \<Longrightarrow> i < length ks \<Longrightarrow> real_addr (ks ! i) \<Longrightarrow> \<exists>d. reaches h ks (ks ! i) d i"
  by (simp add: chained_def)

lemma reaches_update:
  assumes "reaches h ks q d i" "q \<noteq> p" "x \<noteq> 0" "x \<noteq> q"
  shows "reaches h (ks[k := x]) q d i"
  using assms by (auto simp: reaches_def nth_update)

lemma chained_insert:
  assumes "chained h ks" "reaches h ks p d i" "real_addr p" "p \<notin> set ks" "ks ! i = 0 \<or> ks ! i = 1"
  shows "chained h (ks[i := p])"
proof -
  have i: "i < length ks" using assms(2) by (rule reaches_index)
  have "\<exists>d. reaches h (ks[i := p]) (ks[i := p] ! k) d k"
    if k: "k < length ks" "real_addr (ks[i := p] ! k)" for k
  proof (cases "k = i")
    case True
    have "ks ! ((h p + j) mod length ks) \<noteq> 0 \<and> (h p + j) mod length ks \<noteq> i" if "j < d" for j
    proof -
      have dl: "d < length ks" "i = (h p + d) mod length ks" using assms(2) by (simp_all add: reaches_def)
      have "(h p + j) mod length ks \<noteq> (h p + d) mod length ks"
      proof
        assume "(h p + j) mod length ks = (h p + d) mod length ks"
        then have "length ks dvd d - j" using that mod_eq_dvd_iff_nat [of "h p + j" "h p + d" "length ks"] by simp
        then show False using that dl(1) by (simp add: nat_dvd_not_less)
      qed
      then show ?thesis using assms(2) that dl(2) by (auto simp: reaches_def)
    qed
    then have "reaches h (ks[i := p]) p d i"
      using assms(2) by (auto simp: reaches_def nth_update)
    then show ?thesis using True i by auto
  next
    case False
    then have r: "real_addr (ks ! k)" using k by simp
    then obtain e where e: "reaches h ks (ks ! k) e k" using chained_reaches [OF assms(1) k(1)] by blast
    have "ks ! k \<noteq> p" using assms(4) k(1) by auto
    then have "reaches h (ks[i := p]) (ks ! k) e k"
      using e assms(3) by (auto simp: real_addr_def intro: reaches_update)
    then show ?thesis using False by auto
  qed
  moreover have "j = k" if "j < length ks" "k < length ks" "real_addr (ks[i := p] ! j)" "ks[i := p] ! j = ks[i := p] ! k" for j k
    using that chained_inj [OF assms(1)] assms(4) i by (auto simp: nth_update split: if_splits)
  ultimately show ?thesis unfolding chained_def length_list_update by blast
qed

lemma chained_remove:
  assumes "chained h ks"
  shows "chained h (ks[i := 1])"
proof -
  have "\<exists>d. reaches h (ks[i := 1]) (ks[i := 1] ! k) d k"
    if k: "k < length ks" "real_addr (ks[i := 1] ! k)" for k
  proof -
    have ki: "ks[i := 1] ! k = ks ! k" "real_addr (ks ! k)" using k by (auto simp: nth_update real_addr_def split: if_splits)
    then obtain e where "reaches h ks (ks ! k) e k" using chained_reaches [OF assms k(1)] by blast
    then have "reaches h (ks[i := 1]) (ks ! k) e k"
      using ki(2) by (auto simp: reaches_def nth_update real_addr_def)
    then show ?thesis using ki(1) by auto
  qed
  moreover have "j = k" if "j < length ks" "k < length ks" "real_addr (ks[i := 1] ! j)" "ks[i := 1] ! j = ks[i := 1] ! k" for j k
    using that chained_inj [OF assms] by (auto simp: nth_update real_addr_def split: if_splits)
  ultimately show ?thesis unfolding chained_def length_list_update by blast
qed

section \<open>Tables of entries\<close>

text \<open>The entry of a pointer in a list of slots, for any kind of entry with a pointer in it.\<close>

definition key_look :: "('e \<Rightarrow> addr) \<Rightarrow> 'e list \<Rightarrow> addr \<Rightarrow> 'e option" where
  "key_look key tab p = (if real_addr p then find (\<lambda>e. key e = p) tab else None)"

definition keyed_ok :: "('e \<Rightarrow> addr) \<Rightarrow> (addr \<Rightarrow> nat) \<Rightarrow> 'e list \<Rightarrow> bool" where
  "keyed_ok key h tab \<longleftrightarrow> (\<exists>k. length tab = 2 ^ k) \<and> chained h (map key tab)"

text \<open>The slots that are not empty.\<close>

definition key_occ :: "('e \<Rightarrow> addr) \<Rightarrow> 'e list \<Rightarrow> nat" where
  "key_occ key tab = length (filter (\<lambda>e. key e \<noteq> 0) tab)"

lemma key_look_None: "real_addr p \<Longrightarrow> key_look key tab p = None \<longleftrightarrow> p \<notin> key ` set tab"
  by (auto simp: key_look_def find_None_iff)

lemma key_look_real: "key_look key tab p = Some e \<Longrightarrow> real_addr p"
  by (simp add: key_look_def split: if_splits)

lemma keyed_inj:
  "keyed_ok key h tab \<Longrightarrow> i < length tab \<Longrightarrow> j < length tab \<Longrightarrow> real_addr (key (tab ! i)) \<Longrightarrow> key (tab ! i) = key (tab ! j) \<Longrightarrow> i = j"
  using chained_inj [of h "map key tab" i j] by (simp add: keyed_ok_def)

lemma key_look_Some:
  assumes "keyed_ok key h tab"
  shows "key_look key tab p = Some e \<longleftrightarrow> real_addr p \<and> (\<exists>i<length tab. tab ! i = e \<and> key e = p)"
proof -
  have "find (\<lambda>e. key e = p) tab = Some (tab ! i)" if i: "i < length tab" "key (tab ! i) = p" "real_addr p" for i
  proof -
    have "key (tab ! j) \<noteq> p" if "j < i" for j using keyed_inj [OF assms, of j i] i that by auto
    then show ?thesis using i by (auto simp: find_Some_iff)
  qed
  then show ?thesis by (auto simp: key_look_def find_Some_iff)
qed

lemma key_look_index:
  "keyed_ok key h tab \<Longrightarrow> i < length tab \<Longrightarrow> real_addr (key (tab ! i)) \<Longrightarrow> key_look key tab (key (tab ! i)) = Some (tab ! i)"
  by (auto simp: key_look_Some)

lemma key_look_empty: "key z = 0 \<Longrightarrow> key_look key (replicate n z) = (\<lambda>_. None)"
  by (auto simp: key_look_def find_None_iff real_addr_def)

lemma keyed_ok_empty: "key z = 0 \<Longrightarrow> keyed_ok key h (replicate (2 ^ k) z)"
  by (simp add: keyed_ok_def chained_empty)

lemma keyed_pow: "keyed_ok key h tab \<Longrightarrow> \<exists>k. length tab = 2 ^ k"
  by (simp add: keyed_ok_def)

lemma keyed_pos: "keyed_ok key h tab \<Longrightarrow> 0 < length tab"
  by (auto simp: keyed_ok_def)

lemma next_slot:
  assumes "length tab = 2 ^ k"
  shows "((h + j) mod length tab + 1) AND (length tab - 1) = (h + Suc j) mod length tab"
  unfolding assms and_mask_mod by (simp add: mod_Suc_eq)

lemma start_slot: "keyed_ok key h tab \<Longrightarrow> x AND (length tab - 1) = (x + 0) mod length tab"
  using keyed_pow [of key h tab] and_mask_mod by (metis add.right_neutral)

lemma key_look_update:
  assumes ok: "keyed_ok key h tab" "keyed_ok key h (tab[i := e])" and i: "i < length tab" "real_addr (key e)"
    and old: "\<not> real_addr (key (tab ! i)) \<or> key (tab ! i) = key e"
  shows "key_look key (tab[i := e]) = (key_look key tab)(key e \<mapsto> e)"
proof (rule ext)
  fix q
  show "key_look key (tab[i := e]) q = ((key_look key tab)(key e \<mapsto> e)) q"
  proof (cases "q = key e")
    case True
    then show ?thesis using key_look_index [OF ok(2), of i] i by simp
  next
    case False
    have "key_look key (tab[i := e]) q = Some x \<longleftrightarrow> key_look key tab q = Some x" for x
      using False old i by (auto simp: key_look_Some [OF ok(1)] key_look_Some [OF ok(2)] nth_list_update split: if_splits)
    then have "key_look key (tab[i := e]) q = key_look key tab q" by (rule option_eqI)
    then show ?thesis using False by simp
  qed
qed

lemma key_look_remove:
  assumes ok: "keyed_ok key h tab" "keyed_ok key h (tab[i := e])" and i: "i < length tab" "real_addr (key (tab ! i))"
    and e: "\<not> real_addr (key e)"
  shows "key_look key (tab[i := e]) = (key_look key tab)(key (tab ! i) := None)"
proof (rule ext)
  fix q
  have "key_look key (tab[i := e]) q = Some x \<longleftrightarrow> ((key_look key tab)(key (tab ! i) := None)) q = Some x" for x
    using i e keyed_inj [OF ok(1), of i] by (auto simp: key_look_Some [OF ok(1)] key_look_Some [OF ok(2)] nth_list_update split: if_splits)
      metis
  then show "key_look key (tab[i := e]) q = ((key_look key tab)(key (tab ! i) := None)) q" by (rule option_eqI)
qed

lemma keyed_ok_remove:
  assumes "keyed_ok key h tab" "key e = 1"
  shows "keyed_ok key h (tab[i := e])"
  using assms chained_remove [of h "map key tab" i] by (simp add: keyed_ok_def map_update)

lemma keyed_ok_replace:
  assumes "keyed_ok key h tab" "i < length tab" "key (tab ! i) = key e"
  shows "keyed_ok key h (tab[i := e])"
proof -
  have "map key (tab[i := e]) = map key tab" using assms(2,3) by (simp add: map_update) (metis list_update_id nth_map)
  then show ?thesis using assms(1) by (simp add: keyed_ok_def)
qed

lemma finite_look: "finite (dom (key_look key tab))"
proof (rule finite_subset)
  show "dom (key_look key tab) \<subseteq> key ` set tab"
    by (auto simp: key_look_def find_Some_iff split: if_splits)
qed simp

lemma key_occ_update:
  assumes "i < length tab" "key e \<noteq> 0"
  shows "key_occ key (tab[i := e]) = (if key (tab ! i) = 0 then Suc (key_occ key tab) else key_occ key tab)"
  using assms
proof (induction tab arbitrary: i)
  case (Cons a tab)
  then show ?case by (cases i) (auto simp: key_occ_def)
qed simp

lemma keyed_ok_put:
  assumes "keyed_ok key h tab" "reaches h (map key tab) (key e) d i" "real_addr (key e)"
    "key_look key tab (key e) = None" "\<not> real_addr (key (tab ! i))"
  shows "keyed_ok key h (tab[i := e])"
proof -
  have i: "i < length tab" using reaches_index [OF assms(2)] by simp
  have "key e \<notin> set (map key tab)" using key_look_None [OF assms(3), of key tab] assms(4) by simp
  then have "chained h ((map key tab)[i := key e])"
    using chained_insert [OF _ assms(2,3)] assms(1,5) i by (auto simp: keyed_ok_def real_addr_def)
  then show ?thesis using assms(1) by (simp add: keyed_ok_def map_update)
qed

lemma key_look_map_of:
  assumes "keyed_ok key h tab"
  shows "key_look key tab = map_of (map (\<lambda>e. (key e, e)) (filter (\<lambda>e. real_addr (key e)) tab))"
    and "distinct (map key (filter (\<lambda>e. real_addr (key e)) tab))"
proof -
  have "distinct (map key (filter (\<lambda>e. real_addr (key e)) t))"
    if "\<forall>i<length t. \<forall>j<length t. real_addr (key (t ! i)) \<longrightarrow> key (t ! i) = key (t ! j) \<longrightarrow> i = j" for t
    using that
  proof (induction t)
    case (Cons a t)
    have "\<forall>i<length t. \<forall>j<length t. real_addr (key (t ! i)) \<longrightarrow> key (t ! i) = key (t ! j) \<longrightarrow> i = j"
    proof (intro allI impI)
      fix i j assume "i < length t" "j < length t" "real_addr (key (t ! i))" "key (t ! i) = key (t ! j)"
      then show "i = j" using Cons.prems [rule_format, of "Suc i" "Suc j"] by simp
    qed
    moreover have "key a \<notin> key ` set t" if "real_addr (key a)"
    proof
      assume "key a \<in> key ` set t"
      then obtain j where "j < length t" "key (t ! j) = key a" by (auto simp: in_set_conv_nth)
      then show False using Cons.prems [rule_format, of 0 "Suc j"] that by simp
    qed
    ultimately show ?case using Cons.IH by (auto simp: image_iff)
  qed simp
  then show d: "distinct (map key (filter (\<lambda>e. real_addr (key e)) tab))" using keyed_inj [OF assms] by blast
  have "map_of (map (\<lambda>e. (key e, e)) (filter (\<lambda>e. real_addr (key e)) tab)) p = Some e \<longleftrightarrow> key_look key tab p = Some e" for p e
  proof -
    have "map_of (map (\<lambda>e. (key e, e)) (filter (\<lambda>e. real_addr (key e)) tab)) p = Some e \<longleftrightarrow>
        e \<in> set tab \<and> real_addr (key e) \<and> key e = p"
      using d by (subst map_of_eq_Some_iff) (auto simp: comp_def)
    moreover have "key_look key tab p = Some e \<longleftrightarrow> real_addr p \<and> e \<in> set tab \<and> key e = p"
      unfolding key_look_Some [OF assms] in_set_conv_nth by blast
    ultimately show ?thesis by auto
  qed
  then show "key_look key tab = map_of (map (\<lambda>e. (key e, e)) (filter (\<lambda>e. real_addr (key e)) tab))"
    by (intro ext option_eqI) blast
qed

text \<open>The entries of a table are the entries of the map, each once.\<close>

lemma look_entries:
  assumes "keyed_ok key h tab"
  defines "ls \<equiv> \<lambda>P. filter (\<lambda>e. real_addr (key e) \<and> P e) tab"
  shows "distinct (map key (ls P))" "x \<in> set (ls P) \<Longrightarrow> key_look key tab (key x) = Some x"
    and "key ` set (ls P) = {p. \<exists>e. key_look key tab p = Some e \<and> P e}"
proof -
  have e: "ls P = filter P (filter (\<lambda>e. real_addr (key e)) tab)" by (simp add: ls_def conj_commute)
  show "distinct (map key (ls P))" unfolding e by (rule distinct_map_filter [OF key_look_map_of(2) [OF assms(1)]])
  show l: "key_look key tab (key x) = Some x" if "x \<in> set (ls P)" for x
    using that by (auto simp: ls_def key_look_Some [OF assms(1)] in_set_conv_nth)
  show "key ` set (ls P) = {p. \<exists>e. key_look key tab p = Some e \<and> P e}"
  proof (intro equalityI subsetI)
    fix p assume "p \<in> {p. \<exists>e. key_look key tab p = Some e \<and> P e}"
    then obtain x where "key_look key tab p = Some x" "P x" by blast
    then show "p \<in> key ` set (ls P)" by (auto simp: ls_def key_look_Some [OF assms(1)])
  next
    fix p assume "p \<in> key ` set (ls P)"
    then obtain x where x: "x \<in> set (ls P)" "p = key x" by blast
    then have "P x" by (simp add: ls_def)
    then show "p \<in> {p. \<exists>e. key_look key tab p = Some e \<and> P e}" using l [OF x(1)] x(2) by blast
  qed
qed

text \<open>Counting and summing the entries of a table is counting and summing the map.\<close>

lemma look_filter:
  assumes "keyed_ok key h tab"
  shows "length (filter (\<lambda>e. real_addr (key e) \<and> P e) tab) = card {p. \<exists>e. key_look key tab p = Some e \<and> P e}"
    and "sum_list (map g (filter (\<lambda>e. real_addr (key e) \<and> P e) tab)) =
      (\<Sum>p \<in> {p. \<exists>e. key_look key tab p = Some e \<and> P e}. g (the (key_look key tab p)))"
proof -
  let ?ls = "filter (\<lambda>e. real_addr (key e) \<and> P e) tab" and ?S = "{p. \<exists>e. key_look key tab p = Some e \<and> P e}"
  note d = look_entries(1) [OF assms, of P] and l = look_entries(2) [OF assms, of _ P] and s = look_entries(3) [OF assms, of P, symmetric]
  show "length ?ls = card ?S" unfolding s using distinct_card [OF d] by simp
  have "(\<Sum>p \<in> ?S. g (the (key_look key tab p))) = (\<Sum>x \<in> set ?ls. g (the (key_look key tab (key x))))"
    unfolding s using d by (simp only: sum.reindex distinct_map o_def)
  also have "\<dots> = (\<Sum>x \<in> set ?ls. g x)" using l by (intro sum.cong) auto
  also have "\<dots> = sum_list (map g ?ls)" using d by (metis distinct_map sum_list_distinct_conv_sum_set)
  finally show "sum_list (map g ?ls) = (\<Sum>p \<in> ?S. g (the (key_look key tab p)))" by simp
qed

lemma key_empty_slot: "key_occ key tab < length tab \<Longrightarrow> \<exists>i<length tab. key (tab ! i) = 0"
proof (rule ccontr)
  assume a: "key_occ key tab < length tab" and "\<not> (\<exists>i<length tab. key (tab ! i) = 0)"
  then have "\<forall>e \<in> set tab. key e \<noteq> 0" by (auto simp: in_set_conv_nth)
  then show False using a by (simp add: key_occ_def)
qed

section \<open>The interface\<close>

locale ptr_table =
  fixes inv :: "'t \<Rightarrow> bool"
    and key :: "'e \<Rightarrow> addr"
    and look :: "'t \<Rightarrow> addr \<Rightarrow> 'e option"
    and put :: "'e \<Rightarrow> 't \<Rightarrow> 't option"
    and occupied :: "'t \<Rightarrow> nat"
    and capacity :: "'t \<Rightarrow> nat"
  assumes put_fresh:
    "\<lbrakk>inv t; real_addr (key e); look t (key e) = None; occupied t < capacity t\<rbrakk> \<Longrightarrow>
      \<exists>t'. put e t = Some t' \<and> inv t' \<and> look t' = (look t)(key e \<mapsto> e) \<and> occupied t' = Suc (occupied t) \<and>
        capacity t' = capacity t"
begin

text \<open>Storing entries with distinct keys one after the other.\<close>

fun put_all :: "'e list \<Rightarrow> 't \<Rightarrow> 't option" where
  "put_all [] t = Some t"
| "put_all (e # es) t = do { t \<leftarrow> put e t; put_all es t }"

lemma put_all_map:
  "\<lbrakk>inv t; distinct (map key es); \<forall>e \<in> set es. real_addr (key e) \<and> look t (key e) = None; occupied t + length es \<le> capacity t\<rbrakk> \<Longrightarrow>
    \<exists>t'. put_all es t = Some t' \<and> inv t' \<and> look t' = look t ++ map_of (map (\<lambda>e. (key e, e)) es) \<and>
      occupied t' = occupied t + length es \<and> capacity t' = capacity t"
proof (induction es arbitrary: t)
  case (Cons e es)
  obtain t1 where t1: "put e t = Some t1" "inv t1" "look t1 = (look t)(key e \<mapsto> e)" "occupied t1 = Suc (occupied t)"
    "capacity t1 = capacity t" using put_fresh [of t e] Cons.prems by auto
  have "\<forall>e \<in> set es. real_addr (key e) \<and> look t1 (key e) = None"
    using Cons.prems(2,3) t1(3) by (auto simp: image_iff)
  then obtain t2 where t2: "put_all es t1 = Some t2" "inv t2" "look t2 = look t1 ++ map_of (map (\<lambda>e. (key e, e)) es)"
    "occupied t2 = occupied t1 + length es" "capacity t2 = capacity t1"
    using Cons.IH [OF t1(2)] Cons.prems(2,4) t1(4,5) by auto
  have "map_of (map (\<lambda>e. (key e, e)) es) (key e) = None"
    using Cons.prems(2) by (simp add: map_of_eq_None_iff image_image)
  then have "look t1 ++ map_of (map (\<lambda>e. (key e, e)) es) = look t ++ map_of (map (\<lambda>e. (key e, e)) (e # es))"
    unfolding t1(3) by (simp add: map_add_upd_left domIff del: fun_upd_apply)
  with t1 t2 show ?case by (simp del: fun_upd_apply)
qed simp

end

text \<open>Every slot is on the probe path.\<close>

lemma probe_onto:
  assumes "i < n"
  shows "\<exists>j<n. (h + j) mod n = (i :: nat)"
proof (intro exI conjI)
  let ?j = "(i + n - h mod n) mod n"
  have "h mod n < n" using assms by simp
  then have e: "h mod n + (i + n - h mod n) = i + n" by linarith
  have "(h + ?j) mod n = (h mod n + (i + n - h mod n)) mod n" by (metis mod_add_left_eq mod_add_right_eq)
  then show "(h + ?j) mod n = i" using e assms by simp
  show "?j < n" using assms by simp
qed

end
