(* ===== verification/Memcheck.thy ===== *)
theory Memcheck
  imports Ptr_Table
begin

text \<open>
  The leak and double-free detector of the runtime (\<open>src/runtime/memcheck.c\<close>).

  The globals are one record.  \<open>g_table\<close> is the list of its slots; reading a slot that is not there
  is undefined, so the operations have a result in \<open>option\<close>.  What the C library and the
  environment answer are arguments: the address that malloc or realloc returns (0 when it fails),
  whether calloc succeeds, and the two environment flags.  The lines that go to stderr are the
  events of the field \<open>trace\<close>, oldest first.  Threads are serialised by the lock, so the operations
  are atomic; the frame stack is that of the calling thread.
\<close>

record LsMcSite =
  site_file :: string
  site_line :: int
  site_col :: int
  site_kind :: string

record LsMcFrame =
  fn_name :: string
  fr_file :: string
  call_line :: int

definition LS_MC_FRAME_STACK_MAX :: nat where "LS_MC_FRAME_STACK_MAX = 256"
definition LS_MC_BACKTRACE_MAX :: nat where "LS_MC_BACKTRACE_MAX = 8"
definition LS_MC_INITIAL_CAP :: nat where "LS_MC_INITIAL_CAP = 256"
definition LS_MC_TOMBSTONE :: addr where "LS_MC_TOMBSTONE = 1"

text \<open>The part of the backtrace array that is in use is a list, innermost frame first.\<close>

record LsMcEntry =
  e_ptr :: addr
  e_size :: nat
  alloc_site :: "LsMcSite option"
  free_site :: "LsMcSite option"
  freed :: bool
  backtrace :: "LsMcFrame list"

text \<open>A slot of a table that calloc returned.\<close>

definition zero_entry :: LsMcEntry where
  "zero_entry = \<lparr>e_ptr = 0, e_size = 0, alloc_site = None, free_site = None, freed = False, backtrace = []\<rparr>"

datatype mc_event =
  Trace string addr nat "LsMcSite option"
| Invalid_free LsMcSite addr
| Double_free LsMcSite addr "LsMcSite option" "LsMcSite option"
| Table_oom
| Mode_enabled string
| Frame_overflow
| Leak nat "LsMcSite option" "LsMcFrame list"
| Summary nat nat nat nat
| Clean
| Strict_exit

record MemState =
  g_table :: "LsMcEntry list"
  g_cap :: nat
  g_live :: nat
  g_total :: nat
  g_invalid_frees :: nat
  g_double_frees :: nat
  g_initialized :: bool
  g_reported :: bool
  g_verbose :: int
  g_strict :: int
  g_frame_stack :: "LsMcFrame list"
  g_frame_top :: nat
  g_frame_overflow_warned :: bool
  trace :: "mc_event list"

definition zero_frame :: LsMcFrame where
  "zero_frame = \<lparr>fn_name = [], fr_file = [], call_line = 0\<rparr>"

definition mc_start :: MemState where
  "mc_start = \<lparr>g_table = [], g_cap = 0, g_live = 0, g_total = 0, g_invalid_frees = 0, g_double_frees = 0,
     g_initialized = False, g_reported = False, g_verbose = - 1, g_strict = - 1,
     g_frame_stack = replicate LS_MC_FRAME_STACK_MAX zero_frame, g_frame_top = 0,
     g_frame_overflow_warned = False, trace = []\<rparr>"

definition emit :: "mc_event \<Rightarrow> MemState \<Rightarrow> MemState" where
  "emit ev st = st\<lparr>trace := trace st @ [ev]\<rparr>"

record mc_env =
  verbose_var :: "string option"
  strict_var :: "string option"

definition env_flag :: "string option \<Rightarrow> int" where
  "env_flag v = (case v of None \<Rightarrow> 0 | Some s \<Rightarrow> if s = [] then 0 else if s = ''0'' then 0 else 1)"

definition probe_modes_once :: "mc_env \<Rightarrow> MemState \<Rightarrow> MemState" where
  "probe_modes_once env st =
     (let st = (if g_verbose st < 0 then st\<lparr>g_verbose := env_flag (verbose_var env)\<rparr> else st)
      in if g_strict st < 0 then st\<lparr>g_strict := env_flag (strict_var env)\<rparr> else st)"

section \<open>The table\<close>

definition hash_ptr :: "addr \<Rightarrow> nat" where
  "hash_ptr p =
     (let x = p XOR drop_bit 33 p;
          x = x * 0xff51afd7ed558ccd;
          x = x XOR drop_bit 33 x;
          x = x * 0xc4ceb9fe1a85ec53;
          x = x XOR drop_bit 33 x
      in unat x)"

text \<open>The probe loop with the number of probes left; the result is the index of a slot or NULL.\<close>

fun probe_slots :: "LsMcEntry list \<Rightarrow> nat \<Rightarrow> addr \<Rightarrow> bool \<Rightarrow> nat \<Rightarrow> nat \<Rightarrow> nat option \<Rightarrow> nat option option" where
  "probe_slots tab msk p for_insert 0 i first_tomb = Some first_tomb"
| "probe_slots tab msk p for_insert (Suc n) i first_tomb =
     (if i \<ge> length tab then None
      else
        (let e = tab ! i; next_i = (i + 1) AND msk
         in if e_ptr e = 0 then
              Some (if for_insert then (case first_tomb of Some t \<Rightarrow> Some t | None \<Rightarrow> Some i) else None)
            else if e_ptr e = LS_MC_TOMBSTONE then
              probe_slots tab msk p for_insert n next_i
                (if for_insert \<and> first_tomb = None then Some i else first_tomb)
            else if e_ptr e = p then Some (Some i)
            else probe_slots tab msk p for_insert n next_i first_tomb))"

definition find_slot :: "LsMcEntry list \<Rightarrow> nat \<Rightarrow> addr \<Rightarrow> bool \<Rightarrow> nat option option" where
  "find_slot tab cap p for_insert =
     (if cap = 0 then Some None
      else probe_slots tab (cap - 1) p for_insert cap (hash_ptr p AND (cap - 1)) None)"

text \<open>\<open>*slot = *e\<close>, with a slot that may be NULL.\<close>

definition put_entry :: "addr \<Rightarrow> LsMcEntry \<Rightarrow> LsMcEntry list \<Rightarrow> LsMcEntry list option" where
  "put_entry p e tab = do {
     slot \<leftarrow> find_slot tab (length tab) p True;
     i \<leftarrow> slot;
     Some (tab[i := e]) }"

fun rehash :: "LsMcEntry list \<Rightarrow> LsMcEntry list \<Rightarrow> nat \<Rightarrow> (LsMcEntry list \<times> nat) option" where
  "rehash [] tab tot = Some (tab, tot)"
| "rehash (e # es) tab tot =
     (if e_ptr e = 0 \<or> e_ptr e = LS_MC_TOMBSTONE then rehash es tab tot
      else do { tab \<leftarrow> put_entry (e_ptr e) e tab; rehash es tab (tot + 1) })"

definition table_grow :: "bool \<Rightarrow> MemState \<Rightarrow> MemState option" where
  "table_grow calloc_ok st =
     (let new_cap = (if g_cap st = 0 then LS_MC_INITIAL_CAP else g_cap st * 2)
      in if \<not> calloc_ok then Some (emit Table_oom st)
         else if length (g_table st) < g_cap st then None
         else do {
           (tab, tot) \<leftarrow> rehash (take (g_cap st) (g_table st)) (replicate new_cap zero_entry) 0;
           Some (st\<lparr>g_table := tab, g_cap := new_cap, g_total := tot\<rparr>) })"

text \<open>The result of the first calloc is not tested.\<close>

definition mc_init :: "mc_env \<Rightarrow> bool \<Rightarrow> MemState \<Rightarrow> MemState" where
  "mc_init env calloc_ok st =
     (if g_initialized st then st
      else
        (let st = st\<lparr>g_initialized := True,
                     g_table := (if calloc_ok then replicate LS_MC_INITIAL_CAP zero_entry else []),
                     g_cap := LS_MC_INITIAL_CAP\<rparr>;
             st = probe_modes_once env st;
             st = (if g_verbose st \<noteq> 0 then emit (Mode_enabled ''verbose'') st else st)
         in if g_strict st \<noteq> 0 then emit (Mode_enabled ''strict'') st else st))"

section \<open>Frames\<close>

definition ls_mc_enter :: "string option \<Rightarrow> string option \<Rightarrow> int \<Rightarrow> MemState \<Rightarrow> MemState" where
  "ls_mc_enter fn file ln st =
     (let or_unknown = case_option ''?'' id;
          st = (if g_frame_top st < LS_MC_FRAME_STACK_MAX
                then st\<lparr>g_frame_stack := (g_frame_stack st)[g_frame_top st :=
                        \<lparr>fn_name = or_unknown fn, fr_file = or_unknown file, call_line = ln\<rparr>]\<rparr>
                else if \<not> g_frame_overflow_warned st
                then (emit Frame_overflow st)\<lparr>g_frame_overflow_warned := True\<rparr>
                else st)
      in st\<lparr>g_frame_top := g_frame_top st + 1\<rparr>)"

definition ls_mc_leave :: "MemState \<Rightarrow> MemState" where
  "ls_mc_leave st = (if g_frame_top st > 0 then st\<lparr>g_frame_top := g_frame_top st - 1\<rparr> else st)"

definition capture_backtrace :: "MemState \<Rightarrow> LsMcFrame list" where
  "capture_backtrace st =
     (let top = (if g_frame_top st > LS_MC_FRAME_STACK_MAX then LS_MC_FRAME_STACK_MAX else g_frame_top st);
          n = (if top > LS_MC_BACKTRACE_MAX then LS_MC_BACKTRACE_MAX else top)
      in map (\<lambda>i. g_frame_stack st ! (top - 1 - i)) [0..<n])"

definition trace_op :: "string \<Rightarrow> addr \<Rightarrow> nat \<Rightarrow> LsMcSite option \<Rightarrow> MemState \<Rightarrow> MemState" where
  "trace_op opn p sz site st = (if g_verbose st = 0 then st else emit (Trace opn p sz site) st)"

section \<open>Allocation\<close>

definition grow_if_half_full :: "bool \<Rightarrow> MemState \<Rightarrow> MemState option" where
  "grow_if_half_full calloc_ok st =
     (if (g_total st + 1) * 2 \<ge> g_cap st then table_grow calloc_ok st else Some st)"

text \<open>Recording an address in its slot: the part that \<open>ls_mc_alloc\<close> and \<open>ls_mc_realloc\<close> share.\<close>

definition record_block :: "nat \<Rightarrow> addr \<Rightarrow> nat \<Rightarrow> LsMcSite option \<Rightarrow> MemState \<Rightarrow> MemState option" where
  "record_block i p sz site st =
     (if i \<ge> length (g_table st) then None
      else
        (let old = g_table st ! i;
             recycled = (e_ptr old \<noteq> 0 \<and> e_ptr old \<noteq> LS_MC_TOMBSTONE \<and> freed old);
             e = \<lparr>e_ptr = p, e_size = sz, alloc_site = site, free_site = None, freed = False,
                  backtrace = capture_backtrace st\<rparr>
         in Some (st\<lparr>g_total := (if recycled then g_total st else g_total st + 1),
                     g_table := (g_table st)[i := e],
                     g_live := g_live st + 1\<rparr>)))"

definition ls_mc_alloc ::
  "mc_env \<Rightarrow> bool \<Rightarrow> addr \<Rightarrow> nat \<Rightarrow> LsMcSite option \<Rightarrow> MemState \<Rightarrow> (addr \<times> MemState) option" where
  "ls_mc_alloc env calloc_ok p sz site st = do {
     let st = mc_init env calloc_ok st;
     st \<leftarrow> grow_if_half_full calloc_ok st;
     if p = 0 then Some (0, st)
     else do {
       slot \<leftarrow> find_slot (g_table st) (g_cap st) p True;
       case slot of
         None \<Rightarrow> Some (p, st)
       | Some i \<Rightarrow> do {
           st \<leftarrow> record_block i p sz site st;
           Some (p, trace_op ''+alloc'' p sz site st) } } }"

text \<open>Marking the entry of an address as freed.\<close>

definition mark_freed :: "nat \<Rightarrow> LsMcSite option \<Rightarrow> MemState \<Rightarrow> MemState" where
  "mark_freed i site st =
     st\<lparr>g_table := (g_table st)[i := (g_table st ! i)\<lparr>freed := True, free_site := site\<rparr>],
        g_live := g_live st - 1\<rparr>"

definition ls_mc_realloc ::
  "mc_env \<Rightarrow> bool \<Rightarrow> addr \<Rightarrow> addr \<Rightarrow> nat \<Rightarrow> LsMcSite option \<Rightarrow> MemState \<Rightarrow> (addr \<times> MemState) option" where
  "ls_mc_realloc env calloc_ok new_p old_p new_sz site st = do {
     let st = mc_init env calloc_ok st;
     st \<leftarrow> (if old_p = 0 then Some st
            else do {
              slot \<leftarrow> find_slot (g_table st) (g_cap st) old_p False;
              case slot of
                None \<Rightarrow> Some st
              | Some i \<Rightarrow> Some (if freed (g_table st ! i) then st else mark_freed i site st) });
     st \<leftarrow> grow_if_half_full calloc_ok st;
     if new_p = 0 then Some (0, st)
     else do {
       slot \<leftarrow> find_slot (g_table st) (g_cap st) new_p True;
       st \<leftarrow> (case slot of None \<Rightarrow> Some st | Some i \<Rightarrow> record_block i new_p new_sz site st);
       Some (new_p, trace_op ''realloc'' new_p new_sz site st) } }"

text \<open>The first result says whether the block was handed to the C library's free.\<close>

definition ls_mc_free :: "addr \<Rightarrow> LsMcSite \<Rightarrow> MemState \<Rightarrow> (bool \<times> MemState) option" where
  "ls_mc_free p site st =
     (if p = 0 then Some (False, st)
      else if \<not> g_initialized st then Some (True, st)
      else do {
        slot \<leftarrow> find_slot (g_table st) (g_cap st) p False;
        case slot of
          None \<Rightarrow>
            Some (False, (emit (Invalid_free site p) st)\<lparr>g_invalid_frees := g_invalid_frees st + 1\<rparr>)
        | Some i \<Rightarrow>
            (let e = g_table st ! i
             in if freed e then
                  Some (False, (emit (Double_free site p (alloc_site e) (free_site e)) st)
                          \<lparr>g_double_frees := g_double_frees st + 1\<rparr>)
                else Some (True, trace_op ''-free'' p (e_size e) (Some site) (mark_freed i (Some site) st))) })"

section \<open>The report\<close>

fun report_loop :: "LsMcEntry list \<Rightarrow> nat \<times> nat \<times> mc_event list \<Rightarrow> nat \<times> nat \<times> mc_event list" where
  "report_loop [] acc = acc"
| "report_loop (e # es) (leaks, bytes, evs) =
     (if e_ptr e = 0 \<or> e_ptr e = LS_MC_TOMBSTONE \<or> freed e then report_loop es (leaks, bytes, evs)
      else report_loop es (leaks + 1, bytes + e_size e, evs @ [Leak (e_size e) (alloc_site e) (backtrace e)]))"

definition ls_mc_report :: "MemState \<Rightarrow> MemState option" where
  "ls_mc_report st =
     (if g_reported st then Some st
      else
        (let st = st\<lparr>g_reported := True\<rparr>
         in if \<not> g_initialized st then Some (st\<lparr>trace := trace st @ [Summary 0 0 0 0, Clean]\<rparr>)
            else if length (g_table st) < g_cap st then None
            else
              (let (leaks, bytes, evs) = report_loop (take (g_cap st) (g_table st)) (0, 0, []);
                   violations = leaks + g_double_frees st + g_invalid_frees st
               in Some (st\<lparr>trace := trace st @ evs @ [Summary leaks bytes (g_double_frees st) (g_invalid_frees st)] @
                       (if violations = 0 then [Clean] else []) @
                       (if g_strict st \<noteq> 0 \<and> violations > 0 then [Strict_exit] else [])\<rparr>))))"

end
