(* ===== verification/Memcheck_Safety.thy ===== *)
theory Memcheck_Safety
  imports Memcheck
begin

text \<open>
  The tracker keeps exactly the blocks it was told about.  The table is an instance of the pointer
  table; the invariant of the globals says that the counters count what the table holds; and every
  run of the operations refines a run on a plain map from addresses to blocks, to which the final
  report corresponds.
\<close>

section \<open>The table as a map\<close>

text \<open>No slot is ever a tombstone: nothing is removed.\<close>

definition table_ok :: "LsMcEntry list \<Rightarrow> bool" where
  "table_ok tab \<longleftrightarrow> keyed_ok e_ptr hash_ptr tab \<and> 1 \<notin> e_ptr ` set tab"

abbreviation look :: "LsMcEntry list \<Rightarrow> addr \<Rightarrow> LsMcEntry option" where
  "look \<equiv> key_look e_ptr"

abbreviation occ :: "LsMcEntry list \<Rightarrow> nat" where
  "occ \<equiv> key_occ e_ptr"

lemma table_keyed: "table_ok tab \<Longrightarrow> keyed_ok e_ptr hash_ptr tab"
  by (simp add: table_ok_def)

lemmas look_None = key_look_None [where key = e_ptr]
  and look_real = key_look_real [where key = e_ptr]
  and look_Some = key_look_Some [OF table_keyed]
  and look_index = key_look_index [OF table_keyed]
  and table_pow = keyed_pow [OF table_keyed]
  and table_pos = keyed_pos [OF table_keyed]
  and look_update = key_look_update [OF table_keyed table_keyed]
  and occ_update = key_occ_update [where key = e_ptr]
  and empty_slot = key_empty_slot [where key = e_ptr]

lemma look_empty: "look (replicate n zero_entry) = (\<lambda>_. None)"
  by (rule key_look_empty) (simp add: zero_entry_def)

lemma table_ok_empty: "table_ok (replicate (2 ^ k) zero_entry)"
  using keyed_ok_empty [of e_ptr zero_entry hash_ptr k] by (auto simp: table_ok_def zero_entry_def)

lemma table_ok_cong:
  assumes "map e_ptr tab' = map e_ptr tab" "table_ok tab"
  shows "table_ok tab'"
proof -
  have "length tab' = length tab" using arg_cong [OF assms(1), of length] by simp
  moreover have "e_ptr ` set tab' = e_ptr ` set tab" using arg_cong [OF assms(1), of set] by simp
  ultimately show ?thesis using assms by (simp add: table_ok_def keyed_ok_def)
qed

section \<open>The probe loop\<close>

lemma probe_slots_finds:
  assumes ok: "table_ok tab" and r: "reaches hash_ptr (map e_ptr tab) p d i" and p: "e_ptr (tab ! i) = p" "real_addr p"
  shows "j \<le> d \<Longrightarrow> probe_slots tab (length tab - 1) p b (length tab - j) ((hash_ptr p + j) mod length tab) None = Some (Some i)"
proof (induction "d - j" arbitrary: j)
  case 0
  obtain n where n: "length tab - j = Suc n" using r 0 by (auto simp: reaches_def intro: that [of "length tab - j - 1"])
  have "(hash_ptr p + j) mod length tab = i" "i < length tab" using r 0 table_pos [OF ok] by (auto simp: reaches_def)
  then show ?case using p n by (simp add: real_addr_def LS_MC_TOMBSTONE_def)
next
  case (Suc m)
  let ?i = "(hash_ptr p + j) mod length tab"
  obtain k where k: "length tab = 2 ^ k" using table_pow [OF ok] by blast
  have j: "j < d" "d < length tab" using Suc.hyps(2) r by (auto simp: reaches_def)
  obtain n where n: "length tab - j = Suc n" "n = length tab - Suc j" using j by (auto intro: that [of "length tab - j - 1"])
  have i: "?i < length tab" using table_pos [OF ok] by simp
  have ne: "e_ptr (tab ! ?i) \<noteq> 0" "e_ptr (tab ! ?i) \<noteq> p" using r j(1) i by (auto simp: reaches_def)
  have "e_ptr (tab ! ?i) \<noteq> 1" using ok i by (auto simp: table_ok_def image_iff)
  then have "probe_slots tab (length tab - 1) p b (Suc n) ?i None =
      probe_slots tab (length tab - 1) p b n ((hash_ptr p + Suc j) mod length tab) None"
    using ne i next_slot [OF k] by (simp add: Let_def LS_MC_TOMBSTONE_def)
  then show ?case using Suc.hyps(1) [of "Suc j"] Suc.hyps(2) j(1) n by simp
qed

lemma find_slot_finds:
  assumes "table_ok tab" "look tab p = Some e"
  shows "\<exists>i. find_slot tab (length tab) p b = Some (Some i) \<and> i < length tab \<and> tab ! i = e \<and> e_ptr e = p"
proof -
  obtain i where i: "i < length tab" "tab ! i = e" "e_ptr e = p" and p: "real_addr p"
    using assms look_Some by blast
  have "real_addr (map e_ptr tab ! i)" using i p by simp
  then obtain d where d: "reaches hash_ptr (map e_ptr tab) p d i"
    using chained_reaches [of hash_ptr "map e_ptr tab" i] assms(1) i by (auto simp: table_ok_def keyed_ok_def)
  have "e_ptr (tab ! i) = p" using i by simp
  then have "find_slot tab (length tab) p b = Some (Some i)"
    using probe_slots_finds [OF assms(1) d _ p, of 0 b] start_slot [OF table_keyed [OF assms(1)]] table_pos [OF assms(1)] by (simp add: find_slot_def)
  then show ?thesis using i by blast
qed

lemma find_slot_absent:
  assumes ok: "table_ok tab" and p: "real_addr p" "look tab p = None"
  shows "find_slot tab (length tab) p False = Some None"
proof -
  have np: "p \<notin> e_ptr ` set tab" using p look_None by blast
  obtain k where k: "length tab = 2 ^ k" using table_pow [OF ok] by blast
  have "i < length tab \<Longrightarrow> probe_slots tab (length tab - 1) p False n i None = Some None" for n i
  proof (induction n arbitrary: i)
    case (Suc n)
    have "(i + 1) AND (length tab - 1) < length tab" unfolding k and_mask_mod by simp
    then show ?case using Suc np by (auto simp: Let_def image_iff)
  qed simp
  moreover have "hash_ptr p AND (length tab - 1) < length tab" unfolding k and_mask_mod by simp
  ultimately show ?thesis by (simp add: find_slot_def)
qed

lemma probe_slots_free:
  assumes ok: "table_ok tab" and np: "p \<notin> e_ptr ` set tab" and empty: "i0 < length tab" "e_ptr (tab ! i0) = 0"
  shows "j \<le> length tab \<Longrightarrow> \<forall>l<j. e_ptr (tab ! ((hash_ptr p + l) mod length tab)) \<noteq> 0 \<Longrightarrow>
    \<exists>i d. probe_slots tab (length tab - 1) p True (length tab - j) ((hash_ptr p + j) mod length tab) None = Some (Some i) \<and>
      reaches hash_ptr (map e_ptr tab) p d i \<and> e_ptr (tab ! i) = 0"
proof (induction "length tab - j" arbitrary: j)
  case 0
  obtain l where "l < length tab" "(hash_ptr p + l) mod length tab = i0" using probe_onto [OF empty(1)] by blast
  then show ?case using 0 empty(2) by auto
next
  case (Suc n)
  let ?i = "(hash_ptr p + j) mod length tab"
  obtain k where k: "length tab = 2 ^ k" using table_pow [OF ok] by blast
  have i: "?i < length tab" using table_pos [OF ok] by simp
  have n: "length tab - j = Suc n" using Suc.hyps(2) by simp
  show ?case
  proof (cases "e_ptr (tab ! ?i) = 0")
    case True
    have "e_ptr (tab ! ((hash_ptr p + l) mod length tab)) \<noteq> p" for l
      using np nth_mem [of "(hash_ptr p + l) mod length tab" tab] table_pos [OF ok] by (metis image_eqI mod_less_divisor)
    then have "reaches hash_ptr (map e_ptr tab) p j ?i"
      using Suc.prems(2) Suc.hyps(2) table_pos [OF ok] by (auto simp: reaches_def)
    then show ?thesis using True i n by (intro exI [of _ ?i] exI [of _ j]) simp
  next
    case False
    have "e_ptr (tab ! ?i) \<noteq> 1" using ok i by (auto simp: table_ok_def image_iff)
    moreover have "e_ptr (tab ! ?i) \<noteq> p" using np nth_mem [OF i] by (metis image_eqI)
    ultimately have step: "probe_slots tab (length tab - 1) p True (Suc n) ?i None =
        probe_slots tab (length tab - 1) p True n ((hash_ptr p + Suc j) mod length tab) None"
      using False i next_slot [OF k] by (simp add: Let_def LS_MC_TOMBSTONE_def)
    have "\<forall>l<Suc j. e_ptr (tab ! ((hash_ptr p + l) mod length tab)) \<noteq> 0" using Suc.prems(2) False less_Suc_eq by auto
    moreover have "n = length tab - Suc j" "Suc j \<le> length tab" using Suc.hyps(2) by simp_all
    ultimately show ?thesis using Suc.hyps(1) [of "Suc j"] step n by simp
  qed
qed

lemma find_slot_free:
  assumes "table_ok tab" "real_addr p" "look tab p = None" "occ tab < length tab"
  shows "\<exists>i d. find_slot tab (length tab) p True = Some (Some i) \<and> reaches hash_ptr (map e_ptr tab) p d i \<and> e_ptr (tab ! i) = 0"
proof -
  obtain i0 where "i0 < length tab" "e_ptr (tab ! i0) = 0" using empty_slot [OF assms(4)] by blast
  then show ?thesis using probe_slots_free [OF assms(1), of p i0 0] look_None [OF assms(2), of tab] assms(3) start_slot [OF table_keyed [OF assms(1)]]
      table_pos [OF assms(1)] by (simp add: find_slot_def)
qed

section \<open>Storing an entry\<close>

lemma table_ok_put:
  assumes "table_ok tab" "reaches hash_ptr (map e_ptr tab) (e_ptr e) d i" "real_addr (e_ptr e)"
    "look tab (e_ptr e) = None" "e_ptr (tab ! i) = 0"
  shows "table_ok (tab[i := e])"
proof -
  have "\<not> real_addr (e_ptr (tab ! i))" using assms(5) by (simp add: real_addr_def)
  from keyed_ok_put [OF table_keyed [OF assms(1)] assms(2-4) this]
  have "keyed_ok e_ptr hash_ptr (tab[i := e])" .
  moreover have "1 \<notin> e_ptr ` set (tab[i := e])"
    using assms(1,3) set_update_subset_insert [of tab i e] by (auto simp: table_ok_def real_addr_def)
  ultimately show ?thesis by (simp add: table_ok_def)
qed

lemma put_entry_fresh:
  assumes "table_ok tab" "real_addr (e_ptr e)" "look tab (e_ptr e) = None" "occ tab < length tab"
  shows "\<exists>tab'. put_entry (e_ptr e) e tab = Some tab' \<and> table_ok tab' \<and> look tab' = (look tab)(e_ptr e \<mapsto> e) \<and>
    occ tab' = Suc (occ tab) \<and> length tab' = length tab"
proof -
  obtain i d where i: "find_slot tab (length tab) (e_ptr e) True = Some (Some i)"
    "reaches hash_ptr (map e_ptr tab) (e_ptr e) d i" "e_ptr (tab ! i) = 0"
    using find_slot_free [OF assms] by blast
  have il: "i < length tab" using reaches_index [OF i(2)] by simp
  have ok: "table_ok (tab[i := e])" by (rule table_ok_put [OF assms(1) i(2) assms(2,3) i(3)])
  show ?thesis
    using i ok look_update [OF assms(1) ok il assms(2)] occ_update [OF il, of e] assms(2)
    by (simp add: put_entry_def real_addr_def)
qed

interpretation mc: ptr_table table_ok e_ptr look "\<lambda>e. put_entry (e_ptr e) e" occ length
  by unfold_locales (rule put_entry_fresh)

section \<open>Growing\<close>

lemma rehash_put_all:
  "1 \<notin> e_ptr ` set es \<Longrightarrow> rehash es tab n =
    map_option (\<lambda>t. (t, n + occ es)) (mc.put_all (filter (\<lambda>e. e_ptr e \<noteq> 0) es) tab)"
proof (induction es arbitrary: tab n)
  case (Cons e es)
  have nt: "e_ptr e \<noteq> 1" "1 \<notin> e_ptr ` set es" using Cons.prems by auto
  show ?case
  proof (cases "e_ptr e = 0")
    case True
    then show ?thesis using Cons.IH [OF nt(2)] by (simp add: key_occ_def)
  next
    case False
    then have "occ (e # es) = Suc (occ es)" by (simp add: key_occ_def)
    then show ?thesis using Cons.IH [OF nt(2)] nt(1) False
      by (cases "put_entry (e_ptr e) e tab") (simp_all add: LS_MC_TOMBSTONE_def)
  qed
qed (simp add: key_occ_def)

lemma look_map_of:
  assumes "table_ok tab"
  shows "look tab = map_of (map (\<lambda>e. (e_ptr e, e)) (filter (\<lambda>e. e_ptr e \<noteq> 0) tab))"
    and "distinct (map e_ptr (filter (\<lambda>e. e_ptr e \<noteq> 0) tab))"
proof -
  have "filter (\<lambda>e. e_ptr e \<noteq> 0) tab = filter (\<lambda>e. real_addr (e_ptr e)) tab"
    using assms by (intro filter_cong) (auto simp: table_ok_def real_addr_def image_iff)
  then show "look tab = map_of (map (\<lambda>e. (e_ptr e, e)) (filter (\<lambda>e. e_ptr e \<noteq> 0) tab))"
    "distinct (map e_ptr (filter (\<lambda>e. e_ptr e \<noteq> 0) tab))"
    using key_look_map_of [OF table_keyed [OF assms]] by simp_all
qed

lemma rehash_ok:
  assumes "table_ok tab" "n = 2 ^ k" "occ tab \<le> n"
  shows "\<exists>tab'. rehash tab (replicate n zero_entry) 0 = Some (tab', occ tab) \<and> table_ok tab' \<and> look tab' = look tab \<and>
    occ tab' = occ tab \<and> length tab' = n"
proof -
  let ?es = "filter (\<lambda>e. e_ptr e \<noteq> 0) tab"
  have e: "table_ok (replicate n zero_entry)" "look (replicate n zero_entry) = (\<lambda>_. None)" "occ (replicate n zero_entry) = 0"
    using table_ok_empty look_empty assms(2) by (simp_all add: key_occ_def zero_entry_def)
  have r: "\<forall>e \<in> set ?es. real_addr (e_ptr e)" using assms(1) by (force simp: table_ok_def real_addr_def)
  obtain tab' where t: "mc.put_all ?es (replicate n zero_entry) = Some tab'" "table_ok tab'"
    "look tab' = look (replicate n zero_entry) ++ map_of (map (\<lambda>e. (e_ptr e, e)) ?es)" "occ tab' = occ tab" "length tab' = n"
    using mc.put_all_map [OF e(1) look_map_of(2) [OF assms(1)]] r e(2,3) assms(3) by (auto simp: key_occ_def)
  have "1 \<notin> e_ptr ` set tab" using assms(1) by (simp add: table_ok_def)
  moreover have "look tab' = look tab"
    unfolding t(3) e(2) look_map_of(1) [OF assms(1)] by (simp add: map_add_def fun_eq_iff split: option.split)
  ultimately show ?thesis using rehash_put_all [of tab "replicate n zero_entry" 0] t by simp
qed

end
