(* ===== verification/Memcheck_Spec.thy ===== *)
theory Memcheck_Spec
  imports Memcheck_Safety
begin

text \<open>
  What the tracker promises, as operations on a plain map from addresses to blocks, a list of the
  functions that were entered, two counters and the messages about wrong frees; frees before the
  first allocation are passed on unseen.  And the refinement of this specification by the hash table,
  its counters and its frame stack.  Whether the tracker's own \<open>calloc\<close> succeeds is an input of every
  operation that may call it.
\<close>

section \<open>The specification\<close>

record shadow =
  sh_started :: bool
  sh_blocks :: "addr \<Rightarrow> LsMcEntry option"
  sh_frames :: "LsMcFrame list"
  sh_invalid :: nat
  sh_double :: nat
  sh_diags :: "mc_event list"
  sh_oom :: bool

text \<open>
  The flag is the answer of \<open>calloc\<close>, if the operation calls it to create or to grow the table.
\<close>

datatype mc_op =
  Alloc bool addr nat "LsMcSite option"
| Realloc bool addr addr nat "LsMcSite option"
| Free addr LsMcSite
| Enter "string option" "string option" int
| Leave

definition sh_start :: shadow where
  "sh_start = \<lparr>sh_started = False, sh_blocks = (\<lambda>_. None), sh_frames = [], sh_invalid = 0, sh_double = 0,
     sh_diags = [], sh_oom = False\<rparr>"

text \<open>The call chain that is recorded with a block: the innermost 8 of the outermost 256 frames.\<close>

definition sh_trace :: "LsMcFrame list \<Rightarrow> LsMcFrame list" where
  "sh_trace fs = take 8 (rev (take 256 fs))"

definition sh_record :: "addr \<Rightarrow> nat \<Rightarrow> LsMcSite option \<Rightarrow> shadow \<Rightarrow> shadow" where
  "sh_record p sz site sh =
     (if p = 0 then sh
      else sh\<lparr>sh_blocks := (sh_blocks sh)(p \<mapsto> \<lparr>e_ptr = p, e_size = sz, alloc_site = site, free_site = None,
             freed = False, backtrace = sh_trace (sh_frames sh)\<rparr>)\<rparr>)"

definition sh_release :: "addr \<Rightarrow> LsMcSite option \<Rightarrow> shadow \<Rightarrow> shadow" where
  "sh_release p site sh =
     (case sh_blocks sh p of
        None \<Rightarrow> sh
      | Some e \<Rightarrow> if freed e then sh else sh\<lparr>sh_blocks := (sh_blocks sh)(p \<mapsto> e\<lparr>freed := True, free_site := site\<rparr>)\<rparr>)"

fun sh_step :: "mc_op \<Rightarrow> shadow \<Rightarrow> shadow" where
  "sh_step (Alloc ok p sz site) sh = (sh_record p sz site sh)\<lparr>sh_started := True, sh_oom := sh_oom sh \<or> \<not> ok\<rparr>"
| "sh_step (Realloc ok old p sz site) sh =
     (sh_record p sz site (sh_release old site sh))\<lparr>sh_started := True, sh_oom := sh_oom sh \<or> \<not> ok\<rparr>"
| "sh_step (Free p site) sh =
     (if p = 0 \<or> \<not> sh_started sh then sh
      else case sh_blocks sh p of
        None \<Rightarrow> sh\<lparr>sh_invalid := sh_invalid sh + 1, sh_diags := sh_diags sh @ [Invalid_free site p]\<rparr>
      | Some e \<Rightarrow>
          if freed e
          then sh\<lparr>sh_double := sh_double sh + 1,
                  sh_diags := sh_diags sh @ [Double_free site p (alloc_site e) (free_site e)]\<rparr>
          else sh_release p (Some site) sh)"
| "sh_step (Enter fn file ln) sh =
     sh\<lparr>sh_frames := sh_frames sh @ [\<lparr>fn_name = case_option ''?'' id fn, fr_file = case_option ''?'' id file, call_line = ln\<rparr>]\<rparr>"
| "sh_step Leave sh = sh\<lparr>sh_frames := butlast (sh_frames sh)\<rparr>"

text \<open>
  What the C library keeps to: an address that malloc or realloc returns is not 1 and is not that
  of a block that is live; and a program frees addresses other than 1.  And what the tracker needs of
  its own \<open>calloc\<close>: the first one, which creates the table, succeeds; a later one, which grows the
  table, may fail as long as fewer than 255 addresses were recorded, since 256 slots are there.
\<close>

definition enough_slots :: "bool \<Rightarrow> shadow \<Rightarrow> bool" where
  "enough_slots ok sh \<longleftrightarrow> ok \<or> sh_started sh \<and> card (dom (sh_blocks sh)) < 255"

definition not_live :: "addr \<Rightarrow> shadow \<Rightarrow> bool" where
  "not_live p sh \<longleftrightarrow> (case sh_blocks sh p of None \<Rightarrow> True | Some e \<Rightarrow> freed e)"

fun sh_valid :: "mc_op \<Rightarrow> shadow \<Rightarrow> bool" where
  "sh_valid (Alloc ok p sz site) sh = (enough_slots ok sh \<and> p \<noteq> 1 \<and> not_live p sh)"
| "sh_valid (Realloc ok old p sz site) sh = (enough_slots ok sh \<and> old \<noteq> 1 \<and> p \<noteq> 1 \<and> not_live p (sh_release old site sh))"
| "sh_valid (Free p site) sh = (p \<noteq> 1)"
| "sh_valid _ sh = True"

fun sh_run :: "mc_op list \<Rightarrow> shadow \<Rightarrow> shadow" where
  "sh_run [] sh = sh"
| "sh_run (op1 # ops) sh = sh_run ops (sh_step op1 sh)"

fun sh_valid_run :: "mc_op list \<Rightarrow> shadow \<Rightarrow> bool" where
  "sh_valid_run [] sh = True"
| "sh_valid_run (op1 # ops) sh = (sh_valid op1 sh \<and> sh_valid_run ops (sh_step op1 sh))"

fun mc_step :: "mc_env \<Rightarrow> mc_op \<Rightarrow> MemState \<Rightarrow> MemState option" where
  "mc_step env (Alloc ok p sz site) st = map_option snd (ls_mc_alloc env ok p sz site st)"
| "mc_step env (Realloc ok old p sz site) st = map_option snd (ls_mc_realloc env ok p old sz site st)"
| "mc_step env (Free p site) st = map_option snd (ls_mc_free p site st)"
| "mc_step env (Enter fn file ln) st = Some (ls_mc_enter fn file ln st)"
| "mc_step env Leave st = Some (ls_mc_leave st)"

fun mc_run :: "mc_env \<Rightarrow> mc_op list \<Rightarrow> MemState \<Rightarrow> MemState option" where
  "mc_run env [] st = Some st"
| "mc_run env (op1 # ops) st = do { st \<leftarrow> mc_step env op1 st; mc_run env ops st }"

section \<open>The invariant\<close>

definition live_addrs :: "(addr \<Rightarrow> LsMcEntry option) \<Rightarrow> addr set" where
  "live_addrs m = {p. \<exists>e. m p = Some e \<and> \<not> freed e}"

definition frames_rel :: "MemState \<Rightarrow> LsMcFrame list \<Rightarrow> bool" where
  "frames_rel st fs \<longleftrightarrow> length (g_frame_stack st) = 256 \<and> g_frame_top st = length fs \<and>
     (\<forall>i < min 256 (length fs). g_frame_stack st ! i = fs ! i)"

text \<open>The messages about wrong frees among the lines written.\<close>

fun misuse :: "mc_event \<Rightarrow> bool" where
  "misuse (Invalid_free site p) = True"
| "misuse (Double_free site p a b) = True"
| "misuse ev = False"

definition misuses :: "MemState \<Rightarrow> mc_event list" where
  "misuses st = filter misuse (trace st)"

text \<open>Once the table exists.\<close>

definition mc_inv :: "MemState \<Rightarrow> bool" where
  "mc_inv st \<longleftrightarrow> g_initialized st \<and> table_ok (g_table st) \<and> g_cap st = length (g_table st) \<and> 256 \<le> g_cap st \<and>
     g_total st = occ (g_table st) \<and> g_total st < g_cap st \<and> g_live st = card (live_addrs (look (g_table st)))"

definition mc_rel :: "MemState \<Rightarrow> shadow \<Rightarrow> bool" where
  "mc_rel st sh \<longleftrightarrow> mc_inv st \<and> \<not> g_reported st \<and> look (g_table st) = sh_blocks sh \<and> frames_rel st (sh_frames sh) \<and>
     g_invalid_frees st = sh_invalid sh \<and> g_double_frees st = sh_double sh \<and> misuses st = sh_diags sh \<and>
     (sh_oom sh \<or> g_total st * 2 < g_cap st)"

lemma emit_fields [simp]:
  "g_table (emit ev st) = g_table st" "g_cap (emit ev st) = g_cap st" "g_live (emit ev st) = g_live st"
  "g_total (emit ev st) = g_total st" "g_initialized (emit ev st) = g_initialized st" "g_reported (emit ev st) = g_reported st"
  "g_invalid_frees (emit ev st) = g_invalid_frees st" "g_double_frees (emit ev st) = g_double_frees st"
  "g_frame_stack (emit ev st) = g_frame_stack st" "g_frame_top (emit ev st) = g_frame_top st"
  "g_strict (emit ev st) = g_strict st" "g_verbose (emit ev st) = g_verbose st"
  "misuses (emit ev st) = misuses st @ (if misuse ev then [ev] else [])"
  by (simp_all add: emit_def misuses_def)

lemma misuses_cong: "trace st' = trace st \<Longrightarrow> misuses st' = misuses st"
  by (simp add: misuses_def)

lemma misuses_update [simp]:
  "misuses (st\<lparr>g_table := a\<rparr>) = misuses st" "misuses (st\<lparr>g_live := n\<rparr>) = misuses st"
  "misuses (st\<lparr>g_total := n\<rparr>) = misuses st" "misuses (st\<lparr>g_cap := n\<rparr>) = misuses st"
  "misuses (st\<lparr>g_invalid_frees := n\<rparr>) = misuses st" "misuses (st\<lparr>g_double_frees := n\<rparr>) = misuses st"
  "misuses (st\<lparr>g_frame_stack := fs\<rparr>) = misuses st" "misuses (st\<lparr>g_frame_top := n\<rparr>) = misuses st"
  "misuses (st\<lparr>g_frame_overflow_warned := b\<rparr>) = misuses st" "misuses (st\<lparr>g_initialized := b\<rparr>) = misuses st"
  "misuses (st\<lparr>g_verbose := i\<rparr>) = misuses st" "misuses (st\<lparr>g_strict := i\<rparr>) = misuses st"
  by (simp_all add: misuses_def)

lemma mc_rel_started [simp]: "mc_rel st (sh\<lparr>sh_started := b\<rparr>) = mc_rel st sh"
  by (simp add: mc_rel_def)

lemma mc_rel_emit [simp]: "\<not> misuse ev \<Longrightarrow> mc_rel (emit ev st) sh = mc_rel st sh"
  by (simp add: mc_rel_def mc_inv_def frames_rel_def)

lemma mc_rel_oom: "mc_rel st sh \<Longrightarrow> b \<or> g_total st * 2 < g_cap st \<Longrightarrow> mc_rel st (sh\<lparr>sh_started := True, sh_oom := b\<rparr>)"
  by (simp add: mc_rel_def)

lemma mc_rel_trace [simp]: "mc_rel (trace_op opn p sz site st) sh = mc_rel st sh"
  by (simp add: trace_op_def)

section \<open>The steps\<close>

lemma live_record: "finite (live_addrs m) \<Longrightarrow> p \<notin> live_addrs m \<Longrightarrow> \<not> freed e \<Longrightarrow>
   card (live_addrs (m(p \<mapsto> e))) = Suc (card (live_addrs m))"
proof -
  assume a: "finite (live_addrs m)" "p \<notin> live_addrs m" "\<not> freed e"
  have "live_addrs (m(p \<mapsto> e)) = insert p (live_addrs m)" using a(3) by (auto simp: live_addrs_def)
  then show ?thesis using a by simp
qed

lemma live_release: "m p = Some x \<Longrightarrow> \<not> freed x \<Longrightarrow> freed e \<Longrightarrow> card (live_addrs (m(p \<mapsto> e))) = card (live_addrs m) - 1"
proof -
  assume a: "m p = Some x" "\<not> freed x" "freed e"
  have "live_addrs (m(p \<mapsto> e)) = live_addrs m - {p}" using a(3) by (auto simp: live_addrs_def)
  moreover have "p \<in> live_addrs m" using a by (simp add: live_addrs_def)
  ultimately show ?thesis by simp
qed

lemma finite_live: "finite (live_addrs (look tab))"
proof (rule finite_subset)
  show "live_addrs (look tab) \<subseteq> e_ptr ` set tab"
  proof
    fix p assume "p \<in> live_addrs (look tab)"
    then obtain e where e: "look tab p = Some e" by (auto simp: live_addrs_def)
    then show "p \<in> e_ptr ` set tab" using look_None [OF look_real [OF e], of tab] by auto
  qed
qed simp

text \<open>The slots in use are the addresses recorded.\<close>

lemma occ_card: "table_ok tab \<Longrightarrow> occ tab = card (dom (look tab))"
proof -
  assume ok: "table_ok tab"
  have "filter (\<lambda>e. e_ptr e \<noteq> 0) tab = filter (\<lambda>e. real_addr (e_ptr e) \<and> True) tab"
    using ok by (intro filter_cong) (auto simp: real_addr_def table_ok_def image_iff)
  then show ?thesis using look_filter(1) [OF table_keyed [OF ok], where P = "\<lambda>_. True"] by (simp add: key_occ_def dom_def)
qed

lemma table_grow_rel:
  assumes "mc_inv st" "ok \<or> card (dom (look (g_table st))) < 255"
  shows "\<exists>st'. grow_if_half_full ok st = Some st' \<and> mc_inv st' \<and> g_total st' + 1 < g_cap st' \<and>
    (ok \<and> g_total st * 2 < g_cap st \<longrightarrow> (g_total st' + 1) * 2 < g_cap st') \<and>
    look (g_table st') = look (g_table st) \<and> g_frame_stack st' = g_frame_stack st \<and> g_frame_top st' = g_frame_top st \<and>
    g_invalid_frees st' = g_invalid_frees st \<and> g_double_frees st' = g_double_frees st \<and> g_reported st' = g_reported st \<and>
    misuses st' = misuses st \<and> (g_total st * 2 < g_cap st \<longrightarrow> g_total st' * 2 < g_cap st')"
proof -
  have i: "table_ok (g_table st)" "g_cap st = length (g_table st)" "256 \<le> g_cap st" "g_total st = occ (g_table st)"
    "g_total st < g_cap st" using assms(1) by (simp_all add: mc_inv_def)
  consider "\<not> (g_total st + 1) * 2 \<ge> g_cap st" | "(g_total st + 1) * 2 \<ge> g_cap st" "ok" | "(g_total st + 1) * 2 \<ge> g_cap st" "\<not> ok"
    by blast
  then show ?thesis
  proof cases
    case 1
    then show ?thesis using assms(1) i(3) by (simp add: grow_if_half_full_def)
  next
    case 2
    obtain k where k: "length (g_table st) = 2 ^ k" using table_pow [OF i(1)] by blast
    have "g_cap st * 2 = 2 ^ (Suc k)" "occ (g_table st) \<le> g_cap st * 2" using i k by simp_all
    from rehash_ok [OF i(1) this] obtain tab where
      t: "rehash (g_table st) (replicate (g_cap st * 2) zero_entry) 0 = Some (tab, occ (g_table st))" "table_ok tab"
        "look tab = look (g_table st)" "occ tab = occ (g_table st)" "length tab = g_cap st * 2"
      by blast
    have "grow_if_half_full ok st = Some (st\<lparr>g_table := tab, g_cap := g_cap st * 2, g_total := occ (g_table st)\<rparr>)"
      using 2 t(1) i(2,3) by (auto simp: grow_if_half_full_def table_grow_def Let_def)
    moreover have "occ (g_table st) + 1 < g_cap st * 2" using i(3,4,5) by simp
    moreover have "g_total st * 2 < g_cap st \<longrightarrow> (occ (g_table st) + 1) * 2 < g_cap st * 2" using i(3,4) by simp
    ultimately show ?thesis using assms(1) t i by (simp add: mc_inv_def)
  next
    case 3
    have "g_total st < 255" using assms(2) 3(2) occ_card [OF i(1)] i(4) by simp
    then show ?thesis using 3 assms(1) i(3) by (simp add: grow_if_half_full_def table_grow_def Let_def mc_inv_def)
  qed
qed

text \<open>Recording a block in its slot.\<close>

lemma record_block_rel:
  assumes "mc_inv st" "g_total st + 1 < g_cap st" "real_addr p"
    and nl: "p \<notin> live_addrs (look (g_table st))"
  shows "\<exists>i st'. find_slot (g_table st) (g_cap st) p True = Some (Some i) \<and> record_block i p sz site st = Some st' \<and>
    mc_inv st' \<and> look (g_table st') = (look (g_table st))(p \<mapsto> \<lparr>e_ptr = p, e_size = sz, alloc_site = site, free_site = None,
             freed = False, backtrace = capture_backtrace st\<rparr>) \<and>
    g_frame_stack st' = g_frame_stack st \<and> g_frame_top st' = g_frame_top st \<and>
    g_invalid_frees st' = g_invalid_frees st \<and> g_double_frees st' = g_double_frees st \<and> g_reported st' = g_reported st \<and>
    misuses st' = misuses st \<and> g_cap st' = g_cap st \<and> g_total st' \<le> g_total st + 1"
proof -
  let ?t = "g_table st"
  let ?e = "\<lparr>e_ptr = p, e_size = sz, alloc_site = site, free_site = None, freed = False, backtrace = capture_backtrace st\<rparr>"
  have inv: "table_ok ?t" "g_cap st = length ?t" "256 \<le> g_cap st" "g_total st = occ ?t" using assms(1) by (simp_all add: mc_inv_def)
  have room: "occ ?t < length ?t" using assms(2) inv(2,4) by simp
  have pe: "real_addr (e_ptr ?e)" "e_ptr ?e \<noteq> 0" using assms(3) by (simp_all add: real_addr_def)
  obtain i where i: "find_slot ?t (length ?t) p True = Some (Some i)" "i < length ?t" "table_ok (?t[i := ?e])"
    "look (?t[i := ?e]) = (look ?t)(p \<mapsto> ?e)"
    "occ (?t[i := ?e]) = (if e_ptr (?t ! i) \<noteq> 0 \<and> e_ptr (?t ! i) \<noteq> 1 \<and> freed (?t ! i) then occ ?t else occ ?t + 1)"
  proof (cases "look ?t p")
    case None
    then obtain i d where i: "find_slot ?t (length ?t) p True = Some (Some i)" "reaches hash_ptr (map e_ptr ?t) p d i" "e_ptr (?t ! i) = 0"
      using find_slot_free [OF inv(1) assms(3) None room] by blast
    have il: "i < length ?t" using reaches_index [OF i(2)] by simp
    have ok: "table_ok (?t[i := ?e])" using table_ok_put [OF inv(1), of ?e d i] i assms(3) None by simp
    show ?thesis
      using that [OF i(1) il ok] look_update [OF inv(1) ok il pe(1)] occ_update [OF il pe(2)] i(3) by simp
  next
    case (Some x)
    obtain i where i: "find_slot ?t (length ?t) p True = Some (Some i)" "i < length ?t" "?t ! i = x" "e_ptr x = p"
      using find_slot_finds [OF inv(1) Some] by blast
    have fx: "freed x" using nl Some by (auto simp: live_addrs_def)
    have "map e_ptr (?t[i := ?e]) = map e_ptr ?t" using i by (simp add: map_update) (metis list_update_id nth_map)
    then have ok: "table_ok (?t[i := ?e])" using table_ok_cong inv(1) by blast
    show ?thesis
      using that [OF i(1,2) ok] look_update [OF inv(1) ok i(2) pe(1)] occ_update [OF i(2) pe(2)] i(3,4) fx assms(3)
      by (simp add: real_addr_def)
  qed
  let ?st = "st\<lparr>g_total := occ (?t[i := ?e]), g_table := ?t[i := ?e], g_live := g_live st + 1\<rparr>"
  have "record_block i p sz site st = Some ?st"
    using i(2,5) inv(4) by (simp add: record_block_def Let_def LS_MC_TOMBSTONE_def)
  moreover have "card (live_addrs ((look ?t)(p \<mapsto> ?e))) = Suc (card (live_addrs (look ?t)))"
    by (rule live_record [OF finite_live nl]) simp
  moreover have "occ (?t[i := ?e]) < length ?t" "occ (?t[i := ?e]) \<le> occ ?t + 1" using i(5) assms(2) inv by (auto split: if_splits)
  ultimately show ?thesis using i assms(1) inv by (auto simp: mc_inv_def)
qed

lemma rev_map_upt: "rev (map f [0..<n]) = map (\<lambda>i. f (n - 1 - i)) [0..<n]"
  by (intro nth_equalityI) (auto simp: rev_nth)

lemma take_upt_min: "take m [0..<n] = [0..<min m n]"
  by (cases "m \<le> n") (auto simp: take_upt min_def)

lemma capture_backtrace_rel: "frames_rel st fs \<Longrightarrow> capture_backtrace st = sh_trace fs"
proof -
  assume r: "frames_rel st fs"
  let ?n = "min 256 (length fs)" and ?s = "g_frame_stack st"
  have "take 256 fs = map ((!) ?s) [0..<?n]" using r by (intro nth_equalityI) (auto simp: frames_rel_def)
  then have "rev (take 256 fs) = map (\<lambda>i. ?s ! (?n - 1 - i)) [0..<?n]" by (simp only: rev_map_upt)
  then have "sh_trace fs = map (\<lambda>i. ?s ! (?n - 1 - i)) [0..<min 8 ?n]"
    unfolding sh_trace_def by (simp only: take_map take_upt_min)
  moreover have "capture_backtrace st = map (\<lambda>i. ?s ! (?n - 1 - i)) [0..<min 8 ?n]"
    using r by (auto simp: capture_backtrace_def Let_def frames_rel_def LS_MC_FRAME_STACK_MAX_def LS_MC_BACKTRACE_MAX_def min_def)
  ultimately show ?thesis by simp
qed

lemma mc_init_id: "g_initialized st \<Longrightarrow> mc_init env ok st = st"
  by (simp add: mc_init_def)

text \<open>Growing and recording, the common end of \<open>ls_mc_alloc\<close> and \<open>ls_mc_realloc\<close>.\<close>

lemma grow_and_record:
  assumes "mc_rel st sh" "ok \<or> card (dom (sh_blocks sh)) < 255" "p \<noteq> 1" "not_live p sh"
  shows "\<exists>st1. grow_if_half_full ok st = Some st1 \<and> (if p = 0 then mc_rel st1 sh else
    \<exists>i st2. find_slot (g_table st1) (g_cap st1) p True = Some (Some i) \<and> record_block i p sz site st1 = Some st2 \<and>
      mc_rel st2 ((sh_record p sz site sh)\<lparr>sh_started := True, sh_oom := sh_oom sh \<or> \<not> ok\<rparr>))"
proof -
  have inv: "mc_inv st" "look (g_table st) = sh_blocks sh" using assms(1) by (simp_all add: mc_rel_def)
  obtain st1 where st1: "grow_if_half_full ok st = Some st1" "mc_inv st1" "g_total st1 + 1 < g_cap st1"
    "ok \<and> g_total st * 2 < g_cap st \<longrightarrow> (g_total st1 + 1) * 2 < g_cap st1"
    "look (g_table st1) = look (g_table st)" "g_frame_stack st1 = g_frame_stack st" "g_frame_top st1 = g_frame_top st"
    "g_invalid_frees st1 = g_invalid_frees st" "g_double_frees st1 = g_double_frees st" "g_reported st1 = g_reported st"
    "misuses st1 = misuses st" "g_total st * 2 < g_cap st \<longrightarrow> g_total st1 * 2 < g_cap st1"
    using table_grow_rel [OF inv(1), of ok] assms(2) inv(2) by auto
  have r1: "mc_rel st1 sh" using assms(1) st1 by (auto simp: mc_rel_def frames_rel_def)
  show ?thesis
  proof (cases "p = 0")
    case True
    then show ?thesis using st1(1) r1 by simp
  next
    case False
    then have p: "real_addr p" using assms(3) by (simp add: real_addr_def)
    have nl: "p \<notin> live_addrs (look (g_table st1))"
      using r1 assms(4) by (auto simp: mc_rel_def not_live_def live_addrs_def)
    obtain i st2 where s: "find_slot (g_table st1) (g_cap st1) p True = Some (Some i)" "record_block i p sz site st1 = Some st2"
      "mc_inv st2" "look (g_table st2) = (look (g_table st1))(p \<mapsto> \<lparr>e_ptr = p, e_size = sz, alloc_site = site, free_site = None,
             freed = False, backtrace = capture_backtrace st1\<rparr>)"
      "g_frame_stack st2 = g_frame_stack st1" "g_frame_top st2 = g_frame_top st1"
      "g_invalid_frees st2 = g_invalid_frees st1" "g_double_frees st2 = g_double_frees st1" "g_reported st2 = g_reported st1"
      "misuses st2 = misuses st1" "g_cap st2 = g_cap st1" "g_total st2 \<le> g_total st1 + 1"
      using record_block_rel [OF st1(2,3) p nl, of sz site] by auto
    have "sh_oom sh \<or> \<not> ok \<or> g_total st2 * 2 < g_cap st2"
      using assms(1) st1(4) s(11,12) by (auto simp: mc_rel_def)
    then have "mc_rel st2 ((sh_record p sz site sh)\<lparr>sh_started := True, sh_oom := sh_oom sh \<or> \<not> ok\<rparr>)"
      using s r1 capture_backtrace_rel [of st1 "sh_frames sh"] False
      by (auto simp: mc_rel_def sh_record_def frames_rel_def)
    then show ?thesis using s(1,2) st1(1) False by auto
  qed
qed

lemma alloc_step:
  assumes "mc_rel st sh" "sh_valid (Alloc ok p sz site) sh"
  shows "\<exists>st'. ls_mc_alloc env ok p sz site st = Some (p, st') \<and> mc_rel st' (sh_step (Alloc ok p sz site) sh)"
proof -
  have i: "mc_init env ok st = st" using assms(1) mc_init_id by (simp add: mc_rel_def mc_inv_def)
  obtain st1 where st1: "grow_if_half_full ok st = Some st1" "if p = 0 then mc_rel st1 sh else
    \<exists>i st2. find_slot (g_table st1) (g_cap st1) p True = Some (Some i) \<and> record_block i p sz site st1 = Some st2 \<and>
      mc_rel st2 ((sh_record p sz site sh)\<lparr>sh_started := True, sh_oom := sh_oom sh \<or> \<not> ok\<rparr>)"
    using grow_and_record [OF assms(1), of ok p sz site] assms(2) by (auto simp: enough_slots_def)
  show ?thesis
  proof (cases "p = 0")
    case True
    then have "mc_rel st1 (sh\<lparr>sh_started := True, sh_oom := sh_oom sh \<or> \<not> ok\<rparr>)" using st1(2) by (auto simp: mc_rel_def)
    then show ?thesis using True st1(1) i by (simp add: ls_mc_alloc_def sh_record_def)
  next
    case False
    then obtain k st2 where "find_slot (g_table st1) (g_cap st1) p True = Some (Some k)" "record_block k p sz site st1 = Some st2"
      "mc_rel st2 ((sh_record p sz site sh)\<lparr>sh_started := True, sh_oom := sh_oom sh \<or> \<not> ok\<rparr>)" using st1(2) by auto
    then show ?thesis using st1(1) i False by (simp add: ls_mc_alloc_def trace_op_def)
  qed
qed

text \<open>Looking an address up for a release.\<close>

lemma mc_rel_look:
  assumes "mc_rel st sh" "real_addr p"
  shows "sh_blocks sh p = None \<Longrightarrow> find_slot (g_table st) (g_cap st) p False = Some None"
    and "sh_blocks sh p = Some e \<Longrightarrow> \<exists>i. find_slot (g_table st) (g_cap st) p False = Some (Some i) \<and> i < length (g_table st) \<and>
      g_table st ! i = e \<and> e_ptr e = p"
proof -
  have t: "table_ok (g_table st)" "g_cap st = length (g_table st)" "look (g_table st) = sh_blocks sh"
    using assms(1) by (simp_all add: mc_rel_def mc_inv_def)
  show "sh_blocks sh p = None \<Longrightarrow> find_slot (g_table st) (g_cap st) p False = Some None"
    using find_slot_absent [OF t(1) assms(2)] t by simp
  show "sh_blocks sh p = Some e \<Longrightarrow> \<exists>i. find_slot (g_table st) (g_cap st) p False = Some (Some i) \<and> i < length (g_table st) \<and>
      g_table st ! i = e \<and> e_ptr e = p"
    using find_slot_finds [OF t(1), of p e False] t by simp
qed

lemma mark_freed_rel:
  assumes "mc_rel st sh" "real_addr p" "i < length (g_table st)" "e_ptr (g_table st ! i) = p" "\<not> freed (g_table st ! i)"
  shows "mc_rel (mark_freed i site st) (sh_release p site sh)"
proof -
  let ?t = "g_table st" let ?e = "(?t ! i)\<lparr>freed := True, free_site := site\<rparr>"
  have inv: "table_ok ?t" "look ?t = sh_blocks sh" "g_cap st = length ?t" using assms(1) by (simp_all add: mc_rel_def mc_inv_def)
  have l: "look ?t p = Some (?t ! i)" using look_index [OF inv(1) assms(3)] assms(2,4) by simp
  have ep: "e_ptr ?e = p" using assms(4) by simp
  have "map e_ptr (?t[i := ?e]) = map e_ptr ?t" using assms(3,4) by (simp add: map_update) (metis list_update_id nth_map)
  then have ok: "table_ok (?t[i := ?e])" using table_ok_cong inv(1) by blast
  have u: "look (?t[i := ?e]) = (look ?t)(p \<mapsto> ?e)"
    using look_update [OF inv(1) ok assms(3)] assms(2,4) by simp
  have "occ (?t[i := ?e]) = occ ?t" using occ_update [OF assms(3), of ?e] assms(2,4) by (simp add: real_addr_def)
  moreover have "card (live_addrs ((look ?t)(p \<mapsto> ?e))) = card (live_addrs (look ?t)) - 1"
    by (rule live_release [where x = "?t ! i" and m = "look ?t" and p = p, OF l assms(5)]) simp
  ultimately show ?thesis using assms(1,5) ok u l inv(2)
    by (auto simp: mc_rel_def mc_inv_def mark_freed_def sh_release_def frames_rel_def)
qed

lemma free_step:
  assumes "mc_rel st sh" "sh_valid (Free p site) sh" "sh_started sh"
  shows "\<exists>b st'. ls_mc_free p site st = Some (b, st') \<and> mc_rel st' (sh_step (Free p site) sh)"
proof (cases "p = 0")
  case True
  then show ?thesis using assms(1) by (auto simp: ls_mc_free_def)
next
  case False
  then have p: "real_addr p" using assms(2) by (simp add: real_addr_def)
  have i: "g_initialized st" using assms(1) by (simp add: mc_rel_def mc_inv_def)
  show ?thesis
  proof (cases "sh_blocks sh p")
    case None
    then show ?thesis using mc_rel_look(1) [OF assms(1) p None] i False assms(1,3)
      by (auto simp: ls_mc_free_def mc_rel_def mc_inv_def frames_rel_def)
  next
    case (Some e)
    obtain k where k: "find_slot (g_table st) (g_cap st) p False = Some (Some k)" "k < length (g_table st)" "g_table st ! k = e" "e_ptr e = p"
      using mc_rel_look(2) [OF assms(1) p Some] by blast
    show ?thesis
    proof (cases "freed e")
      case True
      then show ?thesis using k i False Some assms(1,3)
        by (auto simp: ls_mc_free_def Let_def mc_rel_def mc_inv_def frames_rel_def)
    next
      case nf: False
      have "mc_rel (mark_freed k (Some site) st) (sh_release p (Some site) sh)"
        using mark_freed_rel [OF assms(1) p k(2)] k(3,4) nf by simp
      then show ?thesis using k i False Some nf assms(3) by (auto simp: ls_mc_free_def Let_def)
    qed
  qed
qed

lemma realloc_release:
  assumes "mc_rel st sh" "old \<noteq> 1"
  shows "\<exists>st'. (if old = 0 then Some st
            else do {
              slot \<leftarrow> find_slot (g_table st) (g_cap st) old False;
              case slot of
                None \<Rightarrow> Some st
              | Some i \<Rightarrow> Some (if freed (g_table st ! i) then st else mark_freed i site st) }) = Some st' \<and>
    mc_rel st' (sh_release old site sh)"
proof (cases "old = 0")
  case True
  have "sh_blocks sh 0 = None" using assms(1) by (auto simp: mc_rel_def key_look_def real_addr_def dest: sym [of "look (g_table st)"])
  then show ?thesis using True assms(1) by (simp add: sh_release_def)
next
  case False
  then have p: "real_addr old" using assms(2) by (simp add: real_addr_def)
  show ?thesis
  proof (cases "sh_blocks sh old")
    case None
    then show ?thesis using mc_rel_look(1) [OF assms(1) p None] False assms(1) by (simp add: sh_release_def)
  next
    case (Some e)
    obtain k where k: "find_slot (g_table st) (g_cap st) old False = Some (Some k)" "k < length (g_table st)" "g_table st ! k = e" "e_ptr e = old"
      using mc_rel_look(2) [OF assms(1) p Some] by blast
    then show ?thesis using mark_freed_rel [OF assms(1) p k(2), of site] Some False assms(1)
      by (cases "freed e") (simp_all add: sh_release_def)
  qed
qed

lemma dom_release [simp]: "dom (sh_blocks (sh_release p site sh)) = dom (sh_blocks sh)"
  by (auto simp: sh_release_def split: option.split)

lemma release_fields [simp]:
  "sh_oom (sh_release p site sh) = sh_oom sh" "sh_started (sh_release p site sh) = sh_started sh"
  by (simp_all add: sh_release_def split: option.split)

lemma realloc_step:
  assumes "mc_rel st sh" "sh_valid (Realloc ok old p sz site) sh"
  shows "\<exists>st'. ls_mc_realloc env ok p old sz site st = Some (p, st') \<and> mc_rel st' (sh_step (Realloc ok old p sz site) sh)"
proof -
  have i: "mc_init env ok st = st" using assms(1) mc_init_id by (simp add: mc_rel_def mc_inv_def)
  let ?sh = "sh_release old site sh"
  obtain st0 where st0: "(if old = 0 then Some st
            else do {
              slot \<leftarrow> find_slot (g_table st) (g_cap st) old False;
              case slot of
                None \<Rightarrow> Some st
              | Some i \<Rightarrow> Some (if freed (g_table st ! i) then st else mark_freed i site st) }) = Some st0" "mc_rel st0 ?sh"
    using realloc_release [OF assms(1), of old site] assms(2) by auto
  obtain st1 where st1: "grow_if_half_full ok st0 = Some st1" "if p = 0 then mc_rel st1 ?sh else
    \<exists>i st2. find_slot (g_table st1) (g_cap st1) p True = Some (Some i) \<and> record_block i p sz site st1 = Some st2 \<and>
      mc_rel st2 ((sh_record p sz site ?sh)\<lparr>sh_started := True, sh_oom := sh_oom ?sh \<or> \<not> ok\<rparr>)"
    using grow_and_record [OF st0(2), of ok p sz site] assms(2) by (auto simp: enough_slots_def)
  have e: "ls_mc_realloc env ok p old sz site st =
      (if p = 0 then Some (0, st1)
       else do {
         slot \<leftarrow> find_slot (g_table st1) (g_cap st1) p True;
         st \<leftarrow> (case slot of None \<Rightarrow> Some st1 | Some i \<Rightarrow> record_block i p sz site st1);
         Some (p, trace_op ''realloc'' p sz site st) })"
    by (simp only: ls_mc_realloc_def i Let_def st0(1) st1(1) Option.bind_lunit)
  show ?thesis
  proof (cases "p = 0")
    case True
    then have "mc_rel st1 (?sh\<lparr>sh_started := True, sh_oom := sh_oom sh \<or> \<not> ok\<rparr>)" using st1(2) by (auto simp: mc_rel_def)
    then show ?thesis using True e by (simp add: sh_record_def)
  next
    case False
    then obtain k st2 where "find_slot (g_table st1) (g_cap st1) p True = Some (Some k)" "record_block k p sz site st1 = Some st2"
      "mc_rel st2 ((sh_record p sz site ?sh)\<lparr>sh_started := True, sh_oom := sh_oom sh \<or> \<not> ok\<rparr>)" using st1(2) by auto
    then show ?thesis using e False by (simp add: trace_op_def)
  qed
qed

lemma frame_steps:
  assumes "mc_rel st sh"
  shows "mc_rel (ls_mc_enter fn file ln st) (sh_step (Enter fn file ln) sh)" "mc_rel (ls_mc_leave st) (sh_step Leave sh)"
proof -
  have r: "frames_rel st (sh_frames sh)" using assms by (simp add: mc_rel_def)
  show "mc_rel (ls_mc_leave st) (sh_step Leave sh)"
    using assms r by (auto simp: mc_rel_def mc_inv_def ls_mc_leave_def frames_rel_def nth_butlast)
  show "mc_rel (ls_mc_enter fn file ln st) (sh_step (Enter fn file ln) sh)"
    using assms r by (auto simp: mc_rel_def mc_inv_def ls_mc_enter_def frames_rel_def Let_def LS_MC_FRAME_STACK_MAX_def
        nth_append nth_list_update less_Suc_eq min_def split: if_splits)
qed

lemma cap_pow: "LS_MC_INITIAL_CAP = 2 ^ 8"
  by (simp add: LS_MC_INITIAL_CAP_def)

lemma occ_empty: "occ (replicate n zero_entry) = 0"
  by (simp add: key_occ_def zero_entry_def)

text \<open>Before the first allocation there is no table; afterwards the invariant holds.\<close>

definition mc_sim :: "MemState \<Rightarrow> shadow \<Rightarrow> bool" where
  "mc_sim st sh \<longleftrightarrow>
     (if sh_started sh then mc_rel st sh
      else \<not> g_initialized st \<and> \<not> g_reported st \<and> g_total st = 0 \<and> g_live st = 0 \<and> g_invalid_frees st = 0 \<and>
        g_double_frees st = 0 \<and> frames_rel st (sh_frames sh) \<and>
        sh_blocks sh = (\<lambda>_. None) \<and> sh_invalid sh = 0 \<and> sh_double sh = 0 \<and> misuses st = [] \<and> sh_diags sh = [] \<and>
        \<not> sh_oom sh)"

lemma mc_sim_start: "mc_sim mc_start sh_start"
  by (simp add: mc_sim_def mc_start_def sh_start_def frames_rel_def LS_MC_FRAME_STACK_MAX_def misuses_def)

lemma mc_init_fields:
  assumes "\<not> g_initialized st"
  shows "g_table (mc_init env True st) = replicate LS_MC_INITIAL_CAP zero_entry" "g_cap (mc_init env True st) = LS_MC_INITIAL_CAP"
    "g_initialized (mc_init env True st)" "g_total (mc_init env True st) = g_total st" "g_live (mc_init env True st) = g_live st"
    "g_reported (mc_init env True st) = g_reported st" "g_invalid_frees (mc_init env True st) = g_invalid_frees st"
    "g_double_frees (mc_init env True st) = g_double_frees st" "g_frame_stack (mc_init env True st) = g_frame_stack st"
    "g_frame_top (mc_init env True st) = g_frame_top st" "misuses (mc_init env True st) = misuses st"
  using assms by (simp_all add: mc_init_def probe_modes_once_def Let_def)

lemma mc_sim_init:
  assumes "mc_sim st sh" "enough_slots ok sh"
  shows "mc_rel (mc_init env ok st) sh"
proof (cases "sh_started sh")
  case True
  then have "mc_rel st sh" using assms by (simp add: mc_sim_def)
  then show ?thesis using mc_init_id by (auto simp: mc_rel_def mc_inv_def)
next
  case False
  then have n: "\<not> g_initialized st" using assms by (simp add: mc_sim_def)
  have ok: "ok = True" using False assms(2) by (simp add: enough_slots_def)
  have t: "table_ok (replicate LS_MC_INITIAL_CAP zero_entry)" unfolding cap_pow by (rule table_ok_empty)
  have c: "256 \<le> LS_MC_INITIAL_CAP" "0 < LS_MC_INITIAL_CAP" by (simp_all add: LS_MC_INITIAL_CAP_def)
  have "live_addrs (\<lambda>_. None) = {}" by (simp add: live_addrs_def)
  then show ?thesis using t c assms(1) False unfolding ok
    by (simp add: mc_rel_def mc_inv_def mc_init_fields [OF n] mc_sim_def look_empty occ_empty frames_rel_def)
qed

lemma mc_init_twice: "mc_init env ok (mc_init env ok st) = mc_init env ok st"
proof (cases "g_initialized st")
  case False
  then have "g_initialized (mc_init env ok st)" by (simp add: mc_init_def probe_modes_once_def Let_def)
  then show ?thesis by (rule mc_init_id)
qed (simp add: mc_init_id)

lemma alloc_init:
  "ls_mc_alloc env ok p sz site st = ls_mc_alloc env ok p sz site (mc_init env ok st)"
  "ls_mc_realloc env ok p old sz site st = ls_mc_realloc env ok p old sz site (mc_init env ok st)"
  by (simp_all only: ls_mc_alloc_def ls_mc_realloc_def mc_init_twice)

lemma started_steps: "sh_started (sh_step (Enter fn fl ln) sh) = sh_started sh" "sh_started (sh_step Leave sh) = sh_started sh"
  "sh_started (sh_step (Free p fsite) sh) = sh_started sh" "sh_started (sh_step (Alloc ok p sz site) sh)"
  "sh_started (sh_step (Realloc ok old p sz site) sh)"
  by (auto simp: sh_release_def split: option.split)

lemma frames_rel_steps:
  assumes "frames_rel st fs"
  shows "frames_rel (ls_mc_leave st) (butlast fs)"
    "frames_rel (ls_mc_enter fn fl ln st) (fs @ [\<lparr>fn_name = case_option ''?'' id fn, fr_file = case_option ''?'' id fl, call_line = ln\<rparr>])"
  using assms by (auto simp: ls_mc_leave_def ls_mc_enter_def frames_rel_def Let_def LS_MC_FRAME_STACK_MAX_def
        nth_butlast nth_append nth_list_update less_Suc_eq min_def split: if_splits)

lemma mc_step_sim:
  assumes "mc_sim st sh" "sh_valid op1 sh"
  shows "\<exists>st'. mc_step env op1 st = Some st' \<and> mc_sim st' (sh_step op1 sh)"
proof (cases op1)
  case (Alloc ok p sz site)
  then have "enough_slots ok sh" using assms(2) by simp
  then obtain st' where "ls_mc_alloc env ok p sz site (mc_init env ok st) = Some (p, st')" "mc_rel st' (sh_step op1 sh)"
    using alloc_step [OF mc_sim_init [OF assms(1)], of ok ok p sz site env] assms(2) Alloc by blast
  then show ?thesis using Alloc alloc_init(1) [of env ok p sz site st] started_steps(4) by (simp add: mc_sim_def del: sh_step.simps)
next
  case (Realloc ok old p sz site)
  then have "enough_slots ok sh" using assms(2) by simp
  then obtain st' where "ls_mc_realloc env ok p old sz site (mc_init env ok st) = Some (p, st')" "mc_rel st' (sh_step op1 sh)"
    using realloc_step [OF mc_sim_init [OF assms(1)], of ok ok old p sz site env] assms(2) Realloc by blast
  then show ?thesis using Realloc alloc_init(2) [of env ok p old sz site st] started_steps(5) by (simp add: mc_sim_def del: sh_step.simps)
next
  case (Free p site)
  show ?thesis
  proof (cases "sh_started sh")
    case True
    then have "mc_rel st sh" using assms(1) by (simp add: mc_sim_def)
    then obtain b st' where "ls_mc_free p site st = Some (b, st')" "mc_rel st' (sh_step op1 sh)"
      using free_step [of st sh p site] assms(2) Free True by blast
    then show ?thesis using Free True started_steps(3) by (simp add: mc_sim_def del: sh_step.simps)
  next
    case False
    then show ?thesis using assms(1) Free by (auto simp: mc_sim_def ls_mc_free_def)
  qed
next
  case (Enter fn fl ln)
  show ?thesis
  proof (cases "sh_started sh")
    case True
    then show ?thesis using assms(1) Enter frame_steps(1) [of st sh fn fl ln] by (simp add: mc_sim_def)
  next
    case False
    then show ?thesis using assms(1) Enter frames_rel_steps(2) [of st "sh_frames sh" fn fl ln]
      by (simp add: mc_sim_def ls_mc_enter_def Let_def)
  qed
next
  case Leave
  show ?thesis
  proof (cases "sh_started sh")
    case True
    then show ?thesis using assms(1) Leave frame_steps(2) [of st sh] by (simp add: mc_sim_def)
  next
    case False
    then show ?thesis using assms(1) Leave frames_rel_steps(1) [of st "sh_frames sh"]
      by (simp add: mc_sim_def ls_mc_leave_def)
  qed
qed

lemma mc_run_sim: "mc_sim st sh \<Longrightarrow> sh_valid_run ops sh \<Longrightarrow> \<exists>st'. mc_run env ops st = Some st' \<and> mc_sim st' (sh_run ops sh)"
proof (induction ops arbitrary: st sh)
  case (Cons op1 ops)
  obtain st1 where "mc_step env op1 st = Some st1" "mc_sim st1 (sh_step op1 sh)"
    using mc_step_sim [OF Cons.prems(1)] Cons.prems(2) by auto
  then show ?case using Cons.IH [of st1 "sh_step op1 sh"] Cons.prems(2) by simp
qed simp

section \<open>The report\<close>

definition sh_leaks :: "shadow \<Rightarrow> addr set" where
  "sh_leaks sh = live_addrs (sh_blocks sh)"

definition sh_leaked_bytes :: "shadow \<Rightarrow> nat" where
  "sh_leaked_bytes sh = (\<Sum>p \<in> sh_leaks sh. e_size (the (sh_blocks sh p)))"

definition leak_line :: "LsMcEntry \<Rightarrow> mc_event" where
  "leak_line e = Leak (e_size e) (alloc_site e) (backtrace e)"

lemma report_loop_eq: "report_loop es (n, b, evs) =
   (let ls = filter (\<lambda>e. \<not> (e_ptr e = 0 \<or> e_ptr e = LS_MC_TOMBSTONE \<or> freed e)) es
    in (n + length ls, b + sum_list (map e_size ls), evs @ map leak_line ls))"
  by (induction es arbitrary: n b evs) (auto simp: Let_def leak_line_def)

lemma live_entries:
  assumes "table_ok tab"
  defines "ls \<equiv> filter (\<lambda>e. \<not> (e_ptr e = 0 \<or> e_ptr e = LS_MC_TOMBSTONE \<or> freed e)) tab"
  shows "length ls = card (live_addrs (look tab))"
    and "sum_list (map e_size ls) = (\<Sum>p \<in> live_addrs (look tab). e_size (the (look tab p)))"
    and "\<exists>ps. distinct ps \<and> set ps = live_addrs (look tab) \<and> ls = map (\<lambda>p. the (look tab p)) ps"
proof -
  note k = table_keyed [OF assms(1)]
  have ls: "ls = filter (\<lambda>e. real_addr (e_ptr e) \<and> \<not> freed e) tab"
    unfolding ls_def by (intro filter_cong) (auto simp: real_addr_def LS_MC_TOMBSTONE_def)
  then show "length ls = card (live_addrs (look tab))"
    "sum_list (map e_size ls) = (\<Sum>p \<in> live_addrs (look tab). e_size (the (look tab p)))"
    using look_filter [OF k, where P = "\<lambda>e. \<not> freed e"] by (simp_all add: live_addrs_def)
  have "map (\<lambda>p. the (look tab p)) (map e_ptr ls) = map (\<lambda>e. e) ls"
    unfolding map_map o_def ls using look_entries(2) [OF k, of _ "\<lambda>e. \<not> freed e"] by (intro map_cong) auto
  then have "map (\<lambda>p. the (look tab p)) (map e_ptr ls) = ls" by (simp only: list.map_ident)
  moreover have "distinct (map e_ptr ls)" "set (map e_ptr ls) = live_addrs (look tab)"
    using look_entries(1,3) [OF k, of "\<lambda>e. \<not> freed e"] unfolding ls live_addrs_def by simp_all
  ultimately show "\<exists>ps. distinct ps \<and> set ps = live_addrs (look tab) \<and> ls = map (\<lambda>p. the (look tab p)) ps" by metis
qed

text \<open>What the report adds to the output, for an enumeration of the blocks still live.\<close>

definition report_lines :: "bool \<Rightarrow> shadow \<Rightarrow> addr list \<Rightarrow> mc_event list" where
  "report_lines strict sh ps =
     (let clean = (sh_leaks sh = {} \<and> sh_double sh = 0 \<and> sh_invalid sh = 0)
      in map (\<lambda>p. leak_line (the (sh_blocks sh p))) ps @
         [Summary (card (sh_leaks sh)) (sh_leaked_bytes sh) (sh_double sh) (sh_invalid sh)] @
         (if clean then [Clean] else []) @ (if strict \<and> \<not> clean then [Strict_exit] else []))"

lemma report_rel:
  assumes "mc_rel st sh"
  shows "\<exists>st' ps. ls_mc_report st = Some st' \<and> trace st' = trace st @ report_lines (g_strict st \<noteq> 0) sh ps \<and>
    distinct ps \<and> set ps = sh_leaks sh"
proof -
  let ?t = "g_table st"
  let ?ls = "filter (\<lambda>e. \<not> (e_ptr e = 0 \<or> e_ptr e = LS_MC_TOMBSTONE \<or> freed e)) ?t"
  have r: "g_initialized st" "\<not> g_reported st" "table_ok ?t" "g_cap st = length ?t" "look ?t = sh_blocks sh"
    "g_invalid_frees st = sh_invalid sh" "g_double_frees st = sh_double sh"
    using assms by (simp_all add: mc_rel_def mc_inv_def)
  note le = live_entries [OF r(3), unfolded r(5)]
  have fin: "finite (sh_leaks sh)" using finite_live [of ?t] r(5) by (simp add: sh_leaks_def)
  have z: "card (sh_leaks sh) = 0 \<longleftrightarrow> sh_leaks sh = {}" using fin by simp
  obtain ps where ps: "distinct ps" "set ps = sh_leaks sh" "?ls = map (\<lambda>p. the (sh_blocks sh p)) ps"
    using le(3) by (auto simp: sh_leaks_def)
  have rl: "report_loop (take (g_cap st) ?t) (0, 0, []) = (card (sh_leaks sh), sh_leaked_bytes sh, map leak_line ?ls)"
    using le(1,2) r(4) by (simp add: report_loop_eq Let_def sh_leaks_def sh_leaked_bytes_def)
  have "ls_mc_report st = Some (st\<lparr>g_reported := True, trace := trace st @ report_lines (g_strict st \<noteq> 0) sh ps\<rparr>)"
    using r z rl unfolding ps(3) by (auto simp: ls_mc_report_def report_lines_def Let_def)
  then show ?thesis using ps(1,2) by (intro exI conjI) (assumption | simp)+
qed

text \<open>The same before the first allocation, where nothing is leaked.\<close>

lemma report_sim:
  assumes "mc_sim st sh"
  shows "\<exists>st' ps. ls_mc_report st = Some st' \<and> trace st' = trace st @ report_lines (g_strict st \<noteq> 0) sh ps \<and>
    distinct ps \<and> set ps = sh_leaks sh"
proof (cases "sh_started sh")
  case True
  then show ?thesis using assms report_rel by (simp add: mc_sim_def)
next
  case False
  then have f: "\<not> g_reported st" "\<not> g_initialized st" "sh_leaks sh = {}" "sh_invalid sh = 0" "sh_double sh = 0"
    using assms by (simp_all add: mc_sim_def sh_leaks_def live_addrs_def)
  then have "ls_mc_report st = Some (st\<lparr>g_reported := True, trace := trace st @ [Summary 0 0 0 0, Clean]\<rparr>)"
    by (simp add: ls_mc_report_def Let_def)
  moreover have "report_lines b sh [] = [Summary 0 0 0 0, Clean]" for b using f by (simp add: report_lines_def sh_leaked_bytes_def)
  ultimately show ?thesis using f by (intro exI [of _ "st\<lparr>g_reported := True, trace := trace st @ [Summary 0 0 0 0, Clean]\<rparr>"] exI [of _ "[]"])
    simp
qed

text \<open>A call site, as codegen emits them.\<close>

definition example_site :: LsMcSite where
  "example_site = \<lparr>site_file = ''a.ls'', site_line = 3, site_col = 7, site_kind = ''vec.grow''\<rparr>"

definition quiet_env :: mc_env where
  "quiet_env = \<lparr>verbose_var = None, strict_var = Some ''1''\<rparr>"

section \<open>Properties\<close>

text \<open>C19: The heap tracker implements its specification.  From the start of the program, take any sequence
  of allocations, reallocations, frees, function entries and exits in which the addresses are ones that
  the C library may return, the tracker's first \<open>calloc\<close> succeeds, and a later one, which grows the
  table, fails only while fewer than 255 addresses were recorded (\<open>first_calloc_unchecked\<close> is what
  happens otherwise at the first).  The sequence runs without an access outside the table, and once
  something was allocated the hash table is the map from addresses to blocks that the specification
  computes, with sizes, sites, freed marks and call chains; its counters count the live blocks and the
  wrong frees; the messages about invalid and double frees are those of the specification, in order;
  the frame stack holds the functions entered and not left, up to its 256 entries; a slot is free, and
  at most half of the table is in use if no \<open>calloc\<close> failed.\<close>

theorem memcheck_refines:
  assumes "sh_valid_run ops sh_start" "sh_started (sh_run ops sh_start)"
  defines "sh \<equiv> sh_run ops sh_start"
  shows "\<exists>st. mc_run env ops mc_start = Some st \<and>
    look (g_table st) = sh_blocks sh \<and> g_live st = card (live_addrs (sh_blocks sh)) \<and>
    g_invalid_frees st = sh_invalid sh \<and> g_double_frees st = sh_double sh \<and> misuses st = sh_diags sh \<and>
    g_frame_top st = length (sh_frames sh) \<and>
    take (min 256 (length (sh_frames sh))) (g_frame_stack st) = take 256 (sh_frames sh) \<and>
    occ (g_table st) < length (g_table st) \<and> (sh_oom sh \<or> occ (g_table st) * 2 < length (g_table st))"
proof -
  obtain st where st: "mc_run env ops mc_start = Some st" "mc_rel st sh"
    using mc_run_sim [OF mc_sim_start assms(1)] assms(2) by (auto simp: mc_sim_def sh_def)
  then have "take (min 256 (length (sh_frames sh))) (g_frame_stack st) = take 256 (sh_frames sh)"
    by (intro nth_equalityI) (auto simp: mc_rel_def frames_rel_def)
  then show ?thesis using st by (auto simp: mc_rel_def mc_inv_def frames_rel_def)
qed

lemma memcheck_refines_witness:
  "\<exists>st. mc_run quiet_env [Enter (Some ''main'') None 1, Alloc True 64 10 None, Realloc False 64 128 20 (Some example_site),
      Free 64 example_site, Free 128 example_site, Free 128 example_site] mc_start = Some st \<and>
    g_double_frees st = 2 \<and> g_live st = 0 \<and> g_frame_top st = 1 \<and>
    misuses st = [Double_free example_site 64 None (Some example_site), Double_free example_site 128 (Some example_site) (Some example_site)]"
proof -
  let ?ops = "[Enter (Some ''main'') None 1, Alloc True 64 10 None, Realloc False 64 128 20 (Some example_site),
      Free 64 example_site, Free 128 example_site, Free 128 example_site]"
  have v: "sh_valid_run ?ops sh_start"
    by (simp add: sh_start_def not_live_def sh_record_def sh_release_def enough_slots_def)
  have d: "sh_double (sh_run ?ops sh_start) = 2" "live_addrs (sh_blocks (sh_run ?ops sh_start)) = {}"
    "length (sh_frames (sh_run ?ops sh_start)) = 1"
    "sh_diags (sh_run ?ops sh_start) =
       [Double_free example_site 64 None (Some example_site), Double_free example_site 128 (Some example_site) (Some example_site)]"
    by (simp_all add: sh_start_def sh_record_def sh_release_def live_addrs_def)
  have st: "sh_started (sh_run ?ops sh_start)" by (simp add: sh_start_def sh_record_def sh_release_def)
  show ?thesis using memcheck_refines [OF v st, of quiet_env] unfolding d by auto
qed



section \<open>Failed allocations\<close>

text \<open>When realloc fails, the block it was given is still allocated, but its entry is marked freed:
  the program's later free of it is reported as a double free and never reaches the C library.\<close>

lemma failed_realloc_reports_double_free:
  assumes "mc_rel st sh" "real_addr p" "sh_blocks sh p = Some e" "\<not> freed e"
  shows "\<exists>st1 st2. ls_mc_realloc env True 0 p sz site st = Some (0, st1) \<and> ls_mc_free p fsite st1 = Some (False, st2) \<and>
    g_double_frees st2 = g_double_frees st + 1"
proof -
  have v: "sh_valid (Realloc True p 0 sz site) sh"
  proof -
    have "sh_blocks sh 0 = None" using assms(1) by (auto simp: mc_rel_def key_look_def real_addr_def dest: sym [of "look (g_table st)"])
    then show ?thesis using assms(2-4) by (simp add: real_addr_def not_live_def sh_release_def enough_slots_def)
  qed
  obtain st1 where st1: "ls_mc_realloc env True 0 p sz site st = Some (0, st1)" "mc_rel st1 (sh_release p site sh)"
    using realloc_step [OF assms(1) v, of env] by (auto simp: sh_record_def mc_rel_def)
  have b: "sh_blocks (sh_release p site sh) p = Some (e\<lparr>freed := True, free_site := site\<rparr>)" using assms(3,4) by (simp add: sh_release_def)
  obtain k where k: "find_slot (g_table st1) (g_cap st1) p False = Some (Some k)" "g_table st1 ! k = e\<lparr>freed := True, free_site := site\<rparr>"
    using mc_rel_look(2) [OF st1(2) assms(2) b] by blast
  have "g_double_frees st1 = g_double_frees st" using st1(2) assms(1,3,4) by (simp add: mc_rel_def sh_release_def)
  then show ?thesis using st1 k assms(2)
    by (auto simp: ls_mc_free_def Let_def real_addr_def mc_rel_def mc_inv_def)
qed

text \<open>The result of the first calloc is not tested: when it fails, the first allocation reads the table
  through a null pointer.\<close>

lemma first_calloc_unchecked:
  assumes "p \<noteq> 0"
  shows "ls_mc_alloc env False p sz site mc_start = None"
proof -
  have "hash_ptr p AND (256 - 1) < 256" using and_mask_mod [of _ 8] by simp
  then show ?thesis using assms
    by (simp add: ls_mc_alloc_def mc_init_def mc_start_def probe_modes_once_def Let_def grow_if_half_full_def
        LS_MC_INITIAL_CAP_def find_slot_def numeral_eq_Suc emit_def)
qed

end
