(* ===== verification/Leakcheck.thy ===== *)
theory Leakcheck
  imports Ptr_Table "HOL-Library.Multiset"
begin

text \<open>
  The heap tracker of the compiler itself (\<open>src/src/leakcheck.c\<close>).

  The globals are one record.  The address that the C library returns and whether calloc succeeds
  when the table grows are arguments; a file name is the address of its string literal, which is
  what the report compares.  A loop over the table that finds no end has no result: the walks are
  partial functions, and \<open>None\<close> says that they do not return.
\<close>

record LcEntry =
  lc_ptr :: addr
  lc_size :: nat
  lc_file :: addr
  lc_line :: int

definition lc_zero :: LcEntry where
  "lc_zero = \<lparr>lc_ptr = 0, lc_size = 0, lc_file = 0, lc_line = 0\<rparr>"

definition LC_TOMB :: addr where "LC_TOMB = 1"

datatype lc_event =
  Lc_grow_oom
| Lc_fatal_oom
| Lc_ok
| Lc_leak nat nat nat
| Lc_site nat nat addr int
| Lc_untracked nat

record LcState =
  lc_tab :: "LcEntry list"
  lc_cap :: nat
  lc_live :: nat
  lc_used :: nat
  lc_untracked_free :: nat
  lc_inited :: bool
  lc_reporting :: bool
  lc_trace :: "lc_event list"

definition lc_start :: LcState where
  "lc_start = \<lparr>lc_tab = [], lc_cap = 0, lc_live = 0, lc_used = 0, lc_untracked_free = 0,
     lc_inited = False, lc_reporting = False, lc_trace = []\<rparr>"

definition lc_emit :: "lc_event \<Rightarrow> LcState \<Rightarrow> LcState" where
  "lc_emit ev st = st\<lparr>lc_trace := lc_trace st @ [ev]\<rparr>"

definition lc_hash_ptr :: "addr \<Rightarrow> nat" where
  "lc_hash_ptr p =
     (let x = p XOR drop_bit 33 p;
          x = x * 0xff51afd7ed558ccd;
          x = x XOR drop_bit 33 x
      in unat x)"

section \<open>The table\<close>

text \<open>\<open>while (nt[j].ptr) j = (j + 1) & m\<close>.\<close>

partial_function (option) lc_free_from :: "LcEntry list \<Rightarrow> nat \<Rightarrow> nat \<Rightarrow> nat option" where
  "lc_free_from tab m j =
     (if j \<ge> length tab then None
      else if lc_ptr (tab ! j) = 0 then Some j
      else lc_free_from tab m ((j + 1) AND m))"

definition lc_put :: "LcEntry \<Rightarrow> LcEntry list \<Rightarrow> LcEntry list option" where
  "lc_put e tab = do {
     j \<leftarrow> lc_free_from tab (length tab - 1) (lc_hash_ptr (lc_ptr e) AND (length tab - 1));
     Some (tab[j := e]) }"

fun lc_rehash :: "LcEntry list \<Rightarrow> LcEntry list \<Rightarrow> LcEntry list option" where
  "lc_rehash [] nt = Some nt"
| "lc_rehash (e # es) nt =
     (if lc_ptr e \<noteq> 0 \<and> lc_ptr e \<noteq> LC_TOMB then do { nt \<leftarrow> lc_put e nt; lc_rehash es nt }
      else lc_rehash es nt)"

definition lc_grow :: "bool \<Rightarrow> LcState \<Rightarrow> LcState option" where
  "lc_grow calloc_ok st =
     (let newcap = (if lc_cap st \<noteq> 0 then lc_cap st * 2 else 4096)
      in if \<not> calloc_ok then Some (lc_emit Lc_grow_oom st)
         else do {
           nt \<leftarrow> lc_rehash (lc_tab st) (replicate newcap lc_zero);
           Some (st\<lparr>lc_tab := nt, lc_cap := newcap, lc_used := lc_live st\<rparr>) })"

text \<open>The walk of an insertion: the slot where it ended, whether it found the pointer, and the first
  tombstone it passed.\<close>

partial_function (option) lc_insert_walk ::
  "LcEntry list \<Rightarrow> nat \<Rightarrow> addr \<Rightarrow> nat \<Rightarrow> nat option \<Rightarrow> (nat \<times> bool \<times> nat option) option" where
  "lc_insert_walk tab m p j first_tomb =
     (if j \<ge> length tab then None
      else if lc_ptr (tab ! j) = 0 then Some (j, False, first_tomb)
      else if lc_ptr (tab ! j) = LC_TOMB then
        lc_insert_walk tab m p ((j + 1) AND m) (if first_tomb = None then Some j else first_tomb)
      else if lc_ptr (tab ! j) = p then Some (j, True, first_tomb)
      else lc_insert_walk tab m p ((j + 1) AND m) first_tomb)"

definition lc_insert :: "bool \<Rightarrow> addr \<Rightarrow> nat \<Rightarrow> addr \<Rightarrow> int \<Rightarrow> LcState \<Rightarrow> LcState option" where
  "lc_insert calloc_ok p sz file ln st =
     (if p = 0 then Some st
      else do {
        st \<leftarrow> (if lc_used st * 4 \<ge> lc_cap st * 3 then lc_grow calloc_ok st else Some st);
        if lc_cap st = 0 then Some st
        else do {
          let m = lc_cap st - 1;
          let e = \<lparr>lc_ptr = p, lc_size = sz, lc_file = file, lc_line = ln\<rparr>;
          (j, found, first_tomb) \<leftarrow> lc_insert_walk (lc_tab st) m p (lc_hash_ptr p AND m) None;
          if found then Some (st\<lparr>lc_tab := (lc_tab st)[j := e]\<rparr>)
          else Some (case first_tomb of
              Some t \<Rightarrow> st\<lparr>lc_tab := (lc_tab st)[t := e], lc_live := lc_live st + 1\<rparr>
            | None \<Rightarrow> st\<lparr>lc_used := lc_used st + 1, lc_tab := (lc_tab st)[j := e], lc_live := lc_live st + 1\<rparr>) } })"

partial_function (option) lc_remove_walk :: "LcEntry list \<Rightarrow> nat \<Rightarrow> addr \<Rightarrow> nat \<Rightarrow> nat option option" where
  "lc_remove_walk tab m p j =
     (if j \<ge> length tab then None
      else if lc_ptr (tab ! j) = 0 then Some None
      else if lc_ptr (tab ! j) = p then Some (Some j)
      else lc_remove_walk tab m p ((j + 1) AND m))"

declare lc_free_from.simps [code] lc_insert_walk.simps [code] lc_remove_walk.simps [code]

text \<open>Only the pointer of the slot becomes the tombstone.\<close>

definition lc_remove :: "addr \<Rightarrow> LcState \<Rightarrow> (bool \<times> LcState) option" where
  "lc_remove p st =
     (if p = 0 \<or> lc_cap st = 0 then Some (False, st)
      else do {
        let m = lc_cap st - 1;
        r \<leftarrow> lc_remove_walk (lc_tab st) m p (lc_hash_ptr p AND m);
        Some (case r of
            Some j \<Rightarrow> (True, st\<lparr>lc_tab := (lc_tab st)[j := (lc_tab st ! j)\<lparr>lc_ptr := LC_TOMB\<rparr>], lc_live := lc_live st - 1\<rparr>)
          | None \<Rightarrow> (False, st)) })"

section \<open>The wrappers\<close>

definition ls_lc_init :: "LcState \<Rightarrow> LcState" where
  "ls_lc_init st = st\<lparr>lc_inited := True\<rparr>"

definition ls_lc_malloc :: "bool \<Rightarrow> addr \<Rightarrow> nat \<Rightarrow> addr \<Rightarrow> int \<Rightarrow> LcState \<Rightarrow> (addr \<times> LcState) option" where
  "ls_lc_malloc ok p sz file ln st = do {
     st \<leftarrow> (if p \<noteq> 0 then lc_insert ok p sz file ln st else Some st);
     Some (p, st) }"

definition ls_lc_calloc :: "bool \<Rightarrow> addr \<Rightarrow> nat \<Rightarrow> nat \<Rightarrow> addr \<Rightarrow> int \<Rightarrow> LcState \<Rightarrow> (addr \<times> LcState) option" where
  "ls_lc_calloc ok p n sz file ln st = do {
     st \<leftarrow> (if p \<noteq> 0 then lc_insert ok p ((n * sz) mod 2 ^ 64) file ln st else Some st);
     Some (p, st) }"

definition ls_lc_realloc ::
  "bool \<Rightarrow> addr \<Rightarrow> addr \<Rightarrow> nat \<Rightarrow> addr \<Rightarrow> int \<Rightarrow> LcState \<Rightarrow> (addr \<times> LcState) option" where
  "ls_lc_realloc ok p old sz file ln st = do {
     st \<leftarrow> (if old \<noteq> 0 then map_option snd (lc_remove old st) else Some st);
     st \<leftarrow> (if p \<noteq> 0 then lc_insert ok p sz file ln st else Some st);
     Some (p, st) }"

text \<open>\<open>s\<close> is the string to copy, NULL is \<open>None\<close>.\<close>

definition ls_lc_strdup :: "bool \<Rightarrow> addr \<Rightarrow> string option \<Rightarrow> addr \<Rightarrow> int \<Rightarrow> LcState \<Rightarrow> (addr \<times> LcState) option" where
  "ls_lc_strdup ok p s file ln st =
     (case s of
        None \<Rightarrow> Some (0, st)
      | Some s \<Rightarrow> do {
          st \<leftarrow> (if p \<noteq> 0 then lc_insert ok p (length s + 1) file ln st else Some st);
          Some (p, st) })"

definition ls_lc_free :: "addr \<Rightarrow> LcState \<Rightarrow> LcState option" where
  "ls_lc_free p st =
     (if p = 0 then Some st
      else do {
        (found, st) \<leftarrow> lc_remove p st;
        Some (if found then st else st\<lparr>lc_untracked_free := lc_untracked_free st + 1\<rparr>) })"

text \<open>The checked wrappers end the process when memory is exhausted: \<open>Inl\<close> is the state at exit.\<close>

definition ls_lc_xmalloc ::
  "bool \<Rightarrow> addr \<Rightarrow> nat \<Rightarrow> addr \<Rightarrow> int \<Rightarrow> LcState \<Rightarrow> (LcState + (addr \<times> LcState)) option" where
  "ls_lc_xmalloc ok p sz file ln st =
     (if p = 0 \<and> sz \<noteq> 0 then Some (Inl (lc_emit Lc_fatal_oom st))
      else map_option Inr (ls_lc_malloc ok p sz file ln st))"

definition ls_lc_xrealloc ::
  "bool \<Rightarrow> addr \<Rightarrow> addr \<Rightarrow> nat \<Rightarrow> addr \<Rightarrow> int \<Rightarrow> LcState \<Rightarrow> (LcState + (addr \<times> LcState)) option" where
  "ls_lc_xrealloc ok p old sz file ln st = do {
     st \<leftarrow> (if old \<noteq> 0 then map_option snd (lc_remove old st) else Some st);
     if p = 0 \<and> sz \<noteq> 0 then Some (Inl (lc_emit Lc_fatal_oom st))
     else do {
       st \<leftarrow> (if p \<noteq> 0 then lc_insert ok p sz file ln st else Some st);
       Some (Inr (p, st)) } }"

definition ls_lc_xcalloc ::
  "bool \<Rightarrow> addr \<Rightarrow> nat \<Rightarrow> nat \<Rightarrow> addr \<Rightarrow> int \<Rightarrow> LcState \<Rightarrow> (LcState + (addr \<times> LcState)) option" where
  "ls_lc_xcalloc ok p n sz file ln st =
     (if p = 0 \<and> n \<noteq> 0 \<and> sz \<noteq> 0 then Some (Inl (lc_emit Lc_fatal_oom st))
      else map_option Inr (ls_lc_calloc ok p n sz file ln st))"

section \<open>The report\<close>

record LcSite =
  s_file :: addr
  s_line :: int
  s_count :: nat
  s_bytes :: nat

text \<open>Counting an entry at its site, which is appended when it is new.\<close>

fun add_site :: "LcEntry \<Rightarrow> LcSite list \<Rightarrow> LcSite list" where
  "add_site e [] = [\<lparr>s_file = lc_file e, s_line = lc_line e, s_count = 1, s_bytes = lc_size e\<rparr>]"
| "add_site e (s # ss) =
     (if s_line s = lc_line e \<and> s_file s = lc_file e
      then s\<lparr>s_count := s_count s + 1, s_bytes := s_bytes s + lc_size e\<rparr> # ss
      else s # add_site e ss)"

fun collect_sites :: "LcEntry list \<Rightarrow> nat \<times> LcSite list \<Rightarrow> nat \<times> LcSite list" where
  "collect_sites [] acc = acc"
| "collect_sites (e # es) (total_bytes, sites) =
     (if lc_ptr e = 0 \<or> lc_ptr e = LC_TOMB then collect_sites es (total_bytes, sites)
      else collect_sites es (total_bytes + lc_size e, add_site e sites))"

text \<open>The index of the first site with the most bytes among those from \<open>b\<close> on and the one at \<open>best\<close>.\<close>

function best_site :: "LcSite list \<Rightarrow> nat \<Rightarrow> nat \<Rightarrow> nat" where
  "best_site sites best b =
     (if b < length sites
      then best_site sites (if s_bytes (sites ! b) > s_bytes (sites ! best) then b else best) (b + 1)
      else best)"
  by auto
termination by (relation "measure (\<lambda>(sites, best, b). length sites - b)") auto

declare best_site.simps [simp del]

text \<open>Selection sort by bytes; each round swaps and prints one site.\<close>

function print_sites :: "LcSite list \<Rightarrow> nat \<Rightarrow> LcSite list" where
  "print_sites sites a =
     (if a < length sites
      then
        (let best = best_site sites a (a + 1);
             t = sites ! a;
             sites = sites[a := sites ! best, best := t]
         in sites ! a # print_sites sites (a + 1))
      else [])"
  by auto
termination by (relation "measure (\<lambda>(sites, a). length sites - a)") (auto simp: Let_def)

declare print_sites.simps [simp del]

definition ls_lc_report :: "LcState \<Rightarrow> LcState" where
  "ls_lc_report st =
     (if lc_reporting st then st
      else
        (let st = st\<lparr>lc_reporting := True\<rparr>;
             (total_bytes, sites) = collect_sites (take (lc_cap st) (lc_tab st)) (0, []);
             body = (if lc_live st = 0 then [Lc_ok]
                     else Lc_leak (lc_live st) total_bytes (length sites) #
                          map (\<lambda>s. Lc_site (s_count s) (s_bytes s) (s_file s) (s_line s)) (print_sites sites 0));
             extra = (if lc_untracked_free st \<noteq> 0 then [Lc_untracked (lc_untracked_free st)] else [])
         in st\<lparr>lc_trace := lc_trace st @ body @ extra\<rparr>))"

end
