(* ===== verification/Leakcheck_Spec.thy ===== *)
theory Leakcheck_Spec
  imports Leakcheck
begin

text \<open>
  The compiler's heap tracker is a map from the addresses in use to their blocks: insertion,
  removal with tombstones and growth keep the table an instance of the pointer table, and the
  report adds the blocks up by site and prints the sites by size.
\<close>

abbreviation blocks :: "LcState \<Rightarrow> addr \<Rightarrow> LcEntry option" where
  "blocks st \<equiv> key_look lc_ptr (lc_tab st)"

abbreviation lc_table_ok :: "LcEntry list \<Rightarrow> bool" where
  "lc_table_ok \<equiv> keyed_ok lc_ptr lc_hash_ptr"

abbreviation "lc_reaches \<equiv> \<lambda>tab. reaches lc_hash_ptr (map lc_ptr tab)"

definition slot_at :: "LcEntry list \<Rightarrow> addr \<Rightarrow> nat \<Rightarrow> nat" where
  "slot_at tab p j = (lc_hash_ptr p + j) mod length tab"

lemma slot_at_less: "lc_table_ok tab \<Longrightarrow> slot_at tab p j < length tab"
  using keyed_pos [of lc_ptr lc_hash_ptr tab] by (simp add: slot_at_def)

lemma slot_at_next: "lc_table_ok tab \<Longrightarrow> (slot_at tab p j + 1) AND (length tab - 1) = slot_at tab p (Suc j)"
  using next_slot keyed_pow unfolding slot_at_def by blast

lemma slot_at_start: "lc_table_ok tab \<Longrightarrow> lc_hash_ptr p AND (length tab - 1) = slot_at tab p 0"
  using start_slot unfolding slot_at_def by blast

lemma reaches_slot: "lc_table_ok tab \<Longrightarrow> lc_reaches tab p d i \<longleftrightarrow> d < length tab \<and> i = slot_at tab p d \<and>
    (\<forall>j<d. lc_ptr (tab ! slot_at tab p j) \<noteq> 0 \<and> lc_ptr (tab ! slot_at tab p j) \<noteq> p)"
  using slot_at_less [of tab p] by (auto simp: reaches_def slot_at_def)

lemma absent_slot: "lc_table_ok tab \<Longrightarrow> real_addr p \<Longrightarrow> key_look lc_ptr tab p = None \<Longrightarrow> lc_ptr (tab ! slot_at tab p j) \<noteq> p"
  using slot_at_less [of tab p j] key_look_None [of p lc_ptr tab] by (metis image_eqI nth_mem)

text \<open>An empty slot lies on the path.\<close>

lemma empty_on_path:
  assumes "lc_table_ok tab" "key_occ lc_ptr tab < length tab"
  shows "\<exists>d<length tab. lc_ptr (tab ! slot_at tab p d) = 0 \<and> (\<forall>j<d. lc_ptr (tab ! slot_at tab p j) \<noteq> 0)"
proof -
  obtain i where i: "i < length tab" "lc_ptr (tab ! i) = 0" using key_empty_slot [OF assms(2)] by blast
  then obtain j where j: "j < length tab" "lc_ptr (tab ! slot_at tab p j) = 0" using probe_onto [OF i(1)] unfolding slot_at_def by metis
  let ?d = "LEAST d. lc_ptr (tab ! slot_at tab p d) = 0"
  have "lc_ptr (tab ! slot_at tab p ?d) = 0" "?d \<le> j" using LeastI [of "\<lambda>d. lc_ptr (tab ! slot_at tab p d) = 0" j] Least_le [of "\<lambda>d. lc_ptr (tab ! slot_at tab p d) = 0" j] j by auto
  then show ?thesis using j(1) not_less_Least by (intro exI [of _ ?d]) auto
qed

section \<open>The walks\<close>

lemma free_walk:
  assumes "lc_table_ok tab" "\<forall>j<d. lc_ptr (tab ! slot_at tab p j) \<noteq> 0" "lc_ptr (tab ! slot_at tab p d) = 0"
  shows "j \<le> d \<Longrightarrow> lc_free_from tab (length tab - 1) (slot_at tab p j) = Some (slot_at tab p d)"
proof (induction "d - j" arbitrary: j)
  case 0
  then show ?case using assms slot_at_less [OF assms(1)] by (subst lc_free_from.simps) (auto simp: not_le)
next
  case (Suc n)
  then have "lc_free_from tab (length tab - 1) (slot_at tab p j) = lc_free_from tab (length tab - 1) (slot_at tab p (Suc j))"
    using assms(2) slot_at_less [OF assms(1), of p j] slot_at_next [OF assms(1), of p j] by (subst lc_free_from.simps) (auto simp: not_le)
  then show ?case using Suc.hyps(1) [of "Suc j"] Suc.hyps(2) by simp
qed

lemma remove_walk_absent:
  assumes "lc_table_ok tab" "real_addr p" "key_look lc_ptr tab p = None"
    "\<forall>j<d. lc_ptr (tab ! slot_at tab p j) \<noteq> 0" "lc_ptr (tab ! slot_at tab p d) = 0"
  shows "j \<le> d \<Longrightarrow> lc_remove_walk tab (length tab - 1) p (slot_at tab p j) = Some None"
proof (induction "d - j" arbitrary: j)
  case 0
  then show ?case using assms(5) slot_at_less [OF assms(1)] by (subst lc_remove_walk.simps) (auto simp: not_le)
next
  case (Suc n)
  then have "lc_remove_walk tab (length tab - 1) p (slot_at tab p j) = lc_remove_walk tab (length tab - 1) p (slot_at tab p (Suc j))"
    using assms(4) absent_slot [OF assms(1-3)] slot_at_less [OF assms(1), of p j] slot_at_next [OF assms(1), of p j]
    by (subst lc_remove_walk.simps) (auto simp: not_le)
  then show ?case using Suc.hyps(1) [of "Suc j"] Suc.hyps(2) by simp
qed

lemma remove_walk_present:
  assumes "lc_table_ok tab" "real_addr p" "lc_reaches tab p d i" "lc_ptr (tab ! i) = p"
  shows "j \<le> d \<Longrightarrow> lc_remove_walk tab (length tab - 1) p (slot_at tab p j) = Some (Some i)"
proof (induction "d - j" arbitrary: j)
  case 0
  then show ?case using assms(2-4) slot_at_less [OF assms(1), of p d] reaches_slot [OF assms(1)]
    by (subst lc_remove_walk.simps) (auto simp: not_le)
next
  case (Suc n)
  then have "lc_remove_walk tab (length tab - 1) p (slot_at tab p j) = lc_remove_walk tab (length tab - 1) p (slot_at tab p (Suc j))"
    using assms(3) reaches_slot [OF assms(1)] slot_at_less [OF assms(1), of p j] slot_at_next [OF assms(1), of p j]
    by (subst lc_remove_walk.simps) (auto simp: not_le)
  then show ?case using Suc.hyps(1) [of "Suc j"] Suc.hyps(2) by simp
qed

lemma insert_walk_present:
  assumes "lc_table_ok tab" "real_addr p" "lc_reaches tab p d i" "lc_ptr (tab ! i) = p"
  shows "j \<le> d \<Longrightarrow> \<exists>ft'. lc_insert_walk tab (length tab - 1) p (slot_at tab p j) ft = Some (i, True, ft')"
proof (induction "d - j" arbitrary: j ft)
  case 0
  then show ?case using assms(2-4) slot_at_less [OF assms(1), of p d] reaches_slot [OF assms(1)]
    by (subst lc_insert_walk.simps) (auto simp: not_le LC_TOMB_def)
next
  case (Suc n)
  then have "\<exists>ft'. lc_insert_walk tab (length tab - 1) p (slot_at tab p j) ft = lc_insert_walk tab (length tab - 1) p (slot_at tab p (Suc j)) ft'"
    using assms(3) reaches_slot [OF assms(1)] slot_at_less [OF assms(1), of p j] slot_at_next [OF assms(1), of p j]
    by (subst lc_insert_walk.simps) (auto simp: not_le)
  then show ?case using Suc.hyps(1) [of "Suc j"] Suc.hyps(2) by auto
qed

definition tomb_before :: "LcEntry list \<Rightarrow> addr \<Rightarrow> nat \<Rightarrow> nat option \<Rightarrow> bool" where
  "tomb_before tab p j ft \<longleftrightarrow> (\<forall>t. ft = Some t \<longrightarrow> (\<exists>l<j. t = slot_at tab p l \<and> lc_ptr (tab ! t) = 1))"

lemma insert_walk_absent:
  assumes "lc_table_ok tab" "real_addr p" "key_look lc_ptr tab p = None"
    "\<forall>j<d. lc_ptr (tab ! slot_at tab p j) \<noteq> 0" "lc_ptr (tab ! slot_at tab p d) = 0"
  shows "j \<le> d \<Longrightarrow> tomb_before tab p j ft \<Longrightarrow>
    \<exists>ft'. lc_insert_walk tab (length tab - 1) p (slot_at tab p j) ft = Some (slot_at tab p d, False, ft') \<and> tomb_before tab p d ft'"
proof (induction "d - j" arbitrary: j ft)
  case 0
  then show ?case using assms(5) slot_at_less [OF assms(1)] by (subst lc_insert_walk.simps) (auto simp: not_le)
next
  case (Suc n)
  let ?ft = "if lc_ptr (tab ! slot_at tab p j) = 1 \<and> ft = None then Some (slot_at tab p j) else ft"
  have "lc_insert_walk tab (length tab - 1) p (slot_at tab p j) ft = lc_insert_walk tab (length tab - 1) p (slot_at tab p (Suc j)) ?ft"
    using Suc.hyps(2) assms(4) absent_slot [OF assms(1-3)] slot_at_less [OF assms(1), of p j] slot_at_next [OF assms(1), of p j]
    by (subst lc_insert_walk.simps) (auto simp: not_le LC_TOMB_def)
  moreover have "tomb_before tab p (Suc j) ?ft" using Suc.prems(2) by (auto simp: tomb_before_def less_Suc_eq)
  ultimately show ?case using Suc.hyps(1) [of "Suc j" ?ft] Suc.hyps(2) by simp
qed

section \<open>Insertion, removal and growth\<close>

lemma walk_end:
  assumes "lc_table_ok tab" "key_occ lc_ptr tab < length tab"
  shows "\<exists>d<length tab. lc_ptr (tab ! slot_at tab p d) = 0 \<and> (\<forall>j<d. lc_ptr (tab ! slot_at tab p j) \<noteq> 0)"
  using empty_on_path [OF assms] .

lemma reaches_absent:
  assumes "lc_table_ok tab" "real_addr p" "key_look lc_ptr tab p = None" "d < length tab"
    "\<forall>j<d. lc_ptr (tab ! slot_at tab p j) \<noteq> 0" "l \<le> d"
  shows "lc_reaches tab p l (slot_at tab p l)"
  using assms absent_slot [OF assms(1-3)] by (auto simp: reaches_slot)

lemma lc_put_fresh:
  assumes "lc_table_ok tab" "real_addr (lc_ptr e)" "key_look lc_ptr tab (lc_ptr e) = None" "key_occ lc_ptr tab < length tab"
  shows "\<exists>tab'. lc_put e tab = Some tab' \<and> lc_table_ok tab' \<and> key_look lc_ptr tab' = (key_look lc_ptr tab)(lc_ptr e \<mapsto> e) \<and>
    key_occ lc_ptr tab' = Suc (key_occ lc_ptr tab) \<and> length tab' = length tab"
proof -
  let ?p = "lc_ptr e"
  obtain d where d: "d < length tab" "lc_ptr (tab ! slot_at tab ?p d) = 0" "\<forall>j<d. lc_ptr (tab ! slot_at tab ?p j) \<noteq> 0"
    using walk_end [OF assms(1,4)] by blast
  let ?i = "slot_at tab ?p d"
  have r: "lc_reaches tab ?p d ?i" using reaches_absent [OF assms(1-3) d(1,3)] by simp
  have "\<not> real_addr (lc_ptr (tab ! ?i))" using d(2) by simp
  then have ok: "lc_table_ok (tab[?i := e])" by (rule keyed_ok_put [OF assms(1) r assms(2,3)])
  have il: "?i < length tab" by (rule slot_at_less [OF assms(1)])
  have "lc_put e tab = Some (tab[?i := e])"
    using free_walk [OF assms(1) d(3,2), of 0] slot_at_start [OF assms(1)] by (simp add: lc_put_def)
  moreover have "key_look lc_ptr (tab[?i := e]) = (key_look lc_ptr tab)(?p \<mapsto> e)"
    by (rule key_look_update [OF assms(1) ok il assms(2)]) (use d(2) in simp)
  moreover have "key_occ lc_ptr (tab[?i := e]) = Suc (key_occ lc_ptr tab)"
    using key_occ_update [OF il, of lc_ptr e] assms(2) d(2) by (auto simp: real_addr_def)
  ultimately show ?thesis using ok by auto
qed

interpretation lc: ptr_table lc_table_ok lc_ptr "key_look lc_ptr" lc_put "key_occ lc_ptr" length
  by unfold_locales (rule lc_put_fresh)

lemma lc_rehash_put_all: "lc_rehash es nt = lc.put_all (filter (\<lambda>e. real_addr (lc_ptr e)) es) nt"
proof (induction es arbitrary: nt)
  case (Cons e es)
  then show ?case by (cases "lc_put e nt") (auto simp: real_addr_def LC_TOMB_def)
qed simp

definition lc_inv :: "LcState \<Rightarrow> bool" where
  "lc_inv st \<longleftrightarrow> lc_cap st = length (lc_tab st) \<and> lc_live st = card (dom (blocks st)) \<and> lc_used st = key_occ lc_ptr (lc_tab st) \<and>
     (lc_tab st = [] \<or> lc_table_ok (lc_tab st) \<and> 4096 \<le> lc_cap st \<and> lc_used st < lc_cap st)"

lemma card_look:
  assumes "lc_table_ok tab"
  shows "card (dom (key_look lc_ptr tab)) = length (filter (\<lambda>e. real_addr (lc_ptr e)) tab)"
proof -
  let ?es = "filter (\<lambda>e. real_addr (lc_ptr e)) tab"
  have "dom (key_look lc_ptr tab) = set (map lc_ptr ?es)"
    unfolding key_look_map_of(1) [OF assms] by (simp add: dom_map_of_conv_image_fst image_image)
  then show ?thesis using distinct_card [OF key_look_map_of(2) [OF assms]] by simp
qed

lemma card_le_occ: "lc_table_ok tab \<Longrightarrow> card (dom (key_look lc_ptr tab)) \<le> key_occ lc_ptr tab"
proof -
  have e: "filter (\<lambda>e. real_addr (lc_ptr e)) tab = filter (\<lambda>e. real_addr (lc_ptr e)) (filter (\<lambda>e. lc_ptr e \<noteq> 0) tab)"
    unfolding filter_filter by (intro filter_cong) (auto simp: real_addr_def)
  have "length (filter (\<lambda>e. real_addr (lc_ptr e)) tab) \<le> length (filter (\<lambda>e. lc_ptr e \<noteq> 0) tab)"
    by (subst e) (rule length_filter_le)
  then show "lc_table_ok tab \<Longrightarrow> ?thesis" using card_look [of tab] by (simp add: key_occ_def)
qed

lemma lc_grow_inv:
  assumes "lc_inv st"
  shows "\<exists>st'. lc_grow True st = Some st' \<and> lc_inv st' \<and> blocks st' = blocks st \<and> lc_tab st' \<noteq> [] \<and>
    lc_used st' + 1 < lc_cap st' \<and> lc_untracked_free st' = lc_untracked_free st \<and> lc_reporting st' = lc_reporting st \<and>
    lc_used st' \<le> lc_used st"
proof -
  let ?t = "lc_tab st" let ?n = "if lc_cap st \<noteq> 0 then lc_cap st * 2 else 4096"
  let ?es = "filter (\<lambda>e. real_addr (lc_ptr e)) ?t"
  have i: "lc_cap st = length ?t" "lc_live st = card (dom (blocks st))" "lc_used st = key_occ lc_ptr ?t"
    "?t = [] \<or> lc_table_ok ?t \<and> 4096 \<le> lc_cap st \<and> lc_used st < lc_cap st"
    using assms unfolding lc_inv_def by blast+
  have z: "lc_ptr lc_zero = 0" by (simp add: lc_zero_def)
  have "\<exists>k. ?n = 2 ^ k"
  proof (cases "?t = []")
    case True
    then show ?thesis using i(1) by (intro exI [of _ 12]) simp
  next
    case False
    then obtain k where "length ?t = 2 ^ k" using i(4) keyed_pow by blast
    then show ?thesis using i(1) False by (intro exI [of _ "Suc k"]) simp
  qed
  then obtain k where k: "?n = 2 ^ k" by blast
  have ok0: "lc_table_ok (replicate ?n lc_zero)" unfolding k by (rule keyed_ok_empty [where key = lc_ptr, OF z])
  have l0: "key_look lc_ptr (replicate ?n lc_zero) = (\<lambda>_. None)" "key_occ lc_ptr (replicate ?n lc_zero) = 0"
    using key_look_empty [of lc_ptr lc_zero] z by (auto simp: key_occ_def)
  have es: "blocks st = map_of (map (\<lambda>e. (lc_ptr e, e)) ?es) \<and> distinct (map lc_ptr ?es) \<and> length ?es = lc_live st"
  proof (cases "?t = []")
    case True
    then show ?thesis using i(2) by (auto simp: key_look_def)
  next
    case False
    then have "lc_table_ok ?t" using i(4) by simp
    then show ?thesis using key_look_map_of [of lc_ptr lc_hash_ptr ?t] card_look [of ?t] i(2) by simp
  qed
  have lv: "lc_live st + 1 < ?n"
  proof (cases "?t = []")
    case True
    then show ?thesis using es i(1) by simp
  next
    case False
    then show ?thesis using i card_le_occ [of ?t] by auto
  qed
  have d: "distinct (map lc_ptr ?es)" using es by blast
  have fr: "\<forall>e \<in> set ?es. real_addr (lc_ptr e) \<and> key_look lc_ptr (replicate ?n lc_zero) (lc_ptr e) = None"
    unfolding l0(1) by simp
  have rm: "key_occ lc_ptr (replicate ?n lc_zero) + length ?es \<le> length (replicate ?n lc_zero)"
    unfolding l0(2) length_replicate using es lv by linarith
  have lz: "length (replicate ?n lc_zero) = ?n" "length ?es = lc_live st" using es by simp_all
  obtain t where t: "lc.put_all ?es (replicate ?n lc_zero) = Some t" "lc_table_ok t"
    "key_look lc_ptr t = key_look lc_ptr (replicate ?n lc_zero) ++ map_of (map (\<lambda>e. (lc_ptr e, e)) ?es)"
    "key_occ lc_ptr t = lc_live st" "length t = ?n"
    using lc.put_all_map [OF ok0 d fr rm] unfolding l0(2) lz add_0 by blast
  have lt: "key_look lc_ptr t = blocks st" unfolding t(3) l0(1) using es by (metis map_add_None empty_map_add)
  have "lc_grow True st = Some (st\<lparr>lc_tab := t, lc_cap := ?n, lc_used := lc_live st\<rparr>)"
    using t(1) by (simp add: lc_grow_def Let_def lc_rehash_put_all)
  moreover have "lc_inv (st\<lparr>lc_tab := t, lc_cap := ?n, lc_used := lc_live st\<rparr>)"
    using t lt i(1,2,4) lv by (auto simp: lc_inv_def)
  moreover have "t \<noteq> []" using t(5) lv by auto
  moreover have "lc_live st \<le> lc_used st"
  proof (cases "?t = []")
    case True
    then show ?thesis using es i(1) by simp
  next
    case False
    then show ?thesis using i card_le_occ [of ?t] by simp
  qed
  ultimately show ?thesis using lt lv by auto
qed

lemma lc_insert_inv:
  assumes "lc_inv st" "real_addr p" "ok \<or> lc_tab st \<noteq> [] \<and> lc_used st < 4095"
  shows "\<exists>st'. lc_insert ok p sz file ln st = Some st' \<and> lc_inv st' \<and>
    blocks st' = (blocks st)(p \<mapsto> \<lparr>lc_ptr = p, lc_size = sz, lc_file = file, lc_line = ln\<rparr>) \<and>
    lc_untracked_free st' = lc_untracked_free st \<and> lc_reporting st' = lc_reporting st \<and>
    lc_tab st' \<noteq> [] \<and> lc_used st' \<le> lc_used st + 1"
proof -
  let ?e = "\<lparr>lc_ptr = p, lc_size = sz, lc_file = file, lc_line = ln\<rparr>"
  obtain st1 where st1: "(if lc_used st * 4 \<ge> lc_cap st * 3 then lc_grow ok st else Some st) = Some st1" "lc_inv st1"
    "blocks st1 = blocks st" "lc_tab st1 \<noteq> []" "lc_used st1 + 1 < lc_cap st1" "lc_untracked_free st1 = lc_untracked_free st"
    "lc_reporting st1 = lc_reporting st" "lc_used st1 \<le> lc_used st"
  proof -
    consider "lc_used st * 4 \<ge> lc_cap st * 3" "ok" | "lc_used st * 4 \<ge> lc_cap st * 3" "\<not> ok"
      | "\<not> lc_used st * 4 \<ge> lc_cap st * 3" by blast
    then show ?thesis
    proof cases
      case 1
      then show ?thesis using lc_grow_inv [OF assms(1)] that by auto
    next
      case 2
      let ?st = "lc_emit Lc_grow_oom st"
      have f: "lc_tab st \<noteq> []" "lc_used st < 4095" using assms(3) 2(2) by simp_all
      have "lc_inv ?st" "lc_used ?st + 1 < lc_cap ?st" using assms(1) f by (auto simp: lc_inv_def lc_emit_def)
      then show ?thesis using that [of ?st] 2 f(1) by (simp add: lc_grow_def Let_def lc_emit_def)
    next
      case 3
      then have ne: "lc_tab st \<noteq> []" using assms(1) by (auto simp: lc_inv_def)
      then have "4096 \<le> lc_cap st" using assms(1) by (auto simp: lc_inv_def)
      then have "lc_used st + 1 < lc_cap st" using 3 by simp
      then show ?thesis using that [of st] 3 assms(1) ne by simp
    qed
  qed
  let ?t = "lc_tab st1" let ?m = "lc_cap st1 - 1"
  have i: "lc_table_ok ?t" "lc_cap st1 = length ?t" "4096 \<le> lc_cap st1" "lc_used st1 = key_occ lc_ptr ?t"
    "lc_live st1 = card (dom (blocks st1))" using st1(2,4) by (simp_all add: lc_inv_def)
  have room: "key_occ lc_ptr ?t < length ?t" using st1(5) i(2,4) by simp
  have pe: "lc_ptr ?e = p" "lc_ptr ?e \<noteq> 0" using assms(2) by (auto simp: real_addr_def)
  have ins: "lc_insert ok p sz file ln st = do {
      (j, found, first_tomb) \<leftarrow> lc_insert_walk ?t ?m p (slot_at ?t p 0) None;
      if found then Some (st1\<lparr>lc_tab := ?t[j := ?e]\<rparr>)
      else Some (case first_tomb of
          Some t \<Rightarrow> st1\<lparr>lc_tab := ?t[t := ?e], lc_live := lc_live st1 + 1\<rparr>
        | None \<Rightarrow> st1\<lparr>lc_used := lc_used st1 + 1, lc_tab := ?t[j := ?e], lc_live := lc_live st1 + 1\<rparr>) }"
  proof -
    have "p \<noteq> 0" "lc_cap st1 \<noteq> 0" using pe i(3) by auto
    then show ?thesis using slot_at_start [OF i(1), of p] i(2)
      by (simp only: lc_insert_def if_False st1(1) Option.bind_lunit Let_def simp_thms)
  qed
  show ?thesis
  proof (cases "blocks st1 p")
    case (Some x)
    obtain k where k: "k < length ?t" "lc_ptr (?t ! k) = p" using Some key_look_Some [OF i(1), of p x] by auto
    have "real_addr (map lc_ptr ?t ! k)" using k assms(2) by simp
    then obtain d where d: "lc_reaches ?t p d k"
      using chained_reaches [of lc_hash_ptr "map lc_ptr ?t" k] i(1) k by (auto simp: keyed_ok_def)
    obtain ft where "lc_insert_walk ?t (length ?t - 1) p (slot_at ?t p 0) None = Some (k, True, ft)"
      using insert_walk_present [OF i(1) assms(2) d k(2), of 0] by blast
    then have e: "lc_insert ok p sz file ln st = Some (st1\<lparr>lc_tab := ?t[k := ?e]\<rparr>)" using ins i(2) by simp
    have ok: "lc_table_ok (?t[k := ?e])" using keyed_ok_replace [OF i(1) k(1), of ?e] k(2) by simp
    have l: "key_look lc_ptr (?t[k := ?e]) = (blocks st1)(p \<mapsto> ?e)"
      using key_look_update [OF i(1) ok k(1)] k(2) assms(2) by simp
    have o': "key_occ lc_ptr (?t[k := ?e]) = key_occ lc_ptr ?t" using key_occ_update [OF k(1), of lc_ptr ?e] pe k(2) by simp
    have "dom ((blocks st1)(p \<mapsto> ?e)) = dom (blocks st1)" using Some by auto
    then have "lc_inv (st1\<lparr>lc_tab := ?t[k := ?e]\<rparr>)" using i st1(5) ok l o' by (simp add: lc_inv_def)
    then show ?thesis using e l st1(3,4,6,7,8) by simp
  next
    case None
    obtain d where d: "d < length ?t" "lc_ptr (?t ! slot_at ?t p d) = 0" "\<forall>j<d. lc_ptr (?t ! slot_at ?t p j) \<noteq> 0"
      using walk_end [OF i(1) room] by blast
    have "tomb_before ?t p 0 None" by (simp add: tomb_before_def)
    then obtain ft where ft: "lc_insert_walk ?t (length ?t - 1) p (slot_at ?t p 0) None = Some (slot_at ?t p d, False, ft)" "tomb_before ?t p d ft"
      using insert_walk_absent [OF i(1) assms(2) None d(3,2), of 0 None] by auto
    have card: "card (dom ((blocks st1)(p \<mapsto> ?e))) = Suc (card (dom (blocks st1)))"
      using None finite_look [of lc_ptr ?t] by (simp add: domIff)
    have store: "lc_table_ok (?t[k := ?e]) \<and> key_look lc_ptr (?t[k := ?e]) = (blocks st1)(p \<mapsto> ?e) \<and>
        key_occ lc_ptr (?t[k := ?e]) = (if lc_ptr (?t ! k) = 0 then Suc (key_occ lc_ptr ?t) else key_occ lc_ptr ?t)"
      if k: "k = slot_at ?t p l" "l \<le> d" "\<not> real_addr (lc_ptr (?t ! k))" for k l
    proof -
      have r: "lc_reaches ?t (lc_ptr ?e) l k" using reaches_absent [OF i(1) assms(2) None d(1,3) k(2)] k(1) pe(1) by simp
      have kl: "k < length ?t" using slot_at_less [OF i(1)] k(1) by simp
      have ra: "real_addr (lc_ptr ?e)" "key_look lc_ptr ?t (lc_ptr ?e) = None" using assms(2) None by simp_all
      have ok: "lc_table_ok (?t[k := ?e])" by (rule keyed_ok_put [OF i(1) r ra k(3)])
      then show ?thesis using key_look_update [OF i(1) ok kl ra(1)] k(3) key_occ_update [where key = lc_ptr, OF kl pe(2)] by simp
    qed
    show ?thesis
    proof (cases ft)
      case None
      then have e: "lc_insert ok p sz file ln st = Some (st1\<lparr>lc_used := lc_used st1 + 1, lc_tab := ?t[slot_at ?t p d := ?e], lc_live := lc_live st1 + 1\<rparr>)"
        using ins ft(1) i(2) by simp
      note s = store [of "slot_at ?t p d" d]
      have "lc_inv (st1\<lparr>lc_used := lc_used st1 + 1, lc_tab := ?t[slot_at ?t p d := ?e], lc_live := lc_live st1 + 1\<rparr>)"
        using s d(2) i st1(5) card by (simp add: lc_inv_def)
      then show ?thesis using e s d(2) st1(3,4,6,7,8) by simp
    next
      case (Some t)
      then obtain l where l: "l < d" "t = slot_at ?t p l" "lc_ptr (?t ! t) = 1" using ft(2) by (auto simp: tomb_before_def)
      have e: "lc_insert ok p sz file ln st = Some (st1\<lparr>lc_tab := ?t[t := ?e], lc_live := lc_live st1 + 1\<rparr>)"
        using ins ft(1) i(2) Some by simp
      note s = store [OF l(2)]
      have "lc_inv (st1\<lparr>lc_tab := ?t[t := ?e], lc_live := lc_live st1 + 1\<rparr>)"
        using s l(1,3) i st1(5) card by (simp add: lc_inv_def)
      then show ?thesis using e s l(1,3) st1(3,4,6,7,8) by simp
    qed
  qed
qed

lemma lc_remove_inv:
  assumes "lc_inv st" "real_addr p"
  shows "\<exists>st'. lc_remove p st = Some (blocks st p \<noteq> None, st') \<and> lc_inv st' \<and> blocks st' = (blocks st)(p := None) \<and>
    lc_untracked_free st' = lc_untracked_free st \<and> lc_reporting st' = lc_reporting st \<and>
    (lc_tab st' = [] \<longleftrightarrow> lc_tab st = []) \<and> lc_used st' = lc_used st"
proof (cases "lc_tab st = []")
  case True
  then have "lc_remove p st = Some (False, st)" "blocks st = (\<lambda>_. None)"
    using assms(1) by (auto simp: lc_remove_def lc_inv_def key_look_def)
  then show ?thesis using assms(1) by simp
next
  case False
  let ?t = "lc_tab st"
  have i: "lc_table_ok ?t" "lc_cap st = length ?t" "4096 \<le> lc_cap st" "lc_used st = key_occ lc_ptr ?t"
    "lc_live st = card (dom (blocks st))" "lc_used st < lc_cap st" using assms(1) False by (simp_all add: lc_inv_def)
  have p0: "p \<noteq> 0" "lc_cap st \<noteq> 0" using assms(2) i(3) by (auto simp: real_addr_def)
  have room: "key_occ lc_ptr ?t < length ?t" using i by simp
  show ?thesis
  proof (cases "blocks st p")
    case None
    obtain d where d: "d < length ?t" "lc_ptr (?t ! slot_at ?t p d) = 0" "\<forall>j<d. lc_ptr (?t ! slot_at ?t p j) \<noteq> 0"
      using walk_end [OF i(1) room] by blast
    have "lc_remove p st = Some (False, st)"
      using remove_walk_absent [OF i(1) assms(2) None d(3,2), of 0] slot_at_start [OF i(1), of p] p0 i(2)
      by (simp add: lc_remove_def Let_def)
    moreover have "blocks st = (blocks st)(p := None)" using None by auto
    ultimately show ?thesis using assms(1) None by auto
  next
    case (Some x)
    obtain k where k: "k < length ?t" "lc_ptr (?t ! k) = p" using key_look_Some [OF i(1), of p x] Some by auto
    have "real_addr (map lc_ptr ?t ! k)" using k assms(2) by simp
    then obtain d where d: "lc_reaches ?t p d k"
      using chained_reaches [of lc_hash_ptr "map lc_ptr ?t" k] i(1) k by (auto simp: keyed_ok_def)
    let ?e = "(?t ! k)\<lparr>lc_ptr := LC_TOMB\<rparr>"
    let ?st = "st\<lparr>lc_tab := ?t[k := ?e], lc_live := lc_live st - 1\<rparr>"
    have rm: "lc_remove p st = Some (True, ?st)"
      using remove_walk_present [OF i(1) assms(2) d k(2), of 0] slot_at_start [OF i(1), of p] p0 i(2)
      by (simp add: lc_remove_def Let_def)
    have t1: "lc_ptr ?e = 1" "lc_ptr ?e \<noteq> 0" by (simp_all add: LC_TOMB_def)
    have ok: "lc_table_ok (?t[k := ?e])" by (rule keyed_ok_remove [where key = lc_ptr, OF i(1) t1(1)])
    have nr: "\<not> real_addr (lc_ptr ?e)" "real_addr (lc_ptr (?t ! k))" using t1 k(2) assms(2) by simp_all
    have l: "key_look lc_ptr (?t[k := ?e]) = (blocks st)(p := None)"
      using key_look_remove [OF i(1) ok k(1) nr(2,1)] k(2) by simp
    have o': "key_occ lc_ptr (?t[k := ?e]) = key_occ lc_ptr ?t"
      using key_occ_update [where key = lc_ptr, OF k(1) t1(2)] k(2) p0(1) by simp
    have "card (dom ((blocks st)(p := None))) = card (dom (blocks st)) - 1"
      using Some finite_look [of lc_ptr ?t] by (simp add: domI)
    then have "lc_inv ?st" using i ok l o' by (simp add: lc_inv_def)
    then show ?thesis using rm l Some by simp
  qed
qed

section \<open>Specification\<close>

text \<open>The flag of an operation is the answer of \<open>calloc\<close>, if it calls it to create or grow the table.\<close>

datatype lc_op =
  Malloc bool addr nat addr int
| Calloc bool addr nat nat addr int
| Lc_realloc bool addr addr nat addr int
| Strdup bool addr "string option" addr int
| Lc_free addr

fun lc_step :: "lc_op \<Rightarrow> LcState \<Rightarrow> LcState option" where
  "lc_step (Malloc ok p sz f l) st = map_option snd (ls_lc_malloc ok p sz f l st)"
| "lc_step (Calloc ok p n sz f l) st = map_option snd (ls_lc_calloc ok p n sz f l st)"
| "lc_step (Lc_realloc ok p old sz f l) st = map_option snd (ls_lc_realloc ok p old sz f l st)"
| "lc_step (Strdup ok p s f l) st = map_option snd (ls_lc_strdup ok p s f l st)"
| "lc_step (Lc_free p) st = ls_lc_free p st"

text \<open>The blocks in use and the number of frees of addresses that are not among them.\<close>

type_synonym lc_spec = "(addr \<Rightarrow> LcEntry option) \<times> nat"

definition spec_insert :: "addr \<Rightarrow> nat \<Rightarrow> addr \<Rightarrow> int \<Rightarrow> lc_spec \<Rightarrow> lc_spec" where
  "spec_insert p sz f l m =
     (if p = 0 then m else ((fst m)(p \<mapsto> \<lparr>lc_ptr = p, lc_size = sz, lc_file = f, lc_line = l\<rparr>), snd m))"

fun spec_step :: "lc_op \<Rightarrow> lc_spec \<Rightarrow> lc_spec" where
  "spec_step (Malloc ok p sz f l) m = spec_insert p sz f l m"
| "spec_step (Calloc ok p n sz f l) m = spec_insert p ((n * sz) mod 2 ^ 64) f l m"
| "spec_step (Lc_realloc ok p old sz f l) m = spec_insert p sz f l ((fst m)(old := None), snd m)"
| "spec_step (Strdup ok p s f l) m = (case s of None \<Rightarrow> m | Some x \<Rightarrow> spec_insert p (length x + 1) f l m)"
| "spec_step (Lc_free p) m =
     (if p = 0 then m else ((fst m)(p := None), if fst m p = None then snd m + 1 else snd m))"

text \<open>No address is 1.\<close>

fun lc_addrs :: "lc_op \<Rightarrow> bool" where
  "lc_addrs (Malloc ok p sz f l) = (p \<noteq> 1)"
| "lc_addrs (Calloc ok p n sz f l) = (p \<noteq> 1)"
| "lc_addrs (Lc_realloc ok p old sz f l) = (p \<noteq> 1 \<and> old \<noteq> 1)"
| "lc_addrs (Strdup ok p s f l) = (p \<noteq> 1)"
| "lc_addrs (Lc_free p) = (p \<noteq> 1)"

text \<open>Whether an operation puts an address into the table, and with which answer of \<open>calloc\<close>.\<close>

fun lc_inserts :: "lc_op \<Rightarrow> bool option" where
  "lc_inserts (Malloc ok p sz f l) = (if p = 0 then None else Some ok)"
| "lc_inserts (Calloc ok p n sz f l) = (if p = 0 then None else Some ok)"
| "lc_inserts (Lc_realloc ok p old sz f l) = (if p = 0 then None else Some ok)"
| "lc_inserts (Strdup ok p s f l) = (if p = 0 \<or> s = None then None else Some ok)"
| "lc_inserts (Lc_free p) = None"

text \<open>
  What the tracker needs of its own \<open>calloc\<close>, after \<open>n\<close> insertions: it succeeds at the first insertion,
  which creates the table, and fails later only while there were fewer than 4095 insertions, since
  4096 slots are there.
\<close>

fun lc_valid_from :: "nat \<Rightarrow> lc_op list \<Rightarrow> bool" where
  "lc_valid_from n [] = True"
| "lc_valid_from n (op1 # ops) =
     (lc_addrs op1 \<and>
      (case lc_inserts op1 of
         None \<Rightarrow> lc_valid_from n ops
       | Some ok \<Rightarrow> (ok \<or> 0 < n \<and> n < 4095) \<and> lc_valid_from (n + 1) ops))"

definition lc_valid :: "lc_op list \<Rightarrow> bool" where
  "lc_valid ops \<longleftrightarrow> lc_valid_from 0 ops"

fun lc_run :: "lc_op list \<Rightarrow> LcState \<Rightarrow> LcState option" where
  "lc_run [] st = Some st"
| "lc_run (op1 # ops) st = do { st \<leftarrow> lc_step op1 st; lc_run ops st }"

definition spec_run :: "lc_op list \<Rightarrow> lc_spec" where
  "spec_run ops = fold spec_step ops ((\<lambda>_. None), 0)"

definition lc_rel :: "LcState \<Rightarrow> lc_spec \<Rightarrow> bool" where
  "lc_rel st m \<longleftrightarrow> lc_inv st \<and> blocks st = fst m \<and> lc_untracked_free st = snd m \<and> \<not> lc_reporting st"

text \<open>After \<open>n\<close> insertions.\<close>

definition lc_sim :: "nat \<Rightarrow> LcState \<Rightarrow> lc_spec \<Rightarrow> bool" where
  "lc_sim n st m \<longleftrightarrow> lc_rel st m \<and> lc_used st \<le> n \<and> (0 < n \<longrightarrow> lc_tab st \<noteq> [])"

lemma insert_rel:
  assumes "lc_sim n st m" "p \<noteq> 1" "p \<noteq> 0 \<Longrightarrow> ok \<or> 0 < n \<and> n < 4095"
  shows "\<exists>st'. (if p \<noteq> 0 then lc_insert ok p sz f l st else Some st) = Some st' \<and>
    lc_sim (if p = 0 then n else n + 1) st' (spec_insert p sz f l m)"
proof (cases "p = 0")
  case False
  then have "real_addr p" using assms(2) by (simp add: real_addr_def)
  moreover have "ok \<or> lc_tab st \<noteq> [] \<and> lc_used st < 4095" using assms(1,3) False by (auto simp: lc_sim_def)
  moreover have "lc_inv st" using assms(1) by (simp add: lc_sim_def lc_rel_def)
  ultimately obtain st' where "lc_insert ok p sz f l st = Some st'" "lc_inv st'"
    "blocks st' = (blocks st)(p \<mapsto> \<lparr>lc_ptr = p, lc_size = sz, lc_file = f, lc_line = l\<rparr>)"
    "lc_untracked_free st' = lc_untracked_free st" "lc_reporting st' = lc_reporting st" "lc_tab st' \<noteq> []"
    "lc_used st' \<le> lc_used st + 1"
    using lc_insert_inv by metis
  then show ?thesis using assms(1) False by (auto simp: lc_sim_def lc_rel_def spec_insert_def)
qed (use assms in \<open>simp add: spec_insert_def\<close>)

lemma blocks_0: "lc_rel st m \<Longrightarrow> fst m 0 = None"
  by (auto simp: lc_rel_def key_look_def dest: sym [of _ "fst m"])

lemma remove_rel:
  assumes "lc_sim n st m" "p \<noteq> 1"
  shows "\<exists>st'. (if p \<noteq> 0 then map_option snd (lc_remove p st) else Some st) = Some st' \<and>
    lc_sim n st' ((fst m)(p := None), snd m)"
proof (cases "p = 0")
  case True
  then have "(fst m)(p := None) = fst m" using blocks_0 [of st m] assms(1) by (auto simp: lc_sim_def)
  then show ?thesis using True assms(1) by simp
next
  case False
  then have "real_addr p" using assms(2) by (simp add: real_addr_def)
  then show ?thesis using lc_remove_inv [of st p] assms(1) False by (auto simp: lc_sim_def lc_rel_def)
qed

lemma insert_step:
  assumes "lc_sim n st m" "p \<noteq> 1" "p \<noteq> 0 \<longrightarrow> ok \<or> 0 < n \<and> n < 4095"
  obtains st' where "(if p \<noteq> 0 then lc_insert ok p sz f l st else Some st) = Some st'"
    "lc_sim (if p = 0 then n else n + 1) st' (spec_insert p sz f l m)"
  using insert_rel [OF assms(1,2), of ok sz f l] assms(3) by blast

lemma free_rel:
  assumes "lc_sim n st m" "p \<noteq> 1"
  shows "\<exists>st'. ls_lc_free p st = Some st' \<and> lc_sim n st' (spec_step (Lc_free p) m)"
proof (cases "p = 0")
  case False
  then have p: "real_addr p" using assms(2) by (simp add: real_addr_def)
  have "lc_inv st" using assms(1) by (simp add: lc_sim_def lc_rel_def)
  then obtain st1 where "lc_remove p st = Some (blocks st p \<noteq> None, st1)" "lc_inv st1" "blocks st1 = (blocks st)(p := None)"
    "lc_untracked_free st1 = lc_untracked_free st" "lc_reporting st1 = lc_reporting st" "lc_tab st1 = [] \<longleftrightarrow> lc_tab st = []"
    "lc_used st1 = lc_used st"
    using lc_remove_inv [OF _ p] by blast
  then show ?thesis using assms(1) False by (auto simp: ls_lc_free_def lc_sim_def lc_rel_def lc_inv_def)
qed (use assms in \<open>simp add: ls_lc_free_def\<close>)

lemma lc_step_sim:
  assumes "lc_sim n st m" "lc_addrs op1" "\<forall>ok. lc_inserts op1 = Some ok \<longrightarrow> ok \<or> 0 < n \<and> n < 4095"
  shows "\<exists>st'. lc_step op1 st = Some st' \<and> lc_sim (if lc_inserts op1 = None then n else n + 1) st' (spec_step op1 m)"
proof (cases op1)
  case (Malloc ok p sz f l)
  then have v: "p \<noteq> 1" "p \<noteq> 0 \<longrightarrow> ok \<or> 0 < n \<and> n < 4095" using assms(2,3) by auto
  obtain st' where stored: "(if p \<noteq> 0 then lc_insert ok p sz f l st else Some st) = Some st'"
    "lc_sim (if p = 0 then n else n + 1) st' (spec_insert p sz f l m)"
    by (rule insert_step [OF assms(1) v])
  have "ls_lc_malloc ok p sz f l st = Some (p, st')" by (simp only: ls_lc_malloc_def stored(1) Option.bind_lunit)
  then show ?thesis using stored(2) Malloc by (simp split: if_splits)
next
  case (Calloc ok p k sz f l)
  then have v: "p \<noteq> 1" "p \<noteq> 0 \<longrightarrow> ok \<or> 0 < n \<and> n < 4095" using assms(2,3) by auto
  obtain st' where stored: "(if p \<noteq> 0 then lc_insert ok p ((k * sz) mod 2 ^ 64) f l st else Some st) = Some st'"
    "lc_sim (if p = 0 then n else n + 1) st' (spec_insert p ((k * sz) mod 2 ^ 64) f l m)"
    by (rule insert_step [OF assms(1) v])
  have "ls_lc_calloc ok p k sz f l st = Some (p, st')" by (simp only: ls_lc_calloc_def stored(1) Option.bind_lunit)
  then show ?thesis using stored(2) Calloc by (simp split: if_splits)
next
  case (Lc_realloc ok p old sz f l)
  then have v: "old \<noteq> 1" "p \<noteq> 1" "p \<noteq> 0 \<longrightarrow> ok \<or> 0 < n \<and> n < 4095" using assms(2,3) by auto
  obtain st1 where st1: "(if old \<noteq> 0 then map_option snd (lc_remove old st) else Some st) = Some st1" "lc_sim n st1 ((fst m)(old := None), snd m)"
    using remove_rel [OF assms(1) v(1)] by auto
  obtain st2 where st2: "(if p \<noteq> 0 then lc_insert ok p sz f l st1 else Some st1) = Some st2"
    "lc_sim (if p = 0 then n else n + 1) st2 (spec_insert p sz f l ((fst m)(old := None), snd m))"
    by (rule insert_step [OF st1(2) v(2,3)])
  have "ls_lc_realloc ok p old sz f l st = Some (p, st2)"
    by (simp only: ls_lc_realloc_def st1(1) st2(1) Option.bind_lunit)
  then show ?thesis using st2(2) Lc_realloc by (simp split: if_splits)
next
  case (Strdup ok p s f l)
  show ?thesis
  proof (cases s)
    case None
    then show ?thesis using Strdup assms(1) by (simp add: ls_lc_strdup_def)
  next
    case (Some x)
    then have v: "p \<noteq> 1" "p \<noteq> 0 \<longrightarrow> ok \<or> 0 < n \<and> n < 4095" using Strdup assms(2,3) by auto
    obtain st' where stored: "(if p \<noteq> 0 then lc_insert ok p (length x + 1) f l st else Some st) = Some st'"
      "lc_sim (if p = 0 then n else n + 1) st' (spec_insert p (length x + 1) f l m)"
      by (rule insert_step [OF assms(1) v])
    have "ls_lc_strdup ok p (Some x) f l st = Some (p, st')"
        by (simp only: ls_lc_strdup_def option.case stored(1) Option.bind_lunit)
    then show ?thesis using stored(2) Strdup Some by (simp split: if_splits)
  qed
next
  case (Lc_free p)
  then show ?thesis using free_rel [OF assms(1), of p] assms(2) by simp
qed

lemma lc_run_sim: "lc_sim n st m \<Longrightarrow> lc_valid_from n ops \<Longrightarrow> \<exists>st' k. lc_run ops st = Some st' \<and> lc_sim k st' (fold spec_step ops m)"
proof (induction ops arbitrary: n st m)
  case (Cons op1 ops)
  have "lc_addrs op1" "\<forall>ok. lc_inserts op1 = Some ok \<longrightarrow> ok \<or> 0 < n \<and> n < 4095"
    using Cons.prems(2) by (auto split: option.splits)
  then obtain st1 where st1: "lc_step op1 st = Some st1" "lc_sim (if lc_inserts op1 = None then n else n + 1) st1 (spec_step op1 m)"
    using lc_step_sim [OF Cons.prems(1)] by blast
  moreover have "lc_valid_from (if lc_inserts op1 = None then n else n + 1) ops" using Cons.prems(2) by (auto split: option.splits)
  ultimately show ?case using Cons.IH [OF st1(2)] by simp
qed auto

lemma lc_start_sim: "lc_sim 0 lc_start ((\<lambda>_. None), 0)"
  by (simp add: lc_sim_def lc_rel_def lc_inv_def lc_start_def key_look_def key_occ_def fun_eq_iff)

lemma lc_run_rel:
  assumes "lc_valid ops"
  obtains st where "lc_run ops lc_start = Some st" "lc_rel st (spec_run ops)"
  using lc_run_sim [OF lc_start_sim] assms by (auto simp: lc_sim_def lc_valid_def spec_run_def)

section \<open>The report\<close>

definition entry_site :: "LcEntry \<Rightarrow> addr \<times> int" where
  "entry_site e = (lc_file e, lc_line e)"

definition site_key :: "LcSite \<Rightarrow> addr \<times> int" where
  "site_key s = (s_file s, s_line s)"

definition site_ok :: "LcEntry list \<Rightarrow> LcSite \<Rightarrow> bool" where
  "site_ok es s \<longleftrightarrow> s_count s = length (filter (\<lambda>e. entry_site e = site_key s) es) \<and>
     s_bytes s = sum_list (map lc_size (filter (\<lambda>e. entry_site e = site_key s) es))"

lemma add_site_keys: "set (map site_key (add_site e ss)) = insert (entry_site e) (set (map site_key ss))"
  "distinct (map site_key ss) \<Longrightarrow> distinct (map site_key (add_site e ss))"
proof -
  show k: "set (map site_key (add_site e ss)) = insert (entry_site e) (set (map site_key ss))" for ss
    by (induction ss) (auto simp: site_key_def entry_site_def)
  show "distinct (map site_key ss) \<Longrightarrow> distinct (map site_key (add_site e ss))"
  proof (induction ss)
    case (Cons s ss)
    then show ?case using k [of ss] by (auto simp: site_key_def entry_site_def)
  qed simp
qed

lemma add_site_ok:
  "\<forall>s \<in> set ss. site_ok es s \<Longrightarrow> distinct (map site_key ss) \<Longrightarrow>
    entry_site e \<notin> set (map site_key ss) \<longrightarrow> entry_site e \<notin> entry_site ` set es \<Longrightarrow>
    \<forall>s \<in> set (add_site e ss). site_ok (es @ [e]) s"
proof (induction ss)
  case Nil
  then have "filter (\<lambda>x. entry_site x = entry_site e) es = []" by (metis (mono_tags) empty_iff empty_set filter_False imageI list.map(1))
  then show ?case by (simp add: site_ok_def site_key_def entry_site_def)
next
  case (Cons s ss)
  show ?case
  proof (cases "site_key s = entry_site e")
    case True
    then have "site_ok (es @ [e]) (s\<lparr>s_count := s_count s + 1, s_bytes := s_bytes s + lc_size e\<rparr>)"
      using Cons.prems(1) by (simp add: site_ok_def site_key_def)
    moreover have "site_ok (es @ [e]) x" if "x \<in> set ss" for x
    proof -
      have "site_key x \<noteq> entry_site e" using that True Cons.prems(2) by (auto simp: image_iff)
      then show ?thesis using Cons.prems(1) that by (auto simp: site_ok_def)
    qed
    ultimately show ?thesis using True by (auto simp: site_key_def entry_site_def)
  next
    case False
    then have "site_ok (es @ [e]) s" using Cons.prems(1) by (auto simp: site_ok_def)
    moreover have "\<forall>s \<in> set (add_site e ss). site_ok (es @ [e]) s" using Cons.IH Cons.prems False by auto
    ultimately show ?thesis using False by (auto simp: site_key_def entry_site_def)
  qed
qed

lemma collect_sites_fold:
  "collect_sites tab (n, ss) =
    (let es = filter (\<lambda>e. real_addr (lc_ptr e)) tab in (n + sum_list (map lc_size es), fold add_site es ss))"
  by (induction tab arbitrary: n ss) (auto simp: Let_def real_addr_def LC_TOMB_def)

lemma fold_add_site:
  "\<forall>s \<in> set ss. site_ok done_es s \<Longrightarrow> distinct (map site_key ss) \<Longrightarrow> set (map site_key ss) = entry_site ` set done_es \<Longrightarrow>
    (\<forall>s \<in> set (fold add_site es ss). site_ok (done_es @ es) s) \<and> distinct (map site_key (fold add_site es ss)) \<and>
    set (map site_key (fold add_site es ss)) = entry_site ` set (done_es @ es)"
proof (induction es arbitrary: ss done_es)
  case (Cons e es)
  have "\<forall>s \<in> set (add_site e ss). site_ok (done_es @ [e]) s"
    by (rule add_site_ok [OF Cons.prems(1,2)]) (use Cons.prems(3) in simp)
  moreover have "set (map site_key (add_site e ss)) = entry_site ` set (done_es @ [e])"
    using add_site_keys(1) [of e ss] Cons.prems(3) by simp
  ultimately show ?case using Cons.IH [of "add_site e ss" "done_es @ [e]"] add_site_keys(2) [OF Cons.prems(2)] by simp
qed simp

lemma best_site_max:
  assumes "best < length ss" "b \<le> length ss"
  shows "(best_site ss best b = best \<or> b \<le> best_site ss best b) \<and> best_site ss best b < length ss \<and>
    s_bytes (ss ! best) \<le> s_bytes (ss ! best_site ss best b) \<and>
    (\<forall>k. b \<le> k \<and> k < length ss \<longrightarrow> s_bytes (ss ! k) \<le> s_bytes (ss ! best_site ss best b))"
  using assms
proof (induction ss best b rule: best_site.induct)
  case (1 ss best b)
  show ?case
  proof (cases "b < length ss")
    case True
    let ?best = "if s_bytes (ss ! b) > s_bytes (ss ! best) then b else best"
    have i: "(best_site ss ?best (b + 1) = ?best \<or> b + 1 \<le> best_site ss ?best (b + 1)) \<and> best_site ss ?best (b + 1) < length ss \<and>
        s_bytes (ss ! ?best) \<le> s_bytes (ss ! best_site ss ?best (b + 1)) \<and>
        (\<forall>k. b + 1 \<le> k \<and> k < length ss \<longrightarrow> s_bytes (ss ! k) \<le> s_bytes (ss ! best_site ss ?best (b + 1)))"
      using 1 True by (auto split: if_splits)
    have e: "best_site ss best b = best_site ss ?best (b + 1)" using True by (subst best_site.simps) simp
    have up: "s_bytes (ss ! b) \<le> s_bytes (ss ! ?best)" "s_bytes (ss ! best) \<le> s_bytes (ss ! ?best)" by auto
    have "s_bytes (ss ! ?best) \<le> s_bytes (ss ! best_site ss best b)" using i unfolding e by blast
    then have "s_bytes (ss ! b) \<le> s_bytes (ss ! best_site ss best b)" "s_bytes (ss ! best) \<le> s_bytes (ss ! best_site ss best b)"
      using up le_trans by blast+
    moreover have "s_bytes (ss ! k) \<le> s_bytes (ss ! best_site ss best b)" if "b \<le> k" "k < length ss" for k
      using i e that calculation by (cases "k = b") auto
    moreover have "best_site ss best b = best \<or> b \<le> best_site ss best b" using i e by (auto split: if_splits)
    ultimately show ?thesis using i e by auto
  next
    case False
    then show ?thesis using 1 by (subst (1 2 3 4 5) best_site.simps) auto
  qed
qed

text \<open>The swaps permute the sites that are not yet printed, and each round prints the largest of them.\<close>

lemma swap_drop:
  assumes "a \<le> r" "r < length ss"
  shows "mset (ss ! r # drop (Suc a) (ss[a := ss ! r, r := ss ! a])) = mset (drop a ss)"
proof -
  let ?ss = "ss[a := ss ! r, r := ss ! a]" and ?z = "drop a ss"
  have "?ss ! a = ss ! r" using assms by (cases "a = r") auto
  then have "ss ! r # drop (Suc a) ?ss = drop a ?ss" using assms by (simp add: Cons_nth_drop_Suc [symmetric])
  also have "\<dots> = ?z[0 := ?z ! (r - a), r - a := ?z ! 0]" using assms by (simp add: drop_update_swap)
  finally show ?thesis using mset_swap [of "r - a" ?z 0] assms by simp
qed

lemma print_sites_sorted:
  "a \<le> length ss \<Longrightarrow> mset (print_sites ss a) = mset (drop a ss) \<and> sorted_wrt (\<lambda>x y. s_bytes y \<le> s_bytes x) (print_sites ss a)"
proof (induction ss a rule: print_sites.induct)
  case (1 ss a)
  show ?case
  proof (cases "a < length ss")
    case True
    let ?r = "best_site ss a (a + 1)" let ?ss = "ss[a := ss ! ?r, ?r := ss ! a]"
    have r: "a \<le> ?r" "?r < length ss" "\<forall>k. a \<le> k \<and> k < length ss \<longrightarrow> s_bytes (ss ! k) \<le> s_bytes (ss ! ?r)"
    proof -
      note b = best_site_max [of a ss "a + 1"]
      show "a \<le> ?r" "?r < length ss" using b True by auto
      show "\<forall>k. a \<le> k \<and> k < length ss \<longrightarrow> s_bytes (ss ! k) \<le> s_bytes (ss ! ?r)"
      proof (intro allI impI)
        fix k assume "a \<le> k \<and> k < length ss"
        then show "s_bytes (ss ! k) \<le> s_bytes (ss ! ?r)" using b True by (cases "k = a") auto
      qed
    qed
    have h: "?ss ! a = ss ! ?r" using r True by (cases "a = ?r") auto
    have e: "print_sites ss a = ss ! ?r # print_sites ?ss (a + 1)" using True h by (subst print_sites.simps) (simp add: Let_def)
    have i: "mset (print_sites ?ss (a + 1)) = mset (drop (a + 1) ?ss)" "sorted_wrt (\<lambda>x y. s_bytes y \<le> s_bytes x) (print_sites ?ss (a + 1))"
      using 1 True by (auto simp: Let_def)
    have m: "mset (print_sites ss a) = mset (drop a ss)" using e i(1) swap_drop [OF r(1,2)] by simp
    have "s_bytes x \<le> s_bytes (ss ! ?r)" if "x \<in> set (print_sites ?ss (a + 1))" for x
    proof -
      have "x \<in> set (print_sites ss a)" using that e by simp
      then have "x \<in> set (drop a ss)" using mset_eq_setD [OF m] by simp
      then obtain k where "k < length ss - a" "x = ss ! (a + k)" by (auto simp: in_set_conv_nth)
      then show ?thesis using r(3) by simp
    qed
    then show ?thesis using m e i(2) by simp
  next
    case False
    then show ?thesis using 1 by (subst (1 2) print_sites.simps) simp
  qed
qed





section \<open>A full table\<close>

text \<open>When the table could not grow and every slot is taken, neither an insertion nor a removal of
  another address returns.\<close>

lemma full_table_diverges:
  assumes "\<forall>e \<in> set tab. lc_ptr e \<noteq> 0 \<and> lc_ptr e \<noteq> p"
  shows "lc_insert_walk tab m p j ft = None" "lc_remove_walk tab m p j = None"
proof -
  have "lc_insert_walk tab m p j ft = Some r \<Longrightarrow> \<forall>e \<in> set tab. lc_ptr e \<noteq> 0 \<and> lc_ptr e \<noteq> p \<Longrightarrow> False" for r
    by (induction rule: lc_insert_walk.raw_induct [rotated, consumes 1, case_names 1])
      (auto split: if_splits simp: not_le)
  then show "lc_insert_walk tab m p j ft = None" using assms by (cases "lc_insert_walk tab m p j ft") blast+
  have "lc_remove_walk tab m p j = Some r \<Longrightarrow> \<forall>e \<in> set tab. lc_ptr e \<noteq> 0 \<and> lc_ptr e \<noteq> p \<Longrightarrow> False" for r
    by (induction rule: lc_remove_walk.raw_induct [rotated, consumes 1, case_names 1])
      (auto split: if_splits simp: not_le)
  then show "lc_remove_walk tab m p j = None" using assms by (cases "lc_remove_walk tab m p j") blast+
qed

end
