(* ===== verification/Repl_Text.thy ===== *)
theory Repl_Text
  imports Scanner
begin

text \<open>
  What the interactive loop does with the text of an input (the first part of
  \<open>src/src/repl_edit.c\<close>): its classification, the names it declares, whether it is complete, the
  prompt that says what is missing, and the colouring of a line.  The loops over the tokens are
  partial functions: \<open>None\<close> stands for a scanner that reads outside its source.
\<close>

section \<open>Classification\<close>

datatype ReplLineKind = REPL_DECL | REPL_IMPORT | REPL_VAR | REPL_EXPR

definition is_scalar_type_token :: "TokenType \<Rightarrow> bool" where
  "is_scalar_type_token t \<longleftrightarrow>
     t \<in> set (map Ty [TOKEN_TYPE_INT, TOKEN_TYPE_I8, TOKEN_TYPE_I16, TOKEN_TYPE_I32, TOKEN_TYPE_I64,
       TOKEN_TYPE_U8, TOKEN_TYPE_U16, TOKEN_TYPE_U32, TOKEN_TYPE_U64, TOKEN_TYPE_F32, TOKEN_TYPE_F64,
       TOKEN_TYPE_BOOL, TOKEN_TYPE_CHAR, TOKEN_TYPE_VOID, TOKEN_TYPE_OBJECT, TOKEN_TYPE_LIB])"

text \<open>The loop over the balanced type arguments; \<open>None\<close> inside says that the input ended.\<close>

partial_function (option) skip_type_args :: "platform \<Rightarrow> nat \<Rightarrow> Scanner \<Rightarrow> Scanner option option" where
  "skip_type_args pf depth s =
     (if depth = 0 then Some (Some s)
      else do {
        (tk, s) \<leftarrow> scanner_next pf s;
        if ttype tk = Del TOKEN_LPAREN then skip_type_args pf (depth + 1) s
        else if ttype tk = Del TOKEN_RPAREN then skip_type_args pf (depth - 1) s
        else if ttype tk = TOKEN_EOF \<or> ttype tk = TOKEN_ERROR then Some None
        else skip_type_args pf depth s })"

definition repl_classify :: "platform \<Rightarrow> string \<Rightarrow> ReplLineKind option" where
  "repl_classify pf buf = do {
     (t1, s) \<leftarrow> scanner_next pf (scanner_init buf);
     let ty = ttype t1;
     if ty = Kw TOKEN_IMPORT then Some REPL_IMPORT
     else if ty \<in> set (map Kw [TOKEN_FN, TOKEN_STRUCT, TOKEN_ENUM, TOKEN_IMPL, TOKEN_TRAIT, TOKEN_EXTERN, TOKEN_TYPE_ALIAS])
     then Some REPL_DECL
     else if ty = Ty TOKEN_ARRAY then Some REPL_VAR
     else if is_scalar_type_token ty then do {
       (t2, s) \<leftarrow> scanner_next pf s;
       Some (if ttype t2 = TOKEN_IDENTIFIER then REPL_VAR else REPL_EXPR) }
     else if ty = Op TOKEN_STAR then do {
       (t2, s) \<leftarrow> scanner_next pf s;
       if is_scalar_type_token (ttype t2) then do {
         (t3, s) \<leftarrow> scanner_next pf s;
         Some (if ttype t3 = TOKEN_IDENTIFIER then REPL_VAR else REPL_EXPR) }
       else Some REPL_EXPR }
     else if ty = TOKEN_IDENTIFIER then do {
       (t2, s) \<leftarrow> scanner_next pf s;
       if ttype t2 = TOKEN_IDENTIFIER then Some REPL_VAR
       else if ttype t2 = Del TOKEN_LPAREN then do {
         r \<leftarrow> skip_type_args pf 1 s;
         case r of
           None \<Rightarrow> Some REPL_EXPR
         | Some s \<Rightarrow> do {
             (after, s) \<leftarrow> scanner_next pf s;
             Some (if ttype after = TOKEN_IDENTIFIER then REPL_VAR else REPL_EXPR) } }
       else Some REPL_EXPR }
     else Some REPL_EXPR }"

definition token_text :: "string \<Rightarrow> Token \<Rightarrow> string" where
  "token_text buf t =
     (case tstart t of In_source p \<Rightarrow> take (tlength t) (drop p buf) | Message m \<Rightarrow> take (tlength t) m)"

text \<open>The names that the functions return; NULL is \<open>None\<close> inside.\<close>

definition repl_pod_scalar_var_name :: "platform \<Rightarrow> string \<Rightarrow> string option option" where
  "repl_pod_scalar_var_name pf buf = do {
     (t1, s) \<leftarrow> scanner_next pf (scanner_init buf);
     if \<not> is_scalar_type_token (ttype t1) then Some None
     else do {
       (t2, s) \<leftarrow> scanner_next pf s;
       Some (if ttype t2 \<noteq> TOKEN_IDENTIFIER then None else Some (token_text buf t2)) } }"

partial_function (option) last_identifier :: "platform \<Rightarrow> Token option \<Rightarrow> Scanner \<Rightarrow> Token option option" where
  "last_identifier pf last_ident s = do {
     (t, s) \<leftarrow> scanner_next pf s;
     if ttype t = TOKEN_EOF \<or> ttype t = TOKEN_ERROR \<or> ttype t = Asg TOKEN_ASSIGN then Some last_ident
     else last_identifier pf (if ttype t = TOKEN_IDENTIFIER then Some t else last_ident) s }"

definition repl_persisted_var_name :: "platform \<Rightarrow> string \<Rightarrow> string option option" where
  "repl_persisted_var_name pf buf = do {
     k \<leftarrow> repl_classify pf buf;
     if k \<noteq> REPL_VAR then Some None
     else do {
       r \<leftarrow> last_identifier pf None (scanner_init buf);
       Some (map_option (token_text buf) r) } }"

section \<open>Completeness\<close>

definition is_continuation_token :: "TokenType \<Rightarrow> bool" where
  "is_continuation_token t \<longleftrightarrow>
     t \<in> set (map Op [TOKEN_PLUS, TOKEN_MINUS, TOKEN_STAR, TOKEN_SLASH, TOKEN_PERCENT, TOKEN_AMP, TOKEN_PIPE,
         TOKEN_CARET, TOKEN_LSHIFT, TOKEN_RSHIFT, TOKEN_AND, TOKEN_OR, TOKEN_EQ, TOKEN_NEQ, TOKEN_LT, TOKEN_GT,
         TOKEN_LEQ, TOKEN_GEQ]) \<or>
     t \<in> set (map Asg [TOKEN_ASSIGN, TOKEN_PLUS_ASSIGN, TOKEN_MINUS_ASSIGN, TOKEN_STAR_ASSIGN, TOKEN_SLASH_ASSIGN]) \<or>
     t \<in> set (map Del [TOKEN_COMMA, TOKEN_DOT, TOKEN_ARROW, TOKEN_FAT_ARROW, TOKEN_COLON])"

text \<open>\<open>p[1]\<close>, given the bytes after \<open>p\<close>.\<close>

definition next_byte :: "string \<Rightarrow> char" where
  "next_byte cs = (case cs of [] \<Rightarrow> NUL | c # _ \<Rightarrow> c)"

definition skip_line_comment :: "string \<Rightarrow> string" where
  "skip_line_comment cs = dropWhile (\<lambda>c. c \<noteq> CHR 0x0A) cs"

definition is_opener :: "char \<Rightarrow> bool" where
  "is_opener c \<longleftrightarrow> c = CHR ''('' \<or> c = CHR ''['' \<or> c = CHR ''{''"

definition is_closer :: "char \<Rightarrow> bool" where
  "is_closer c \<longleftrightarrow> c = CHR '')'' \<or> c = CHR '']'' \<or> c = CHR ''}''"

record BracketScan =
  in_str :: bool
  in_chr :: bool
  in_block :: bool
  depth :: nat

function bracket_scan :: "string \<Rightarrow> BracketScan \<Rightarrow> BracketScan" where
  "bracket_scan [] b = b"
| "bracket_scan (c # cs) b =
     (if in_block b then
        (if c = CHR ''*'' \<and> next_byte cs = CHR ''/'' then bracket_scan (tl cs) (b\<lparr>in_block := False\<rparr>)
         else bracket_scan cs b)
      else if in_str b then
        (if c = CHR 0x5C \<and> cs \<noteq> [] then bracket_scan (tl cs) b
         else bracket_scan cs (if c = CHR 0x22 then b\<lparr>in_str := False\<rparr> else b))
      else if in_chr b then
        (if c = CHR 0x5C \<and> cs \<noteq> [] then bracket_scan (tl cs) b
         else bracket_scan cs (if c = CHR 0x27 then b\<lparr>in_chr := False\<rparr> else b))
      else if c = CHR ''/'' \<and> next_byte cs = CHR ''/'' then bracket_scan (skip_line_comment cs) b
      else if c = CHR ''/'' \<and> next_byte cs = CHR ''*'' then bracket_scan (tl cs) (b\<lparr>in_block := True\<rparr>)
      else if c = CHR 0x22 then bracket_scan cs (b\<lparr>in_str := True\<rparr>)
      else if c = CHR 0x27 then bracket_scan cs (b\<lparr>in_chr := True\<rparr>)
      else if is_opener c then bracket_scan cs (b\<lparr>depth := depth b + 1\<rparr>)
      else if is_closer c then bracket_scan cs (if depth b > 0 then b\<lparr>depth := depth b - 1\<rparr> else b)
      else bracket_scan cs b)"
  by pat_completeness auto
termination
  by (relation "measure (\<lambda>(cs, b). length cs)")
    (auto simp: skip_line_comment_def le_imp_less_Suc length_dropWhile_le)

definition bracket_start :: BracketScan where
  "bracket_start = \<lparr>in_str = False, in_chr = False, in_block = False, depth = 0\<rparr>"

definition open_at_end :: "BracketScan \<Rightarrow> bool" where
  "open_at_end b \<longleftrightarrow> depth b > 0 \<or> in_str b \<or> in_chr b \<or> in_block b"

text \<open>The type of the last token, \<open>None\<close> when there is none.\<close>

partial_function (option) last_token :: "platform \<Rightarrow> TokenType option \<Rightarrow> Scanner \<Rightarrow> TokenType option option" where
  "last_token pf last_ty s = do {
     (t, s) \<leftarrow> scanner_next pf s;
     if ttype t = TOKEN_EOF \<or> ttype t = TOKEN_ERROR then Some last_ty
     else last_token pf (Some (ttype t)) s }"

declare skip_type_args.simps [code] last_identifier.simps [code] last_token.simps [code]

definition repl_input_is_complete :: "platform \<Rightarrow> string \<Rightarrow> bool option" where
  "repl_input_is_complete pf buf =
     (if open_at_end (bracket_scan buf bracket_start) then Some False
      else do {
        r \<leftarrow> last_token pf None (scanner_init buf);
        Some (case r of None \<Rightarrow> True | Some t \<Rightarrow> \<not> is_continuation_token t) })"

section \<open>The continuation prompt\<close>

definition STACK_SIZE :: nat where "STACK_SIZE = 64"

record PromptScan =
  p_str :: bool
  p_chr :: bool
  p_block :: bool
  stack :: string
  top :: nat

function prompt_scan :: "string \<Rightarrow> PromptScan \<Rightarrow> PromptScan" where
  "prompt_scan [] b = b"
| "prompt_scan (c # cs) b =
     (if p_block b then
        (if c = CHR ''*'' \<and> next_byte cs = CHR ''/'' then prompt_scan (tl cs) (b\<lparr>p_block := False\<rparr>)
         else prompt_scan cs b)
      else if p_str b then
        (if c = CHR 0x5C \<and> cs \<noteq> [] then prompt_scan (tl cs) b
         else prompt_scan cs (if c = CHR 0x22 then b\<lparr>p_str := False\<rparr> else b))
      else if p_chr b then
        (if c = CHR 0x5C \<and> cs \<noteq> [] then prompt_scan (tl cs) b
         else prompt_scan cs (if c = CHR 0x27 then b\<lparr>p_chr := False\<rparr> else b))
      else if c = CHR ''/'' \<and> next_byte cs = CHR ''/'' then prompt_scan (skip_line_comment cs) b
      else if c = CHR ''/'' \<and> next_byte cs = CHR ''*'' then prompt_scan (tl cs) (b\<lparr>p_block := True\<rparr>)
      else if c = CHR 0x22 then prompt_scan cs (b\<lparr>p_str := True\<rparr>)
      else if c = CHR 0x27 then prompt_scan cs (b\<lparr>p_chr := True\<rparr>)
      else if is_opener c then
        prompt_scan cs (b\<lparr>stack := (if top b < STACK_SIZE then (stack b)[top b := c] else stack b), top := top b + 1\<rparr>)
      else if is_closer c then prompt_scan cs (if top b > 0 then b\<lparr>top := top b - 1\<rparr> else b)
      else prompt_scan cs b)"
  by pat_completeness auto
termination
  by (relation "measure (\<lambda>(cs, b). length cs)")
    (auto simp: skip_line_comment_def le_imp_less_Suc length_dropWhile_le)

text \<open>The array of the stack is not initialised; no entry is read before it was written.\<close>

definition prompt_start :: PromptScan where
  "prompt_start = \<lparr>p_str = False, p_chr = False, p_block = False, stack = replicate STACK_SIZE NUL, top = 0\<rparr>"

text \<open>\<open>snprintf\<close> into a buffer of \<open>cap > 0\<close> bytes.\<close>

definition fits :: "nat \<Rightarrow> string \<Rightarrow> string" where
  "fits out_cap s = take (out_cap - 1) s"

definition repl_continuation_prompt :: "string \<Rightarrow> nat \<Rightarrow> string" where
  "repl_continuation_prompt buf out_cap =
     (let b = prompt_scan buf prompt_start
      in if p_str b then fits out_cap (''..'' @ [CHR 0x22] @ ''> '')
         else if p_chr b then fits out_cap (''..'' @ [CHR 0x27] @ ''> '')
         else if p_block b then fits out_cap ''..*/> ''
         else if top b > 0 then
           (let n = (if top b > STACK_SIZE then STACK_SIZE else top b);
                start = (if n > 4 then n - 4 else 0);
                tmp = take 7 (take (n - start) (drop start (stack b)))
            in fits out_cap (''..'' @ tmp @ ''> ''))
         else fits out_cap ''...> '')"

section \<open>Highlighting\<close>

definition esc_seq :: "string \<Rightarrow> string" where
  "esc_seq s = CHR 0x1B # CHR 0x5B # s"

definition C_RESET :: string where "C_RESET = esc_seq ''0m''"
definition C_KEYWORD :: string where "C_KEYWORD = esc_seq ''35m''"
definition C_TYPE :: string where "C_TYPE = esc_seq ''36m''"
definition C_STRING :: string where "C_STRING = esc_seq ''32m''"
definition C_NUMBER :: string where "C_NUMBER = esc_seq ''33m''"
definition C_COMMENT :: string where "C_COMMENT = esc_seq ''90m''"

definition ansi_for_token :: "TokenType \<Rightarrow> string option" where
  "ansi_for_token t =
     (if t \<in> set (map Kw [TOKEN_FN, TOKEN_RETURN, TOKEN_IF, TOKEN_ELSE, TOKEN_WHILE, TOKEN_FOR, TOKEN_IN,
           TOKEN_MATCH, TOKEN_STRUCT, TOKEN_ENUM, TOKEN_IMPL, TOKEN_MODULE, TOKEN_IMPORT, TOKEN_LOAD, TOKEN_SELF,
           TOKEN_STATIC, TOKEN_DO, TOKEN_END, TOKEN_BREAK, TOKEN_CONTINUE, TOKEN_EXTERN, TOKEN_AS, TOKEN_FROM,
           TOKEN_PUB, TOKEN_NEW, TOKEN_TRY, TOKEN_TYPE_ALIAS, TOKEN_TRAIT]) \<or>
         t \<in> set (map Lit [TOKEN_TRUE, TOKEN_FALSE, TOKEN_NIL]) then Some C_KEYWORD
      else if t \<in> set (map Ty [TOKEN_TYPE_INT, TOKEN_TYPE_I8, TOKEN_TYPE_I16, TOKEN_TYPE_I32, TOKEN_TYPE_I64,
           TOKEN_TYPE_U8, TOKEN_TYPE_U16, TOKEN_TYPE_U32, TOKEN_TYPE_U64, TOKEN_TYPE_F32, TOKEN_TYPE_F64,
           TOKEN_TYPE_BOOL, TOKEN_TYPE_CHAR, TOKEN_TYPE_VOID, TOKEN_TYPE_LIB, TOKEN_TYPE_OBJECT, TOKEN_ARRAY]) \<or>
         t = Kw TOKEN_BLOCK then Some C_TYPE
      else if t \<in> set (map Lit [TOKEN_STRING_LIT, TOKEN_CHAR_LIT]) \<or>
         t \<in> set (map FStr [TOKEN_FSTRING_START, TOKEN_FSTRING_TEXT, TOKEN_FSTRING_END]) then Some C_STRING
      else if t = Lit TOKEN_INT_LIT \<or> t = Lit TOKEN_FLOAT_LIT then Some C_NUMBER
      else None)"

text \<open>Appending to a buffer of \<open>out_cap\<close> bytes that keeps room for the NUL.\<close>

definition hl_put :: "nat \<Rightarrow> string \<Rightarrow> string \<Rightarrow> string" where
  "hl_put out_cap out s = out @ take (out_cap - 1 - length out) s"

text \<open>The index of the first \<open>//\<close> or \<open>/*\<close>.\<close>

fun find_comment :: "string \<Rightarrow> nat option" where
  "find_comment (a # b # cs) =
     (if a = CHR ''/'' \<and> (b = CHR ''/'' \<or> b = CHR ''*'') then Some 0
      else map_option Suc (find_comment (b # cs)))"
| "find_comment _ = None"

definition emit_gap :: "nat \<Rightarrow> string \<Rightarrow> string \<Rightarrow> string" where
  "emit_gap out_cap out gap =
     (case find_comment gap of
        Some k \<Rightarrow>
          (let out = hl_put out_cap out (take k gap);
               out = hl_put out_cap out C_COMMENT;
               out = hl_put out_cap out (drop k gap)
           in hl_put out_cap out C_RESET)
      | None \<Rightarrow> hl_put out_cap out gap)"

definition emit_token :: "nat \<Rightarrow> string \<Rightarrow> TokenType \<Rightarrow> string \<Rightarrow> string" where
  "emit_token out_cap out ty txt =
     (case ansi_for_token ty of
        Some color \<Rightarrow> hl_put out_cap (hl_put out_cap (hl_put out_cap out color) txt) C_RESET
      | None \<Rightarrow> hl_put out_cap out txt)"

partial_function (option) highlight_loop ::
  "platform \<Rightarrow> nat \<Rightarrow> Scanner \<Rightarrow> nat \<Rightarrow> string \<Rightarrow> (nat \<times> string) option" where
  "highlight_loop pf out_cap s cursor out = do {
     (t, s') \<leftarrow> scanner_next pf s;
     if ttype t = TOKEN_EOF \<or> ttype t = TOKEN_ERROR then Some (cursor, out)
     else (case tstart t of
         Message m \<Rightarrow> None
       | In_source p \<Rightarrow>
           (let out = (if p > cursor then emit_gap out_cap out (take (p - cursor) (drop cursor (src s))) else out);
                out = emit_token out_cap out (ttype t) (take (tlength t) (drop p (src s)))
            in highlight_loop pf out_cap s' (p + tlength t) out)) }"

declare highlight_loop.simps [code]

text \<open>The terminating NUL needs a buffer of at least one byte.\<close>

definition repl_highlight_render :: "platform \<Rightarrow> string \<Rightarrow> nat \<Rightarrow> string option" where
  "repl_highlight_render pf txt out_cap = do {
     (cursor, out) \<leftarrow> highlight_loop pf out_cap (scanner_init txt) 0 [];
     let out = (if cursor < length txt then emit_gap out_cap out (drop cursor txt) else out);
     if length out < out_cap then Some out else None }"

end
