(* ===== verification/Repl_Line.thy ===== *)
theory Repl_Line
  imports Repl_Text
begin

text \<open>
  The line editor of the interactive loop (the second part of \<open>src/src/repl_edit.c\<close>, and the keys of
  \<open>src/src/repl_term.c\<close> on POSIX).

  What is written to the terminal is a list of \<open>term_out\<close>: text, and the four control functions the
  editor uses, whose bytes are \<open>term_bytes\<close>.  Standard input is the list of the bytes still to come;
  at its end every read fails.  A buffer is the text in it and its capacity; a write that would leave
  the buffer has no result.  The completeness test is an argument, as in the code.
\<close>

section \<open>The terminal\<close>

datatype term_out = Puts string | Carriage_return | Line_feed | Erase_to_end | To_column nat

fun term_bytes :: "term_out \<Rightarrow> string" where
  "term_bytes (Puts s) = s"
| "term_bytes Carriage_return = [CHR 0x0D]"
| "term_bytes Line_feed = [CHR 0x0A]"
| "term_bytes Erase_to_end = esc_seq ''K''"
| "term_bytes (To_column n) = esc_seq (dec_nat n @ ''G'')"

definition K_LEFT :: int where "K_LEFT = 1000"
definition K_RIGHT :: int where "K_RIGHT = 1001"
definition K_UP :: int where "K_UP = 1002"
definition K_DOWN :: int where "K_DOWN = 1003"
definition K_HOME :: int where "K_HOME = 1004"
definition K_END :: int where "K_END = 1005"
definition K_DELETE :: int where "K_DELETE = 1006"

text \<open>\<open>read(STDIN_FILENO, &c, 1)\<close>; a read that fails reads nothing.\<close>

definition repl_term_read_key :: "string \<Rightarrow> int \<times> string" where
  "repl_term_read_key inp =
     (case inp of
        [] \<Rightarrow> (4, [])
      | c # inp \<Rightarrow>
          if ccode c = 27 then
            (case inp of
               [] \<Rightarrow> (27, [])
             | [a] \<Rightarrow> (27, [])
             | a # b # inp \<Rightarrow>
                 if a = CHR 0x5B then
                   (if b = CHR ''A'' then (K_UP, inp)
                    else if b = CHR ''B'' then (K_DOWN, inp)
                    else if b = CHR ''C'' then (K_RIGHT, inp)
                    else if b = CHR ''D'' then (K_LEFT, inp)
                    else if b = CHR ''H'' then (K_HOME, inp)
                    else if b = CHR ''F'' then (K_END, inp)
                    else if b = CHR ''3'' then
                      (case inp of
                         [] \<Rightarrow> (-2, [])
                       | t # inp \<Rightarrow> if t = CHR 0x7E then (K_DELETE, inp) else (-2, inp))
                    else (-2, inp))
                 else (-2, inp))
          else (int (ccode c), inp))"

section \<open>The line buffer\<close>

record LineBuf =
  buf :: string
  cap :: nat
  cursor :: nat
  shown :: string
  shown_cap :: nat
  prompt_cols :: nat

abbreviation len :: "LineBuf \<Rightarrow> nat" where "len l \<equiv> length (buf l)"

definition lb_init :: LineBuf where
  "lb_init = \<lparr>buf = [], cap = 128, cursor = 0, shown = [], shown_cap = 128, prompt_cols = 0\<rparr>"

definition lb_ensure :: "nat \<Rightarrow> LineBuf \<Rightarrow> LineBuf" where
  "lb_ensure extra l =
     (if len l + extra + 1 > cap l then l\<lparr>cap := double_to (cap l) (len l + extra + 1)\<rparr> else l)"

text \<open>The bytes from the cursor on, with their NUL, move one place up.\<close>

definition lb_insert :: "char \<Rightarrow> LineBuf \<Rightarrow> LineBuf option" where
  "lb_insert c l =
     (let l = lb_ensure 1 l
      in if cursor l > len l \<or> len l + 2 > cap l then None
         else Some (l\<lparr>buf := take (cursor l) (buf l) @ c # drop (cursor l) (buf l), cursor := cursor l + 1\<rparr>))"

definition lb_backspace :: "LineBuf \<Rightarrow> LineBuf option" where
  "lb_backspace l =
     (if cursor l = 0 then Some l
      else if cursor l > len l then None
      else Some (l\<lparr>buf := take (cursor l - 1) (buf l) @ drop (cursor l) (buf l), cursor := cursor l - 1\<rparr>))"

definition lb_delete :: "LineBuf \<Rightarrow> LineBuf" where
  "lb_delete l =
     (if cursor l \<ge> len l then l
      else l\<lparr>buf := take (cursor l) (buf l) @ drop (cursor l + 1) (buf l)\<rparr>)"

text \<open>The capacity grows from the old length by the length of the new text.\<close>

definition lb_set :: "string \<Rightarrow> LineBuf \<Rightarrow> LineBuf option" where
  "lb_set s l =
     (let l = lb_ensure (length s) l
      in if length s + 1 > cap l then None else Some (l\<lparr>buf := s, cursor := length s\<rparr>))"

fun common_prefix :: "string \<Rightarrow> string \<Rightarrow> nat" where
  "common_prefix (a # as) (b # bs) = (if a = b then Suc (common_prefix as bs) else 0)"
| "common_prefix _ _ = 0"

definition redraw :: "string \<Rightarrow> LineBuf \<Rightarrow> (term_out list \<times> LineBuf) option" where
  "redraw prompt l =
     (let plen = length prompt;
          (out0, l) = (if prompt_cols l = 0
             then ([Carriage_return, Erase_to_end, Puts prompt], l\<lparr>prompt_cols := plen, shown := []\<rparr>)
             else ([], l));
          i = common_prefix (shown l) (buf l);
          out1 = [Carriage_return, To_column (plen + i + 1)];
          out2 = (if i < len l then [Puts (drop i (buf l))] else []);
          out3 = (if length (shown l) > len l then [Erase_to_end] else []);
          out4 = [Carriage_return, To_column (plen + cursor l + 1)];
          scap = (if len l + 1 > shown_cap l then double_to (shown_cap l) (len l + 1) else shown_cap l)
      in if len l + 1 > scap then None
         else Some (out0 @ out1 @ out2 @ out3 @ out4, l\<lparr>shown_cap := scap, shown := buf l\<rparr>))"

section \<open>History\<close>

record ReplEditor =
  hist :: "string list"
  hist_cap :: nat
  tty :: bool
  color :: bool

definition repl_editor_new :: "bool \<Rightarrow> bool \<Rightarrow> bool \<Rightarrow> ReplEditor" where
  "repl_editor_new stdin_tty stdout_tty no_color =
     \<lparr>hist = [], hist_cap = 0, tty = stdin_tty, color = (\<not> no_color \<and> stdout_tty)\<rparr>"

definition is_newline :: "char \<Rightarrow> bool" where
  "is_newline c \<longleftrightarrow> c = CHR 0x0A \<or> c = CHR 0x0D"

definition hist_push :: "string \<Rightarrow> ReplEditor \<Rightarrow> ReplEditor" where
  "hist_push s e =
     (if s = [] then e
      else
        (let t = rev (dropWhile is_newline (rev s))
         in if t = [] then e
            else
              (let dup = map (\<lambda>c. if is_newline c then CHR '' '' else c) t
               in if hist e \<noteq> [] \<and> last (hist e) = dup then e
                  else
                    (let e = (if length (hist e) = hist_cap e
                              then e\<lparr>hist_cap := (if hist_cap e \<noteq> 0 then hist_cap e * 2 else 16)\<rparr> else e)
                     in e\<lparr>hist := hist e @ [dup]\<rparr>))))"

section \<open>Reading an input\<close>

record EditState =
  full :: string
  lbuf :: LineBuf
  cur_prompt :: string
  empty_streak :: nat
  hist_idx :: nat
  out_seq :: "term_out list"

text \<open>The loop goes on, or ends with the result; NULL, on which the caller quits, is \<open>None\<close>.\<close>

datatype outcome = Going EditState | Finished "string option" "term_out list"

definition repaint :: "EditState \<Rightarrow> EditState option" where
  "repaint st = do {
     (out, l) \<leftarrow> redraw (cur_prompt st) (lbuf st);
     Some (st\<lparr>lbuf := l, out_seq := out_seq st @ out\<rparr>) }"

definition repaint_with :: "EditState \<Rightarrow> LineBuf \<Rightarrow> outcome option" where
  "repaint_with st l = map_option Going (repaint (st\<lparr>lbuf := l\<rparr>))"

definition BLANK_HINT :: string where
  "BLANK_HINT = ''  (blank line again to run as-is, Ctrl-C to cancel)''"

definition enter_key :: "(string \<Rightarrow> bool option) \<Rightarrow> EditState \<Rightarrow> outcome option" where
  "enter_key is_complete st = do {
     let empty_line = (len (lbuf st) = 0);
     let out = out_seq st @ [Carriage_return, Line_feed];
     let txt = full st @ buf (lbuf st) @ [CHR 0x0A];
     done_now \<leftarrow> is_complete txt;
     if done_now then Some (Finished (Some txt) out)
     else if empty_line \<and> empty_streak st + 1 \<ge> 2 then Some (Finished (Some txt) out)
     else
       (let out = (if empty_line then out @ [Puts BLANK_HINT, Carriage_return, Line_feed] else out);
            st = st\<lparr>full := txt, lbuf := lb_init, empty_streak := (if empty_line then empty_streak st + 1 else 0),
                    cur_prompt := repl_continuation_prompt txt 80, out_seq := out\<rparr>
        in map_option Going (repaint st)) }"

definition key_step :: "(string \<Rightarrow> bool option) \<Rightarrow> string list \<Rightarrow> int \<Rightarrow> EditState \<Rightarrow> outcome option" where
  "key_step is_complete hs k st =
     (let l = lbuf st
      in if k = 13 \<or> k = 10 then enter_key is_complete st
         else if k = 3 then Some (Finished (Some []) (out_seq st @ [Puts ''^C'', Carriage_return, Line_feed]))
         else if k = 4 then
           (if len l = 0 \<and> full st = [] then Some (Finished None (out_seq st @ [Carriage_return, Line_feed]))
            else Some (Going st))
         else if k = 8 \<or> k = 127 then do { l \<leftarrow> lb_backspace l; repaint_with st l }
         else if k = K_DELETE then repaint_with st (lb_delete l)
         else if k = K_LEFT then
           (if cursor l > 0 then repaint_with st (l\<lparr>cursor := cursor l - 1\<rparr>) else Some (Going st))
         else if k = K_RIGHT then
           (if cursor l < len l then repaint_with st (l\<lparr>cursor := cursor l + 1\<rparr>) else Some (Going st))
         else if k = K_HOME then repaint_with st (l\<lparr>cursor := 0\<rparr>)
         else if k = K_END then repaint_with st (l\<lparr>cursor := len l\<rparr>)
         else if k = K_UP then
           (if hist_idx st > 0 then do {
              let st = st\<lparr>hist_idx := hist_idx st - 1\<rparr>;
              if hist_idx st \<ge> length hs then None
              else do { l \<leftarrow> lb_set (hs ! hist_idx st) l; repaint_with st l } }
            else Some (Going st))
         else if k = K_DOWN then
           (if hist_idx st < length hs then do {
              let st = st\<lparr>hist_idx := hist_idx st + 1\<rparr>;
              l \<leftarrow> lb_set (if hist_idx st = length hs then [] else hs ! hist_idx st) l;
              repaint_with st l }
            else Some (Going st))
         else if k \<ge> 32 \<and> k \<noteq> 127 then do { l \<leftarrow> lb_insert (char_of (nat k)) l; repaint_with st l }
         else Some (Going st))"

definition edit_start :: "string \<Rightarrow> string list \<Rightarrow> EditState option" where
  "edit_start prompt hs =
     repaint \<lparr>full = [], lbuf = lb_init, cur_prompt = prompt, empty_streak = 0, hist_idx = length hs, out_seq = []\<rparr>"

text \<open>The loop over the keys; \<open>None\<close> also when it never ends.\<close>

partial_function (option) edit_loop ::
  "(string \<Rightarrow> bool option) \<Rightarrow> string list \<Rightarrow> EditState \<Rightarrow> string \<Rightarrow> (string option \<times> term_out list \<times> string) option" where
  "edit_loop is_complete hs st inp =
     (let (k, rest) = repl_term_read_key inp
      in case key_step is_complete hs k st of
           None \<Rightarrow> None
         | Some (Finished r out) \<Rightarrow> Some (r, out, rest)
         | Some (Going st) \<Rightarrow> edit_loop is_complete hs st rest)"

declare edit_loop.simps [code]

definition read_interactive ::
  "(string \<Rightarrow> bool option) \<Rightarrow> string \<Rightarrow> ReplEditor \<Rightarrow> string \<Rightarrow> (string option \<times> ReplEditor \<times> term_out list \<times> string) option" where
  "read_interactive is_complete prompt e inp = do {
     st \<leftarrow> edit_start prompt (hist e);
     (r, out, rest) \<leftarrow> edit_loop is_complete (hist e) st inp;
     Some (r, (case r of Some s \<Rightarrow> if s \<noteq> [] then hist_push s e else e | None \<Rightarrow> e), out, rest) }"

section \<open>Without a terminal\<close>

text \<open>\<open>fgets\<close> into a buffer of \<open>n\<close> bytes.\<close>

fun fgets :: "nat \<Rightarrow> string \<Rightarrow> string \<times> string" where
  "fgets 0 inp = ([], inp)"
| "fgets (Suc n) inp =
     (if n = 0 then ([], inp)
      else case inp of
        [] \<Rightarrow> ([], [])
      | c # inp \<Rightarrow> if c = CHR 0x0A then ([c], inp)
                   else (let (s, rest) = fgets n inp in (c # s, rest)))"

definition FALLBACK_LINE :: nat where "FALLBACK_LINE = 4096"

text \<open>The bytes before the first NUL of a line.\<close>

definition c_string :: "string \<Rightarrow> string" where
  "c_string s = takeWhile (\<lambda>c. c \<noteq> NUL) s"

partial_function (option) fallback_loop ::
  "(string \<Rightarrow> bool option) \<Rightarrow> string \<Rightarrow> string \<Rightarrow> string \<Rightarrow> term_out list \<Rightarrow> string \<Rightarrow> (string option \<times> term_out list \<times> string) option" where
  "fallback_loop is_complete pr cont_prompt txt out inp =
     (let out = out @ [Puts pr]
      in if inp = [] then Some (if txt = [] then None else Some txt, out, inp)
         else do {
           let (ln, rest) = fgets FALLBACK_LINE inp;
           let txt = txt @ c_string ln;
           d \<leftarrow> is_complete txt;
           if d then Some (Some txt, out, rest)
           else fallback_loop is_complete cont_prompt cont_prompt txt out rest })"

declare fallback_loop.simps [code]

definition read_fallback ::
  "(string \<Rightarrow> bool option) \<Rightarrow> string \<Rightarrow> string \<Rightarrow> ReplEditor \<Rightarrow> string \<Rightarrow> (string option \<times> ReplEditor \<times> term_out list \<times> string) option" where
  "read_fallback is_complete prompt cont_prompt e inp = do {
     (r, out, rest) \<leftarrow> fallback_loop is_complete prompt cont_prompt [] [] inp;
     Some (r, e, out, rest) }"

definition repl_editor_read ::
  "(string \<Rightarrow> bool option) \<Rightarrow> string \<Rightarrow> string \<Rightarrow> ReplEditor \<Rightarrow> string \<Rightarrow> (string option \<times> ReplEditor \<times> term_out list \<times> string) option" where
  "repl_editor_read is_complete prompt cont_prompt e inp =
     (if \<not> tty e then read_fallback is_complete prompt cont_prompt e inp
      else read_interactive is_complete prompt e inp)"

end
