(* ===== verification/Scanner_Tokens.thy ===== *)
theory Scanner_Tokens
  imports Scanner_Frames
begin

text \<open>
  The token stream as its readers use it: when the whole source scans, every token that was read lies
  in the source after the ones before it.  The other theories assume of a source only that it scans.
\<close>

lemma next_or_overrun_raw:
  "scanner_next pf s = Some r \<Longrightarrow> (wf_scan s \<longrightarrow> token_step s r \<or> overrun (snd r)) \<and> \<not> overrun s"
proof (induction rule: scanner_next.raw_induct [rotated, consumes 1, case_names 1])
  case (1 nx pf s r)
  have no: "\<not> overrun s" using 1(2) overrun_none(2) [of s] by (auto simp: overrun_def)
  have "token_step s r \<or> overrun (snd r)" if wf: "wf_scan s"
  proof -
  obtain ok s1 where s1: "(if in_fstring s \<and> fstring_brace_depth s = 0 then Some (True, s) else skip_whitespace s) = Some (ok, s1)"
    "moved s s1" "ok \<or> cur s < cur s1"
    using skip_whitespace_moves [OF wf] moved_refl [OF wf] by (cases "in_fstring s \<and> fstring_brace_depth s = 0") auto
  note w1 = moved_wf [OF wf s1(2)]
  have f1: "src s1 = src s" "cur s \<le> cur s1" "cur s1 \<le> length (src s)" using s1(2) by (simp_all add: moved_def)
  obtain c where c: "peek s1 = Some c" using peek_wf [OF w1] by blast
  have again: "token_step s r \<or> overrun (snd r)"
    if "nx pf s' = Some r" "wf_scan s'" "src s' = src s" "cur s \<le> cur s'" for s'
    using 1(1) [OF that(1)] that(2) token_step_later [of s' "fst r" "snd r" s] that(3,4) by auto
  show ?thesis
  proof (cases ok)
    case False
    then show ?thesis using 1(2) s1 f1 by (auto simp: error_at_def error_token_def token_step_def)
  next
    case ok: True
    show ?thesis
    proof (cases "\<not> in_fstring s1 \<and> c = CHR ''#''")
      case True
      obtain e s2 where s2: "process_directive pf s1 = Some (e, s2)" "past s1 s2"
        using process_directive_past [where pf = pf, OF w1 c] True by (auto simp: NUL_def)
      have f2: "src s2 = src s" "cur s < cur s2" "cur s2 \<le> length (src s)" using s2(2) f1 by (auto simp: past_def)
      have "wf_scan s2" using wf f2 by (simp add: wf_scan_def)
      then show ?thesis using 1(2) s1(1) ok c True s2(1) f2 again [of s2]
        by (cases e) (auto simp: error_at_def error_token_def token_step_def)
    next
      case False
      then have i: "(if cond_is_emitting s1 then scanner_next_inner s1
          else do { (t, s) \<leftarrow> scanner_next_inner s1;
            if ttype t = TOKEN_EOF \<or> ttype t = TOKEN_ERROR then Some (t, s) else nx pf s }) = Some r"
        using 1(2) s1(1) ok c by (auto simp: NUL_def split: if_splits)
      obtain t s2 where s2: "scanner_next_inner s1 = Some (t, s2)"
        using i by (cases r; cases "scanner_next_inner s1") (auto split: if_splits)
      show ?thesis
      proof (cases "unterminated s1")
        case True
        then have "overrun s2" using unterminated_inner [OF w1] s2 by auto
        moreover have "r = (t, s2) \<or> nx pf s2 = Some r" using i s2 by (auto split: if_splits)
        moreover have "nx pf s2 = Some r \<Longrightarrow> False" using 1(1) \<open>overrun s2\<close> by blast
        ultimately show ?thesis by auto
      next
        case False
        then have st: "token_step s1 (t, s2)" using scanner_next_inner_step [OF w1] s2 by auto
        have "token_step s (t, s2)" by (rule token_step_later [OF st f1(1,2)])
        moreover have "wf_scan s2" "src s2 = src s" "cur s \<le> cur s2"
          using token_step_wf [OF w1 st] st f1 by (auto simp: token_step_def)
        moreover have "r = (t, s2) \<or> nx pf s2 = Some r" using i s2 by (auto split: if_splits)
        ultimately show ?thesis using again [of s2] by auto
      qed
    qed
  qed
  qed
  with no show ?case by blast
qed

lemmas next_or_overrun = next_or_overrun_raw [THEN conjunct1, rule_format]

text \<open>A source that scans, from any position: one token, and a rest that scans.\<close>

lemma scan_all_step:
  assumes "wf_scan s" "scan_all pf s = Some ts"
  obtains t s' where "scanner_next pf s = Some (t, s')" "ttype t = TOKEN_EOF" "ts = [t]"
  | t s' ts' where "scanner_next pf s = Some (t, s')" "ttype t \<noteq> TOKEN_EOF" "ts = t # ts'"
      "scan_all pf s' = Some ts'" "token_step s (t, s')" "wf_scan s'" "src s' = src s"
proof -
  obtain t s' where n: "scanner_next pf s = Some (t, s')" using assms(2) by (subst (asm) scan_all.simps) (auto split: bind_splits)
  show thesis
  proof (cases "ttype t = TOKEN_EOF")
    case True
    then have "ts = [t]" using assms(2) n by (subst (asm) scan_all.simps) simp
    then show thesis using that(1) [OF n True] by simp
  next
    case False
    then obtain ts' where r: "ts = t # ts'" "scan_all pf s' = Some ts'"
      using assms(2) n by (subst (asm) scan_all.simps) (auto split: bind_splits)
    have "\<not> overrun s'" using r(2) overrun_none(5) [of s' pf] by (subst (asm) scan_all.simps) auto
    then have st: "token_step s (t, s')" using next_or_overrun [OF n assms(1)] by simp
    have "src s' = src s" using st by (simp add: token_step_def)
    from that(2) [OF n False r st token_step_wf [OF assms(1) st] this] show thesis .
  qed
qed

end
