(* ===== verification/Repl_Text_Spec.thy ===== *)
theory Repl_Text_Spec
  imports Repl_Text Scanner_Tokens
begin

text \<open>
  Properties of the text functions of the interactive loop: the coloured line is the line, the
  completeness test and the prompt are those of one lexical automaton with a stack of delimiters,
  and the input on which the completeness test sends the scanner past the end of its source.
\<close>

section \<open>Colours\<close>

text \<open>A terminal shows what is left when the escape sequences, which end with an \<open>m\<close>, are dropped.\<close>

function visible :: "string \<Rightarrow> string" where
  "visible [] = []"
| "visible (c # cs) =
     (if c = CHR 0x1B then visible (tl (dropWhile (\<lambda>d. d \<noteq> CHR ''m'') cs)) else c # visible cs)"
  by pat_completeness auto
termination
proof (relation "measure length")
  fix c :: char and cs :: string
  show "(tl (dropWhile (\<lambda>d. d \<noteq> CHR ''m'') cs), c # cs) \<in> measure length"
    using length_dropWhile_le [of "\<lambda>d. d \<noteq> CHR ''m''" cs] by simp
qed auto

text \<open>\<open>r\<close> is shown as \<open>s\<close> wherever it is written.\<close>

definition renders :: "string \<Rightarrow> string \<Rightarrow> bool" where
  "renders r s \<longleftrightarrow> (\<forall>x. visible (r @ x) = s @ visible x)"

lemma renders_append [intro]: "renders r s \<Longrightarrow> renders r' s' \<Longrightarrow> renders (r @ r') (s @ s')"
  by (simp add: renders_def)

lemma renders_Nil [simp]: "renders [] []"
  by (simp add: renders_def)

lemma renders_plain: "CHR 0x1B \<notin> set s \<Longrightarrow> renders s s"
  by (induction s) (auto simp: renders_def)

lemma renders_codes:
  "renders C_RESET []" "renders C_COMMENT []" "ansi_for_token ty = Some code \<Longrightarrow> renders code []"
  by (auto simp: renders_def esc_seq_def C_RESET_def C_COMMENT_def C_KEYWORD_def C_TYPE_def C_STRING_def C_NUMBER_def
    ansi_for_token_def split: if_splits)

text \<open>What of a text is in a buffer of \<open>n\<close> bytes.\<close>

definition clip :: "nat \<Rightarrow> string \<Rightarrow> string" where
  "clip n r = take (n - 1) r"

lemma hl_put_clip: "hl_put n (clip n r) s = clip n (r @ s)"
  by (simp add: hl_put_def clip_def min_def)

lemma emit_gap_renders:
  assumes "CHR 0x1B \<notin> set gap"
  shows "\<exists>r'. emit_gap n (clip n r) gap = clip n (r @ r') \<and> renders r' gap"
proof (cases "find_comment gap")
  case None
  then show ?thesis using renders_plain [OF assms] by (auto simp: emit_gap_def hl_put_clip)
next
  case (Some k)
  have p: "renders (take k gap) (take k gap)" "renders (drop k gap) (drop k gap)"
    using assms in_set_takeD in_set_dropD by (fastforce intro!: renders_plain)+
  have "renders ((take k gap @ C_COMMENT) @ drop k gap @ C_RESET) ((take k gap @ []) @ drop k gap @ [])"
    by (intro renders_append p renders_codes)
  then show ?thesis using Some by (auto simp: emit_gap_def hl_put_clip Let_def)
qed

lemma emit_token_renders:
  assumes "CHR 0x1B \<notin> set tx"
  shows "\<exists>r'. emit_token n (clip n r) ty tx = clip n (r @ r') \<and> renders r' tx"
proof (cases "ansi_for_token ty")
  case None
  then show ?thesis using renders_plain [OF assms] by (auto simp: emit_token_def hl_put_clip)
next
  case (Some code)
  have "renders (code @ tx @ C_RESET) ([] @ tx @ [])"
    by (intro renders_append renders_plain assms renders_codes) (rule Some)
  then show ?thesis using Some by (auto simp: emit_token_def hl_put_clip)
qed

lemma esc_free_part: "CHR 0x1B \<notin> set l \<Longrightarrow> CHR 0x1B \<notin> set (take n (drop k l))"
  by (meson in_set_dropD in_set_takeD)

lemma parts_join: "c \<le> p \<Longrightarrow> take (p - c) (drop c l) @ take n (drop p l) = take (p + n - c) (drop c l)"
  by (metis add.commute diff_add_assoc2 drop_drop le_add_diff_inverse2 take_add)

lemma highlight_loop_renders:
  "wf_scan s \<Longrightarrow> scan_all pf s = Some ts \<Longrightarrow> c \<le> cur s \<Longrightarrow> CHR 0x1B \<notin> set (src s) \<Longrightarrow>
   \<exists>c' r'. highlight_loop pf n s c (clip n r) = Some (c', clip n (r @ r')) \<and>
     c \<le> c' \<and> c' \<le> length (src s) \<and> renders r' (take (c' - c) (drop c (src s)))"
proof (induction "length (src s) - cur s" arbitrary: s ts c r rule: less_induct)
  case less
  note wf = less.prems(1)
  obtain t s' where t: "scanner_next pf s = Some (t, s')" using scan_all_step [OF wf less.prems(2)] by metis
  show ?case
  proof (cases "ttype t = TOKEN_EOF \<or> ttype t = TOKEN_ERROR")
    case True
    then show ?thesis using t wf less.prems(3)
      by (subst highlight_loop.simps) (auto simp: wf_scan_def intro!: exI [of _ "[]"])
  next
    case False
    obtain ts' where t: "scanner_next pf s = Some (t, s')" "token_step s (t, s')" "scan_all pf s' = Some ts'" "wf_scan s'"
      using scan_all_step [OF wf less.prems(2)] t False by force
    obtain p where p: "tstart t = In_source p" "cur s \<le> p" "p + tlength t \<le> cur s'"
      and f: "src s' = src s" "cur s < cur s'" "cur s' \<le> length (src s)"
      using t(2) False by (auto simp: token_step_def split: lexeme.splits)
    let ?gap = "take (p - c) (drop c (src s))" and ?tx = "take (tlength t) (drop p (src s))"
    obtain r1 where r1: "(if p > c then emit_gap n (clip n r) ?gap else clip n r) = clip n (r @ r1)"
      "renders r1 ?gap"
    proof (cases "p > c")
      case True
      obtain r1 where "emit_gap n (clip n r) ?gap = clip n (r @ r1)" "renders r1 ?gap"
        using emit_gap_renders [OF esc_free_part [OF less.prems(4)]] by blast
      then show ?thesis using that [of r1] True by simp
    next
      case False
      then show ?thesis using that [of "[]"] by simp
    qed
    obtain r2 where r2: "emit_token n (clip n (r @ r1)) (ttype t) ?tx = clip n ((r @ r1) @ r2)" "renders r2 ?tx"
      using emit_token_renders [OF esc_free_part [OF less.prems(4)]] by blast
    have lt: "length (src s') - cur s' < length (src s) - cur s" using f by simp
    obtain c' r3 where ih: "highlight_loop pf n s' (p + tlength t) (clip n ((r @ r1) @ r2)) =
        Some (c', clip n (((r @ r1) @ r2) @ r3))"
      "p + tlength t \<le> c'" "c' \<le> length (src s)" "renders r3 (take (c' - (p + tlength t)) (drop (p + tlength t) (src s)))"
      using less.hyps [OF lt t(4,3) p(3)] less.prems(4) f(1) by metis
    have cp: "c \<le> p" using less.prems(3) p(2) by simp
    have "renders (r1 @ r2 @ r3) (?gap @ ?tx @ take (c' - (p + tlength t)) (drop (p + tlength t) (src s)))"
      using r1(2) r2(2) ih(4) by (intro renders_append)
    moreover have "?gap @ ?tx @ take (c' - (p + tlength t)) (drop (p + tlength t) (src s)) = take (c' - c) (drop c (src s))"
      using parts_join [OF cp, of "src s" "tlength t"]
        parts_join [of c "p + tlength t" "src s" "c' - (p + tlength t)"] cp ih(2)
      by (simp del: append_assoc add: append_assoc [symmetric])
    moreover have "highlight_loop pf n s c (clip n r) = Some (c', clip n (r @ r1 @ r2 @ r3))"
      using t(1) False p(1) r1(1) r2(1) ih(1) by (subst highlight_loop.simps) (simp add: Let_def)
    ultimately show ?thesis using ih(2,3) cp by (intro exI [of _ c'] exI [of _ "r1 @ r2 @ r3"]) simp
  qed
qed

text \<open>C27: A coloured line shows the line itself.  On a line without NUL and escape bytes that scans, the
  renderer writes into a buffer of any positive size a prefix of one text, all of it when it fits, and that text without its escape sequences is the line, byte for byte.\<close>

theorem highlight_shows_line:
  assumes "NUL \<notin> set tx" "CHR 0x1B \<notin> set tx" "scan_all pf (scanner_init tx) = Some ts" "0 < out_cap"
  shows "\<exists>r. visible r = tx \<and> repl_highlight_render pf tx out_cap = Some (take (out_cap - 1) r)"
proof -
  have wf: "wf_scan (scanner_init tx)" using assms(1) by (simp add: wf_scan_def scanner_init_def)
  obtain c r where l: "highlight_loop pf out_cap (scanner_init tx) 0 [] = Some (c, clip out_cap r)"
    "c \<le> length tx" "renders r (take c tx)"
    using highlight_loop_renders [OF wf assms(3), of 0 out_cap "[]"] assms(2)
    by (auto simp: scanner_init_def clip_def)
  have e: "CHR 0x1B \<notin> set (drop c tx)" using assms(2) in_set_dropD by fast
  obtain r' where g: "(if c < length tx then emit_gap out_cap (clip out_cap r) (drop c tx) else clip out_cap r) =
      clip out_cap (r @ r')" "renders r' (drop c tx)"
  proof (cases "c < length tx")
    case True
    obtain r' where "emit_gap out_cap (clip out_cap r) (drop c tx) = clip out_cap (r @ r')" "renders r' (drop c tx)"
      using emit_gap_renders [OF e] by blast
    then show ?thesis using that [of r'] True by simp
  next
    case False
    then show ?thesis using that [of "[]"] by simp
  qed
  have "visible (r @ r' @ []) = take c tx @ drop c tx @ visible []"
    using l(3) g(2) unfolding renders_def by metis
  then have "visible (r @ r') = tx" by simp
  moreover have "repl_highlight_render pf tx out_cap = Some (clip out_cap (r @ r'))"
    using l(1) g(1) assms(4) by (simp add: repl_highlight_render_def Let_def) (simp add: clip_def)
  ultimately show ?thesis unfolding clip_def by blast
qed
lemma highlight_shows_line_witness:
  "\<exists>r. visible r = ''x = 12'' \<and> repl_highlight_render OTHER_PLATFORM ''x = 12'' 40 = Some (take (40 - 1) r)"
proof (rule highlight_shows_line)
  show "NUL \<notin> set ''x = 12''" by (simp add: NUL_def)
  show "scan_all OTHER_PLATFORM (scanner_init ''x = 12'') = Some (the (scan_all OTHER_PLATFORM (scanner_init ''x = 12'')))"
    by code_simp
qed simp_all

section \<open>Open delimiters\<close>

text \<open>The automaton behind both scans: where the position is, and the delimiters open there, the
  innermost first.\<close>

datatype lex_mode = Code | Comment | String_text | Char_text

function nesting :: "lex_mode \<Rightarrow> string \<Rightarrow> string \<Rightarrow> lex_mode \<times> string" where
  "nesting m st [] = (m, st)"
| "nesting Comment st (c # cs) =
     (if c = CHR ''*'' \<and> next_byte cs = CHR ''/'' then nesting Code st (tl cs) else nesting Comment st cs)"
| "nesting String_text st (c # cs) =
     (if c = CHR 0x5C \<and> cs \<noteq> [] then nesting String_text st (tl cs)
      else nesting (if c = CHR 0x22 then Code else String_text) st cs)"
| "nesting Char_text st (c # cs) =
     (if c = CHR 0x5C \<and> cs \<noteq> [] then nesting Char_text st (tl cs)
      else nesting (if c = CHR 0x27 then Code else Char_text) st cs)"
| "nesting Code st (c # cs) =
     (if c = CHR ''/'' \<and> next_byte cs = CHR ''/'' then nesting Code st (skip_line_comment cs)
      else if c = CHR ''/'' \<and> next_byte cs = CHR ''*'' then nesting Comment st (tl cs)
      else if c = CHR 0x22 then nesting String_text st cs
      else if c = CHR 0x27 then nesting Char_text st cs
      else if is_opener c then nesting Code (c # st) cs
      else if is_closer c then nesting Code (tl st) cs
      else nesting Code st cs)"
  by pat_completeness auto
termination
  by (relation "measure (\<lambda>(m, st, cs). length cs)")
    (auto simp: skip_line_comment_def le_imp_less_Suc length_dropWhile_le)

definition pending :: "string \<Rightarrow> lex_mode \<times> string" where
  "pending buf = nesting Code [] buf"

definition bracket_of :: "lex_mode \<Rightarrow> nat \<Rightarrow> BracketScan" where
  "bracket_of m d = \<lparr>in_str = (m = String_text), in_chr = (m = Char_text), in_block = (m = Comment), depth = d\<rparr>"

lemma bracket_scan_nesting:
  "bracket_scan cs (bracket_of m (length st)) = (case nesting m st cs of (m', st') \<Rightarrow> bracket_of m' (length st'))"
proof (induction m st cs rule: nesting.induct)
  case (5 st c cs)
  have [simp]: "bracket_of Code n\<lparr>in_block := True\<rparr> = bracket_of Comment n"
    "bracket_of Code n\<lparr>in_str := True\<rparr> = bracket_of String_text n"
    "bracket_of Code n\<lparr>in_chr := True\<rparr> = bracket_of Char_text n"
    "bracket_of Code n\<lparr>depth := m\<rparr> = bracket_of Code m"
    "\<not> in_block (bracket_of Code d)" "\<not> in_str (bracket_of Code d)" "\<not> in_chr (bracket_of Code d)"
    "depth (bracket_of Code d) = d" for d n m
    by (auto simp: bracket_of_def)
  show ?case using 5 by (cases st) simp_all
qed (auto simp: bracket_of_def)

text \<open>The array of the prompt holds the outer 64 delimiters, the outermost first.\<close>

definition prompt_rel :: "PromptScan \<Rightarrow> lex_mode \<times> string \<Rightarrow> bool" where
  "prompt_rel b ms \<longleftrightarrow> (case ms of (m, st) \<Rightarrow>
     p_str b = (m = String_text) \<and> p_chr b = (m = Char_text) \<and> p_block b = (m = Comment) \<and>
     top b = length st \<and> length (stack b) = STACK_SIZE \<and> take (length st) (stack b) = take STACK_SIZE (rev st))"

lemma prompt_rel_push:
  assumes "prompt_rel b (Code, st)"
  shows "prompt_rel (b\<lparr>stack := (if top b < STACK_SIZE then (stack b)[top b := c] else stack b), top := top b + 1\<rparr>) (Code, c # st)"
  using assms by (auto simp: prompt_rel_def take_Suc_conv_app_nth not_less)

lemma prompt_rel_pop:
  assumes "prompt_rel b (Code, st)"
  shows "prompt_rel (if top b > 0 then b\<lparr>top := top b - 1\<rparr> else b) (Code, tl st)"
proof (cases st)
  case (Cons x xs)
  have "take (length xs) (stack b) = take (length xs) (take (length st) (stack b))" by (simp add: Cons)
  also have "\<dots> = take STACK_SIZE (rev xs)" using assms Cons by (simp add: prompt_rel_def min_def)
  finally show ?thesis using assms Cons by (simp add: prompt_rel_def)
qed (use assms in \<open>simp add: prompt_rel_def\<close>)

lemma prompt_scan_nesting: "prompt_rel b (m, st) \<Longrightarrow> prompt_rel (prompt_scan cs b) (nesting m st cs)"
proof (induction m st cs arbitrary: b rule: nesting.induct)
  case (5 st c cs)
  have f: "\<not> p_block b" "\<not> p_str b" "\<not> p_chr b" using 5(8) by (simp_all add: prompt_rel_def)
  have u: "prompt_rel (b\<lparr>p_block := True\<rparr>) (Comment, st)" "prompt_rel (b\<lparr>p_str := True\<rparr>) (String_text, st)"
    "prompt_rel (b\<lparr>p_chr := True\<rparr>) (Char_text, st)" using 5(8) by (simp_all add: prompt_rel_def)
  show ?case using 5(1-7) 5(8) f u prompt_rel_push [OF 5(8), of c] prompt_rel_pop [OF 5(8)] by auto
qed (auto simp: prompt_rel_def)
lemma bracket_scan_pending:
  "bracket_scan buf bracket_start = (case pending buf of (m, st) \<Rightarrow> bracket_of m (length st))"
proof -
  have e: "bracket_start = bracket_of Code (length ([] :: string))" by (simp add: bracket_start_def bracket_of_def)
  show ?thesis unfolding e pending_def by (rule bracket_scan_nesting)
qed

lemma open_at_end_pending: "open_at_end (bracket_scan buf bracket_start) \<longleftrightarrow> pending buf \<noteq> (Code, [])"
proof (cases "pending buf")
  case (Pair m st)
  then show ?thesis by (cases m) (auto simp: bracket_scan_pending open_at_end_def bracket_of_def)
qed

text \<open>The types of the tokens before the end of the source or the first error.\<close>

definition clean_types :: "Token list \<Rightarrow> TokenType list" where
  "clean_types ts = map ttype (takeWhile (\<lambda>t. ttype t \<noteq> TOKEN_EOF \<and> ttype t \<noteq> TOKEN_ERROR) ts)"

lemma last_token_scan:
  "wf_scan s \<Longrightarrow> scan_all pf s = Some ts \<Longrightarrow>
   last_token pf l s = Some (if clean_types ts = [] then l else Some (last (clean_types ts)))"
proof (induction ts arbitrary: s l)
  case Nil
  then show ?case by (rule scan_all_step) auto
next
  case (Cons t0 ts0)
  from Cons.prems show ?case
  proof (rule scan_all_step)
    fix t s' assume "scanner_next pf s = Some (t, s')" "ttype t = TOKEN_EOF" "t0 # ts0 = [t]"
    then show ?thesis by (subst last_token.simps) (simp add: clean_types_def)
  next
    fix t s' ts'
    assume a: "scanner_next pf s = Some (t, s')" "ttype t \<noteq> TOKEN_EOF" "t0 # ts0 = t # ts'" "scan_all pf s' = Some ts'" "wf_scan s'"
    then have "last_token pf (Some (ttype t)) s' = Some (if clean_types ts' = [] then Some (ttype t) else Some (last (clean_types ts')))"
      using Cons.IH [of s'] by simp
    then show ?thesis using a by (subst last_token.simps) (auto simp: clean_types_def)
  qed
qed



text \<open>The prompt for what is pending: of the open delimiters the innermost four are shown.\<close>

definition hint :: "lex_mode \<times> string \<Rightarrow> string" where
  "hint ms = (case ms of
     (String_text, st) \<Rightarrow> ''..'' @ [CHR 0x22] @ ''> ''
   | (Char_text, st) \<Rightarrow> ''..'' @ [CHR 0x27] @ ''> ''
   | (Comment, st) \<Rightarrow> ''..*/> ''
   | (Code, st) \<Rightarrow> if st = [] then ''...> '' else ''..'' @ rev (take 4 st) @ ''> '')"

text \<open>What the code shows, whose array holds the 64 outermost delimiters.\<close>

definition shown_delimiters :: "string \<Rightarrow> string" where
  "shown_delimiters st = rev (take 4 (drop (length st - STACK_SIZE) st))"

lemma shown_shallow: "length st \<le> STACK_SIZE \<Longrightarrow> shown_delimiters st = rev (take 4 st)"
  by (simp add: shown_delimiters_def)

lemma delimiters_shown:
  assumes "take (length st) stk = take STACK_SIZE (rev st)" "length stk = STACK_SIZE"
  defines "n \<equiv> (if length st > STACK_SIZE then STACK_SIZE else length st)"
  defines "k \<equiv> (if n > 4 then n - 4 else 0)"
  shows "take 7 (take (n - k) (drop k stk)) = shown_delimiters st"
proof -
  let ?l = "drop (length st - STACK_SIZE) st"
  have l: "length ?l = n" by (simp add: n_def)
  have "take n stk = take n (take (length st) stk)" by (simp add: n_def)
  also have "\<dots> = take n (rev st)" using assms(1) by (simp add: n_def)
  also have "\<dots> = rev ?l" by (auto simp: n_def take_rev)
  finally have t: "take n stk = rev ?l" .
  have "k \<le> n" "n - k \<le> 4" by (simp_all add: k_def)
  then have "take 7 (take (n - k) (drop k stk)) = drop k (take n stk)" by (simp add: min_def drop_take)
  also have "\<dots> = rev (take (n - k) ?l)" unfolding t drop_rev l ..
  also have "take (n - k) ?l = take 4 ?l"
  proof (cases "n > 4")
    case False
    then have "length ?l \<le> 4" "n - k = n" using l by (simp_all add: k_def)
    then show ?thesis using l by simp
  qed (simp add: k_def)
  finally show ?thesis unfolding shown_delimiters_def .
qed

lemma nesting_openers: "list_all is_opener st \<Longrightarrow> list_all is_opener (snd (nesting m st cs))"
proof (induction m st cs rule: nesting.induct)
  case (5 st c cs)
  then show ?case by (cases st) auto
qed auto

definition displayed_hint :: "lex_mode \<times> string \<Rightarrow> string" where
  "displayed_hint ms = (case ms of
     (m, st) \<Rightarrow> if m = Code \<and> st \<noteq> [] then ''..'' @ shown_delimiters st @ ''> '' else hint (m, st))"

text \<open>The prompt, whatever the depth.\<close>

lemma prompt_shows:
  assumes "pending buf = (m, st)"
  shows "repl_continuation_prompt buf 80 = (if m = Code \<and> st \<noteq> [] then ''..'' @ shown_delimiters st @ ''> '' else hint (m, st))"
proof -
  have "prompt_rel prompt_start (Code, [])" by (simp add: prompt_rel_def prompt_start_def)
  from prompt_scan_nesting [OF this, of buf] have r: "prompt_rel (prompt_scan buf prompt_start) (m, st)"
    using assms by (simp add: pending_def)
  show ?thesis
  proof (cases "m = Code \<and> st \<noteq> []")
    case True
    then have t: "top (prompt_scan buf prompt_start) = length st" "length (stack (prompt_scan buf prompt_start)) = STACK_SIZE"
      "take (length st) (stack (prompt_scan buf prompt_start)) = take STACK_SIZE (rev st)"
      using r by (simp_all add: prompt_rel_def)
    have "fits 80 (''..'' @ shown_delimiters st @ ''> '') = ''..'' @ shown_delimiters st @ ''> ''" by (simp add: fits_def shown_delimiters_def)
    then show ?thesis using r True
      unfolding repl_continuation_prompt_def Let_def t(1) delimiters_shown [OF t(3,2)] by (simp add: prompt_rel_def)
  next
    case False
    then show ?thesis using r by (cases m) (simp_all add: repl_continuation_prompt_def prompt_rel_def hint_def Let_def fits_def)
  qed
qed

lemma prompt_displayed: "repl_continuation_prompt buf 80 = displayed_hint (pending buf)"
  by (cases "pending buf") (simp add: prompt_shows displayed_hint_def)

lemma shown_neutral:
  assumes "list_all is_opener st" "st \<noteq> []"
  shows "''..'' @ shown_delimiters st @ ''> '' \<noteq> ''...> ''"
proof -
  have "drop (length st - STACK_SIZE) st \<noteq> []" using assms(2) by (cases st) (simp_all add: STACK_SIZE_def)
  then obtain x xs where l: "shown_delimiters st = x # xs" by (cases "shown_delimiters st") (auto simp: shown_delimiters_def)
  then have "x \<in> set (shown_delimiters st)" by simp
  then have "x \<in> set st" unfolding shown_delimiters_def using in_set_dropD in_set_takeD by (metis set_rev)
  then have "is_opener x" using assms(1) by (simp add: list_all_iff)
  then show ?thesis using l by (auto simp: is_opener_def)
qed

text \<open>C29: The continuation prompt tells what is missing.  It names the kind of literal or comment in
  which the input ends, or the innermost open delimiters, at most four, in the order of the input,
  provided that no more than 64 delimiters are open; with more it shows the wrong ones
  (\<open>deep_nesting_shows_outer\<close>).  At any depth it is the neutral prompt if and only if the bracket scan of
  the completeness test found nothing open.\<close>

theorem prompt_tells_pending:
  "(length (snd (pending buf)) \<le> 64 \<longrightarrow> repl_continuation_prompt buf 80 = hint (pending buf)) \<and>
   (repl_continuation_prompt buf 80 = ''...> '' \<longleftrightarrow> \<not> open_at_end (bracket_scan buf bracket_start))"
proof -
  obtain m st where p: "pending buf = (m, st)" by (cases "pending buf")
  have "list_all is_opener st" using nesting_openers [of "[]" Code buf] p by (simp add: pending_def)
  then have "repl_continuation_prompt buf 80 = ''...> '' \<longleftrightarrow> (m, st) = (Code, [])"
    using shown_neutral [of st] unfolding prompt_shows [OF p] by (cases m) (auto simp: hint_def)
  moreover have "hint (m, st) = ''..'' @ shown_delimiters st @ ''> ''" if "m = Code" "st \<noteq> []" "length st \<le> 64"
    using that shown_shallow [of st] by (simp add: hint_def STACK_SIZE_def)
  ultimately show ?thesis using p prompt_shows [OF p] open_at_end_pending [of buf] by auto
qed

lemma prompt_tells_pending_witness:
  "repl_continuation_prompt ''f(x, { [ ( { // ('' 80 = ''..{[({> ''"
proof -
  have "length (snd (pending ''f(x, { [ ( { // (''))  \<le> 64" "hint (pending ''f(x, { [ ( { // ('') = ''..{[({> ''" by code_simp+
  with prompt_tells_pending [of "''f(x, { [ ( { // (''"] show ?thesis by simp
qed

text \<open>With more than 64 open delimiters the prompt shows those at depth 61 to 64, not the innermost.\<close>

lemma deep_nesting_shows_outer:
  "repl_continuation_prompt (replicate 64 CHR ''('' @ ''[{'') 80 = ''..((((> ''"
  "hint (pending (replicate 64 CHR ''('' @ ''[{'')) = ''..(([{> ''"
  by code_simp+

text \<open>The comment of the completeness test says that the scanner meets no unterminated literal after
  the brackets are balanced.  Here they are balanced, and the scanner leaves its source.\<close>

lemma complete_check_overruns:
  "repl_input_is_complete OTHER_PLATFORM (''f'' @ [CHR 0x22] @ ''{/*'' @ [CHR 0x22] @ ''*/}'') = None"
  by code_simp

text \<open>The half-precision types are missing from the list of scalar types.\<close>

lemma half_types_not_scalar:
  "repl_classify OTHER_PLATFORM ''f32 x = 1'' = Some REPL_VAR"
  "repl_classify OTHER_PLATFORM ''f16 x = 1'' = Some REPL_EXPR"
  "repl_persisted_var_name OTHER_PLATFORM ''f16 x = 1'' = Some None"
  by code_simp+


end
