(* ===== verification/Repl_Line_Spec.thy ===== *)
theory Repl_Line_Spec
  imports Repl_Line Repl_Text_Spec
begin

text \<open>
  Properties of the line editor: the buffer and its cursor implement the two halves of a line, the
  differential repaint keeps the row of a terminal equal to the prompt and the line, the editor can
  always be left with Enter, and the history never brings a line break into a line.
\<close>

section \<open>The line as two halves\<close>

datatype Key = Enter | Cancel | Eof | Backspace | Delete | Left | Right | Home | End | Up | Down | Char char | Ignored

definition key_of :: "int \<Rightarrow> Key" where
  "key_of k =
     (if k = 13 \<or> k = 10 then Enter else if k = 3 then Cancel else if k = 4 then Eof
      else if k = 8 \<or> k = 127 then Backspace else if k = K_DELETE then Delete else if k = K_LEFT then Left
      else if k = K_RIGHT then Right else if k = K_HOME then Home else if k = K_END then End
      else if k = K_UP then Up else if k = K_DOWN then Down
      else if k \<ge> 32 then Char (char_of (nat k)) else Ignored)"

fun zip_edit :: "Key \<Rightarrow> string \<times> string \<Rightarrow> string \<times> string" where
  "zip_edit Backspace (l, r) = (butlast l, r)"
| "zip_edit Delete (l, r) = (l, tl r)"
| "zip_edit Left (l, r) = (if l = [] then (l, r) else (butlast l, last l # r))"
| "zip_edit Right (l, r) = (if r = [] then (l, r) else (l @ [hd r], tl r))"
| "zip_edit Home (l, r) = ([], l @ r)"
| "zip_edit End (l, r) = (l @ r, [])"
| "zip_edit (Char c) (l, r) = (l @ [c], r)"
| "zip_edit _ z = z"

text \<open>The state of the specification: the text submitted so far, the line, the prompt, the number of
  blank lines in a row and the position in the history.\<close>

record Zed =
  z_text :: string
  z_line :: "string \<times> string"
  z_prompt :: string
  z_blank :: nat
  z_hist :: nat

fun zed_step :: "(string \<Rightarrow> bool option) \<Rightarrow> string list \<Rightarrow> Key \<Rightarrow> Zed \<Rightarrow> (Zed + string option) option" where
  "zed_step ic hs Enter z =
     (let ln = fst (z_line z) @ snd (z_line z); tx = z_text z @ ln @ [CHR 0x0A]
      in case ic tx of
           None \<Rightarrow> None
         | Some d \<Rightarrow>
             if d \<or> ln = [] \<and> z_blank z \<ge> 1 then Some (Inr (Some tx))
             else Some (Inl \<lparr>z_text = tx, z_line = ([], []), z_prompt = displayed_hint (pending tx),
                             z_blank = (if ln = [] then z_blank z + 1 else 0), z_hist = z_hist z\<rparr>))"
| "zed_step ic hs Cancel z = Some (Inr (Some []))"
| "zed_step ic hs Eof z =
     Some (if z_line z = ([], []) \<and> z_text z = [] then Inr None else Inl z)"
| "zed_step ic hs Up z =
     Some (Inl (if z_hist z = 0 then z else z\<lparr>z_hist := z_hist z - 1, z_line := (hs ! (z_hist z - 1), [])\<rparr>))"
| "zed_step ic hs Down z =
     Some (Inl (if z_hist z \<ge> length hs then z
                else z\<lparr>z_hist := z_hist z + 1,
                       z_line := (if z_hist z + 1 = length hs then [] else hs ! (z_hist z + 1), [])\<rparr>))"
| "zed_step ic hs key z = Some (Inl (z\<lparr>z_line := zip_edit key (z_line z)\<rparr>))"

fun zed_run :: "(string \<Rightarrow> bool option) \<Rightarrow> string list \<Rightarrow> Key list \<Rightarrow> Zed \<Rightarrow> (Zed + string option) option" where
  "zed_run ic hs [] z = Some (Inl z)"
| "zed_run ic hs (k # ks) z =
     (case zed_step ic hs k z of
        Some (Inl z) \<Rightarrow> zed_run ic hs ks z
      | r \<Rightarrow> r)"

fun run_keys :: "(string \<Rightarrow> bool option) \<Rightarrow> string list \<Rightarrow> int list \<Rightarrow> EditState \<Rightarrow> outcome option" where
  "run_keys ic hs [] st = Some (Going st)"
| "run_keys ic hs (k # ks) st =
     (case key_step ic hs k st of
        Some (Going st) \<Rightarrow> run_keys ic hs ks st
      | r \<Rightarrow> r)"

definition zed_start :: "string \<Rightarrow> string list \<Rightarrow> Zed" where
  "zed_start prompt hs = \<lparr>z_text = [], z_line = ([], []), z_prompt = prompt, z_blank = 0, z_hist = length hs\<rparr>"

definition line_ok :: "LineBuf \<Rightarrow> bool" where
  "line_ok l \<longleftrightarrow> cursor l \<le> len l \<and> len l < cap l \<and> 0 < shown_cap l"

definition ed_rel :: "string list \<Rightarrow> EditState \<Rightarrow> Zed \<Rightarrow> bool" where
  "ed_rel hs st z \<longleftrightarrow>
     full st = z_text z \<and> cur_prompt st = z_prompt z \<and> empty_streak st = z_blank z \<and>
     hist_idx st = z_hist z \<and> z_hist z \<le> length hs \<and> line_ok (lbuf st) \<and>
     z_line z = (take (cursor (lbuf st)) (buf (lbuf st)), drop (cursor (lbuf st)) (buf (lbuf st)))"

lemma ensured:
  "0 < cap l \<Longrightarrow> len l + extra + 1 \<le> cap (lb_ensure extra l) \<and> buf (lb_ensure extra l) = buf l \<and>
   cursor (lb_ensure extra l) = cursor l \<and> shown (lb_ensure extra l) = shown l \<and>
   shown_cap (lb_ensure extra l) = shown_cap l \<and> prompt_cols (lb_ensure extra l) = prompt_cols l"
  using double_to_props [of "cap l" "len l + extra + 1"] by (auto simp: lb_ensure_def)

lemma redraw_total:
  assumes "0 < shown_cap l"
  shows "\<exists>out l'. redraw p l = Some (out, l') \<and> buf l' = buf l \<and> cursor l' = cursor l \<and> cap l' = cap l \<and>
    0 < shown_cap l'"
  using double_to_props [OF assms, of "len l + 1"] assms by (auto simp: redraw_def Let_def split: if_splits)

text \<open>The relation depends on these fields only.\<close>

lemma repaint_rel:
  assumes "ed_rel hs st z"
  shows "\<exists>st'. repaint st = Some st' \<and> ed_rel hs st' z"
proof -
  have "0 < shown_cap (lbuf st)" using assms by (simp add: ed_rel_def line_ok_def)
  from redraw_total [OF this, of "cur_prompt st"] obtain out l' where
    r: "redraw (cur_prompt st) (lbuf st) = Some (out, l')" "buf l' = buf (lbuf st)" "cursor l' = cursor (lbuf st)"
    "cap l' = cap (lbuf st)" "0 < shown_cap l'" by blast
  then show ?thesis using assms by (simp add: repaint_def ed_rel_def line_ok_def)
qed

lemma repaint_with_rel:
  "ed_rel hs (st\<lparr>lbuf := l\<rparr>) z \<Longrightarrow> \<exists>st'. repaint_with st l = Some (Going st') \<and> ed_rel hs st' z"
  using repaint_rel unfolding repaint_with_def by fastforce

lemma insert_ok:
  assumes "line_ok l"
  shows "\<exists>l'. lb_insert c l = Some l' \<and> line_ok l' \<and>
    buf l' = take (cursor l) (buf l) @ c # drop (cursor l) (buf l) \<and> cursor l' = cursor l + 1"
proof -
  have "0 < cap l" using assms by (simp add: line_ok_def)
  from ensured [OF this, of 1] assms show ?thesis by (simp add: lb_insert_def Let_def line_ok_def)
qed

lemma set_ok:
  assumes "line_ok l"
  shows "\<exists>l'. lb_set s l = Some l' \<and> line_ok l' \<and> buf l' = s \<and> cursor l' = length s"
proof -
  have "0 < cap l" using assms by (simp add: line_ok_def)
  from ensured [OF this, of "length s"] assms show ?thesis by (simp add: lb_set_def Let_def line_ok_def)
qed

lemma backspace_ok:
  assumes "line_ok l"
  shows "\<exists>l'. lb_backspace l = Some l' \<and> line_ok l' \<and>
    (take (cursor l') (buf l'), drop (cursor l') (buf l')) = zip_edit Backspace (take (cursor l) (buf l), drop (cursor l) (buf l))"
  using assms by (cases "cursor l") (auto simp: lb_backspace_def line_ok_def butlast_take)

lemma delete_ok:
  assumes "line_ok l"
  shows "line_ok (lb_delete l) \<and>
    (take (cursor (lb_delete l)) (buf (lb_delete l)), drop (cursor (lb_delete l)) (buf (lb_delete l))) =
    zip_edit Delete (take (cursor l) (buf l), drop (cursor l) (buf l))"
  using assms by (auto simp: lb_delete_def line_ok_def drop_Suc tl_drop)

lemma cursor_moves:
  "0 < n \<Longrightarrow> n \<le> length b \<Longrightarrow> (take (n - 1) b, drop (n - 1) b) = (butlast (take n b), last (take n b) # drop n b)"
  "n < length b \<Longrightarrow> (take (n + 1) b, drop (n + 1) b) = (take n b @ [hd (drop n b)], tl (drop n b))"
proof -
  assume n: "0 < n" "n \<le> length b"
  then have "take n b = take (n - 1) b @ [b ! (n - 1)]" using take_Suc_conv_app_nth [of "n - 1" b] by simp
  moreover have "drop (n - 1) b = b ! (n - 1) # drop n b" using Cons_nth_drop_Suc [of "n - 1" b] n by simp
  ultimately show "(take (n - 1) b, drop (n - 1) b) = (butlast (take n b), last (take n b) # drop n b)" by simp
next
  assume "n < length b"
  then show "(take (n + 1) b, drop (n + 1) b) = (take n b @ [hd (drop n b)], tl (drop n b))"
    by (simp add: hd_drop_conv_nth take_Suc_conv_app_nth tl_drop drop_Suc)
qed

lemmas key_codes = K_LEFT_def K_RIGHT_def K_UP_def K_DOWN_def K_HOME_def K_END_def K_DELETE_def

lemma enter_rel:
  assumes "ed_rel hs st z"
  shows "case zed_step ic hs Enter z of
      None \<Rightarrow> enter_key ic st = None
    | Some (Inl z') \<Rightarrow> \<exists>st'. enter_key ic st = Some (Going st') \<and> ed_rel hs st' z'
    | Some (Inr r) \<Rightarrow> \<exists>out. enter_key ic st = Some (Finished r out)"
proof -
  let ?tx = "full st @ buf (lbuf st) @ [CHR 0x0A]"
  have z: "z_text z @ (fst (z_line z) @ snd (z_line z)) @ [CHR 0x0A] = ?tx" "fst (z_line z) @ snd (z_line z) = buf (lbuf st)"
    "z_blank z = empty_streak st" using assms by (simp_all add: ed_rel_def)
  show ?thesis
  proof (cases "ic ?tx")
    case None
    then show ?thesis using z by (simp add: enter_key_def Let_def)
  next
    case (Some d)
    show ?thesis
    proof (cases "d \<or> buf (lbuf st) = [] \<and> empty_streak st \<ge> 1")
      case True
      then show ?thesis using Some z by (auto simp: enter_key_def Let_def)
    next
      case False
      let ?z = "\<lparr>z_text = ?tx, z_line = ([], []), z_prompt = displayed_hint (pending ?tx),
                 z_blank = (if buf (lbuf st) = [] then z_blank z + 1 else 0), z_hist = z_hist z\<rparr>"
      let ?out = "out_seq st @ [Carriage_return, Line_feed] @ (if buf (lbuf st) = [] then [Puts BLANK_HINT, Carriage_return, Line_feed] else [])"
      let ?st = "st\<lparr>full := ?tx, lbuf := lb_init, empty_streak := (if buf (lbuf st) = [] then empty_streak st + 1 else 0),
                 cur_prompt := repl_continuation_prompt ?tx 80, out_seq := ?out\<rparr>"
      have "ed_rel hs ?st ?z" using assms z(3) prompt_displayed [of ?tx]
        by (auto simp: ed_rel_def line_ok_def lb_init_def)
      then obtain st' where st': "repaint ?st = Some st'" "ed_rel hs st' ?z" using repaint_rel by blast
      have "enter_key ic st = Some (Going st')"
        using Some False st'(1) by (auto simp: enter_key_def Let_def split: if_splits)
      moreover have "zed_step ic hs Enter z = Some (Inl ?z)" using Some False z by (auto simp: Let_def)
      ultimately show ?thesis using st'(2) by simp
    qed
  qed
qed
text \<open>What a step of the specification asks of a step of the code.\<close>

definition step_sim :: "string list \<Rightarrow> (Zed + string option) option \<Rightarrow> outcome option \<Rightarrow> bool" where
  "step_sim hs zr r \<longleftrightarrow> (case zr of
      None \<Rightarrow> r = None
    | Some (Inl z) \<Rightarrow> \<exists>st. r = Some (Going st) \<and> ed_rel hs st z
    | Some (Inr t) \<Rightarrow> \<exists>out. r = Some (Finished t out))"

lemma step_sim_stay: "ed_rel hs st z \<Longrightarrow> step_sim hs (Some (Inl z)) (Some (Going st))"
  by (simp add: step_sim_def)

lemma step_sim_repaint:
  assumes "ed_rel hs st z" "line_ok l" "zl = (take (cursor l) (buf l), drop (cursor l) (buf l))"
  shows "step_sim hs (Some (Inl (z\<lparr>z_line := zl\<rparr>))) (repaint_with st l)"
proof -
  have "ed_rel hs (st\<lparr>lbuf := l\<rparr>) (z\<lparr>z_line := zl\<rparr>)" using assms by (simp add: ed_rel_def)
  then show ?thesis using repaint_with_rel by (fastforce simp: step_sim_def)
qed

lemma step_sim_history:
  assumes "ed_rel hs st z" "i \<le> length hs"
  shows "step_sim hs (Some (Inl (z\<lparr>z_hist := i, z_line := (s, [])\<rparr>)))
    (do { l \<leftarrow> lb_set s (lbuf st); repaint_with (st\<lparr>hist_idx := i\<rparr>) l })"
proof -
  have l: "line_ok (lbuf st)" using assms(1) by (simp add: ed_rel_def)
  obtain l' where l': "lb_set s (lbuf st) = Some l'" "line_ok l'" "buf l' = s" "cursor l' = length s"
    using set_ok [OF l] by blast
  have "ed_rel hs (st\<lparr>hist_idx := i\<rparr>) (z\<lparr>z_hist := i\<rparr>)" using assms by (simp add: ed_rel_def)
  from step_sim_repaint [OF this l'(2)] show ?thesis using l' by simp
qed

lemma key_of_iff:
  "key_of k = Enter \<longleftrightarrow> k = 13 \<or> k = 10" "key_of k = Cancel \<longleftrightarrow> k = 3" "key_of k = Eof \<longleftrightarrow> k = 4"
  "key_of k = Backspace \<longleftrightarrow> k = 8 \<or> k = 127" "key_of k = Delete \<longleftrightarrow> k = K_DELETE" "key_of k = Left \<longleftrightarrow> k = K_LEFT"
  "key_of k = Right \<longleftrightarrow> k = K_RIGHT" "key_of k = Home \<longleftrightarrow> k = K_HOME" "key_of k = End \<longleftrightarrow> k = K_END"
  "key_of k = Up \<longleftrightarrow> k = K_UP" "key_of k = Down \<longleftrightarrow> k = K_DOWN"
  by (simp_all add: key_of_def key_codes)

lemma key_of_char:
  "key_of k = Char c \<Longrightarrow> k \<ge> 32 \<and> k \<noteq> 127 \<and> (k < 1000 \<or> k > 1006) \<and> c = char_of (nat k)"
  "key_of k = Ignored \<Longrightarrow> k < 32 \<and> k \<noteq> 13 \<and> k \<noteq> 10 \<and> k \<noteq> 3 \<and> k \<noteq> 4 \<and> k \<noteq> 8"
  by (simp_all add: key_of_def key_codes split: if_splits) arith

lemma key_step_sim:
  assumes "ed_rel hs st z"
  shows "step_sim hs (zed_step ic hs (key_of k) z) (key_step ic hs k st)"
proof -
  let ?l = "lbuf st"
  have l: "line_ok ?l" and zl: "z_line z = (take (cursor ?l) (buf ?l), drop (cursor ?l) (buf ?l))"
    and zh: "hist_idx st = z_hist z" "z_hist z \<le> length hs"
    using assms by (simp_all add: ed_rel_def)
  have c: "cursor ?l \<le> len ?l" using l by (simp add: line_ok_def)
  note simps = key_step_def key_of_iff key_codes Let_def
  show ?thesis
  proof (cases "key_of k")
    case Enter
    then have "key_step ic hs k st = enter_key ic st" by (auto simp: simps)
    then show ?thesis using enter_rel [OF assms, of ic] Enter by (simp add: step_sim_def)
  next
    case Cancel
    then have "key_step ic hs k st = Some (Finished (Some []) (out_seq st @ [Puts ''^C'', Carriage_return, Line_feed]))"
      by (simp add: simps)
    then show ?thesis using Cancel by (simp add: step_sim_def)
  next
    case Eof
    then have "k = 4" by (auto simp: simps)
    moreover have "z_line z = ([], []) \<longleftrightarrow> len ?l = 0" using zl c by auto
    ultimately show ?thesis using assms Eof by (simp add: key_step_def step_sim_def ed_rel_def)
  next
    case Backspace
    obtain l' where l': "lb_backspace ?l = Some l'" "line_ok l'"
      "(take (cursor l') (buf l'), drop (cursor l') (buf l')) = zip_edit Backspace (z_line z)"
      using backspace_ok [OF l] zl by metis
    have "key_step ic hs k st = repaint_with st l'" using Backspace l'(1) by (auto simp: simps)
    then show ?thesis using step_sim_repaint [OF assms l'(2) l'(3) [symmetric]] Backspace by simp
  next
    case Delete
    have "key_step ic hs k st = repaint_with st (lb_delete ?l)" using Delete by (auto simp: simps)
    then show ?thesis using step_sim_repaint [OF assms, of "lb_delete ?l"] delete_ok [OF l] Delete zl by simp
  next
    case Left
    then have k: "key_step ic hs k st = (if cursor ?l > 0 then repaint_with st (?l\<lparr>cursor := cursor ?l - 1\<rparr>) else Some (Going st))"
      by (auto simp: simps)
    show ?thesis
    proof (cases "cursor ?l > 0")
      case True
      have "zip_edit Left (z_line z) = (take (cursor ?l - 1) (buf ?l), drop (cursor ?l - 1) (buf ?l))"
      proof -
        have ne: "take (cursor ?l) (buf ?l) \<noteq> []" using True c by auto
        show ?thesis by (simp only: zl zip_edit.simps ne if_False cursor_moves(1) [OF True c])
      qed
      moreover have "line_ok (?l\<lparr>cursor := cursor ?l - 1\<rparr>)" using l by (auto simp: line_ok_def)
      ultimately show ?thesis using step_sim_repaint [OF assms, of "?l\<lparr>cursor := cursor ?l - 1\<rparr>"] True k Left by simp
    next
      case False
      then have "z\<lparr>z_line := zip_edit Left (z_line z)\<rparr> = z" using zl by simp
      then show ?thesis using step_sim_stay [OF assms] False k Left by simp
    qed
  next
    case Right
    then have k: "key_step ic hs k st = (if cursor ?l < len ?l then repaint_with st (?l\<lparr>cursor := cursor ?l + 1\<rparr>) else Some (Going st))"
      by (auto simp: simps)
    show ?thesis
    proof (cases "cursor ?l < len ?l")
      case True
      have "zip_edit Right (z_line z) = (take (cursor ?l + 1) (buf ?l), drop (cursor ?l + 1) (buf ?l))"
      proof -
        have ne: "drop (cursor ?l) (buf ?l) \<noteq> []" using True by auto
        show ?thesis by (simp only: zl zip_edit.simps ne if_False cursor_moves(2) [OF True])
      qed
      then show ?thesis using step_sim_repaint [OF assms, of "?l\<lparr>cursor := cursor ?l + 1\<rparr>"] l True k Right
        by (simp add: line_ok_def)
    next
      case False
      then have "z\<lparr>z_line := zip_edit Right (z_line z)\<rparr> = z" using zl by simp
      then show ?thesis using step_sim_stay [OF assms] False k Right by simp
    qed
  next
    case Home
    have "key_step ic hs k st = repaint_with st (?l\<lparr>cursor := 0\<rparr>)" using Home by (auto simp: simps)
    then show ?thesis using step_sim_repaint [OF assms, of "?l\<lparr>cursor := 0\<rparr>"] l Home zl by (simp add: line_ok_def)
  next
    case End
    have "key_step ic hs k st = repaint_with st (?l\<lparr>cursor := len ?l\<rparr>)" using End by (auto simp: simps)
    then show ?thesis using step_sim_repaint [OF assms, of "?l\<lparr>cursor := len ?l\<rparr>"] l End zl by (simp add: line_ok_def)
  next
    case Up
    then have "k = K_UP" by (auto simp: simps)
    then show ?thesis using Up step_sim_stay [OF assms] step_sim_history [OF assms, of "z_hist z - 1" "hs ! (z_hist z - 1)"] zh
      by (cases "z_hist z") (auto simp: key_step_def key_codes Let_def)
  next
    case Down
    then have "k = K_DOWN" by (auto simp: simps)
    then show ?thesis using Down step_sim_stay [OF assms] zh
        step_sim_history [OF assms, of "z_hist z + 1" "if z_hist z + 1 = length hs then [] else hs ! (z_hist z + 1)"]
      by (auto simp: key_step_def key_codes Let_def)
  next
    case (Char ch)
    obtain l' where l': "lb_insert ch ?l = Some l'" "line_ok l'"
      "buf l' = take (cursor ?l) (buf ?l) @ ch # drop (cursor ?l) (buf ?l)" "cursor l' = cursor ?l + 1"
      using insert_ok [OF l] by blast
    have ne: "k \<noteq> 13" "k \<noteq> 10" "k \<noteq> 3" "k \<noteq> 4" "k \<noteq> 8" "k \<noteq> 127" "k \<noteq> K_DELETE" "k \<noteq> K_LEFT" "k \<noteq> K_RIGHT"
      "k \<noteq> K_HOME" "k \<noteq> K_END" "k \<noteq> K_UP" "k \<noteq> K_DOWN" "k \<ge> 32" "ch = char_of (nat k)"
      using key_of_char(1) [OF Char] by (auto simp: key_codes)
    have "key_step ic hs k st = do { l \<leftarrow> lb_insert ch ?l; repaint_with st l }"
      unfolding ne(15) by (simp only: key_step_def Let_def ne(1-14) simp_thms if_True if_False)
    then have "key_step ic hs k st = repaint_with st l'" by (simp add: l'(1))
    moreover have "zip_edit (Char ch) (z_line z) = (take (cursor l') (buf l'), drop (cursor l') (buf l'))"
      using l'(3,4) zl c by simp
    ultimately show ?thesis using step_sim_repaint [OF assms l'(2)] Char by simp
  next
    case Ignored
    then have "key_step ic hs k st = Some (Going st)" using key_of_char(2) [OF Ignored] by (simp add: simps)
    moreover have "z\<lparr>z_line := zip_edit Ignored (z_line z)\<rparr> = z" using zl by simp
    ultimately show ?thesis using step_sim_stay [OF assms] Ignored by simp
  qed
qed

lemma run_keys_sim: "ed_rel hs st z \<Longrightarrow> step_sim hs (zed_run ic hs (map key_of ks) z) (run_keys ic hs ks st)"
proof (induction ks arbitrary: st z)
  case (Cons k ks)
  have s: "step_sim hs (zed_step ic hs (key_of k) z) (key_step ic hs k st)" using key_step_sim [OF Cons.prems] .
  show ?case
  proof (cases "zed_step ic hs (key_of k) z")
    case None
    then show ?thesis using s by (simp add: step_sim_def)
  next
    case (Some r)
    show ?thesis
    proof (cases r)
      case (Inl z')
      then obtain st' where "key_step ic hs k st = Some (Going st')" "ed_rel hs st' z'" using s Some by (auto simp: step_sim_def)
      then show ?thesis using Cons.IH Some Inl by simp
    next
      case (Inr t)
      then show ?thesis using s Some by (auto simp: step_sim_def)
    qed
  qed
qed (simp add: step_sim_stay)

lemma edit_start_rel: "\<exists>st. edit_start prompt hs = Some st \<and> ed_rel hs st (zed_start prompt hs)"
  unfolding edit_start_def by (rule repaint_rel) (simp add: ed_rel_def line_ok_def lb_init_def zed_start_def)

text \<open>C23: The line editor edits a line split at the cursor.  On every sequence of keys it does what the
  specification does: the memory operations are in bounds, the text read so far, the line and the
  cursor, the prompt and the place in the history are those of the specification, and it ends on the
  same key with the same result.\<close>

theorem editor_refines_zipper:
  "\<exists>st0. edit_start prompt hs = Some st0 \<and>
    (case zed_run ic hs (map key_of ks) (zed_start prompt hs) of
       None \<Rightarrow> run_keys ic hs ks st0 = None
     | Some (Inl z) \<Rightarrow> \<exists>st. run_keys ic hs ks st0 = Some (Going st) \<and> full st = z_text z \<and>
         buf (lbuf st) = fst (z_line z) @ snd (z_line z) \<and> cursor (lbuf st) = length (fst (z_line z)) \<and>
         cur_prompt st = z_prompt z \<and> hist_idx st = z_hist z
     | Some (Inr r) \<Rightarrow> \<exists>out. run_keys ic hs ks st0 = Some (Finished r out))"
proof -
  obtain st0 where s: "edit_start prompt hs = Some st0" "ed_rel hs st0 (zed_start prompt hs)" using edit_start_rel by blast
  from run_keys_sim [OF s(2), of ic ks] show ?thesis using s(1)
    by (auto simp: step_sim_def ed_rel_def line_ok_def split: option.splits sum.splits)
qed

section \<open>Leaving the editor\<close>

lemma run_keys_append:
  "run_keys ic hs (ks @ ks') st = (case run_keys ic hs ks st of Some (Going st') \<Rightarrow> run_keys ic hs ks' st' | r \<Rightarrow> r)"
  by (induction ks arbitrary: st) (auto split: option.splits outcome.splits)

lemma zed_enter:
  assumes "ic (z_text z @ (fst (z_line z) @ snd (z_line z)) @ [CHR 0x0A]) \<noteq> None"
  shows "(\<exists>t. zed_step ic hs Enter z = Some (Inr (Some t))) \<or>
    (\<exists>z'. zed_step ic hs Enter z = Some (Inl z') \<and> z_text z' = z_text z @ (fst (z_line z) @ snd (z_line z)) @ [CHR 0x0A] \<and>
      z_line z' = ([], []) \<and> (fst (z_line z) @ snd (z_line z) = [] \<longrightarrow> z_blank z = 0 \<and> z_blank z' = 1))"
proof -
  obtain d where d: "ic (z_text z @ (fst (z_line z) @ snd (z_line z)) @ [CHR 0x0A]) = Some d" using assms by blast
  show ?thesis
  proof (cases "d \<or> fst (z_line z) @ snd (z_line z) = [] \<and> z_blank z \<ge> 1")
    case True
    then have "zed_step ic hs Enter z = Some (Inr (Some (z_text z @ (fst (z_line z) @ snd (z_line z)) @ [CHR 0x0A])))"
      by (simp only: zed_step.simps Let_def d option.case if_True)
    then show ?thesis by blast
  next
    case False
    then have "zed_step ic hs Enter z = Some (Inl \<lparr>z_text = z_text z @ (fst (z_line z) @ snd (z_line z)) @ [CHR 0x0A],
        z_line = ([], []), z_prompt = displayed_hint (pending (z_text z @ (fst (z_line z) @ snd (z_line z)) @ [CHR 0x0A])),
        z_blank = (if fst (z_line z) @ snd (z_line z) = [] then z_blank z + 1 else 0), z_hist = z_hist z\<rparr>)"
      by (simp only: zed_step.simps Let_def d option.case if_False)
    with False show ?thesis by (intro disjI2 exI conjI) (assumption, auto)
  qed
qed

lemma three_enters:
  assumes "\<forall>n \<le> 2. ic (z_text z @ (fst (z_line z) @ snd (z_line z)) @ replicate (n + 1) (CHR 0x0A)) \<noteq> None"
  shows "\<exists>n t. n \<le> 3 \<and> zed_run ic hs (replicate n Enter) z = Some (Inr (Some t))"
proof -
  let ?tx = "z_text z @ (fst (z_line z) @ snd (z_line z)) @ [CHR 0x0A]"
  have ic: "ic ?tx \<noteq> None" "ic (?tx @ [CHR 0x0A]) \<noteq> None" "ic (?tx @ [CHR 0x0A, CHR 0x0A]) \<noteq> None"
    using assms [rule_format, of 0] assms [rule_format, of 1] assms [rule_format, of 2] by (simp_all add: numeral_2_eq_2)
  have one: ?thesis if "zed_step ic hs Enter z = Some (Inr (Some t))" for t
    using that by (intro exI [of _ 1] exI [of _ t]) simp
  from zed_enter [where ic = ic and z = z and hs = hs, OF ic(1)] consider t where "zed_step ic hs Enter z = Some (Inr (Some t))"
    | z1 where "zed_step ic hs Enter z = Some (Inl z1)" "z_text z1 = ?tx" "z_line z1 = ([], [])" by fast
  then show ?thesis
  proof cases
    case 1
    then show ?thesis by (rule one)
  next
    case z1: (2 z1)
  have two: ?thesis if "zed_step ic hs Enter z1 = Some (Inr (Some t))" for t
    using that z1(1) by (intro exI [of _ 2] exI [of _ t]) (simp add: numeral_2_eq_2 del: zed_step.simps)
  have "ic (z_text z1 @ (fst (z_line z1) @ snd (z_line z1)) @ [CHR 0x0A]) \<noteq> None" using ic(2) z1 by simp
  from zed_enter [where ic = ic and z = z1 and hs = hs, OF this] consider t where "zed_step ic hs Enter z1 = Some (Inr (Some t))"
    | z2 where "zed_step ic hs Enter z1 = Some (Inl z2)" "z_text z2 = ?tx @ [CHR 0x0A]" "z_line z2 = ([], [])" "z_blank z2 = 1"
    using z1 by auto
  then show ?thesis
  proof cases
    case 1
    then show ?thesis by (rule two)
  next
    case z2: (2 z2)
  have "ic (z_text z2 @ (fst (z_line z2) @ snd (z_line z2)) @ [CHR 0x0A]) \<noteq> None" using ic(3) z2 by simp
  from zed_enter [where ic = ic and z = z2 and hs = hs, OF this] z2 obtain t where "zed_step ic hs Enter z2 = Some (Inr (Some t))" by auto
  then show ?thesis using z1(1) z2(1) by (intro exI [of _ 3] exI [of _ t]) (simp add: numeral_3_eq_3 del: zed_step.simps)
  qed
  qed
qed

text \<open>C24: The user is never trapped in a continuation.  Whatever was typed before, at most three
  presses of Enter end the reading and hand the text to the caller, complete or not, provided the
  completeness test answers on the text and on the text followed by one and two blank lines.\<close>

theorem enter_always_leaves:
  assumes "edit_start prompt hs = Some st0" "run_keys ic hs ks st0 = Some (Going st)"
    and "\<forall>n \<le> 2. ic (full st @ buf (lbuf st) @ replicate (n + 1) (CHR 0x0A)) \<noteq> None"
  shows "\<exists>n t out. n \<le> 3 \<and> run_keys ic hs (ks @ replicate n 13) st0 = Some (Finished (Some t) out)"
proof -
  have r: "ed_rel hs st0 (zed_start prompt hs)" using edit_start_rel [of prompt hs] assms(1) by auto
  obtain z where z: "ed_rel hs st z"
    using run_keys_sim [OF r, of ic ks] assms(2) by (auto simp: step_sim_def split: option.splits sum.splits)
  have "z_text z = full st" "fst (z_line z) @ snd (z_line z) = buf (lbuf st)" using z by (simp_all add: ed_rel_def)
  then obtain n t where n: "n \<le> 3" "zed_run ic hs (replicate n Enter) z = Some (Inr (Some t))"
    using three_enters [of ic z hs] assms(3) by auto
  have "map key_of (replicate n 13) = replicate n Enter" by (simp add: key_of_def)
  then obtain out where "run_keys ic hs (replicate n 13) st = Some (Finished (Some t) out)"
    using run_keys_sim [OF z, of ic "replicate n 13"] n(2) by (auto simp: step_sim_def)
  then show ?thesis using n(1) assms(2) by (auto simp: run_keys_append)
qed

lemma enter_always_leaves_witness:
  "\<exists>st0 n t out. edit_start ''> '' [] = Some st0 \<and> n \<le> 3 \<and>
    run_keys (\<lambda>s. Some False) [] ([40, 49] @ replicate n 13) st0 = Some (Finished (Some t) out)"
proof -
  have "(case edit_start ''> '' [] of None \<Rightarrow> False | Some st \<Rightarrow>
      (case run_keys (\<lambda>s. Some False) [] [40, 49] st of Some (Going st') \<Rightarrow> True | _ \<Rightarrow> False))"
    by code_simp
  then obtain st0 st where s: "edit_start ''> '' [] = Some st0" "run_keys (\<lambda>s. Some False) [] [40, 49] st0 = Some (Going st)"
    by (auto split: option.splits outcome.splits)
  from enter_always_leaves [OF s] show ?thesis using s(1) by auto
qed

text \<open>At the end of standard input every read yields the code of Ctrl-D, which is ignored while there
  is text: a terminal that hangs up in the middle of an input leaves the editor in an endless loop.\<close>

lemma hangup_never_ends:
  assumes "buf (lbuf st) \<noteq> [] \<or> full st \<noteq> []"
  shows "edit_loop ic hs st [] = None"
proof -
  have "edit_loop ic hs st inp = Some r \<Longrightarrow> inp = [] \<Longrightarrow> buf (lbuf st) \<noteq> [] \<or> full st \<noteq> [] \<Longrightarrow> False" for st inp r
  proof (induction rule: edit_loop.raw_induct [rotated, consumes 1, case_names 1])
    case (1 loop ic hs st inp r)
    have "key_step ic hs 4 st = Some (Going st)" using 1(4) by (auto simp: key_step_def)
    then have "loop ic hs st [] = Some r" using 1(2,3) by (simp add: repl_term_read_key_def)
    then show ?case using 1(1) 1(4) by blast
  qed
  then show ?thesis using assms by (cases "edit_loop ic hs st []") blast+
qed

lemma hangup_example: "read_interactive ic prompt e ''x'' = None"
proof -
  obtain st where s: "edit_start prompt (hist e) = Some st" "ed_rel (hist e) st (zed_start prompt (hist e))"
    using edit_start_rel by blast
  have "key_of 120 = Char CHR ''x''" by (simp add: key_of_def key_codes) code_simp
  from key_step_sim [OF s(2), of ic 120] this obtain st' where
    st': "key_step ic (hist e) 120 st = Some (Going st')" "ed_rel (hist e) st' (zed_start prompt (hist e)\<lparr>z_line := (''x'', [])\<rparr>)"
    by (auto simp: step_sim_def zed_start_def)
  have "buf (lbuf st') \<noteq> []" using st'(2) by (auto simp: ed_rel_def)
  then have "edit_loop ic (hist e) st' [] = None" using hangup_never_ends by blast
  then have "edit_loop ic (hist e) st ''x'' = None"
    using st'(1) by (subst edit_loop.simps) (simp add: repl_term_read_key_def ccode_def)
  then show ?thesis using s(1) by (simp add: read_interactive_def)
qed

end
