(* ===== verification/Repl_Screen.thy ===== *)
theory Repl_Screen
  imports Repl_Line_Spec
begin

text \<open>
  What the user sees while editing, and what the history keeps.  The terminal is an interface: the
  row of the cursor as a function from columns to bytes, and the laws of the control functions that
  the editor sends (ECMA-48) for lines that do not wrap.
\<close>

section \<open>The row of a terminal\<close>

definition ascii_print :: "char \<Rightarrow> bool" where
  "ascii_print c \<longleftrightarrow> 32 \<le> ccode c \<and> ccode c < 127"

locale vt_row =
  fixes exec :: "term_out \<Rightarrow> 's \<Rightarrow> 's" and cell :: "'s \<Rightarrow> nat \<Rightarrow> char" and col :: "'s \<Rightarrow> nat"
  assumes puts_Nil: "exec (Puts []) s = s"
    and puts_Cons: "exec (Puts (c # t)) s = exec (Puts t) (exec (Puts [c]) s)"
    and puts_one: "ascii_print c \<Longrightarrow> cell (exec (Puts [c]) s) = (cell s)(col s := c)"
      "ascii_print c \<Longrightarrow> col (exec (Puts [c]) s) = col s + 1"
    and carriage_return: "cell (exec Carriage_return s) = cell s" "col (exec Carriage_return s) = 0"
    and erase_to_end: "cell (exec Erase_to_end s) = (\<lambda>i. if i < col s then cell s i else CHR '' '')"
      "col (exec Erase_to_end s) = col s"
    and to_column: "0 < n \<Longrightarrow> cell (exec (To_column n) s) = cell s" "0 < n \<Longrightarrow> col (exec (To_column n) s) = n - 1"

text \<open>The row holds a text and blanks after it, and the cursor is at a column.\<close>

definition row_is :: "(nat \<Rightarrow> char) \<Rightarrow> nat \<Rightarrow> string \<Rightarrow> nat \<Rightarrow> bool" where
  "row_is cells c t k \<longleftrightarrow> (\<forall>i. cells i = (if i < length t then t ! i else CHR '' '')) \<and> c = k"

definition screen_inv :: "('s \<Rightarrow> nat \<Rightarrow> char) \<Rightarrow> ('s \<Rightarrow> nat) \<Rightarrow> 's \<Rightarrow> EditState \<Rightarrow> bool" where
  "screen_inv cell col s st \<longleftrightarrow>
     row_is (cell s) (col s) (cur_prompt st @ buf (lbuf st)) (length (cur_prompt st) + cursor (lbuf st)) \<and>
     shown (lbuf st) = buf (lbuf st) \<and> list_all ascii_print (cur_prompt st @ buf (lbuf st))"

lemma common_prefix_take: "common_prefix a b \<le> length a \<and> common_prefix a b \<le> length b \<and>
    take (common_prefix a b) a = take (common_prefix a b) b"
  by (induction a b rule: common_prefix.induct) auto

context vt_row begin

lemma exec_puts:
  "list_all ascii_print t \<Longrightarrow>
   cell (exec (Puts t) s) = (\<lambda>i. if col s \<le> i \<and> i < col s + length t then t ! (i - col s) else cell s i) \<and>
   col (exec (Puts t) s) = col s + length t"
proof (induction t arbitrary: s)
  case (Cons c t)
  then have p: "cell (exec (Puts [c]) s) = (cell s)(col s := c)" "col (exec (Puts [c]) s) = col s + 1"
    using puts_one by simp_all
  have "cell (exec (Puts t) (exec (Puts [c]) s)) =
      (\<lambda>i. if col s + 1 \<le> i \<and> i < col s + 1 + length t then t ! (i - (col s + 1)) else ((cell s)(col s := c)) i) \<and>
      col (exec (Puts t) (exec (Puts [c]) s)) = col s + 1 + length t"
    using Cons.IH [of "exec (Puts [c]) s"] Cons.prems unfolding p by simp
  then show ?case unfolding puts_Cons [of c t] by (auto simp: fun_eq_iff nth_Cons')
qed (auto simp: puts_Nil fun_eq_iff)

definition run :: "term_out list \<Rightarrow> 's \<Rightarrow> 's" where
  "run out s = fold exec out s"

lemma redraw_row:
  assumes r: "redraw p l = Some (out, l')" and a: "list_all ascii_print (p @ buf l)"
    and s: "prompt_cols l \<noteq> 0 \<Longrightarrow> \<exists>k. row_is (cell s) (col s) (p @ shown l) k"
  shows "row_is (cell (run out s)) (col (run out s)) (p @ buf l) (length p + cursor l)" "shown l' = buf l"
    "buf l' = buf l" "cursor l' = cursor l"
proof -
  define s1 where "s1 = (if prompt_cols l = 0 then fold exec [Carriage_return, Erase_to_end, Puts p] s else s)"
  define sh where "sh = (if prompt_cols l = 0 then [] else shown l)"
  define i where "i = common_prefix sh (buf l)"
  have i: "i \<le> length sh" "i \<le> len l" "take i sh = take i (buf l)" using common_prefix_take [of sh "buf l"] by (simp_all add: i_def)
  have ap: "list_all ascii_print p" "list_all ascii_print (drop i (buf l))" using a by (auto simp: list_all_iff dest: in_set_dropD)
  have c1: "cell s1 = (\<lambda>j. if j < length (p @ sh) then (p @ sh) ! j else CHR '' '')"
  proof (cases "prompt_cols l = 0")
    case True
    then show ?thesis using exec_puts [OF ap(1)] carriage_return erase_to_end by (auto simp: s1_def sh_def)
  next
    case False
    then show ?thesis using s by (auto simp: s1_def sh_def row_is_def)
  qed
  let ?out = "[Carriage_return, To_column (length p + i + 1)] @ (if i < len l then [Puts (drop i (buf l))] else []) @
     (if length sh > len l then [Erase_to_end] else []) @ [Carriage_return, To_column (length p + cursor l + 1)]"
  have out: "run out s = fold exec ?out s1" "shown l' = buf l" "buf l' = buf l" "cursor l' = cursor l"
    using r by (auto simp: redraw_def run_def s1_def sh_def i_def Let_def split: if_splits)
  define s2 where "s2 = fold exec ([Carriage_return, To_column (length p + i + 1)] @ (if i < len l then [Puts (drop i (buf l))] else [])) s1"
  have s2: "cell s2 = (\<lambda>j. if length p + i \<le> j \<and> j < length p + len l then buf l ! (j - length p) else cell s1 j)"
    "col s2 = length p + len l"
    using exec_puts [OF ap(2)] i(2) by (auto simp: s2_def carriage_return to_column fun_eq_iff)
  define s3 where "s3 = fold exec (if length sh > len l then [Erase_to_end] else []) s2"
  have sm: "sh ! j = buf l ! j" if "j < i" for j using i(3) that by (metis nth_take)
  have s3: "cell s3 j = (if j < length (p @ buf l) then (p @ buf l) ! j else CHR '' '')" for j
  proof (cases "length sh > len l")
    case True
    then show ?thesis using i sm by (auto simp: s3_def erase_to_end s2 c1 nth_append)
  next
    case False
    then show ?thesis using i sm by (auto simp: s3_def s2 c1 nth_append)
  qed
  have "run out s = fold exec [Carriage_return, To_column (length p + cursor l + 1)] s3"
    unfolding out(1) s3_def s2_def by (simp only: fold_append comp_apply)
  then show "row_is (cell (run out s)) (col (run out s)) (p @ buf l) (length p + cursor l)"
    using s3 by (simp add: row_is_def carriage_return to_column)
qed (use r in \<open>auto simp: redraw_def Let_def split: if_splits\<close>)

lemma repaint_screen:
  assumes "repaint st = Some st'" "list_all ascii_print (cur_prompt st @ buf (lbuf st))"
    and "prompt_cols (lbuf st) \<noteq> 0 \<Longrightarrow>
      \<exists>k. row_is (cell (run (out_seq st) s)) (col (run (out_seq st) s)) (cur_prompt st @ shown (lbuf st)) k"
  shows "screen_inv cell col (run (out_seq st') s) st'"
proof -
  obtain out l' where r: "redraw (cur_prompt st) (lbuf st) = Some (out, l')" "st' = st\<lparr>lbuf := l', out_seq := out_seq st @ out\<rparr>"
    using assms(1) by (auto simp: repaint_def split: bind_splits)
  have "run (out_seq st @ out) s = run out (run (out_seq st) s)" by (simp add: run_def)
  then show ?thesis using redraw_row [OF r(1) assms(2,3)] assms(2) r(2) by (simp add: screen_inv_def)
qed

text \<open>A change of the line that keeps what is shown, followed by a repaint.\<close>

lemma repaint_with_screen:
  assumes "repaint_with st l = Some (Going st')" "screen_inv cell col (run (out_seq st) s) st" "shown l = shown (lbuf st)"
    "list_all ascii_print (buf l)"
  shows "screen_inv cell col (run (out_seq st') s) st'"
proof -
  have "repaint (st\<lparr>lbuf := l\<rparr>) = Some st'" using assms(1) by (auto simp: repaint_with_def)
  then show ?thesis by (rule repaint_screen) (use assms in \<open>auto simp: screen_inv_def\<close>)
qed

end

text \<open>How a key can change the line.\<close>

definition line_edit :: "string list \<Rightarrow> Key \<Rightarrow> LineBuf \<Rightarrow> LineBuf \<Rightarrow> bool" where
  "line_edit hs key l l' \<longleftrightarrow>
     (\<exists>c. key = Char c \<and> lb_insert c l = Some l') \<or> lb_backspace l = Some l' \<or> l' = lb_delete l \<or>
     (\<exists>n. l' = l\<lparr>cursor := n\<rparr>) \<or> (\<exists>t. (t = [] \<or> t \<in> set hs) \<and> lb_set t l = Some l')"

lemma line_edit_cursor: "line_edit hs key l (l\<lparr>cursor := n\<rparr>)"
  by (auto simp: line_edit_def)

lemma line_edit_set: "t = [] \<or> t \<in> set hs \<Longrightarrow> lb_set t l = Some l' \<Longrightarrow> line_edit hs key l l'"
  by (auto simp: line_edit_def)

lemma key_step_cases:
  assumes "key_step ic hs k st = Some (Going st')"
  obtains "st' = st" | "enter_key ic st = Some (Going st')"
  | j l where "repaint_with (st\<lparr>hist_idx := j\<rparr>) l = Some (Going st')" "line_edit hs (key_of k) (lbuf st) l"
proof -
  have st: "repaint_with st l = Some (Going st') \<Longrightarrow> line_edit hs (key_of k) (lbuf st) l \<Longrightarrow> thesis" for l
    using that(3) [of "hist_idx st" l] by simp
  show thesis
  proof (cases "key_of k")
    case Enter
    then have "key_step ic hs k st = enter_key ic st" by (auto simp: key_step_def key_of_iff)
    then show thesis using assms that(2) by simp
  next
    case (Char c)
    have ne: "k \<noteq> 13" "k \<noteq> 10" "k \<noteq> 3" "k \<noteq> 4" "k \<noteq> 8" "k \<noteq> 127" "k \<noteq> K_DELETE" "k \<noteq> K_LEFT" "k \<noteq> K_RIGHT"
      "k \<noteq> K_HOME" "k \<noteq> K_END" "k \<noteq> K_UP" "k \<noteq> K_DOWN" "k \<ge> 32" "c = char_of (nat k)"
      using key_of_char(1) [OF Char] by (auto simp: key_codes)
    have "key_step ic hs k st = do { l \<leftarrow> lb_insert c (lbuf st); repaint_with st l }"
      unfolding ne(15) by (simp only: key_step_def Let_def ne(1-14) simp_thms if_True if_False)
    then obtain l where l: "lb_insert c (lbuf st) = Some l" "repaint_with st l = Some (Going st')"
      using assms by (auto split: bind_splits)
    show thesis by (rule st [OF l(2)]) (use l(1) Char in \<open>simp add: line_edit_def\<close>)
  next
    case Backspace
    then obtain l where l: "lb_backspace (lbuf st) = Some l" "repaint_with st l = Some (Going st')"
      using assms by (auto simp: key_step_def key_of_iff split: bind_splits)
    show thesis by (rule st [OF l(2)]) (use l(1) in \<open>simp add: line_edit_def\<close>)
  next
    case Delete
    then have l: "repaint_with st (lb_delete (lbuf st)) = Some (Going st')"
      using assms by (auto simp: key_step_def key_of_iff key_codes Let_def)
    show thesis by (rule st [OF l]) (simp add: line_edit_def)
  next
    case Left
    then have "key_step ic hs k st = (if cursor (lbuf st) > 0 then repaint_with st ((lbuf st)\<lparr>cursor := cursor (lbuf st) - 1\<rparr>) else Some (Going st))"
      by (simp add: key_step_def key_of_iff key_codes Let_def)
    then show thesis using assms that(1) st [OF _ line_edit_cursor] by (auto split: if_splits)
  next
    case Right
    then have "key_step ic hs k st = (if cursor (lbuf st) < len (lbuf st) then repaint_with st ((lbuf st)\<lparr>cursor := cursor (lbuf st) + 1\<rparr>) else Some (Going st))"
      by (simp add: key_step_def key_of_iff key_codes Let_def)
    then show thesis using assms that(1) st [OF _ line_edit_cursor] by (auto split: if_splits)
  next
    case Home
    then have "key_step ic hs k st = repaint_with st ((lbuf st)\<lparr>cursor := 0\<rparr>)" by (simp add: key_step_def key_of_iff key_codes Let_def)
    then show thesis using assms st [OF _ line_edit_cursor] by simp
  next
    case End
    then have "key_step ic hs k st = repaint_with st ((lbuf st)\<lparr>cursor := len (lbuf st)\<rparr>)" by (simp add: key_step_def key_of_iff key_codes Let_def)
    then show thesis using assms st [OF _ line_edit_cursor] by simp
  next
    case Up
    then have k: "k = K_UP" by (simp add: key_of_iff)
    show thesis
    proof (cases "hist_idx st > 0")
      case True
      then obtain l where l: "hist_idx st - 1 < length hs" "lb_set (hs ! (hist_idx st - 1)) (lbuf st) = Some l"
        "repaint_with (st\<lparr>hist_idx := hist_idx st - 1\<rparr>) l = Some (Going st')"
        using assms k by (auto simp: key_step_def key_codes Let_def not_le split: if_splits bind_splits)
      show thesis by (rule that(3) [OF l(3) line_edit_set [OF _ l(2)]]) (use l(1) in simp)
    next
      case False
      then show thesis using assms that(1) k by (simp add: key_step_def key_codes Let_def)
    qed
  next
    case Down
    then have k: "k = K_DOWN" by (simp add: key_of_iff)
    show thesis
    proof (cases "hist_idx st < length hs")
      case True
      then obtain l where l: "lb_set (if hist_idx st + 1 = length hs then [] else hs ! (hist_idx st + 1)) (lbuf st) = Some l"
        "repaint_with (st\<lparr>hist_idx := hist_idx st + 1\<rparr>) l = Some (Going st')"
        using assms k by (auto simp: key_step_def key_codes Let_def split: if_splits bind_splits)
      show thesis by (rule that(3) [OF l(2) line_edit_set [OF _ l(1)]]) (use True in auto)
    next
      case False
      then show thesis using assms that(1) k by (simp add: key_step_def key_codes Let_def)
    qed
  next
    case Ignored
    then have "key_step ic hs k st = Some (Going st)" using key_of_char(2) [OF Ignored] by (simp add: key_step_def key_codes Let_def)
    then show thesis using assms that(1) by simp
  next
    case Cancel
    then show thesis using assms by (simp add: key_step_def key_of_iff)
  next
    case Eof
    then show thesis using assms that(1) by (simp add: key_step_def key_of_iff split: if_splits)
  qed
qed

lemma line_edit_shown: "line_edit hs key l l' \<Longrightarrow> shown l' = shown l"
  by (auto simp: line_edit_def lb_insert_def lb_ensure_def lb_backspace_def lb_delete_def lb_set_def Let_def split: if_splits)

lemma list_all_parts: "list_all P xs \<Longrightarrow> list_all P (take n xs) \<and> list_all P (drop n xs)"
  by (auto simp: list_all_iff dest: in_set_takeD in_set_dropD)

lemma line_edit_all:
  assumes "line_edit hs key l l'" "list_all P (buf l)" "\<forall>t \<in> set hs. list_all P t" "\<And>c. key = Char c \<Longrightarrow> P c"
  shows "list_all P (buf l')"
  using assms list_all_parts [OF assms(2)]
  by (auto simp: line_edit_def lb_insert_def lb_ensure_def lb_backspace_def lb_delete_def lb_set_def Let_def split: if_splits)

lemma hint_ascii: "list_all ascii_print (repl_continuation_prompt t 80)"
proof -
  have opn: "is_opener c \<Longrightarrow> ascii_print c" for c by (auto simp: is_opener_def ascii_print_def ccode_def)
  have c: "list_all ascii_print ''..'' \<and> list_all ascii_print ''> '' \<and> ascii_print CHR 0x22 \<and> ascii_print CHR 0x27 \<and>
      list_all ascii_print ''..*/> '' \<and> list_all ascii_print ''...> ''"
    by (simp add: ascii_print_def ccode_def)
  obtain m st where p: "pending t = (m, st)" by (cases "pending t")
  have "list_all is_opener st" using nesting_openers [of "[]" Code t] p by (simp add: pending_def)
  then have "list_all ascii_print (rev (take 4 (drop (length st - STACK_SIZE) st)))"
    using opn by (auto simp: list_all_iff dest: in_set_takeD in_set_dropD)
  then have "list_all ascii_print (shown_delimiters st)" by (simp only: shown_delimiters_def)
  then show ?thesis using c by (cases m) (auto simp: prompt_displayed p displayed_hint_def hint_def)
qed

context vt_row begin

lemma key_step_screen:
  assumes k: "key_step ic hs k st = Some (Going st')" and i: "screen_inv cell col (run (out_seq st) s) st"
    and h: "\<forall>t \<in> set hs. list_all ascii_print t" and c: "\<And>ch. key_of k = Char ch \<Longrightarrow> ascii_print ch"
  shows "screen_inv cell col (run (out_seq st') s) st'"
proof -
  let ?l = "lbuf st"
  have a: "list_all ascii_print (buf ?l)" using i by (simp add: screen_inv_def)
  from k show ?thesis
  proof (rule key_step_cases)
    assume "enter_key ic st = Some (Going st')"
    then obtain tx out n where "repaint (st\<lparr>full := tx, lbuf := lb_init, empty_streak := n,
        cur_prompt := repl_continuation_prompt tx 80, out_seq := out\<rparr>) = Some st'"
      by (auto simp: enter_key_def Let_def split: if_splits bind_splits)
    then show ?thesis by (rule repaint_screen) (use hint_ascii in \<open>simp_all add: lb_init_def\<close>)
  next
    fix j l
    assume r: "repaint_with (st\<lparr>hist_idx := j\<rparr>) l = Some (Going st')" and l: "line_edit hs (key_of k) ?l l"
    have "screen_inv cell col (run (out_seq (st\<lparr>hist_idx := j\<rparr>)) s) (st\<lparr>hist_idx := j\<rparr>)" using i by (simp add: screen_inv_def)
    from repaint_with_screen [OF r this] show ?thesis using line_edit_shown [OF l] line_edit_all [OF l a h c] by simp
  qed (use i in simp)
qed

lemma run_keys_screen:
  "run_keys ic hs ks st = Some (Going st') \<Longrightarrow> screen_inv cell col (run (out_seq st) s) st \<Longrightarrow>
   \<forall>t \<in> set hs. list_all ascii_print t \<Longrightarrow> \<forall>k \<in> set ks. \<forall>c. key_of k = Char c \<longrightarrow> ascii_print c \<Longrightarrow>
   screen_inv cell col (run (out_seq st') s) st'"
proof (induction ks arbitrary: st)
  case (Cons k ks)
  obtain st1 where st1: "key_step ic hs k st = Some (Going st1)" "run_keys ic hs ks st1 = Some (Going st')"
    using Cons.prems(1) by (auto split: option.splits outcome.splits)
  have "screen_inv cell col (run (out_seq st1) s) st1"
    by (rule key_step_screen [OF st1(1) Cons.prems(2,3)]) (use Cons.prems(4) in simp)
  then show ?case by (rule Cons.IH [OF st1(2) _ Cons.prems(3)]) (use Cons.prems(4) in simp)
qed simp

lemma edit_start_screen:
  "edit_start prompt hs = Some st \<Longrightarrow> list_all ascii_print prompt \<Longrightarrow> screen_inv cell col (run (out_seq st) s) st"
  unfolding edit_start_def by (erule repaint_screen) (simp_all add: lb_init_def)

end

section \<open>A terminal\<close>

text \<open>A row and a column: the rows above are gone, a line feed gives a blank one.\<close>

fun row_put :: "string \<Rightarrow> (nat \<Rightarrow> char) \<times> nat \<Rightarrow> (nat \<Rightarrow> char) \<times> nat" where
  "row_put [] r = r"
| "row_put (c # t) (r, k) = row_put t (r(k := c), k + 1)"

fun row_exec :: "term_out \<Rightarrow> (nat \<Rightarrow> char) \<times> nat \<Rightarrow> (nat \<Rightarrow> char) \<times> nat" where
  "row_exec (Puts t) r = row_put t r"
| "row_exec Carriage_return (r, k) = (r, 0)"
| "row_exec Line_feed (r, k) = (\<lambda>_. CHR '' '', k)"
| "row_exec Erase_to_end (r, k) = (\<lambda>i. if i < k then r i else CHR '' '', k)"
| "row_exec (To_column n) (r, k) = (r, n - 1)"

interpretation vt: vt_row row_exec fst snd
  by (unfold_locales; case_tac s; auto simp: fun_eq_iff)

text \<open>C25: The screen shows the line.  The prompt, the history and the keys typed are printable ASCII (a
  byte of a longer UTF-8 character would count as a column), and the terminal is one row that is wide
  enough, so that nothing wraps, and obeys the laws of its control functions.  Then, after any editing
  and history keys, the row of the cursor holds the prompt and the line with blanks after them, and the
  cursor stands at its place in the line: the repaint of what changed is as good as a repaint of the
  whole line.\<close>

theorem screen_shows_line:
  assumes "vt_row exec cell col" "list_all ascii_print prompt" "\<forall>t \<in> set hs. list_all ascii_print t"
    and "\<forall>k \<in> set ks. \<forall>c. key_of k = Char c \<longrightarrow> ascii_print c"
    and "edit_start prompt hs = Some st0" "run_keys ic hs ks st0 = Some (Going st)"
  shows "row_is (cell (fold exec (out_seq st) s)) (col (fold exec (out_seq st) s))
    (cur_prompt st @ buf (lbuf st)) (length (cur_prompt st) + cursor (lbuf st))"
proof -
  note run = vt_row.run_def [OF assms(1)]
  have "screen_inv cell col (fold exec (out_seq st0) s) st0"
    using vt_row.edit_start_screen [OF assms(1,5,2)] by (simp add: run)
  then have "screen_inv cell col (fold exec (out_seq st) s) st"
    using vt_row.run_keys_screen [OF assms(1,6), of s] assms(3,4) by (simp add: run)
  then show ?thesis by (simp add: screen_inv_def)
qed

lemma screen_shows_line_witness:
  "\<exists>st0 st. edit_start ''> '' [''old''] = Some st0 \<and> run_keys (\<lambda>s. Some False) [''old''] [97, 98, K_LEFT, 99] st0 = Some (Going st) \<and>
    row_is (fst (fold row_exec (out_seq st) (\<lambda>_. CHR ''#'', 5))) (snd (fold row_exec (out_seq st) (\<lambda>_. CHR ''#'', 5)))
      (cur_prompt st @ buf (lbuf st)) (length (cur_prompt st) + cursor (lbuf st))"
proof -
  let ?hs = "[''old'']" and ?ks = "[97, 98, K_LEFT, 99]"
  have "(case edit_start ''> '' ?hs of None \<Rightarrow> False | Some st \<Rightarrow>
      (case run_keys (\<lambda>s. Some False) ?hs ?ks st of Some (Going st') \<Rightarrow> True | _ \<Rightarrow> False))"
    by code_simp
  then obtain st0 st where s: "edit_start ''> '' ?hs = Some st0" "run_keys (\<lambda>s. Some False) ?hs ?ks st0 = Some (Going st)"
    by (auto split: option.splits outcome.splits)
  have a: "list_all ascii_print ''> ''" "\<forall>t \<in> set ?hs. list_all ascii_print t" by code_simp+
  have k: "\<forall>k \<in> set ?ks. \<forall>c. key_of k = Char c \<longrightarrow> ascii_print c"
    by (auto simp: key_of_def key_codes ascii_print_def)
  have v: "vt_row row_exec fst snd" by unfold_locales
  from screen_shows_line [OF v a k s, of "(\<lambda>_. CHR ''#'', 5)"] show ?thesis using s by blast
qed
section \<open>History\<close>

text \<open>Entries are non-empty and without line breaks, no entry repeats the one before it, and the array
  has room for them.\<close>

definition hist_ok :: "ReplEditor \<Rightarrow> bool" where
  "hist_ok e \<longleftrightarrow> (\<forall>t \<in> set (hist e). t \<noteq> [] \<and> list_all (\<lambda>c. \<not> is_newline c) t) \<and>
     (\<forall>i. Suc i < length (hist e) \<longrightarrow> hist e ! i \<noteq> hist e ! Suc i) \<and> length (hist e) \<le> hist_cap e"

lemma hist_push_ok:
  assumes "hist_ok e"
  shows "hist_ok (hist_push s e) \<and> (\<exists>t. length t \<le> 1 \<and> hist (hist_push s e) = hist e @ t)"
proof -
  define t where "t = rev (dropWhile is_newline (rev s))"
  define dup where "dup = map (\<lambda>c. if is_newline c then CHR '' '' else c) t"
  show ?thesis
  proof (cases "s = [] \<or> t = [] \<or> hist e \<noteq> [] \<and> last (hist e) = dup")
    case True
    then have "hist_push s e = e" by (auto simp: hist_push_def Let_def t_def dup_def)
    then show ?thesis using assms by simp
  next
    case False
    then have h: "hist (hist_push s e) = hist e @ [dup]"
      "hist_cap (hist_push s e) = (if length (hist e) = hist_cap e then if hist_cap e \<noteq> 0 then hist_cap e * 2 else 16 else hist_cap e)"
      by (auto simp: hist_push_def Let_def t_def dup_def)
    have d: "dup \<noteq> []" "list_all (\<lambda>c. \<not> is_newline c) dup" using False by (auto simp: dup_def list_all_iff is_newline_def)
    have n: "hist (hist_push s e) ! i \<noteq> hist (hist_push s e) ! Suc i" if i: "Suc i < length (hist (hist_push s e))" for i
    proof (cases "Suc i = length (hist e)")
      case True
      then have "last (hist e) = hist e ! i" by (metis diff_Suc_1 last_conv_nth length_0_conv nat.simps(3))
      then show ?thesis using False True h by (auto simp: nth_append)
    next
      case False
      then show ?thesis using i h assms by (auto simp: hist_ok_def nth_append)
    qed
    have "length (hist (hist_push s e)) \<le> hist_cap (hist_push s e)" using h assms by (auto simp: hist_ok_def)
    then show ?thesis using d n h assms by (auto simp: hist_ok_def)
  qed
qed

text \<open>The lines that a key sequence can produce have no line break.\<close>

definition real_key :: "int \<Rightarrow> bool" where
  "real_key k \<longleftrightarrow> k < 256 \<or> 1000 \<le> k \<and> k \<le> 1006"

lemma read_key_real: "real_key (fst (repl_term_read_key inp))"
  by (auto simp: repl_term_read_key_def real_key_def key_codes split: list.splits)

lemma real_key_char: "real_key k \<Longrightarrow> key_of k = Char c \<Longrightarrow> \<not> is_newline c"
proof -
  assume r: "real_key k" "key_of k = Char c"
  then have "32 \<le> k" "k < 256" "c = char_of (nat k)" using key_of_char(1) [OF r(2)] by (auto simp: real_key_def)
  then have "ccode c = nat k" "nat k \<ge> 32" by (simp_all add: ccode_def)
  then have "ccode c \<ge> 32" by simp
  then show ?thesis by (auto simp: is_newline_def ccode_def)
qed

lemma key_step_no_break:
  assumes k: "key_step ic hs k st = Some (Going st')" "real_key k"
    and h: "\<forall>t \<in> set hs. list_all (\<lambda>c. \<not> is_newline c) t" and b: "list_all (\<lambda>c. \<not> is_newline c) (buf (lbuf st))"
  shows "list_all (\<lambda>c. \<not> is_newline c) (buf (lbuf st'))"
proof -
  have r: "repaint st1 = Some st2 \<Longrightarrow> buf (lbuf st2) = buf (lbuf st1)" for st1 st2
    by (auto simp: repaint_def redraw_def Let_def split: if_splits bind_splits)
  from k(1) show ?thesis
  proof (rule key_step_cases)
    assume "enter_key ic st = Some (Going st')"
    then obtain tx out n where "repaint (st\<lparr>full := tx, lbuf := lb_init, empty_streak := n,
        cur_prompt := repl_continuation_prompt tx 80, out_seq := out\<rparr>) = Some st'"
      by (auto simp: enter_key_def Let_def split: if_splits bind_splits)
    then show ?thesis using r by (fastforce simp: lb_init_def)
  next
    fix j l
    assume a: "repaint_with (st\<lparr>hist_idx := j\<rparr>) l = Some (Going st')" and l: "line_edit hs (key_of k) (lbuf st) l"
    have "buf (lbuf st') = buf l" using a r by (fastforce simp: repaint_with_def)
    then show ?thesis using line_edit_all [OF l b h real_key_char [OF k(2)]] by simp
  qed (use b in simp)
qed

lemma run_keys_no_break:
  "run_keys ic hs ks st = Some (Going st') \<Longrightarrow> list_all real_key ks \<Longrightarrow>
   \<forall>t \<in> set hs. list_all (\<lambda>c. \<not> is_newline c) t \<Longrightarrow> list_all (\<lambda>c. \<not> is_newline c) (buf (lbuf st)) \<Longrightarrow>
   list_all (\<lambda>c. \<not> is_newline c) (buf (lbuf st'))"
proof (induction ks arbitrary: st)
  case (Cons k ks)
  then show ?case using key_step_no_break by (fastforce split: option.splits outcome.splits)
qed simp

text \<open>C26: The history stays a history of lines.  Reading an input adds at most one entry, and keeps that
  entries are non-empty, hold no line break and do not repeat the entry before; therefore, whatever
  keys are pressed, recalled entries included, the line being edited never holds a line break.\<close>

theorem history_stays_clean:
  assumes "hist_ok e"
  shows "(\<forall>r e' out rest. read_interactive ic prompt e inp = Some (r, e', out, rest) \<longrightarrow>
      hist_ok e' \<and> (\<exists>t. length t \<le> 1 \<and> hist e' = hist e @ t)) \<and>
    (\<forall>st0 ks st. edit_start prompt (hist e) = Some st0 \<and> list_all real_key ks \<and>
      run_keys ic (hist e) ks st0 = Some (Going st) \<longrightarrow> list_all (\<lambda>c. \<not> is_newline c) (buf (lbuf st)))"
proof (intro conjI allI impI)
  fix r e' out rest assume "read_interactive ic prompt e inp = Some (r, e', out, rest)"
  then have "e' = e \<or> (\<exists>s. e' = hist_push s e)"
    by (auto simp: read_interactive_def split: bind_splits option.splits if_splits)
  then show "hist_ok e'" "\<exists>t. length t \<le> 1 \<and> hist e' = hist e @ t" using hist_push_ok [OF assms] assms by auto
next
  fix st0 ks st
  assume a: "edit_start prompt (hist e) = Some st0 \<and> list_all real_key ks \<and> run_keys ic (hist e) ks st0 = Some (Going st)"
  have "buf (lbuf st0) = []" using a
    by (auto simp: edit_start_def repaint_def redraw_def lb_init_def Let_def split: if_splits bind_splits)
  then show "list_all (\<lambda>c. \<not> is_newline c) (buf (lbuf st))"
    using run_keys_no_break [of ic "hist e" ks st0 st] a assms by (simp add: hist_ok_def)
qed

lemma history_stays_clean_witness:
  "\<exists>r e' out rest. read_interactive (\<lambda>s. Some True) ''> '' (repl_editor_new True True False) [CHR ''a'', CHR 0x0D] = Some (r, e', out, rest) \<and>
    hist e' = [''a''] \<and> hist_ok e'"
proof -
  let ?e = "repl_editor_new True True False"
  have "(case read_interactive (\<lambda>s. Some True) ''> '' ?e [CHR ''a'', CHR 0x0D] of
      Some (r, e', out, rest) \<Rightarrow> hist e' = [''a''] | None \<Rightarrow> False)"
    by code_simp
  then obtain r e' out rest where r: "read_interactive (\<lambda>s. Some True) ''> '' ?e [CHR ''a'', CHR 0x0D] = Some (r, e', out, rest)"
    "hist e' = [''a'']" by (auto split: option.splits)
  have "hist_ok ?e" by (simp add: hist_ok_def repl_editor_new_def)
  from history_stays_clean [OF this] r show ?thesis by blast
qed



end
