(* ===== verification/Doubles.thy ===== *)
theory Doubles
  imports Prelude "HOL-Library.Word"
begin

text \<open>
  The values of type \<open>double\<close> as their bit patterns (IEEE 754 binary64): the conversion from and to
  \<open>long long\<close>, the comparisons and the change of sign, as the C code of the compiler uses them, and
  the lemmas that the integers up to \<open>2 ^ 53\<close> keep their order.
\<close>

section \<open>Bit patterns\<close>

type_synonym double = "64 word"

definition f_zero :: double where "f_zero = 0"

text \<open>The exponent and fraction fields read as one number; the sign is the top bit.\<close>

definition magnitude :: "double \<Rightarrow> nat" where
  "magnitude x = unat x mod 2 ^ 63"

definition f_sign :: "double \<Rightarrow> bool" where
  "f_sign x \<longleftrightarrow> unat x \<ge> 2 ^ 63"

definition INF_BITS :: nat where "INF_BITS = 2047 * 2 ^ 52"

definition f_nan :: "double \<Rightarrow> bool" where
  "f_nan x \<longleftrightarrow> magnitude x > INF_BITS"

text \<open>The order of the numbers is the order of their signed magnitudes.\<close>

definition f_key :: "double \<Rightarrow> int" where
  "f_key x = (if f_sign x then - int (magnitude x) else int (magnitude x))"

definition f_lt :: "double \<Rightarrow> double \<Rightarrow> bool" where
  "f_lt x y \<longleftrightarrow> \<not> f_nan x \<and> \<not> f_nan y \<and> f_key x < f_key y"

definition f_le :: "double \<Rightarrow> double \<Rightarrow> bool" where
  "f_le x y \<longleftrightarrow> \<not> f_nan x \<and> \<not> f_nan y \<and> f_key x \<le> f_key y"

definition f_eq :: "double \<Rightarrow> double \<Rightarrow> bool" where
  "f_eq x y \<longleftrightarrow> \<not> f_nan x \<and> \<not> f_nan y \<and> f_key x = f_key y"

definition f_neg :: "double \<Rightarrow> double" where
  "f_neg x = of_nat ((unat x + 2 ^ 63) mod 2 ^ 64)"

section \<open>Conversions\<close>

fun top_bit :: "nat \<Rightarrow> nat" where
  "top_bit n = (if n < 2 then 0 else Suc (top_bit (n div 2)))"

declare top_bit.simps [simp del]

text \<open>A positive number to the nearest, ties to even.\<close>

definition nat_bits :: "nat \<Rightarrow> nat" where
  "nat_bits n =
     (let e = top_bit n
      in (e + 1022) * 2 ^ 52 +
         (if e \<le> 52 then n * 2 ^ (52 - e)
          else (let u = 2 ^ (e - 52); q = n div u; r = n mod u
                in if 2 * r > u \<or> (2 * r = u \<and> odd q) then q + 1 else q)))"

definition f_of_int :: "64 word \<Rightarrow> double" where
  "f_of_int w =
     (let i = sint w
      in if i = 0 then f_zero
         else if i < 0 then of_nat (2 ^ 63 + nat_bits (nat (- i)))
         else of_nat (nat_bits (nat i)))"

text \<open>A result of signed 64-bit arithmetic; there is none when it overflows.\<close>

definition checked :: "int \<Rightarrow> 64 word option" where
  "checked i = (if - (2 ^ 63) \<le> i \<and> i < 2 ^ 63 then Some (word_of_int i) else None)"

text \<open>Truncation; there is no result for a NaN, an infinity or a number out of range.\<close>

definition f_to_int :: "double \<Rightarrow> 64 word option" where
  "f_to_int x =
     (let e = magnitude x div 2 ^ 52; m = 2 ^ 52 + magnitude x mod 2 ^ 52;
          n = (if e < 1023 then 0 else if e \<ge> 1075 then m * 2 ^ (e - 1075) else m div 2 ^ (1075 - e))
      in if e \<ge> 2047 then None
         else checked (if f_sign x then - int n else int n))"

section \<open>Integers up to \<open>2 ^ 53\<close>\<close>

lemma top_bit_bounds:
  assumes "0 < n"
  shows "2 ^ top_bit n \<le> n \<and> n < 2 ^ Suc (top_bit n)"
  using assms
proof (induction n rule: top_bit.induct)
  case (1 n)
  show ?case
  proof (cases "n < 2")
    case True
    with 1(2) show ?thesis by (subst (1 2) top_bit.simps) simp
  next
    case False
    with 1 have "2 ^ top_bit (n div 2) \<le> n div 2 \<and> n div 2 < 2 ^ Suc (top_bit (n div 2))" by simp
    with False show ?thesis by (subst (1 2) top_bit.simps) (auto simp: less_eq_div_iff_mult_less_eq)
  qed
qed

lemma top_bit_unique:
  assumes "2 ^ e \<le> n" "n < 2 ^ Suc e"
  shows "top_bit n = e"
proof -
  have "0 < n" using assms(1) by (metis gr0I not_one_le_zero one_le_numeral one_le_power order_trans le_zero_eq)
  note b = top_bit_bounds [OF this]
  have "e < Suc (top_bit n)" using b assms by (metis le_less_trans power_less_imp_less_exp one_less_numeral_iff semiring_norm(76))
  moreover have "top_bit n < Suc e" using b assms by (metis le_less_trans power_less_imp_less_exp one_less_numeral_iff semiring_norm(76))
  ultimately show ?thesis by simp
qed

text \<open>The fraction of an exact number with its leading one.\<close>

lemma nat_bits_exact:
  assumes "0 < n" "n \<le> 2 ^ 53"
  shows "\<exists>m. nat_bits n = (top_bit n + 1022) * 2 ^ 52 + m \<and> 2 ^ 52 \<le> m \<and> m < 2 ^ 53 \<and> top_bit n \<le> 53 \<and>
    n * 2 ^ 52 = m * 2 ^ top_bit n"
proof -
  let ?e = "top_bit n"
  note b = top_bit_bounds [OF assms(1)]
  have e: "?e \<le> 53" using b assms(2) by (metis le_trans numeral_One one_less_numeral_iff power_le_imp_le_exp semiring_norm(76))
  show ?thesis
  proof (cases "?e \<le> 52")
    case True
    have split: "(2::nat) ^ 52 = 2 ^ ?e * 2 ^ (52 - ?e)" using True by (simp only: power_add [symmetric]) simp
    have "2 ^ ?e * 2 ^ (52 - ?e) \<le> n * 2 ^ (52 - ?e)" using b by (intro mult_le_mono1) simp
    moreover have "n * 2 ^ (52 - ?e) < 2 ^ Suc ?e * 2 ^ (52 - ?e)" using b by (intro mult_less_mono1) simp_all
    moreover have "n * 2 ^ 52 = n * 2 ^ (52 - ?e) * 2 ^ ?e" by (subst split) (simp add: ac_simps)
    ultimately have "2 ^ 52 \<le> n * 2 ^ (52 - ?e) \<and> n * 2 ^ (52 - ?e) < 2 * 2 ^ 52 \<and> n * 2 ^ 52 = n * 2 ^ (52 - ?e) * 2 ^ ?e"
      by (simp only: split) (simp add: ac_simps)
    then show ?thesis using True by (intro exI [of _ "n * 2 ^ (52 - ?e)"]) (simp add: nat_bits_def Let_def)
  next
    case False
    with e have e53: "?e = 53" by simp
    with b assms(2) have n: "n = 2 ^ 53" by simp
    have t: "top_bit (2 ^ 53) = 53" by (rule top_bit_unique) simp_all
    show ?thesis unfolding n t by (intro exI [of _ "2 ^ 52"]) (simp add: nat_bits_def t [simplified] Let_def)
  qed
qed

lemma nat_bits_mono:
  assumes "0 < a" "a < b" "b \<le> 2 ^ 53"
  shows "nat_bits a < nat_bits b"
proof -
  let ?e = "top_bit a" and ?f = "top_bit b"
  obtain m where A: "nat_bits a = (?e + 1022) * 2 ^ 52 + m" "m < 2 ^ 53" "a * 2 ^ 52 = m * 2 ^ ?e"
    using nat_bits_exact [of a] assms by force
  obtain k where B: "nat_bits b = (?f + 1022) * 2 ^ 52 + k" "2 ^ 52 \<le> k" "b * 2 ^ 52 = k * 2 ^ ?f"
    using nat_bits_exact [of b] assms by force
  have "2 ^ ?e \<le> a" "b < 2 ^ Suc ?f" using top_bit_bounds assms by auto
  then have "(2::nat) ^ ?e < 2 ^ Suc ?f" using assms(2) by simp
  then have "?e \<le> ?f" by (meson lessI less_Suc_eq_le nat_power_less_imp_less order_less_trans zero_less_Suc numeral_2_eq_2 power_less_imp_less_exp one_less_numeral_iff semiring_norm(76))
  then consider "?e = ?f" | "?e + 1 \<le> ?f" by linarith
  then show ?thesis
  proof cases
    case 1
    have "a * 2 ^ 52 < b * 2 ^ 52" using assms(2) by simp
    then have "m < k" using 1 by (simp only: A(3) B(3)) simp
    then show ?thesis using 1 A B by simp
  next
    case 2
    have "nat_bits a < (?e + 1022) * 2 ^ 52 + 2 ^ 53" using A by simp
    also have "\<dots> = (?e + 1 + 1022) * 2 ^ 52 + 2 ^ 52" by simp
    also have "\<dots> \<le> (?f + 1022) * 2 ^ 52 + k" using 2 B(2) by (intro add_mono mult_right_mono) auto
    finally show ?thesis by (simp add: B(1))
  qed
qed

lemma nat_bits_range:
  assumes "0 < n" "n \<le> 2 ^ 53"
  shows "0 < nat_bits n \<and> nat_bits n < INF_BITS"
proof -
  obtain m where "nat_bits n = (top_bit n + 1022) * 2 ^ 52 + m" "m < 2 ^ 53" "top_bit n \<le> 53"
    using nat_bits_exact [OF assms] by auto
  then show ?thesis by (simp add: INF_BITS_def)
qed

lemma unat_dbl: "n < 2 ^ 64 \<Longrightarrow> unat (of_nat n :: 64 word) = n"
  by (simp add: unat_of_nat)

text \<open>The signed magnitude of an exact number.\<close>

definition int_bits :: "int \<Rightarrow> int" where
  "int_bits i = (if i = 0 then 0 else if i < 0 then - int (nat_bits (nat (- i))) else int (nat_bits (nat i)))"

lemma f_of_int_key:
  assumes "\<bar>sint w\<bar> \<le> 2 ^ 53"
  shows "f_key (f_of_int w) = int_bits (sint w) \<and> \<not> f_nan (f_of_int w)"
proof -
  consider "sint w = 0" | "sint w < 0" | "0 < sint w" by linarith
  then show ?thesis
  proof cases
    case 1
    then show ?thesis by (simp add: f_of_int_def int_bits_def f_key_def f_zero_def f_sign_def magnitude_def f_nan_def)
  next
    case 2
    let ?n = "nat_bits (nat (- sint w))"
    have r: "?n < INF_BITS" using nat_bits_range [of "nat (- sint w)"] 2 assms by simp
    then have u: "unat (of_nat (2 ^ 63 + ?n) :: 64 word) = 2 ^ 63 + ?n" by (intro unat_dbl) (simp add: INF_BITS_def)
    have "(2 ^ 63 + ?n) mod 2 ^ 63 = ?n" using r by (simp add: INF_BITS_def)
    then show ?thesis using 2 r u
      by (simp add: f_of_int_def Let_def int_bits_def f_key_def f_sign_def magnitude_def f_nan_def del: of_nat_add)
  next
    case 3
    let ?n = "nat_bits (nat (sint w))"
    have r: "?n < INF_BITS" using nat_bits_range [of "nat (sint w)"] 3 assms by simp
    then have u: "unat (of_nat ?n :: 64 word) = ?n" by (intro unat_dbl) (simp add: INF_BITS_def)
    show ?thesis using 3 r u
      by (simp add: f_of_int_def Let_def int_bits_def f_key_def f_sign_def magnitude_def f_nan_def INF_BITS_def)
  qed
qed

lemma int_bits_mono:
  assumes "i < j" "\<bar>i\<bar> \<le> 2 ^ 53" "\<bar>j\<bar> \<le> 2 ^ 53"
  shows "int_bits i < int_bits j"
proof -
  consider "0 < i" | "i = 0" | "i < 0" "j < 0" | "i < 0" "j = 0" | "i < 0" "0 < j" by linarith
  then show ?thesis
  proof cases
    case 1
    then show ?thesis using assms nat_bits_mono [of "nat i" "nat j"] by (simp add: int_bits_def)
  next
    case 2
    then show ?thesis using assms nat_bits_range [of "nat j"] by (simp add: int_bits_def)
  next
    case 3
    then show ?thesis using assms nat_bits_mono [of "nat (- j)" "nat (- i)"] by (simp add: int_bits_def)
  next
    case 4
    then show ?thesis using assms nat_bits_range [of "nat (- i)"] by (simp add: int_bits_def)
  next
    case 5
    then have "int_bits i \<le> 0" by (simp add: int_bits_def)
    also have "0 < int_bits j" using 5 assms nat_bits_range [of "nat j"] by (simp add: int_bits_def)
    finally show ?thesis .
  qed
qed

text \<open>Integers up to \<open>2 ^ 53\<close> compare as doubles the way they compare as integers.\<close>

lemma exact_compare:
  assumes "\<bar>sint v\<bar> \<le> 2 ^ 53" "\<bar>sint w\<bar> \<le> 2 ^ 53"
  shows "f_lt (f_of_int v) (f_of_int w) \<longleftrightarrow> sint v < sint w"
    "f_le (f_of_int v) (f_of_int w) \<longleftrightarrow> sint v \<le> sint w"
    "f_eq (f_of_int v) (f_of_int w) \<longleftrightarrow> sint v = sint w"
  using f_of_int_key [OF assms(1)] f_of_int_key [OF assms(2)]
    int_bits_mono [OF _ assms] int_bits_mono [OF _ assms(2) assms(1)]
  by (simp_all add: f_lt_def f_le_def f_eq_def) (smt (verit))+

end
