(* ===== verification/Comptime.thy ===== *)
theory Comptime
  imports Doubles Symtable Scanner "HOL-Library.Signed_Division"
begin

text \<open>
  The interpreter of compile-time constants (\<open>src/src/checker_comptime.c\<close>) and the handler of
  \<open>comptime const\<close> declarations (\<open>check_stmt\<close> in \<open>src/src/checker_stmt.c\<close>).

  A \<open>long long\<close> is a word of 64 bits; a \<open>double\<close> is its bit pattern, whose conversions and comparisons
  are those of the theory of doubles; the rounded arithmetic of the hardware and the functions of
  libm are the operations of the record \<open>fp_ops\<close>.  The resolution of type nodes is
  part of the checker's context.  The syntax tree has the node kinds the interpreter looks at; every
  other kind is \<open>Other_expr\<close> or \<open>Other_stmt\<close>.

  An evaluation has no result (\<open>None\<close>) when the C code is undefined: signed overflow, a shift out of
  range, the conversion of a double that does not fit, a value never set.  Otherwise it gives
  \<open>Some None\<close> where the code returns false, and the value where it returns true.
\<close>

section \<open>Values\<close>

text \<open>The arithmetic of doubles and the functions of libm.\<close>

record fp_ops =
  f_add :: "double \<Rightarrow> double \<Rightarrow> double"
  f_sub :: "double \<Rightarrow> double \<Rightarrow> double"
  f_mul :: "double \<Rightarrow> double \<Rightarrow> double"
  f_div :: "double \<Rightarrow> double \<Rightarrow> double"
  f_libm :: "string \<Rightarrow> double \<Rightarrow> double \<Rightarrow> double"

datatype CtScalar = Ct_int "64 word" | Ct_float double

fun ct_float :: "CtScalar \<Rightarrow> bool" where
  "ct_float (Ct_int i) = False"
| "ct_float (Ct_float f) = True"

fun cts_to_f :: "CtScalar \<Rightarrow> double" where
  "cts_to_f (Ct_float f) = f"
| "cts_to_f (Ct_int i) = f_of_int i"

section \<open>The syntax tree\<close>

datatype 'tn expr =
    Null_expr
  | Int_lit "64 word"
  | Float_lit double
  | Bool_lit bool
  | String_lit string
  | Ident string
  | Field "'tn expr" string
  | Index "'tn expr" "'tn expr"
  | Call "'tn expr" "'tn expr list"
  | Cast "'tn expr" 'tn
  | Unary TokenType "'tn expr"
  | Binary TokenType "'tn expr" "'tn expr"
  | Other_expr

datatype 'tn stmt =
    Null_stmt
  | Var_decl "'tn option" string "'tn expr"
  | Assign "'tn expr" TokenType "'tn expr"
  | If_stmt "'tn expr" "'tn stmt" "'tn stmt"
  | For_stmt string "('tn expr \<times> 'tn expr) option" "'tn stmt"
  | Block "'tn stmt list"
  | Expr_stmt "'tn expr"
  | Return "'tn expr"
  | Comptime_if "'tn expr" "'tn stmt" "'tn stmt"
  | Other_stmt

record 'tn Checker =
  current_scope :: Scope
  resolve_type_node :: "'tn \<Rightarrow> ty"
  fp :: fp_ops

section \<open>Local bindings\<close>

record CtEval =
  vals :: "(string \<times> CtScalar) list"
  arrs :: "(string \<times> CtScalar list \<times> bool) list"
  ret_array :: "string option"
  budget :: int

definition CT_BUDGET_DEFAULT :: int where "CT_BUDGET_DEFAULT = 10000000"

text \<open>The last binding of a name.\<close>

definition last_binding :: "(string \<times> 'a) list \<Rightarrow> string \<Rightarrow> 'a option" where
  "last_binding xs nm = map_of (rev xs) nm"

definition ct_env_get :: "CtEval option \<Rightarrow> string \<Rightarrow> CtScalar option" where
  "ct_env_get ev nm = (case ev of None \<Rightarrow> None | Some ev \<Rightarrow> last_binding (vals ev) nm)"

text \<open>The update in place, from the first pair of a reversed list on.\<close>

fun set_first :: "string \<Rightarrow> 'a \<Rightarrow> (string \<times> 'a) list \<Rightarrow> (string \<times> 'a) list" where
  "set_first nm v [] = []"
| "set_first nm v ((n, w) # xs) = (if n = nm then (n, v) # xs else (n, w) # set_first nm v xs)"

definition ct_env_set :: "CtEval \<Rightarrow> string \<Rightarrow> CtScalar \<Rightarrow> CtEval" where
  "ct_env_set ev nm v =
     ev\<lparr>vals := (if last_binding (vals ev) nm \<noteq> None then rev (set_first nm v (rev (vals ev))) else vals ev @ [(nm, v)])\<rparr>"

definition ct_aenv_find :: "CtEval option \<Rightarrow> string \<Rightarrow> (CtScalar list \<times> bool) option" where
  "ct_aenv_find ev nm = (case ev of None \<Rightarrow> None | Some ev \<Rightarrow> last_binding (arrs ev) nm)"

definition ct_aenv_decl :: "CtEval \<Rightarrow> string \<Rightarrow> nat \<Rightarrow> bool \<Rightarrow> CtEval" where
  "ct_aenv_decl ev nm n is_float =
     ev\<lparr>arrs := arrs ev @ [(nm, replicate n (if is_float then Ct_float f_zero else Ct_int 0), is_float)]\<rparr>"

text \<open>\<open>ev->arrs[ai][idx.i] = val\<close> in the array that the name denotes.\<close>

definition ct_array_set :: "CtEval \<Rightarrow> string \<Rightarrow> nat \<Rightarrow> CtScalar \<Rightarrow> CtEval" where
  "ct_array_set ev nm i v =
     (case last_binding (arrs ev) nm of
        None \<Rightarrow> ev
      | Some (a, fl) \<Rightarrow> ev\<lparr>arrs := rev (set_first nm (a[i := v], fl) (rev (arrs ev)))\<rparr>)"

section \<open>Arithmetic\<close>

definition ct_bool :: "bool \<Rightarrow> CtScalar" where
  "ct_bool b = Ct_int (if b then 1 else 0)"

definition ct_true :: "CtScalar \<Rightarrow> bool" where
  "ct_true v \<longleftrightarrow> \<not> f_eq (cts_to_f v) f_zero"

text \<open>Comparisons and the logical operators; \<open>None\<close> for the other operators.\<close>

definition ct_compare :: "TokenType \<Rightarrow> CtScalar \<Rightarrow> CtScalar \<Rightarrow> bool option" where
  "ct_compare opr l r =
     (let x = cts_to_f l; y = cts_to_f r
      in if opr = Op TOKEN_LT then Some (f_lt x y)
         else if opr = Op TOKEN_GT then Some (f_lt y x)
         else if opr = Op TOKEN_LEQ then Some (f_le x y)
         else if opr = Op TOKEN_GEQ then Some (f_le y x)
         else if opr = Op TOKEN_EQ then Some (f_eq x y)
         else if opr = Op TOKEN_NEQ then Some (\<not> f_eq x y)
         else if opr = Op TOKEN_AND then Some (ct_true l \<and> ct_true r)
         else if opr = Op TOKEN_OR then Some (ct_true l \<or> ct_true r)
         else None)"

definition ct_float_op :: "fp_ops \<Rightarrow> TokenType \<Rightarrow> double \<Rightarrow> double \<Rightarrow> double option" where
  "ct_float_op fpo opr a b =
     (if opr = Op TOKEN_PLUS then Some (f_add fpo a b)
      else if opr = Op TOKEN_MINUS then Some (f_sub fpo a b)
      else if opr = Op TOKEN_STAR then Some (f_mul fpo a b)
      else if opr = Op TOKEN_SLASH then (if f_eq b f_zero then None else Some (f_div fpo a b))
      else None)"

definition ct_int_op :: "TokenType \<Rightarrow> 64 word \<Rightarrow> 64 word \<Rightarrow> 64 word option option" where
  "ct_int_op opr a b =
     (let x = sint a; y = sint b
      in if opr = Op TOKEN_PLUS then map_option Some (checked (x + y))
         else if opr = Op TOKEN_MINUS then map_option Some (checked (x - y))
         else if opr = Op TOKEN_STAR then map_option Some (checked (x * y))
         else if opr = Op TOKEN_SLASH then
           (if y = 0 then Some None else map_option Some (checked (x sdiv y)))
         else if opr = Op TOKEN_PERCENT then
           (if y = 0 then Some None
            else if checked (x sdiv y) = None then None else map_option Some (checked (x smod y)))
         else if opr = Op TOKEN_AMP then Some (Some (and a b))
         else if opr = Op TOKEN_PIPE then Some (Some (or a b))
         else if opr = Op TOKEN_CARET then Some (Some (xor a b))
         else if opr = Op TOKEN_LSHIFT then
           (if y < 0 \<or> y \<ge> 64 \<or> x < 0 then None else map_option Some (checked (x * 2 ^ nat y)))
         else if opr = Op TOKEN_RSHIFT then
           (if y < 0 \<or> y \<ge> 64 then None else Some (Some (word_of_int (x div 2 ^ nat y))))
         else Some None)"

definition ct_arith :: "fp_ops \<Rightarrow> TokenType \<Rightarrow> CtScalar \<Rightarrow> CtScalar \<Rightarrow> CtScalar option option" where
  "ct_arith fpo opr l r =
     (case (l, r) of
        (Ct_int a, Ct_int b) \<Rightarrow> map_option (map_option Ct_int) (ct_int_op opr a b)
      | _ \<Rightarrow> Some (map_option Ct_float (ct_float_op fpo opr (cts_to_f l) (cts_to_f r))))"

definition ct_binary :: "fp_ops \<Rightarrow> TokenType \<Rightarrow> CtScalar \<Rightarrow> CtScalar \<Rightarrow> CtScalar option option" where
  "ct_binary fpo opr l r =
     (case ct_compare opr l r of
        Some b \<Rightarrow> Some (Some (ct_bool b))
      | None \<Rightarrow> ct_arith fpo opr l r)"

definition ct_unary :: "TokenType \<Rightarrow> CtScalar \<Rightarrow> CtScalar option option" where
  "ct_unary opr v =
     (if opr = Op TOKEN_MINUS then
        (case v of Ct_float f \<Rightarrow> Some (Some (Ct_float (f_neg f)))
         | Ct_int i \<Rightarrow> map_option (Some \<circ> Ct_int) (checked (- sint i)))
      else if opr = Op TOKEN_BANG then Some (Some (ct_bool (\<not> ct_true v)))
      else if opr = Op TOKEN_TILDE then
        (case v of Ct_float f \<Rightarrow> Some None | Ct_int i \<Rightarrow> Some (Some (Ct_int (not i))))
      else Some None)"

definition ct_cast :: "ty \<Rightarrow> CtScalar \<Rightarrow> CtScalar option option" where
  "ct_cast tt v =
     (if tt = T_NULL then Some None
      else if type_is_float tt then Some (Some (Ct_float (cts_to_f v)))
      else if type_is_integer tt \<or> tt = T_PRIM TYPE_CHAR then
        (case v of Ct_int i \<Rightarrow> Some (Some (Ct_int i))
         | Ct_float f \<Rightarrow> map_option (Some \<circ> Ct_int) (f_to_int f))
      else if tt = T_PRIM TYPE_BOOL then Some (Some (ct_bool (ct_true v)))
      else Some None)"

section \<open>The math module\<close>

definition ct_field_is_math :: "'tn expr \<Rightarrow> string option" where
  "ct_field_is_math e = (case e of Field (Ident m) nm \<Rightarrow> if m = ''math'' then Some nm else None | _ \<Rightarrow> None)"

text \<open>The functions of the table with their arity.\<close>

definition MATH_FUNCS :: "(string \<times> nat) list" where
  "MATH_FUNCS = [(''abs'', 1), (''min'', 2), (''max'', 2), (''floor'', 1), (''ceil'', 1), (''round'', 1), (''trunc'', 1),
     (''sqrt'', 1), (''pow'', 2), (''exp'', 1), (''exp2'', 1), (''log'', 1), (''log2'', 1), (''log10'', 1),
     (''sin'', 1), (''cos'', 1), (''tan'', 1), (''asin'', 1), (''acos'', 1), (''atan'', 1), (''atan2'', 2),
     (''sinh'', 1), (''cosh'', 1), (''tanh'', 1)]"

definition MATH_CONSTS :: "(string \<times> double) list" where
  "MATH_CONSTS = [(''PI'', 0x400921FB54442D18), (''E'', 0x4005BF0A8B145769), (''TAU'', 0x401921FB54442D18)]"

definition INFINITY :: double where "INFINITY = 0x7FF0000000000000"

definition NAN :: double where "NAN = 0x7FF8000000000000"

definition builtin_math_lookup_fn :: "string \<Rightarrow> nat option" where
  "builtin_math_lookup_fn nm = map_of MATH_FUNCS nm"

definition builtin_math_lookup_const :: "string \<Rightarrow> double option" where
  "builtin_math_lookup_const nm =
     (case map_of MATH_CONSTS nm of
        Some v \<Rightarrow> Some v
      | None \<Rightarrow> if nm = ''INF'' then Some INFINITY else if nm = ''NAN'' then Some NAN else None)"

text \<open>The functions that the interpreter hands to libm.\<close>

definition LIBM :: "string list" where
  "LIBM = [''sqrt'', ''sin'', ''cos'', ''tan'', ''asin'', ''acos'', ''atan'', ''atan2'', ''exp'', ''log'', ''log2'',
     ''log10'', ''pow'', ''floor'', ''ceil'']"

definition ct_math :: "fp_ops \<Rightarrow> string \<Rightarrow> CtScalar \<Rightarrow> CtScalar \<Rightarrow> CtScalar option option" where
  "ct_math fpo fn a b =
     (let x = cts_to_f a; y = cts_to_f b
      in if fn = ''abs'' then
           (case a of Ct_int i \<Rightarrow> map_option (Some \<circ> Ct_int) (checked \<bar>sint i\<bar>)
            | Ct_float f \<Rightarrow> Some (Some (Ct_float (f_libm fpo ''fabs'' f f))))
         else if fn = ''min'' \<or> fn = ''max'' then
           Some (Some (case (a, b) of
              (Ct_int i, Ct_int j) \<Rightarrow>
                Ct_int (if fn = ''min'' then (if sint i < sint j then i else j) else (if sint i > sint j then i else j))
            | _ \<Rightarrow> Ct_float (if fn = ''min'' then (if f_lt x y then x else y) else (if f_lt y x then x else y))))
         else if fn \<in> set LIBM then Some (Some (Ct_float (f_libm fpo fn x y)))
         else Some None)"

section \<open>Expressions\<close>

definition ev_bind :: "'a option option \<Rightarrow> ('a \<Rightarrow> 'b option option) \<Rightarrow> 'b option option" where
  "ev_bind r f = (case r of None \<Rightarrow> None | Some None \<Rightarrow> Some None | Some (Some v) \<Rightarrow> f v)"

text \<open>A constant of the program, from the symbol table.\<close>

definition outer_const :: "'tn Checker \<Rightarrow> string \<Rightarrow> CtScalar option" where
  "outer_const c nm =
     (case scope_resolve (current_scope c) nm of
        None \<Rightarrow> None
      | Some s \<Rightarrow>
          if is_comptime_const s
          then Some (if ct_is_float s then Ct_float (of_nat (ct_f s)) else Ct_int (word_of_int (ct_i s)))
          else None)"

text \<open>The index of an element, if it is in the array.\<close>

definition ct_index :: "CtScalar \<Rightarrow> 'a list \<Rightarrow> nat option" where
  "ct_index idx a =
     (case idx of
        Ct_float f \<Rightarrow> None
      | Ct_int i \<Rightarrow> if sint i < 0 \<or> sint i \<ge> int (length a) then None else Some (nat (sint i)))"

fun ct_eval_scalar :: "'tn Checker \<Rightarrow> 'tn expr \<Rightarrow> CtEval option \<Rightarrow> CtScalar option option" where
  "ct_eval_scalar c (Int_lit i) ev = Some (Some (Ct_int i))"
| "ct_eval_scalar c (Float_lit f) ev = Some (Some (Ct_float f))"
| "ct_eval_scalar c (Bool_lit b) ev = Some (Some (ct_bool b))"
| "ct_eval_scalar c (Ident nm) ev =
     Some (case ct_env_get ev nm of Some v \<Rightarrow> Some v | None \<Rightarrow> outer_const c nm)"
| "ct_eval_scalar c (Field obj nm) ev =
     Some (case ct_field_is_math (Field obj nm) of
        None \<Rightarrow> None
      | Some m \<Rightarrow> map_option Ct_float (builtin_math_lookup_const m))"
| "ct_eval_scalar c (Index obj idx) ev =
     (case obj of
        Ident nm \<Rightarrow>
          (case ct_aenv_find ev nm of
             None \<Rightarrow> Some None
           | Some (a, fl) \<Rightarrow>
               ev_bind (ct_eval_scalar c idx ev) (\<lambda>i. Some (map_option ((!) a) (ct_index i a))))
      | _ \<Rightarrow> Some None)"
| "ct_eval_scalar c (Call callee args) ev =
     (case ct_field_is_math callee of
        None \<Rightarrow> Some None
      | Some fn \<Rightarrow>
          (case builtin_math_lookup_fn fn of
             None \<Rightarrow> Some None
           | Some arity \<Rightarrow>
               if length args \<noteq> arity then Some None
               else (case args of
                   [x] \<Rightarrow> ev_bind (ct_eval_scalar c x ev) (\<lambda>a. ct_math (fp c) fn a (Ct_float f_zero))
                 | [x, y] \<Rightarrow>
                     ev_bind (ct_eval_scalar c x ev) (\<lambda>a.
                     ev_bind (ct_eval_scalar c y ev) (\<lambda>b. ct_math (fp c) fn a b))
                 | _ \<Rightarrow> Some None)))"
| "ct_eval_scalar c (Cast e tn) ev =
     ev_bind (ct_eval_scalar c e ev) (ct_cast (resolve_type_node c tn))"
| "ct_eval_scalar c (Unary opr e) ev = ev_bind (ct_eval_scalar c e ev) (ct_unary opr)"
| "ct_eval_scalar c (Binary opr l r) ev =
     ev_bind (ct_eval_scalar c l ev) (\<lambda>x. ev_bind (ct_eval_scalar c r ev) (\<lambda>y. ct_binary (fp c) opr x y))"
| "ct_eval_scalar c (String_lit t) ev = Some None"
| "ct_eval_scalar c Null_expr ev = Some None"
| "ct_eval_scalar c Other_expr ev = Some None"

section \<open>Statements\<close>

datatype CtFlow = CT_NORMAL | CT_RETURNED | CT_FAIL

text \<open>The flow, the bindings and the result, which is \<open>None\<close> as long as it was not set.\<close>

type_synonym exec_result = "(CtFlow \<times> CtEval \<times> CtScalar option) option"

definition or_fail :: "CtEval \<Rightarrow> CtScalar option \<Rightarrow> CtScalar option option \<Rightarrow> (CtScalar \<Rightarrow> exec_result) \<Rightarrow> exec_result" where
  "or_fail ev ret r f = (case r of None \<Rightarrow> None | Some None \<Rightarrow> Some (CT_FAIL, ev, ret) | Some (Some v) \<Rightarrow> f v)"

definition scalar_elem :: "ty \<Rightarrow> bool" where
  "scalar_elem el \<longleftrightarrow> el \<noteq> T_NULL \<and> (type_is_numeric el \<or> el = T_PRIM TYPE_BOOL \<or> el = T_PRIM TYPE_CHAR)"

text \<open>The value that a local of a declared type is given.\<close>

definition decl_value :: "ty \<Rightarrow> CtScalar \<Rightarrow> CtScalar option" where
  "decl_value dt v =
     (if dt = T_NULL then Some v
      else if type_is_float dt then Some (Ct_float (cts_to_f v))
      else if ct_float v then None else Some v)"

definition compound_op :: "TokenType \<Rightarrow> TokenType option" where
  "compound_op opr = map_of [(Asg TOKEN_PLUS_ASSIGN, Op TOKEN_PLUS), (Asg TOKEN_MINUS_ASSIGN, Op TOKEN_MINUS),
     (Asg TOKEN_STAR_ASSIGN, Op TOKEN_STAR), (Asg TOKEN_SLASH_ASSIGN, Op TOKEN_SLASH)] opr"

definition exec_var_decl :: "'tn Checker \<Rightarrow> 'tn option \<Rightarrow> string \<Rightarrow> 'tn expr \<Rightarrow> CtEval \<Rightarrow> CtScalar option \<Rightarrow> exec_result" where
  "exec_var_decl c tn nm init ev ret =
     (let dt = (case tn of None \<Rightarrow> T_NULL | Some tn \<Rightarrow> resolve_type_node c tn)
      in case dt of
           T_ARRAY el n \<Rightarrow>
             (if n \<le> 0 \<or> \<not> scalar_elem el then Some (CT_FAIL, ev, ret)
              else Some (CT_NORMAL, ct_aenv_decl ev nm (nat n) (type_is_float el), ret))
         | _ \<Rightarrow>
             (if init = Null_expr then Some (CT_FAIL, ev, ret)
              else or_fail ev ret (ct_eval_scalar c init (Some ev)) (\<lambda>v.
                case decl_value dt v of
                  None \<Rightarrow> Some (CT_FAIL, ev, ret)
                | Some v \<Rightarrow> Some (CT_NORMAL, ct_env_set ev nm v, ret))))"

definition exec_array_assign ::
  "'tn Checker \<Rightarrow> string \<Rightarrow> 'tn expr \<Rightarrow> 'tn expr \<Rightarrow> CtEval \<Rightarrow> CtScalar option \<Rightarrow> exec_result" where
  "exec_array_assign c nm idx rhs ev ret =
     (case ct_aenv_find (Some ev) nm of
        None \<Rightarrow> Some (CT_FAIL, ev, ret)
      | Some (a, fl) \<Rightarrow>
          or_fail ev ret (ct_eval_scalar c idx (Some ev)) (\<lambda>i.
            case ct_index i a of
              None \<Rightarrow> Some (CT_FAIL, ev, ret)
            | Some k \<Rightarrow>
                or_fail ev ret (ct_eval_scalar c rhs (Some ev)) (\<lambda>v.
                  if fl then Some (CT_NORMAL, ct_array_set ev nm k (Ct_float (cts_to_f v)), ret)
                  else if ct_float v then Some (CT_FAIL, ev, ret)
                  else Some (CT_NORMAL, ct_array_set ev nm k v, ret))))"

definition exec_assign :: "'tn Checker \<Rightarrow> 'tn expr \<Rightarrow> TokenType \<Rightarrow> 'tn expr \<Rightarrow> CtEval \<Rightarrow> CtScalar option \<Rightarrow> exec_result" where
  "exec_assign c tgt opr rhs ev ret =
     (case tgt of
        Index obj idx \<Rightarrow>
          (case obj of
             Ident nm \<Rightarrow>
               if opr \<noteq> Asg TOKEN_ASSIGN \<or> idx = Null_expr then Some (CT_FAIL, ev, ret)
               else exec_array_assign c nm idx rhs ev ret
           | _ \<Rightarrow> Some (CT_FAIL, ev, ret))
      | Ident nm \<Rightarrow>
          or_fail ev ret (ct_eval_scalar c rhs (Some ev)) (\<lambda>v.
            if opr = Asg TOKEN_ASSIGN then Some (CT_NORMAL, ct_env_set ev nm v, ret)
            else (case ct_env_get (Some ev) nm of
                None \<Rightarrow> Some (CT_FAIL, ev, ret)
              | Some old \<Rightarrow>
                  (case compound_op opr of
                     None \<Rightarrow> Some (CT_FAIL, ev, ret)
                   | Some bop \<Rightarrow>
                       or_fail ev ret (ct_arith (fp c) bop old v) (\<lambda>w. Some (CT_NORMAL, ct_env_set ev nm w, ret)))))
      | _ \<Rightarrow> Some (CT_FAIL, ev, ret))"

definition exec_return :: "'tn Checker \<Rightarrow> 'tn expr \<Rightarrow> CtEval \<Rightarrow> CtScalar option \<Rightarrow> exec_result" where
  "exec_return c e ev ret =
     (if e = Null_expr then Some (CT_FAIL, ev, ret)
      else
        (let scalar = or_fail ev ret (ct_eval_scalar c e (Some ev)) (\<lambda>v. Some (CT_RETURNED, ev, Some v))
         in case e of
              Ident nm \<Rightarrow>
                if ct_aenv_find (Some ev) nm \<noteq> None then Some (CT_RETURNED, ev\<lparr>ret_array := Some nm\<rparr>, ret)
                else scalar
            | _ \<Rightarrow> scalar))"

text \<open>The loop over a range, with the body as a function.\<close>

function ct_for ::
  "(CtEval \<Rightarrow> CtScalar option \<Rightarrow> exec_result) \<Rightarrow> string \<Rightarrow> int \<Rightarrow> int \<Rightarrow> CtEval \<Rightarrow> CtScalar option \<Rightarrow> exec_result" where
  "ct_for body v iv hi ev ret =
     (if iv < hi then
        (let ev = ev\<lparr>budget := budget ev - 1\<rparr>
         in if budget ev \<le> 0 then Some (CT_FAIL, ev, ret)
            else (case body (ct_env_set ev v (Ct_int (word_of_int iv))) ret of
                None \<Rightarrow> None
              | Some (CT_NORMAL, ev, ret) \<Rightarrow> ct_for body v (iv + 1) hi ev ret
              | Some r \<Rightarrow> Some r))
      else Some (CT_NORMAL, ev, ret))"
  by pat_completeness auto
termination by (relation "measure (\<lambda>(b, v, iv, hi, ev, ret). nat (hi - iv))") auto

declare ct_for.simps [simp del]

function ct_exec_stmt :: "'tn Checker \<Rightarrow> 'tn stmt \<Rightarrow> CtEval \<Rightarrow> CtScalar option \<Rightarrow> exec_result"
and ct_exec_block :: "'tn Checker \<Rightarrow> 'tn stmt \<Rightarrow> CtEval \<Rightarrow> CtScalar option \<Rightarrow> exec_result"
and ct_exec_list :: "'tn Checker \<Rightarrow> 'tn stmt list \<Rightarrow> CtEval \<Rightarrow> CtScalar option \<Rightarrow> exec_result" where
  "ct_exec_stmt c s ev ret =
     (if s = Null_stmt then Some (CT_NORMAL, ev, ret)
      else
        (let ev = ev\<lparr>budget := budget ev - 1\<rparr>
         in if budget ev \<le> 0 then Some (CT_FAIL, ev, ret)
            else (case s of
                Var_decl tn nm init \<Rightarrow> exec_var_decl c tn nm init ev ret
              | Assign tgt opr rhs \<Rightarrow> exec_assign c tgt opr rhs ev ret
              | If_stmt cond th el \<Rightarrow>
                  or_fail ev ret (ct_eval_scalar c cond (Some ev)) (\<lambda>v.
                    if ct_true v then ct_exec_block c th ev ret else ct_exec_block c el ev ret)
              | For_stmt v rng body \<Rightarrow>
                  (case rng of
                     None \<Rightarrow> Some (CT_FAIL, ev, ret)
                   | Some (lo, hi) \<Rightarrow>
                       or_fail ev ret (ct_eval_scalar c lo (Some ev)) (\<lambda>l.
                       or_fail ev ret (ct_eval_scalar c hi (Some ev)) (\<lambda>h.
                         case (l, h) of
                           (Ct_int l, Ct_int h) \<Rightarrow>
                             ct_for (\<lambda>ev ret. ct_exec_block c body ev ret) v (sint l) (sint h) ev ret
                         | _ \<Rightarrow> Some (CT_FAIL, ev, ret))))
              | Block ss \<Rightarrow> ct_exec_list c ss ev ret
              | Expr_stmt e \<Rightarrow> or_fail ev ret (ct_eval_scalar c e (Some ev)) (\<lambda>v. Some (CT_NORMAL, ev, ret))
              | Return e \<Rightarrow> exec_return c e ev ret
              | _ \<Rightarrow> Some (CT_FAIL, ev, ret))))"
| "ct_exec_block c s ev ret =
     (case s of
        Null_stmt \<Rightarrow> Some (CT_NORMAL, ev, ret)
      | Block ss \<Rightarrow> ct_exec_list c ss ev ret
      | _ \<Rightarrow> ct_exec_stmt c s ev ret)"
| "ct_exec_list c [] ev ret = Some (CT_NORMAL, ev, ret)"
| "ct_exec_list c (s # ss) ev ret =
     (case ct_exec_stmt c s ev ret of
        None \<Rightarrow> None
      | Some (CT_NORMAL, ev, ret) \<Rightarrow> ct_exec_list c ss ev ret
      | Some r \<Rightarrow> Some r)"
  by pat_completeness auto
termination
  by (relation "measure (\<lambda>x. case x of
       Inl (c, s, ev, ret) \<Rightarrow> 2 * size s
     | Inr (Inl (c, s, ev, ret)) \<Rightarrow> 2 * size s + 1
     | Inr (Inr (c, ss, ev, ret)) \<Rightarrow> 2 * size_list size ss + 1)") auto

declare ct_exec_stmt.simps [simp del] ct_exec_block.simps [simp del]

section \<open>Constants\<close>

text \<open>The right-hand side of \<open>comptime const\<close>, an expression or a block.\<close>

datatype 'tn const_value = Const_expr "'tn expr" | Const_block "'tn stmt"

datatype const_error =
    Bad_element
  | Needs_block
  | Needs_array
  | Wrong_length int int
  | Not_scalar
  | Block_failed
  | Not_constant
  | Float_for_integer
  | Already_defined

text \<open>
  Nothing for a type that was not found; an error; the elements of the array variable that takes the
  declaration's place; or the scope with the new constant.
\<close>

datatype const_result =
    Const_ignored
  | Const_error const_error
  | Const_array "CtScalar list"
  | Const_defined Scope

definition is_scalar :: "ty \<Rightarrow> bool" where
  "is_scalar t \<longleftrightarrow> type_is_numeric t \<or> t = T_PRIM TYPE_BOOL \<or> t = T_PRIM TYPE_CHAR"

definition fresh_eval :: CtEval where
  "fresh_eval = \<lparr>vals = [], arrs = [], ret_array = None, budget = CT_BUDGET_DEFAULT\<rparr>"

text \<open>
  The literal of an element.  The integer half of a value last written as a double is not set, so an
  element of that kind in an array of integers has no literal.
\<close>

definition element_literal :: "bool \<Rightarrow> CtScalar \<Rightarrow> CtScalar option" where
  "element_literal el_float v =
     (if el_float then Some (Ct_float (cts_to_f v)) else if ct_float v then None else Some v)"

definition const_array :: "ty \<Rightarrow> int \<Rightarrow> exec_result \<Rightarrow> const_result option" where
  "const_array el n r =
     (case r of
        None \<Rightarrow> None
      | Some (flow, ev, ret) \<Rightarrow>
          (case (if flow = CT_RETURNED then Option.bind (ret_array ev) (ct_aenv_find (Some ev)) else None) of
             None \<Rightarrow> Some (Const_error Needs_array)
           | Some (a, fl) \<Rightarrow>
               if int (length a) \<noteq> n then Some (Const_error (Wrong_length (int (length a)) n))
               else map_option Const_array (those (map (element_literal (type_is_float el)) a))))"

text \<open>The constant of a scalar type, from the value.\<close>

definition set_const :: "ty \<Rightarrow> CtScalar \<Rightarrow> Symbol \<Rightarrow> Symbol" where
  "set_const dt v s =
     (if type_is_float dt then s\<lparr>is_comptime_const := True, ct_is_float := True, ct_f := unat (cts_to_f v), ct_i := 0\<rparr>
      else (let i = (case v of Ct_int i \<Rightarrow> sint i | Ct_float f \<Rightarrow> 0)
            in s\<lparr>is_comptime_const := True, ct_is_float := False,
                  ct_i := (if dt = T_PRIM TYPE_BOOL then (if i \<noteq> 0 then 1 else 0) else i)\<rparr>))"

definition update_symbol :: "Scope \<Rightarrow> nat \<Rightarrow> (Symbol \<Rightarrow> Symbol) \<Rightarrow> Scope" where
  "update_symbol s k f = Scope_of ((symbols s)[k := f (symbols s ! k)]) (capacity s) (parent s) (depth s)"

definition define_const :: "'tn Checker \<Rightarrow> ty \<Rightarrow> string \<Rightarrow> CtScalar \<Rightarrow> const_result" where
  "define_const c dt nm v =
     (if \<not> type_is_float dt \<and> ct_float v then Const_error Float_for_integer
      else (case scope_define (current_scope c) nm dt of
          (None, s) \<Rightarrow> Const_error Already_defined
        | (Some k, s) \<Rightarrow> Const_defined (update_symbol s k (set_const dt v))))"

definition const_scalar :: "'tn Checker \<Rightarrow> ty \<Rightarrow> string \<Rightarrow> 'tn const_value \<Rightarrow> const_result option" where
  "const_scalar c dt nm rhs =
     (case rhs of
        Const_block b \<Rightarrow>
          (case ct_exec_block c b fresh_eval None of
             None \<Rightarrow> None
           | Some (flow, ev, ret) \<Rightarrow>
               if flow \<noteq> CT_RETURNED then Some (Const_error Block_failed)
               else map_option (define_const c dt nm) ret)
      | Const_expr e \<Rightarrow>
          (case ct_eval_scalar c e None of
             None \<Rightarrow> None
           | Some None \<Rightarrow> Some (Const_error Not_constant)
           | Some (Some v) \<Rightarrow> Some (define_const c dt nm v)))"

definition comptime_const :: "'tn Checker \<Rightarrow> 'tn \<Rightarrow> string \<Rightarrow> 'tn const_value \<Rightarrow> const_result option" where
  "comptime_const c decl_type nm rhs =
     (let dt = resolve_type_node c decl_type
      in if dt = T_NULL then Some Const_ignored
         else (case dt of
             T_ARRAY el n \<Rightarrow>
               (if \<not> scalar_elem el \<or> n \<le> 0 then Some (Const_error Bad_element)
                else (case rhs of
                    Const_expr e \<Rightarrow> Some (Const_error Needs_block)
                  | Const_block b \<Rightarrow> const_array el n (ct_exec_block c b fresh_eval None)))
           | _ \<Rightarrow> if is_scalar dt then const_scalar c dt nm rhs else Some (Const_error Not_scalar)))"

section \<open>Conditions of \<open>comptime if\<close>\<close>

text \<open>\<open>None\<close> where the code clears \<open>ok\<close>.\<close>

definition eval_order :: "TokenType \<Rightarrow> bool \<Rightarrow> bool \<Rightarrow> bool option" where
  "eval_order opr lt eq =
     (if opr = Op TOKEN_EQ then Some eq
      else if opr = Op TOKEN_NEQ then Some (\<not> eq)
      else if opr = Op TOKEN_LT then Some lt
      else if opr = Op TOKEN_GT then Some (\<not> lt \<and> \<not> eq)
      else if opr = Op TOKEN_LEQ then Some (lt \<or> eq)
      else if opr = Op TOKEN_GEQ then Some (\<not> lt)
      else None)"

text \<open>\<open>strcmp\<close> on the bytes of two strings.\<close>

fun str_less :: "string \<Rightarrow> string \<Rightarrow> bool" where
  "str_less xs [] = False"
| "str_less [] (y # ys) = True"
| "str_less (x # xs) (y # ys) = (ccode x < ccode y \<or> x = y \<and> str_less xs ys)"

fun ct_eval_bool :: "'tn expr \<Rightarrow> bool option" where
  "ct_eval_bool (Bool_lit b) = Some b"
| "ct_eval_bool (Unary opr e) = (if opr = Op TOKEN_BANG then map_option Not (ct_eval_bool e) else None)"
| "ct_eval_bool (Binary opr l r) =
     (if opr = Op TOKEN_AND then
        (case (ct_eval_bool l, ct_eval_bool r) of (Some a, Some b) \<Rightarrow> Some (a \<and> b) | _ \<Rightarrow> None)
      else if opr = Op TOKEN_OR then
        (case (ct_eval_bool l, ct_eval_bool r) of (Some a, Some b) \<Rightarrow> Some (a \<or> b) | _ \<Rightarrow> None)
      else (case (l, r) of
          (String_lit a, String_lit b) \<Rightarrow> eval_order opr (str_less a b) (a = b)
        | (Int_lit a, Int_lit b) \<Rightarrow> eval_order opr (sint a < sint b) (a = b)
        | _ \<Rightarrow> None))"
| "ct_eval_bool _ = None"

text \<open>
  The statement that a chain of \<open>comptime if\<close> leaves in the block, if any; \<open>Inl\<close> when a condition is
  not constant.
\<close>

fun expand_if :: "'tn stmt \<Rightarrow> unit + 'tn stmt option" where
  "expand_if (Comptime_if cond th el) =
     (case ct_eval_bool cond of
        None \<Rightarrow> Inl ()
      | Some True \<Rightarrow> Inr (if th = Null_stmt then None else Some th)
      | Some False \<Rightarrow> expand_if el)"
| "expand_if Null_stmt = Inr None"
| "expand_if s = Inr (Some s)"

end
