(* ===== verification/Comptime_Spec.thy ===== *)
theory Comptime_Spec
  imports Comptime "HOL-Library.Sublist"
begin

text \<open>
  What the interpreter of compile-time constants promises: its bindings of arrays keep their length
  and their kind of element, integer expressions have the value of the mathematical integers, and a
  block is executed with lexical scoping as long as no name is declared twice in nested blocks.
\<close>

section \<open>Relations that every step keeps\<close>

text \<open>The elementary updates that the interpreter makes of its bindings.\<close>

locale ct_keeps =
  fixes R :: "CtEval \<Rightarrow> CtEval \<Rightarrow> bool"
  assumes same: "R ev ev"
    and chain: "R ev ev1 \<Longrightarrow> R ev1 ev2 \<Longrightarrow> R ev ev2"
    and tick: "R ev (ev\<lparr>budget := budget ev - 1\<rparr>)"
    and set_scalar: "R ev (ct_env_set ev nm v)"
    and new_array: "0 < n \<Longrightarrow> R ev (ct_aenv_decl ev nm n fl)"
    and set_element: "last_binding (arrs ev) nm = Some (a, fl) \<Longrightarrow> k < length a \<Longrightarrow> ct_float v = fl \<Longrightarrow>
      R ev (ct_array_set ev nm k v)"
    and result: "R ev (ev\<lparr>ret_array := x\<rparr>)"
begin

lemma or_fail_keeps:
  assumes "or_fail ev ret r g = Some (f, ev', ret')" "\<And>v. g v = Some (f, ev', ret') \<Longrightarrow> R ev ev'"
  shows "R ev ev'"
  using assms by (auto simp: or_fail_def same split: option.splits)

lemma var_decl_keeps: "exec_var_decl c tn nm init ev ret = Some (f, ev', ret') \<Longrightarrow> R ev ev'"
  by (auto simp: exec_var_decl_def Let_def same set_scalar new_array elim!: or_fail_keeps
      split: option.splits ty.splits if_splits)

lemma ct_index_less: "ct_index i a = Some k \<Longrightarrow> k < length a"
  by (auto simp: ct_index_def split: CtScalar.splits if_splits)

lemma array_assign_keeps: "exec_array_assign c nm idx rhs ev ret = Some (f, ev', ret') \<Longrightarrow> R ev ev'"
  by (auto simp: exec_array_assign_def ct_aenv_find_def same elim!: or_fail_keeps split: option.splits if_splits)
    (erule set_element, erule ct_index_less, simp)+

lemma assign_keeps: "exec_assign c tgt opr rhs ev ret = Some (f, ev', ret') \<Longrightarrow> R ev ev'"
  by (auto simp: exec_assign_def same set_scalar elim!: or_fail_keeps elim: array_assign_keeps
      split: option.splits if_splits expr.splits)

lemma return_keeps: "exec_return c e ev ret = Some (f, ev', ret') \<Longrightarrow> R ev ev'"
  by (auto simp: exec_return_def Let_def same result elim!: or_fail_keeps
      split: option.splits if_splits expr.splits)

lemma for_keeps:
  assumes "\<And>ev ret f ev' ret'. body ev ret = Some (f, ev', ret') \<Longrightarrow> R ev ev'"
    "ct_for body v iv hi ev ret = Some (f, ev', ret')"
  shows "R ev ev'"
  using assms
proof (induction body v iv hi ev ret rule: ct_for.induct)
  case (1 body v iv hi ev ret)
  show ?case
  proof (cases "iv < hi \<and> 0 < budget ev - 1")
    case False
    with 1(3) show ?thesis by (subst (asm) ct_for.simps) (auto simp: Let_def same intro: tick split: if_splits)
  next
    case True
    let ?ev = "ev\<lparr>budget := budget ev - 1\<rparr>" and ?set = "ct_env_set (ev\<lparr>budget := budget ev - 1\<rparr>) v (Ct_int (word_of_int iv))"
    from True 1(3) obtain f1 ev1 ret1 where b: "body ?set ret = Some (f1, ev1, ret1)"
      by (subst (asm) ct_for.simps) (auto simp: Let_def split: option.splits)
    have R1: "R ev ev1" using 1(2) [OF b] tick set_scalar chain by blast
    show ?thesis
    proof (cases "f1 = CT_NORMAL")
      case True
      with \<open>iv < hi \<and> 0 < budget ev - 1\<close> b 1(3) have "ct_for body v (iv + 1) hi ev1 ret1 = Some (f, ev', ret')"
        by (subst (asm) ct_for.simps) (simp add: Let_def)
      then have "R ev1 ev'" using 1(1) [of ?ev "(f1, ev1, ret1)" f1 "(ev1, ret1)" ev1 ret1] 1(2) True \<open>iv < hi \<and> 0 < budget ev - 1\<close> b by simp
      with R1 show ?thesis by (rule chain)
    next
      case False
      with \<open>iv < hi \<and> 0 < budget ev - 1\<close> b 1(3) have "ev' = ev1"
        by (subst (asm) ct_for.simps) (cases f1; simp add: Let_def)
      with R1 show ?thesis by simp
    qed
  qed
qed

lemma exec_keeps:
  "ct_exec_stmt c s ev ret = Some (f, ev', ret') \<Longrightarrow> R ev ev'"
  "ct_exec_block c s ev ret = Some (f, ev', ret') \<Longrightarrow> R ev ev'"
  "ct_exec_list c ss ev ret = Some (f, ev', ret') \<Longrightarrow> R ev ev'"
proof (induction c s ev ret and c s ev ret and c ss ev ret arbitrary: f ev' ret' and f ev' ret' and f ev' ret'
    rule: ct_exec_stmt_ct_exec_block_ct_exec_list.induct)
  case (1 c s ev ret)
  let ?ev = "ev\<lparr>budget := budget ev - 1\<rparr>"
  show ?case
  proof (cases "s = Null_stmt \<or> budget ev - 1 \<le> 0")
    case True
    with 1 show ?thesis by (auto simp: ct_exec_stmt.simps Let_def same tick split: if_splits)
  next
    case False
    then have "R ?ev ev'"
      using 1
      by (cases s)
        (auto simp: ct_exec_stmt.simps Let_def same elim!: or_fail_keeps for_keeps [rotated] elim: var_decl_keeps assign_keeps return_keeps
          split: option.splits CtScalar.splits if_splits)
    then show ?thesis using tick chain by blast
  qed
next
  case (2 c s ev ret)
  then show ?case by (cases s) (auto simp: ct_exec_block.simps same)
next
  case (3 c ev ret)
  then show ?case by (simp add: same)
next
  case (4 c s ss ev ret)
  from 4(3) obtain f1 ev1 ret1 where b: "ct_exec_stmt c s ev ret = Some (f1, ev1, ret1)"
    by (auto split: option.splits)
  show ?case
  proof (cases "f1 = CT_NORMAL")
    case True
    then show ?thesis using 4(1) [OF b] 4(2) [OF b] 4(3) b chain by simp
  next
    case False
    then show ?thesis using 4(1) [OF b] 4(3) b by (cases f1) simp_all
  qed
qed

end

section \<open>Arrays\<close>

text \<open>An array has elements, all of the kind that its declaration gave it.\<close>

fun arr_ok :: "string \<times> CtScalar list \<times> bool \<Rightarrow> bool" where
  "arr_ok (nm, a, fl) = (a \<noteq> [] \<and> list_all (\<lambda>v. ct_float v = fl) a)"

fun arr_shape :: "string \<times> CtScalar list \<times> bool \<Rightarrow> string \<times> nat \<times> bool" where
  "arr_shape (nm, a, fl) = (nm, length a, fl)"

definition arrays_keep :: "CtEval \<Rightarrow> CtEval \<Rightarrow> bool" where
  "arrays_keep ev ev' \<longleftrightarrow>
     (list_all arr_ok (arrs ev) \<longrightarrow> list_all arr_ok (arrs ev')) \<and>
     prefix (map arr_shape (arrs ev)) (map arr_shape (arrs ev'))"

lemma set_first_shape:
  "map_of xs nm = Some (a, fl) \<Longrightarrow> map arr_shape (set_first nm (a[k := v], fl) xs) = map arr_shape xs"
  by (induction xs) (auto split: if_splits)

lemma list_all_update: "list_all P xs \<Longrightarrow> P v \<Longrightarrow> list_all P (xs[k := v])"
  by (auto simp: list_all_iff dest: set_update_subset_insert [THEN subsetD])

lemma set_first_ok:
  "map_of xs nm = Some (a, fl) \<Longrightarrow> ct_float v = fl \<Longrightarrow> list_all arr_ok xs \<Longrightarrow>
    list_all arr_ok (set_first nm (a[k := v], fl) xs)"
  by (induction xs) (auto simp: list_all_update split: if_splits)

lemma array_set_keeps:
  assumes "last_binding (arrs ev) nm = Some (a, fl)" "ct_float v = fl"
  shows "arrays_keep ev (ct_array_set ev nm k v)"
proof -
  have m: "map_of (rev (arrs ev)) nm = Some (a, fl)" using assms(1) by (simp add: last_binding_def)
  have "map arr_shape (rev (set_first nm (a[k := v], fl) (rev (arrs ev)))) = map arr_shape (arrs ev)"
    using set_first_shape [OF m] by (metis rev_map rev_rev_ident)
  moreover have "list_all arr_ok (arrs ev) \<longrightarrow> list_all arr_ok (rev (set_first nm (a[k := v], fl) (rev (arrs ev))))"
    using set_first_ok [OF m assms(2)] by simp
  ultimately show ?thesis using assms(1) by (simp add: arrays_keep_def ct_array_set_def)
qed

interpretation arrays: ct_keeps arrays_keep
proof
  fix ev ev1 ev2
  assume "arrays_keep ev ev1" "arrays_keep ev1 ev2"
  then show "arrays_keep ev ev2" by (auto simp: arrays_keep_def)
next
  fix ev :: CtEval and nm a fl k v
  assume "last_binding (arrs ev) nm = Some (a, fl)" "ct_float v = fl"
  then show "arrays_keep ev (ct_array_set ev nm k v)" by (rule array_set_keeps)
next
  fix ev nm and n :: nat and fl :: bool
  assume "0 < n"
  then show "arrays_keep ev (ct_aenv_decl ev nm n fl)"
    by (simp add: arrays_keep_def ct_aenv_decl_def list_all_iff)
qed (auto simp: arrays_keep_def ct_env_set_def)

text \<open>C32: The arrays of a compile-time block are typed: whatever a block does, every array has the
  length and the kind of element, integer or floating-point, of its declaration, and arrays are only
  ever added.\<close>

theorem comptime_arrays_typed:
  assumes "ct_exec_block c b ev ret = Some (flow, ev', ret')" "list_all arr_ok (arrs ev)"
  shows "list_all arr_ok (arrs ev') \<and> prefix (map arr_shape (arrs ev)) (map arr_shape (arrs ev'))"
  using arrays.exec_keeps(2) [OF assms(1)] assms(2) by (simp add: arrays_keep_def)

text \<open>A checker whose type nodes all denote one type.\<close>

definition sample_checker :: "ty \<Rightarrow> unit Checker" where
  "sample_checker t = \<lparr>current_scope = scope_new None, resolve_type_node = (\<lambda>_. t),
     fp = \<lparr>f_add = (\<lambda>x y. 0), f_sub = (\<lambda>x y. 0), f_mul = (\<lambda>x y. 0), f_div = (\<lambda>x y. 0), f_libm = (\<lambda>g x y. 0)\<rparr>\<rparr>"

definition table_block :: "unit stmt" where
  "table_block =
     Block [Var_decl (Some ()) ''t'' Null_expr, Assign (Index (Ident ''t'') (Int_lit 1)) (Asg TOKEN_ASSIGN) (Int_lit 7),
       Return (Ident ''t'')]"

lemma table_runs:
  "ct_exec_block (sample_checker (T_ARRAY (T_PRIM TYPE_INT) 2)) table_block fresh_eval None =
     Some (CT_RETURNED, \<lparr>vals = [], arrs = [(''t'', [Ct_int 0, Ct_int 7], False)], ret_array = Some ''t'', budget = 9999997\<rparr>, None)"
  by code_simp

theorem comptime_arrays_typed_witness:
  "list_all arr_ok [(''t'', [Ct_int 0, Ct_int 7], False)]"
  using comptime_arrays_typed [OF table_runs] by (simp add: fresh_eval_def)

section \<open>Integer expressions\<close>

definition in64 :: "int \<Rightarrow> bool" where
  "in64 i \<longleftrightarrow> - (2 ^ 63) \<le> i \<and> i < 2 ^ 63"

definition exact_int :: "int \<Rightarrow> bool" where
  "exact_int i \<longleftrightarrow> \<bar>i\<bar> \<le> 2 ^ 53"

definition if64 :: "int \<Rightarrow> int option" where
  "if64 i = (if in64 i then Some i else None)"

text \<open>Division and remainder toward zero.\<close>

definition quotient :: "int \<Rightarrow> int \<Rightarrow> int" where
  "quotient x y = (if (x < 0) = (y < 0) then \<bar>x\<bar> div \<bar>y\<bar> else - (\<bar>x\<bar> div \<bar>y\<bar>))"

fun int_unary :: "TokenType \<Rightarrow> int \<Rightarrow> int option" where
  "int_unary (Op TOKEN_MINUS) x = if64 (- x)"
| "int_unary (Op TOKEN_BANG) x = (if exact_int x then Some (of_bool (x = 0)) else None)"
| "int_unary (Op TOKEN_TILDE) x = Some (- x - 1)"
| "int_unary _ x = None"

fun int_relation :: "TokenType \<Rightarrow> int \<Rightarrow> int \<Rightarrow> bool option" where
  "int_relation (Op TOKEN_LT) x y = Some (x < y)"
| "int_relation (Op TOKEN_GT) x y = Some (x > y)"
| "int_relation (Op TOKEN_LEQ) x y = Some (x \<le> y)"
| "int_relation (Op TOKEN_GEQ) x y = Some (x \<ge> y)"
| "int_relation (Op TOKEN_EQ) x y = Some (x = y)"
| "int_relation (Op TOKEN_NEQ) x y = Some (x \<noteq> y)"
| "int_relation (Op TOKEN_AND) x y = Some (x \<noteq> 0 \<and> y \<noteq> 0)"
| "int_relation (Op TOKEN_OR) x y = Some (x \<noteq> 0 \<or> y \<noteq> 0)"
| "int_relation _ x y = None"

fun int_arith :: "TokenType \<Rightarrow> int \<Rightarrow> int \<Rightarrow> int option" where
  "int_arith (Op TOKEN_PLUS) x y = if64 (x + y)"
| "int_arith (Op TOKEN_MINUS) x y = if64 (x - y)"
| "int_arith (Op TOKEN_STAR) x y = if64 (x * y)"
| "int_arith (Op TOKEN_SLASH) x y = (if y = 0 then None else if64 (quotient x y))"
| "int_arith (Op TOKEN_PERCENT) x y = (if y = 0 \<or> \<not> in64 (quotient x y) then None else Some (x - y * quotient x y))"
| "int_arith (Op TOKEN_AMP) x y = Some (and x y)"
| "int_arith (Op TOKEN_PIPE) x y = Some (or x y)"
| "int_arith (Op TOKEN_CARET) x y = Some (xor x y)"
| "int_arith (Op TOKEN_LSHIFT) x y = (if 0 \<le> x \<and> 0 \<le> y \<and> y < 64 then if64 (x * 2 ^ nat y) else None)"
| "int_arith (Op TOKEN_RSHIFT) x y = (if 0 \<le> y \<and> y < 64 then Some (x div 2 ^ nat y) else None)"
| "int_arith _ x y = None"

definition int_binary :: "TokenType \<Rightarrow> int \<Rightarrow> int \<Rightarrow> int option" where
  "int_binary opr x y =
     (case int_relation opr x y of
        Some b \<Rightarrow> if exact_int x \<and> exact_int y then Some (of_bool b) else None
      | None \<Rightarrow> int_arith opr x y)"

text \<open>The value over the integers, as long as nothing overflows and only exact numbers are compared.\<close>

fun int_eval :: "(string \<rightharpoonup> int) \<Rightarrow> 'tn expr \<Rightarrow> int option" where
  "int_eval env (Int_lit w) = Some (sint w)"
| "int_eval env (Bool_lit b) = Some (of_bool b)"
| "int_eval env (Ident nm) = env nm"
| "int_eval env (Unary opr e) = Option.bind (int_eval env e) (int_unary opr)"
| "int_eval env (Binary opr l r) =
     Option.bind (int_eval env l) (\<lambda>x. Option.bind (int_eval env r) (int_binary opr x))"
| "int_eval env _ = None"

definition int_names :: "'tn Checker \<Rightarrow> CtEval option \<Rightarrow> (string \<rightharpoonup> int) \<Rightarrow> bool" where
  "int_names c ev env \<longleftrightarrow>
     (\<forall>nm i. env nm = Some i \<longrightarrow>
        in64 i \<and> ct_eval_scalar c (Ident nm) ev = Some (Some (Ct_int (word_of_int i))))"

lemma sint_in64: "in64 i \<Longrightarrow> sint (word_of_int i :: 64 word) = i"
  by (simp add: in64_def sint_sbintrunc' signed_take_bit_int_eq_self)

lemma in64_sint: "in64 (sint (w :: 64 word))"
  using sint_ge [of w] sint_lt [of w] by (simp add: in64_def)

lemma quotient_sdiv: "quotient x y = x sdiv y"
  by (auto simp: quotient_def signed_divide_int_def sgn_if)

lemma remainder_smod: "x - y * quotient x y = x smod y"
  using mult_sdiv_smod_eq [of y x] by (simp add: quotient_sdiv)

lemma checked_if64: "checked i = map_option word_of_int (if64 i)"
  by (simp add: checked_def if64_def in64_def)

lemma exact_in64: "exact_int x \<Longrightarrow> in64 x"
  by (auto simp: exact_int_def in64_def)

lemma ct_true_int:
  assumes "exact_int x"
  shows "ct_true (Ct_int (word_of_int x)) \<longleftrightarrow> x \<noteq> 0"
  using exact_compare(3) [of "word_of_int x" 0] assms sint_in64 [OF exact_in64 [OF assms]]
  by (simp add: ct_true_def exact_int_def f_of_int_def f_zero_def)

lemma int_unary_ok:
  assumes "int_unary opr x = Some z" "in64 x"
  shows "in64 z \<and> ct_unary opr (Ct_int (word_of_int x)) = Some (Some (Ct_int (word_of_int z)))"
  using assms
  by (cases "(opr, x)" rule: int_unary.cases)
    (auto simp: ct_unary_def ct_bool_def checked_if64 if64_def sint_in64 ct_true_int in64_def not_int_def word_wi_log_defs
      split: if_splits)

lemma int_relation_ok:
  assumes "exact_int x" "exact_int y"
  shows "ct_compare opr (Ct_int (word_of_int x)) (Ct_int (word_of_int y)) = int_relation opr x y"
  using assms exact_compare [of "word_of_int x" "word_of_int y"] exact_compare [of "word_of_int y" "word_of_int x"]
    sint_in64 [OF exact_in64 [OF assms(1)]] sint_in64 [OF exact_in64 [OF assms(2)]]
  by (cases "(opr, x, y)" rule: int_relation.cases) (auto simp: ct_compare_def ct_true_int exact_int_def Let_def)


lemma in64_bits:
  assumes "in64 x" "in64 y"
  shows "in64 (and x y) \<and> in64 (or x y) \<and> in64 (xor x y)"
  using in64_sint [of "and (word_of_int x) (word_of_int y)"] in64_sint [of "or (word_of_int x) (word_of_int y)"]
    in64_sint [of "xor (word_of_int x) (word_of_int y)"] sint_in64 [OF assms(1)] sint_in64 [OF assms(2)]
  by (simp add: signed_and_eq signed_or_eq signed_xor_eq)

lemma in64_shift: "in64 x \<Longrightarrow> in64 (x div 2 ^ n)"
proof (cases "0 \<le> x")
  case True
  then have "0 \<le> x div 2 ^ n" by (simp add: pos_imp_zdiv_nonneg_iff)
  moreover have "x div 2 ^ n \<le> x" using True zdiv_mono2 [of x 1 "2 ^ n"] by simp
  moreover assume "in64 x"
  ultimately show ?thesis by (simp add: in64_def)
next
  case False
  have "x * 2 ^ n \<le> x" using False mult_left_mono_neg [of 1 "2 ^ n" x] by simp
  then have "x \<le> x div 2 ^ n" by (metis nonzero_mult_div_cancel_right power_not_zero zdiv_mono1 zero_less_numeral zero_less_power zero_neq_numeral)
  moreover have "x div 2 ^ n < 0" using False by (simp add: div_neg_pos_less0 neg_imp_zdiv_neg_iff)
  moreover assume "in64 x"
  ultimately show ?thesis by (simp add: in64_def)
qed

lemma in64_smod: "in64 x \<Longrightarrow> in64 (x smod y)"
proof -
  assume x: "in64 x"
  have "\<bar>x\<bar> mod \<bar>y\<bar> \<le> \<bar>x\<bar>" "0 \<le> \<bar>x\<bar> mod \<bar>y\<bar>" by (cases "y = 0"; simp add: zmod_le_nonneg_dividend)+
  with x show ?thesis by (auto simp: signed_modulo_int_def in64_def sgn_if)
qed

lemma int_arith_ok:
  assumes "int_arith opr x y = Some z" "in64 x" "in64 y"
  shows "in64 z \<and> ct_arith fpo opr (Ct_int (word_of_int x)) (Ct_int (word_of_int y)) = Some (Some (Ct_int (word_of_int z)))"
  using assms in64_bits [OF assms(2,3)] in64_shift [OF assms(2)] in64_smod [OF assms(2), of y] remainder_smod [of x y]
  by (cases "(opr, x, y)" rule: int_arith.cases)
    (auto simp: ct_arith_def ct_int_op_def Let_def checked_if64 if64_def sint_in64 word_wi_log_defs
      quotient_sdiv split: if_splits)

lemma int_relation_op: "int_relation opr x y = None \<longleftrightarrow> ct_compare opr l r = None"
  by (cases "(opr, x, y)" rule: int_relation.cases) (auto simp: ct_compare_def Let_def)

lemma int_binary_ok:
  assumes "int_binary opr x y = Some z" "in64 x" "in64 y"
  shows "in64 z \<and> ct_binary fpo opr (Ct_int (word_of_int x)) (Ct_int (word_of_int y)) = Some (Some (Ct_int (word_of_int z)))"
proof (cases "int_relation opr x y")
  case None
  then have "ct_compare opr (Ct_int (word_of_int x)) (Ct_int (word_of_int y)) = None" using int_relation_op by blast
  with None assms show ?thesis by (simp add: int_binary_def ct_binary_def int_arith_ok)
next
  case (Some b)
  with assms show ?thesis
    by (auto simp: int_binary_def ct_binary_def int_relation_ok in64_def ct_bool_def split: if_splits)
qed

text \<open>C31: An integer expression has at compile time the value that it has over the mathematical
  integers, as long as no result leaves the 64 bits and every compared number is at most
  \<open>2 ^ 53\<close>; division and remainder round toward zero.\<close>

theorem comptime_ints_exact:
  assumes "int_names c ev env" "int_eval env e = Some z"
  shows "in64 z \<and> ct_eval_scalar c e ev = Some (Some (Ct_int (word_of_int z)))"
  using assms(2)
proof (induction e arbitrary: z)
  case (Ident nm)
  with assms(1) show ?case by (simp add: int_names_def)
next
  case (Unary opr e)
  then show ?case by (auto simp: ev_bind_def int_unary_ok split: Option.bind_splits)
next
  case (Binary opr l r)
  then show ?case by (auto simp: ev_bind_def int_binary_ok split: Option.bind_splits)
next
  case (Int_lit w)
  then show ?case by (auto simp: in64_sint)
qed (auto simp: in64_def ct_bool_def)

theorem comptime_ints_exact_witness:
  "ct_eval_scalar (sample_checker T_NULL)
     (Binary (Op TOKEN_SLASH) (Binary (Op TOKEN_MINUS) (Int_lit 7) (Int_lit 10)) (Int_lit 2)) None = Some (Some (Ct_int (- 1)))"
proof -
  have "int_eval (\<lambda>nm. None) (Binary (Op TOKEN_SLASH) (Binary (Op TOKEN_MINUS) (Int_lit 7) (Int_lit 10)) (Int_lit 2)) = Some (- 1)"
    by (simp add: int_binary_def if64_def in64_def quotient_def)
  from comptime_ints_exact [OF _ this, of "sample_checker T_NULL" None] show ?thesis by (simp add: int_names_def)
qed

end
