(* ===== verification/Comptime_Lexical.thy ===== *)
theory Comptime_Lexical
  imports Comptime_Spec
begin

text \<open>
  Lexical scoping of compile-time blocks.  The interpreter keeps one flat list of bindings for the
  whole block and counts its steps down from a budget.  The reference below has a stack of bindings
  that is cut back at the end of every inner block, and it counts the steps it makes.  Both agree on
  blocks that are well scoped: names are declared before they are used, and none hides another one.
\<close>

section \<open>The reference\<close>

datatype lex_result =
    Lex_undefined
  | Lex_fail
  | Lex_scalar CtScalar
  | Lex_array "CtScalar list" bool
  | Lex_normal CtEval

text \<open>The steps made and how the statement ended.\<close>

type_synonym lex_run = "nat \<times> lex_result"

definition lex_eval :: "CtScalar option option \<Rightarrow> (CtScalar \<Rightarrow> lex_run) \<Rightarrow> lex_run" where
  "lex_eval r f = (case r of None \<Rightarrow> (0, Lex_undefined) | Some None \<Rightarrow> (0, Lex_fail) | Some (Some v) \<Rightarrow> f v)"

definition lex_tick :: "lex_run \<Rightarrow> lex_run" where
  "lex_tick x = (Suc (fst x), snd x)"

definition lex_then :: "lex_run \<Rightarrow> (CtEval \<Rightarrow> lex_run) \<Rightarrow> lex_run" where
  "lex_then x f = (case snd x of Lex_normal e \<Rightarrow> (fst x + fst (f e), snd (f e)) | r \<Rightarrow> x)"

text \<open>The end of an inner block drops the bindings made in it.\<close>

definition lex_leave :: "CtEval \<Rightarrow> CtEval \<Rightarrow> CtEval" where
  "lex_leave e e' = e'\<lparr>vals := take (length (vals e)) (vals e'), arrs := take (length (arrs e)) (arrs e')\<rparr>"

definition lex_scope :: "CtEval \<Rightarrow> lex_run \<Rightarrow> lex_run" where
  "lex_scope e x = (case snd x of Lex_normal e' \<Rightarrow> (fst x, Lex_normal (lex_leave e e')) | r \<Rightarrow> x)"

definition lex_push :: "CtEval \<Rightarrow> string \<Rightarrow> CtScalar \<Rightarrow> CtEval" where
  "lex_push e nm v = e\<lparr>vals := vals e @ [(nm, v)]\<rparr>"

definition array_type :: "'tn Checker \<Rightarrow> 'tn option \<Rightarrow> (ty \<times> int) option" where
  "array_type c tn =
     (case tn of None \<Rightarrow> None
      | Some tn \<Rightarrow> (case resolve_type_node c tn of T_ARRAY el n \<Rightarrow> Some (el, n) | _ \<Rightarrow> None))"

definition decl_type :: "'tn Checker \<Rightarrow> 'tn option \<Rightarrow> ty" where
  "decl_type c tn = (case tn of None \<Rightarrow> T_NULL | Some tn \<Rightarrow> resolve_type_node c tn)"

definition lex_decl :: "'tn Checker \<Rightarrow> 'tn option \<Rightarrow> string \<Rightarrow> 'tn expr \<Rightarrow> CtEval \<Rightarrow> lex_run" where
  "lex_decl c tn nm init e =
     (case array_type c tn of
        Some (el, n) \<Rightarrow>
          if n \<le> 0 \<or> \<not> scalar_elem el then (0, Lex_fail)
          else (0, Lex_normal (ct_aenv_decl e nm (nat n) (type_is_float el)))
      | None \<Rightarrow>
          lex_eval (ct_eval_scalar c init (Some e)) (\<lambda>v.
            case decl_value (decl_type c tn) v of
              None \<Rightarrow> (0, Lex_fail)
            | Some v \<Rightarrow> (0, Lex_normal (lex_push e nm v))))"

text \<open>The new value of an assigned variable.\<close>

definition assign_value :: "fp_ops \<Rightarrow> TokenType \<Rightarrow> CtScalar \<Rightarrow> CtScalar \<Rightarrow> CtScalar option option" where
  "assign_value fpo opr old v =
     (if opr = Asg TOKEN_ASSIGN then Some (Some v)
      else (case compound_op opr of None \<Rightarrow> Some None | Some bop \<Rightarrow> ct_arith fpo bop old v))"

definition lex_assign :: "'tn Checker \<Rightarrow> string \<Rightarrow> TokenType \<Rightarrow> 'tn expr \<Rightarrow> CtEval \<Rightarrow> lex_run" where
  "lex_assign c nm opr rhs e =
     (case ct_env_get (Some e) nm of
        None \<Rightarrow> (0, Lex_fail)
      | Some old \<Rightarrow>
          lex_eval (ct_eval_scalar c rhs (Some e)) (\<lambda>v.
          lex_eval (assign_value (fp c) opr old v) (\<lambda>w. (0, Lex_normal (ct_env_set e nm w)))))"

definition lex_element :: "'tn Checker \<Rightarrow> string \<Rightarrow> 'tn expr \<Rightarrow> 'tn expr \<Rightarrow> CtEval \<Rightarrow> lex_run" where
  "lex_element c nm idx rhs e =
     (case ct_aenv_find (Some e) nm of
        None \<Rightarrow> (0, Lex_fail)
      | Some (a, fl) \<Rightarrow>
          lex_eval (ct_eval_scalar c idx (Some e)) (\<lambda>i.
            case ct_index i a of
              None \<Rightarrow> (0, Lex_fail)
            | Some k \<Rightarrow>
                lex_eval (ct_eval_scalar c rhs (Some e)) (\<lambda>v.
                  if ct_float v \<and> \<not> fl then (0, Lex_fail)
                  else (0, Lex_normal (ct_array_set e nm k (if fl then Ct_float (cts_to_f v) else v))))))"

definition lex_target :: "'tn Checker \<Rightarrow> 'tn expr \<Rightarrow> TokenType \<Rightarrow> 'tn expr \<Rightarrow> CtEval \<Rightarrow> lex_run" where
  "lex_target c tgt opr rhs e =
     (case tgt of
        Ident nm \<Rightarrow> lex_assign c nm opr rhs e
      | Index (Ident nm) idx \<Rightarrow> if opr = Asg TOKEN_ASSIGN then lex_element c nm idx rhs e else (0, Lex_fail)
      | _ \<Rightarrow> (0, Lex_fail))"

definition lex_return :: "'tn Checker \<Rightarrow> 'tn expr \<Rightarrow> CtEval \<Rightarrow> lex_run" where
  "lex_return c x e =
     (case (case x of Ident nm \<Rightarrow> ct_aenv_find (Some e) nm | _ \<Rightarrow> None) of
        Some (a, fl) \<Rightarrow> (0, Lex_array a fl)
      | None \<Rightarrow> lex_eval (ct_eval_scalar c x (Some e)) (\<lambda>v. (0, Lex_scalar v)))"

function lex_for :: "(CtEval \<Rightarrow> lex_run) \<Rightarrow> string \<Rightarrow> int \<Rightarrow> int \<Rightarrow> CtEval \<Rightarrow> lex_run" where
  "lex_for body v iv hi e =
     (if iv < hi then
        lex_then (lex_tick (lex_scope e (body (lex_push e v (Ct_int (word_of_int iv))))))
          (\<lambda>e. lex_for body v (iv + 1) hi e)
      else (0, Lex_normal e))"
  by pat_completeness auto
termination by (relation "measure (\<lambda>(b, v, iv, hi, e). nat (hi - iv))") auto

declare lex_for.simps [simp del]

fun lex_stmt :: "'tn Checker \<Rightarrow> 'tn stmt \<Rightarrow> CtEval \<Rightarrow> lex_run"
and lex_list :: "'tn Checker \<Rightarrow> 'tn stmt list \<Rightarrow> CtEval \<Rightarrow> lex_run" where
  "lex_stmt c Null_stmt e = (0, Lex_normal e)"
| "lex_stmt c (Var_decl tn nm init) e = lex_tick (lex_decl c tn nm init e)"
| "lex_stmt c (Assign tgt opr rhs) e = lex_tick (lex_target c tgt opr rhs e)"
| "lex_stmt c (If_stmt cond th el) e =
     lex_tick (lex_eval (ct_eval_scalar c cond (Some e)) (\<lambda>v.
       lex_scope e (if ct_true v
         then (case th of Block ss \<Rightarrow> lex_list c ss e | _ \<Rightarrow> lex_stmt c th e)
         else (case el of Block ss \<Rightarrow> lex_list c ss e | _ \<Rightarrow> lex_stmt c el e))))"
| "lex_stmt c (For_stmt v rng body) e =
     lex_tick (case rng of
       None \<Rightarrow> (0, Lex_fail)
     | Some (lo, hi) \<Rightarrow>
         lex_eval (ct_eval_scalar c lo (Some e)) (\<lambda>l.
         lex_eval (ct_eval_scalar c hi (Some e)) (\<lambda>h.
           case (l, h) of
             (Ct_int l, Ct_int h) \<Rightarrow>
               lex_for (\<lambda>e. lex_scope e (case body of Block ss \<Rightarrow> lex_list c ss e | _ \<Rightarrow> lex_stmt c body e))
                 v (sint l) (sint h) e
           | _ \<Rightarrow> (0, Lex_fail))))"
| "lex_stmt c (Block ss) e = lex_tick (lex_scope e (lex_list c ss e))"
| "lex_stmt c (Expr_stmt x) e = lex_tick (lex_eval (ct_eval_scalar c x (Some e)) (\<lambda>v. (0, Lex_normal e)))"
| "lex_stmt c (Return x) e = lex_tick (lex_return c x e)"
| "lex_stmt c _ e = (1, Lex_fail)"
| "lex_list c [] e = (0, Lex_normal e)"
| "lex_list c (s # ss) e = lex_then (lex_stmt c s e) (\<lambda>e. lex_list c ss e)"

definition lex_block :: "'tn Checker \<Rightarrow> 'tn stmt \<Rightarrow> CtEval \<Rightarrow> lex_run" where
  "lex_block c s e = lex_scope e (case s of Block ss \<Rightarrow> lex_list c ss e | _ \<Rightarrow> lex_stmt c s e)"

section \<open>Well-scoped blocks\<close>

text \<open>
  \<open>LS\<close> and \<open>LA\<close> are the names of all local scalars and arrays of the block, \<open>ds\<close> and \<open>da\<close> those
  visible at a point.  A name used as a scalar or an array is visible or not a local at all; a
  declaration gives a name that is not visible; only visible scalars are assigned.
\<close>

fun uses_ok :: "string set \<Rightarrow> string set \<Rightarrow> string list \<Rightarrow> string list \<Rightarrow> 'tn expr \<Rightarrow> bool" where
  "uses_ok LS LA ds da (Ident nm) = (nm \<in> set ds \<or> nm \<notin> LS)"
| "uses_ok LS LA ds da (Index obj idx) =
     ((case obj of Ident nm \<Rightarrow> nm \<in> set da \<or> nm \<notin> LA | _ \<Rightarrow> True) \<and> uses_ok LS LA ds da idx)"
| "uses_ok LS LA ds da (Call callee args) = list_all (uses_ok LS LA ds da) args"
| "uses_ok LS LA ds da (Cast x tn) = uses_ok LS LA ds da x"
| "uses_ok LS LA ds da (Unary opr x) = uses_ok LS LA ds da x"
| "uses_ok LS LA ds da (Binary opr l r) = (uses_ok LS LA ds da l \<and> uses_ok LS LA ds da r)"
| "uses_ok LS LA ds da _ = True"

definition target_ok :: "string set \<Rightarrow> string set \<Rightarrow> string list \<Rightarrow> string list \<Rightarrow> 'tn expr \<Rightarrow> bool" where
  "target_ok LS LA ds da tgt =
     (case tgt of
        Ident nm \<Rightarrow> nm \<in> set ds
      | Index obj idx \<Rightarrow>
          (case obj of Ident nm \<Rightarrow> nm \<in> set da \<or> nm \<notin> LA | _ \<Rightarrow> True) \<and> uses_ok LS LA ds da idx
      | _ \<Rightarrow> True)"

definition return_ok :: "string set \<Rightarrow> string set \<Rightarrow> string list \<Rightarrow> string list \<Rightarrow> 'tn expr \<Rightarrow> bool" where
  "return_ok LS LA ds da x =
     (uses_ok LS LA ds da x \<and> (case x of Ident nm \<Rightarrow> nm \<in> set da \<or> nm \<notin> LA | _ \<Rightarrow> True))"

fun scoped :: "'tn Checker \<Rightarrow> string set \<Rightarrow> string set \<Rightarrow> string list \<Rightarrow> string list \<Rightarrow> 'tn stmt \<Rightarrow>
    (string list \<times> string list) option"
and scoped_list :: "'tn Checker \<Rightarrow> string set \<Rightarrow> string set \<Rightarrow> string list \<Rightarrow> string list \<Rightarrow> 'tn stmt list \<Rightarrow>
    (string list \<times> string list) option" where
  "scoped c LS LA ds da (Var_decl tn nm init) =
     (if array_type c tn \<noteq> None then if nm \<in> LA \<and> nm \<notin> set da then Some (ds, da @ [nm]) else None
      else if uses_ok LS LA ds da init \<and> nm \<in> LS \<and> nm \<notin> set ds then Some (ds @ [nm], da) else None)"
| "scoped c LS LA ds da (Assign tgt opr rhs) =
     (if target_ok LS LA ds da tgt \<and> uses_ok LS LA ds da rhs then Some (ds, da) else None)"
| "scoped c LS LA ds da (If_stmt cond th el) =
     (if uses_ok LS LA ds da cond \<and> scoped c LS LA ds da th \<noteq> None \<and> scoped c LS LA ds da el \<noteq> None
      then Some (ds, da) else None)"
| "scoped c LS LA ds da (For_stmt v rng body) =
     (case rng of
        None \<Rightarrow> Some (ds, da)
      | Some (lo, hi) \<Rightarrow>
          if uses_ok LS LA ds da lo \<and> uses_ok LS LA ds da hi \<and> v \<in> LS \<and> v \<notin> set ds \<and>
            scoped c LS LA (ds @ [v]) da body \<noteq> None
          then Some (ds, da) else None)"
| "scoped c LS LA ds da (Block ss) =
     (if scoped_list c LS LA ds da ss \<noteq> None then Some (ds, da) else None)"
| "scoped c LS LA ds da (Expr_stmt x) = (if uses_ok LS LA ds da x then Some (ds, da) else None)"
| "scoped c LS LA ds da (Return x) = (if return_ok LS LA ds da x then Some (ds, da) else None)"
| "scoped c LS LA ds da _ = Some (ds, da)"
| "scoped_list c LS LA ds da [] = Some (ds, da)"
| "scoped_list c LS LA ds da (s # ss) =
     (case scoped c LS LA ds da s of None \<Rightarrow> None | Some (ds, da) \<Rightarrow> scoped_list c LS LA ds da ss)"

section \<open>Agreement of the bindings\<close>

text \<open>The visible bindings are the same; whatever else the flat list has is local to the block.\<close>

definition agrees :: "string set \<Rightarrow> (string \<times> 'a) list \<Rightarrow> (string \<times> 'a) list \<Rightarrow> bool" where
  "agrees L xs ys \<longleftrightarrow>
     dom (last_binding xs) \<subseteq> L \<and> last_binding ys \<subseteq>\<^sub>m last_binding xs \<and> distinct (map fst ys)"

definition agree :: "string set \<Rightarrow> string set \<Rightarrow> CtEval \<Rightarrow> CtEval \<Rightarrow> bool" where
  "agree LS LA ev e \<longleftrightarrow> agrees LS (vals ev) (vals e) \<and> agrees LA (arrs ev) (arrs e) \<and> ret_array ev = None"

definition visible :: "CtEval \<Rightarrow> string list \<times> string list" where
  "visible e = (map fst (vals e), map fst (arrs e))"

lemma dom_last_binding: "dom (last_binding xs) = set (map fst xs)"
proof -
  have "last_binding xs = map_of (rev xs)" by (simp add: last_binding_def fun_eq_iff)
  then show ?thesis by (simp add: dom_map_of_conv_image_fst)
qed

lemma last_binding_None: "last_binding xs nm = None \<longleftrightarrow> nm \<notin> set (map fst xs)"
  using dom_last_binding [of xs] by blast

lemma last_binding_snoc: "last_binding (xs @ [(nm, v)]) = (last_binding xs)(nm \<mapsto> v)"
  by (auto simp: last_binding_def fun_eq_iff)

lemma map_of_set_first: "map_of xs nm \<noteq> None \<Longrightarrow> map_of (set_first nm v xs) = (map_of xs)(nm \<mapsto> v)"
  by (induction xs) (auto simp: fun_eq_iff)

lemma last_binding_set: "last_binding xs nm \<noteq> None \<Longrightarrow>
    last_binding (rev (set_first nm v (rev xs))) = (last_binding xs)(nm \<mapsto> v)"
  using map_of_set_first [of "rev xs" nm v] by (simp add: last_binding_def fun_eq_iff)

lemma names_set_first: "map fst (set_first nm v xs) = map fst xs"
  by (induction xs) auto

lemma names_set: "map fst (rev (set_first nm v (rev xs))) = map fst xs"
  by (simp add: names_set_first flip: rev_map)

lemma agrees_lookup:
  assumes "agrees L xs ys" "nm \<in> set (map fst ys) \<or> nm \<notin> L"
  shows "last_binding xs nm = last_binding ys nm"
proof (cases "nm \<in> dom (last_binding ys)")
  case True
  with assms(1) show ?thesis by (simp add: agrees_def map_le_def)
next
  case False
  with assms dom_last_binding [of ys] have "nm \<notin> L" by simp
  with assms(1) have "nm \<notin> dom (last_binding xs)" by (auto simp: agrees_def)
  with False show ?thesis by (simp add: domIff)
qed

lemma agrees_update:
  assumes "agrees L xs ys" "last_binding xs' = (last_binding xs)(nm \<mapsto> v)" "last_binding ys' = (last_binding ys)(nm \<mapsto> v)"
    "distinct (map fst ys')" "nm \<in> L"
  shows "agrees L xs' ys'"
  using assms by (simp add: agrees_def map_le_upd)

lemma agrees_set:
  assumes "agrees L xs ys" "nm \<in> set (map fst ys)" "last_binding xs' = (last_binding xs)(nm \<mapsto> v)"
    "last_binding ys' = (last_binding ys)(nm \<mapsto> v)" "map fst ys' = map fst ys"
  shows "agrees L xs' ys'"
proof (rule agrees_update [OF assms(1,3,4)])
  show "distinct (map fst ys')" using assms(1,5) by (simp add: agrees_def)
  show "nm \<in> L" using assms(1,2) dom_last_binding [of ys] map_le_implies_dom_le [of "last_binding ys" "last_binding xs"]
    unfolding agrees_def by blast
qed

lemma map_of_take:
  assumes "map_of (take k xs) nm = Some v"
  shows "map_of xs nm = Some v"
  using assms by (induction xs arbitrary: k) (auto simp: take_Cons split: nat.splits if_splits)

lemma last_binding_distinct: "distinct (map fst xs) \<Longrightarrow> last_binding xs = map_of xs"
proof -
  assume "distinct (map fst xs)"
  then have "map_of (rev xs) = map_of xs" by (subst map_of_inject_set) (simp_all flip: rev_map)
  then show ?thesis by (simp add: last_binding_def fun_eq_iff)
qed

lemma agrees_take:
  assumes "agrees L xs ys"
  shows "agrees L xs (take k ys)"
proof -
  have d: "distinct (map fst ys)" using assms by (simp add: agrees_def)
  then have d': "distinct (map fst (take k ys))" by (metis distinct_take take_map)
  have le: "last_binding (take k ys) \<subseteq>\<^sub>m last_binding ys"
    unfolding last_binding_distinct [OF d] last_binding_distinct [OF d'] map_le_def
  proof
    fix nm
    assume "nm \<in> dom (map_of (take k ys))"
    then obtain v where "map_of (take k ys) nm = Some v" by blast
    then show "map_of (take k ys) nm = map_of ys nm" using map_of_take by fastforce
  qed
  show ?thesis using map_le_trans [OF le, of "last_binding xs"] assms d' by (simp add: agrees_def)
qed

lemma set_scalar_lookup: "last_binding (vals (ct_env_set ev nm v)) = (last_binding (vals ev))(nm \<mapsto> v)"
  by (simp add: ct_env_set_def last_binding_set last_binding_snoc)

lemma set_scalar_names:
  "nm \<in> set (map fst (vals e)) \<Longrightarrow> map fst (vals (ct_env_set e nm v)) = map fst (vals e)"
  using last_binding_None [of "vals e" nm] by (simp add: ct_env_set_def names_set)

lemma set_scalar_rest [simp]:
  "arrs (ct_env_set ev nm v) = arrs ev" "ret_array (ct_env_set ev nm v) = ret_array ev"
  "budget (ct_env_set ev nm v) = budget ev"
  by (simp_all add: ct_env_set_def)

lemma array_set_lookup:
  "last_binding (arrs ev) nm = Some (a, fl) \<Longrightarrow>
    last_binding (arrs (ct_array_set ev nm k v)) = (last_binding (arrs ev))(nm \<mapsto> (a[k := v], fl))"
  by (simp add: ct_array_set_def last_binding_set)

lemma array_set_names: "map fst (arrs (ct_array_set ev nm k v)) = map fst (arrs ev)"
  by (simp add: ct_array_set_def names_set split: option.splits)

lemma array_set_rest [simp]:
  "vals (ct_array_set ev nm k v) = vals ev" "ret_array (ct_array_set ev nm k v) = ret_array ev"
  "budget (ct_array_set ev nm k v) = budget ev"
  by (simp_all add: ct_array_set_def split: option.splits)

lemma array_decl_rest [simp]:
  "vals (ct_aenv_decl ev nm n fl) = vals ev" "ret_array (ct_aenv_decl ev nm n fl) = ret_array ev"
  "budget (ct_aenv_decl ev nm n fl) = budget ev"
  by (simp_all add: ct_aenv_decl_def)

lemma agree_budget [simp]: "agree LS LA (ev\<lparr>budget := b\<rparr>) e = agree LS LA ev e"
  by (simp add: agree_def)

lemma agree_push:
  assumes "agree LS LA ev e" "nm \<in> LS" "nm \<notin> set (map fst (vals e))"
  shows "agree LS LA (ct_env_set ev nm v) (lex_push e nm v)"
  using assms agrees_update [of LS "vals ev" "vals e" "vals (ct_env_set ev nm v)" nm v "vals (lex_push e nm v)"]
  by (simp add: agree_def lex_push_def set_scalar_lookup last_binding_snoc agrees_def)

lemma agree_set:
  assumes "agree LS LA ev e" "nm \<in> set (map fst (vals e))"
  shows "agree LS LA (ct_env_set ev nm v) (ct_env_set e nm v)"
  using assms agrees_set [OF _ assms(2) set_scalar_lookup set_scalar_lookup set_scalar_names [OF assms(2)]]
  by (simp add: agree_def)

lemma agree_array:
  assumes "agree LS LA ev e" "nm \<in> LA" "nm \<notin> set (map fst (arrs e))"
  shows "agree LS LA (ct_aenv_decl ev nm n fl) (ct_aenv_decl e nm n fl)"
  using assms by (simp add: agree_def ct_aenv_decl_def agrees_def last_binding_snoc map_le_upd)

lemma agree_element:
  assumes "agree LS LA ev e" "last_binding (arrs e) nm = Some (a, fl)"
  shows "agree LS LA (ct_array_set ev nm k v) (ct_array_set e nm k v)"
proof -
  have nm: "nm \<in> set (map fst (arrs e))" using assms(2) last_binding_None [of "arrs e" nm] by simp
  have "last_binding (arrs ev) nm = Some (a, fl)"
    using agrees_lookup [of LA "arrs ev" "arrs e" nm] assms nm by (simp add: agree_def)
  from agrees_set [OF _ nm array_set_lookup [OF this] array_set_lookup [OF assms(2)] array_set_names] assms(1)
  show ?thesis by (simp add: agree_def)
qed

lemma agree_leave: "agree LS LA ev e' \<Longrightarrow> agree LS LA ev (lex_leave e e')"
  by (simp add: agree_def lex_leave_def agrees_take)

lemma eval_agree:
  assumes "agree LS LA ev e" "uses_ok LS LA (map fst (vals e)) (map fst (arrs e)) x"
  shows "ct_eval_scalar c x (Some ev) = ct_eval_scalar c x (Some e)"
  using assms(2)
proof (induction c x "Some ev" rule: ct_eval_scalar.induct)
  case (4 c nm)
  then show ?case using assms(1) agrees_lookup [of LS "vals ev" "vals e" nm] by (simp add: agree_def ct_env_get_def)
next
  case (6 c obj idx)
  show ?case
  proof (cases obj)
    case (Ident nm)
    then have "ct_aenv_find (Some ev) nm = ct_aenv_find (Some e) nm"
      using 6(2) assms(1) agrees_lookup [of LA "arrs ev" "arrs e" nm] by (simp add: agree_def ct_aenv_find_def)
    then show ?thesis using 6 Ident by (auto split: option.splits)
  qed simp_all
next
  case (7 c callee args)
  then show ?case by (auto split: option.splits list.splits)
qed auto

section \<open>Runs of the two\<close>

text \<open>
  With more budget than the reference makes steps the interpreter ends in the same way, with the
  budget less the steps; otherwise it gives up.
\<close>

definition ends_as :: "string set \<Rightarrow> string set \<Rightarrow> string list \<times> string list \<Rightarrow> int \<Rightarrow> CtScalar option \<Rightarrow> exec_result \<Rightarrow>
    lex_result \<Rightarrow> bool" where
  "ends_as LS LA vis b ret x r =
     (case r of
        Lex_undefined \<Rightarrow> x = None
      | Lex_fail \<Rightarrow> (\<exists>ev ret. x = Some (CT_FAIL, ev, ret))
      | Lex_scalar v \<Rightarrow> (\<exists>ev. x = Some (CT_RETURNED, ev, Some v) \<and> ret_array ev = None)
      | Lex_array a fl \<Rightarrow>
          (\<exists>ev ret nm. x = Some (CT_RETURNED, ev, ret) \<and> ret_array ev = Some nm \<and> ct_aenv_find (Some ev) nm = Some (a, fl))
      | Lex_normal e \<Rightarrow>
          (\<exists>ev. x = Some (CT_NORMAL, ev, ret) \<and> agree LS LA ev e \<and> visible e = vis \<and> budget ev = b))"

definition matches :: "string set \<Rightarrow> string set \<Rightarrow> string list \<times> string list \<Rightarrow> CtEval \<Rightarrow> CtScalar option \<Rightarrow> exec_result \<Rightarrow>
    lex_run \<Rightarrow> bool" where
  "matches LS LA vis ev ret x lr =
     (if int (fst lr) < budget ev then ends_as LS LA vis (budget ev - int (fst lr)) ret x (snd lr)
      else (\<exists>ev' ret'. x = Some (CT_FAIL, ev', ret')))"

lemma matches_fail: "matches LS LA vis ev ret (Some (CT_FAIL, ev', ret')) (n, Lex_fail)"
  by (simp add: matches_def ends_as_def)

lemma matches_normal:
  "0 < budget ev \<Longrightarrow> agree LS LA ev' e \<Longrightarrow> visible e = vis \<Longrightarrow> budget ev' = budget ev \<Longrightarrow>
    matches LS LA vis ev ret (Some (CT_NORMAL, ev', ret)) (0, Lex_normal e)"
  by (simp add: matches_def ends_as_def)

lemma matches_eval:
  assumes "0 < budget ev" "\<And>v. r = Some (Some v) \<Longrightarrow> matches LS LA vis ev ret (g v) (h v)"
  shows "matches LS LA vis ev ret (or_fail ev ret r g) (lex_eval r h)"
  using assms by (auto simp: or_fail_def lex_eval_def matches_def ends_as_def split: option.splits)

lemma matches_tick:
  assumes "0 < budget ev - 1 \<Longrightarrow> matches LS LA vis (ev\<lparr>budget := budget ev - 1\<rparr>) ret x lr"
    "\<not> 0 < budget ev - 1 \<Longrightarrow> \<exists>ev' ret'. x = Some (CT_FAIL, ev', ret')"
  shows "matches LS LA vis ev ret x (lex_tick lr)"
proof (cases "0 < budget ev - 1")
  case True
  show ?thesis using True assms(1) [OF True] by (simp add: matches_def lex_tick_def diff_diff_eq split: if_splits)
next
  case False
  then show ?thesis using assms(2) by (simp add: matches_def lex_tick_def)
qed

text \<open>A continuation that only runs after a normal end.\<close>

definition exec_then :: "exec_result \<Rightarrow> (CtEval \<Rightarrow> CtScalar option \<Rightarrow> exec_result) \<Rightarrow> exec_result" where
  "exec_then x g = (case x of None \<Rightarrow> None | Some (CT_NORMAL, ev, ret) \<Rightarrow> g ev ret | Some r \<Rightarrow> Some r)"

lemma matches_then:
  assumes "matches LS LA vis ev ret x lr"
    "\<And>ev e. x = Some (CT_NORMAL, ev, ret) \<Longrightarrow> agree LS LA ev e \<Longrightarrow> visible e = vis \<Longrightarrow> 0 < budget ev \<Longrightarrow>
      matches LS LA vis' ev ret (g ev ret) (h e)"
  shows "matches LS LA vis' ev ret (exec_then x g) (lex_then lr h)"
proof (cases "snd lr")
  case (Lex_normal e)
  show ?thesis
  proof (cases "int (fst lr) < budget ev")
    case True
    with assms(1) Lex_normal obtain ev' where ev': "x = Some (CT_NORMAL, ev', ret)" "agree LS LA ev' e" "visible e = vis"
        "budget ev' = budget ev - int (fst lr)"
      by (auto simp: matches_def ends_as_def)
    have "matches LS LA vis' ev' ret (g ev' ret) (h e)" using assms(2) ev' True by simp
    then show ?thesis using ev' Lex_normal
      by (simp add: matches_def lex_then_def exec_then_def diff_diff_eq split: if_splits)
  next
    case False
    then show ?thesis using assms(1) Lex_normal by (auto simp: matches_def lex_then_def exec_then_def)
  qed
qed (use assms(1) in \<open>auto simp: matches_def ends_as_def lex_then_def exec_then_def split: if_splits\<close>)

text \<open>Leaving a block restores the visible names.\<close>

lemma matches_scope:
  assumes "matches LS LA (fst (visible e) @ xs, snd (visible e) @ ys) ev ret x lr"
  shows "matches LS LA (visible e) ev ret x (lex_scope e lr)"
proof (cases "snd lr")
  case (Lex_normal e')
  show ?thesis
  proof (cases "int (fst lr) < budget ev")
    case True
    with assms Lex_normal obtain ev' where ev': "x = Some (CT_NORMAL, ev', ret)" "agree LS LA ev' e'"
        "visible e' = (fst (visible e) @ xs, snd (visible e) @ ys)" "budget ev' = budget ev - int (fst lr)"
      by (auto simp: matches_def ends_as_def)
    have "visible (lex_leave e e') = visible e"
      using ev'(3) by (simp add: visible_def lex_leave_def flip: take_map)
    then show ?thesis using ev' True Lex_normal
      by (simp add: matches_def ends_as_def lex_scope_def agree_leave)
  qed (use assms Lex_normal in \<open>simp add: matches_def lex_scope_def\<close>)
qed (use assms in \<open>auto simp: matches_def ends_as_def lex_scope_def split: if_splits\<close>)

lemma decl_matches:
  assumes "agree LS LA ev e" "0 < budget ev"
    "scoped c LS LA (map fst (vals e)) (map fst (arrs e)) (Var_decl tn nm init) = Some vis"
  shows "matches LS LA vis ev ret (exec_var_decl c tn nm init ev ret) (lex_decl c tn nm init e)"
proof (cases "array_type c tn")
  case (Some p)
  then obtain el n t where p: "tn = Some t" "resolve_type_node c t = T_ARRAY el n" "p = (el, n)"
    by (auto simp: array_type_def split: option.splits ty.splits)
  have vis: "nm \<in> LA" "nm \<notin> set (map fst (arrs e))" "vis = (map fst (vals e), map fst (arrs e) @ [nm])"
    using assms(3) Some by (auto split: if_splits)
  show ?thesis
  proof (cases "n \<le> 0 \<or> \<not> scalar_elem el")
    case False
    have "visible (ct_aenv_decl e nm (nat n) (type_is_float el)) = vis"
      by (simp add: visible_def ct_aenv_decl_def vis(3))
    with False show ?thesis using Some p agree_array [OF assms(1) vis(1,2)] assms(2)
      by (auto simp: lex_decl_def exec_var_decl_def intro: matches_normal)
  qed (use Some p in \<open>auto simp: lex_decl_def exec_var_decl_def matches_fail\<close>)
next
  case None
  have vis: "nm \<in> LS" "nm \<notin> set (map fst (vals e))" "vis = (map fst (vals e) @ [nm], map fst (arrs e))"
    "uses_ok LS LA (map fst (vals e)) (map fst (arrs e)) init"
    using assms(3) None by (auto split: if_splits)
  have "exec_var_decl c tn nm init ev ret =
      or_fail ev ret (ct_eval_scalar c init (Some e)) (\<lambda>v.
        case decl_value (decl_type c tn) v of
          None \<Rightarrow> Some (CT_FAIL, ev, ret) | Some v \<Rightarrow> Some (CT_NORMAL, ct_env_set ev nm v, ret))"
    using None eval_agree [OF assms(1) vis(4)]
    by (auto simp: exec_var_decl_def array_type_def decl_type_def or_fail_def split: option.splits ty.splits)
  moreover have "visible (lex_push e nm v) = vis" for v by (simp add: visible_def lex_push_def vis(3))
  ultimately show ?thesis
    by (auto simp: lex_decl_def None intro!: matches_eval assms(2) matches_fail matches_normal
        agree_push [OF assms(1) vis(1,2)] split: option.splits)
qed

lemma element_matches:
  assumes "agree LS LA ev e" "0 < budget ev" "nm \<in> set (map fst (arrs e)) \<or> nm \<notin> LA"
    "uses_ok LS LA (map fst (vals e)) (map fst (arrs e)) idx" "uses_ok LS LA (map fst (vals e)) (map fst (arrs e)) rhs"
  shows "matches LS LA (visible e) ev ret (exec_array_assign c nm idx rhs ev ret) (lex_element c nm idx rhs e)"
proof (cases "last_binding (arrs e) nm")
  case None
  then show ?thesis using agrees_lookup [of LA "arrs ev" "arrs e" nm] assms(1,3)
    by (simp add: exec_array_assign_def lex_element_def ct_aenv_find_def agree_def matches_fail)
next
  case (Some p)
  obtain a fl where p: "p = (a, fl)" by (cases p)
  have ev: "last_binding (arrs ev) nm = Some (a, fl)"
    using agrees_lookup [of LA "arrs ev" "arrs e" nm] assms(1,3) Some p by (simp add: agree_def)
  have "visible (ct_array_set e nm k v) = visible e" for k v by (simp add: visible_def array_set_names)
  then show ?thesis
    using agree_element [OF assms(1) Some [unfolded p]] assms(2)
      eval_agree [OF assms(1,4)] eval_agree [OF assms(1,5)] ev Some p
    by (auto simp: exec_array_assign_def lex_element_def ct_aenv_find_def intro!: matches_eval matches_fail matches_normal
        split: option.splits)
qed

lemma scalar_matches:
  assumes "agree LS LA ev e" "0 < budget ev" "nm \<in> set (map fst (vals e))"
    "uses_ok LS LA (map fst (vals e)) (map fst (arrs e)) rhs"
  shows "matches LS LA (visible e) ev ret (exec_assign c (Ident nm) opr rhs ev ret) (lex_assign c nm opr rhs e)"
proof -
  obtain old where old: "last_binding (vals e) nm = Some old" using assms(3) last_binding_None [of "vals e" nm] by blast
  then have ev: "last_binding (vals ev) nm = Some old"
    using agrees_lookup [of LS "vals ev" "vals e" nm] assms(1,3) by (simp add: agree_def)
  have vis: "visible (ct_env_set e nm v) = visible e" for v
    using set_scalar_names [OF assms(3)] by (simp add: visible_def)
  have normal: "matches LS LA (visible e) ev ret (Some (CT_NORMAL, ct_env_set ev nm w, ret)) (0, Lex_normal (ct_env_set e nm w))" for w
    using agree_set [OF assms(1,3)] vis assms(2) by (simp add: matches_normal)
  show ?thesis
  proof (cases "opr = Asg TOKEN_ASSIGN")
    case True
    then show ?thesis using eval_agree [OF assms(1,4)] old normal assms(2)
      by (auto simp: exec_assign_def lex_assign_def ct_env_get_def assign_value_def lex_eval_def [of "Some (Some _)"] intro!: matches_eval)
  next
    case False
    then show ?thesis using eval_agree [OF assms(1,4)] old ev normal assms(2)
      by (auto simp: exec_assign_def lex_assign_def ct_env_get_def assign_value_def lex_eval_def [of "Some None"]
          intro!: matches_eval matches_fail split: option.splits)
  qed
qed

lemma assign_matches:
  assumes "agree LS LA ev e" "0 < budget ev" "target_ok LS LA (map fst (vals e)) (map fst (arrs e)) tgt"
    "uses_ok LS LA (map fst (vals e)) (map fst (arrs e)) rhs"
  shows "matches LS LA (visible e) ev ret (exec_assign c tgt opr rhs ev ret) (lex_target c tgt opr rhs e)"
proof (cases tgt)
  case (Ident nm)
  then show ?thesis using scalar_matches [OF assms(1,2) _ assms(4)] assms(3) by (simp add: target_ok_def lex_target_def)
next
  case (Index obj idx)
  show ?thesis
  proof (cases "\<exists>nm. obj = Ident nm \<and> opr = Asg TOKEN_ASSIGN")
    case True
    then obtain nm where obj: "obj = Ident nm" "opr = Asg TOKEN_ASSIGN" by blast
    have "matches LS LA (visible e) ev ret (exec_array_assign c nm idx rhs ev ret) (lex_element c nm idx rhs e)"
      using element_matches [OF assms(1,2) _ _ assms(4)] assms(3) obj Index by (simp add: target_ok_def)
    moreover have "snd (lex_element c nm Null_expr rhs e) = Lex_fail"
      by (auto simp: lex_element_def lex_eval_def split: option.splits)
    moreover have "fst (lex_element c nm Null_expr rhs e) = 0"
      by (auto simp: lex_element_def lex_eval_def split: option.splits)
    ultimately show ?thesis using obj Index matches_fail [of LS LA "visible e" ev ret ev ret 0]
      by (cases "lex_element c nm Null_expr rhs e") (auto simp: exec_assign_def lex_target_def)
  next
    case False
    then show ?thesis using Index
      by (cases obj) (auto simp: exec_assign_def lex_target_def matches_fail)
  qed
qed (simp_all add: exec_assign_def lex_target_def matches_fail)

lemma return_matches:
  assumes "agree LS LA ev e" "0 < budget ev" "return_ok LS LA (map fst (vals e)) (map fst (arrs e)) x"
  shows "matches LS LA (visible e) ev ret (exec_return c x ev ret) (lex_return c x e)"
proof -
  have u: "ct_eval_scalar c x (Some ev) = ct_eval_scalar c x (Some e)"
    by (rule eval_agree [OF assms(1)]) (use assms(3) in \<open>simp add: return_ok_def\<close>)
  have v: "x = Ident nm \<Longrightarrow> last_binding (arrs ev) nm = last_binding (arrs e) nm" for nm
    using assms(1,3) agrees_lookup [of LA "arrs ev" "arrs e" nm] by (simp add: agree_def return_ok_def)
  have scalar: "matches LS LA (visible e) ev ret (or_fail ev ret (ct_eval_scalar c x (Some e)) (\<lambda>v. Some (CT_RETURNED, ev, Some v)))
      (lex_eval (ct_eval_scalar c x (Some e)) (\<lambda>v. (0, Lex_scalar v)))"
    using assms(1,2) by (intro matches_eval) (auto simp: matches_def ends_as_def agree_def)
  show ?thesis
  proof (cases "\<exists>nm. x = Ident nm \<and> last_binding (arrs e) nm \<noteq> None")
    case True
    then show ?thesis using v assms(2)
      by (auto simp: exec_return_def lex_return_def Let_def ct_aenv_find_def matches_def ends_as_def)
  next
    case False
    have "exec_return c x ev ret = or_fail ev ret (ct_eval_scalar c x (Some e)) (\<lambda>v. Some (CT_RETURNED, ev, Some v))"
      using False u v by (cases x) (auto simp: exec_return_def Let_def ct_aenv_find_def or_fail_def)
    moreover have "lex_return c x e = lex_eval (ct_eval_scalar c x (Some e)) (\<lambda>v. (0, Lex_scalar v))"
      using False by (cases x) (auto simp: lex_return_def ct_aenv_find_def simp del: ct_eval_scalar.simps split: option.splits)
    ultimately show ?thesis using scalar by simp
  qed
qed

lemma for_matches:
  assumes body: "\<And>ev ret e. agree LS LA ev e \<Longrightarrow> visible e = (ds @ [v], da) \<Longrightarrow> 0 < budget ev \<Longrightarrow>
      matches LS LA (ds @ [v], da) ev ret (exec_body ev ret) (body e)"
    and v: "v \<in> LS" "v \<notin> set ds"
    and e: "agree LS LA ev e" "visible e = (ds, da)" "0 < budget ev"
  shows "matches LS LA (ds, da) ev ret (ct_for exec_body v iv hi ev ret) (lex_for body v iv hi e)"
  using body v e
proof (induction body v iv hi e arbitrary: ev ret rule: lex_for.induct)
  case (1 body v iv hi e)
  show ?case
  proof (cases "iv < hi")
    case False
    then show ?thesis using 1(5-7) by (simp add: ct_for.simps lex_for.simps matches_normal)
  next
    case True
    let ?i = "Ct_int (word_of_int iv)" and ?next = "\<lambda>ev ret. ct_for exec_body v (iv + 1) hi ev ret"
    let ?x = "if budget ev - 1 \<le> 0 then Some (CT_FAIL, ev\<lparr>budget := budget ev - 1\<rparr>, ret)
      else exec_body (ct_env_set (ev\<lparr>budget := budget ev - 1\<rparr>) v ?i) ret"
    have eq: "ct_for exec_body v iv hi ev ret = exec_then ?x ?next"
      using True by (subst ct_for.simps) (auto simp: Let_def exec_then_def split: option.splits CtFlow.splits)
    have push: "agree LS LA (ct_env_set (ev\<lparr>budget := budget ev - 1\<rparr>) v ?i) (lex_push e v ?i)"
      "visible (lex_push e v ?i) = (ds @ [v], da)"
      using agree_push [of LS LA "ev\<lparr>budget := budget ev - 1\<rparr>" e v ?i] 1(3-6) by (auto simp: visible_def lex_push_def)
    have "matches LS LA (ds, da) ev ret ?x (lex_tick (lex_scope e (body (lex_push e v ?i))))"
    proof (rule matches_tick)
      assume b: "0 < budget ev - 1"
      let ?ev = "ev\<lparr>budget := budget ev - 1\<rparr>"
      have "matches LS LA (fst (visible e) @ [v], snd (visible e) @ []) (ct_env_set ?ev v ?i) ret
          (exec_body (ct_env_set ?ev v ?i) ret) (body (lex_push e v ?i))"
        using 1(2) [OF push] 1(6) b by simp
      then have "matches LS LA (ds, da) (ct_env_set ?ev v ?i) ret
          (exec_body (ct_env_set ?ev v ?i) ret) (lex_scope e (body (lex_push e v ?i)))"
        using matches_scope 1(6) by metis
      then show "matches LS LA (ds, da) ?ev ret ?x (lex_scope e (body (lex_push e v ?i)))"
        using b by (simp add: matches_def split: if_splits)
    qed simp
    then have "matches LS LA (ds, da) ev ret (exec_then ?x ?next)
        (lex_then (lex_tick (lex_scope e (body (lex_push e v ?i)))) (\<lambda>e. lex_for body v (iv + 1) hi e))"
      by (rule matches_then) (rule 1(1) [OF True 1(2-4)], assumption+)
    then show ?thesis using True by (subst lex_for.simps) (simp add: eq)
  qed
qed

lemma scoped_extends:
  "scoped c LS LA ds da s = Some vis \<Longrightarrow> \<exists>xs ys. vis = (ds @ xs, da @ ys)"
  "scoped_list c LS LA ds da ss = Some vis \<Longrightarrow> \<exists>xs ys. vis = (ds @ xs, da @ ys)"
  by (induction c LS LA ds da s and c LS LA ds da ss arbitrary: vis and vis rule: scoped_scoped_list.induct)
    (fastforce split: if_splits option.splits)+

lemma lex_stmt_if:
  "lex_stmt c (If_stmt cond th el) e =
     lex_tick (lex_eval (ct_eval_scalar c cond (Some e)) (\<lambda>v. lex_block c (if ct_true v then th else el) e))"
  unfolding lex_stmt.simps lex_block_def
  by (rule arg_cong [where f = lex_tick], rule arg_cong [where f = "lex_eval _"]) (simp add: fun_eq_iff)

lemma lex_stmt_for:
  "lex_stmt c (For_stmt v rng body) e =
     lex_tick (case rng of
       None \<Rightarrow> (0, Lex_fail)
     | Some (lo, hi) \<Rightarrow>
         lex_eval (ct_eval_scalar c lo (Some e)) (\<lambda>l.
         lex_eval (ct_eval_scalar c hi (Some e)) (\<lambda>h.
           case (l, h) of
             (Ct_int l, Ct_int h) \<Rightarrow> lex_for (\<lambda>e. lex_block c body e) v (sint l) (sint h) e
           | _ \<Rightarrow> (0, Lex_fail))))"
  unfolding lex_stmt.simps lex_block_def [abs_def] ..

lemma exec_list_then:
  "ct_exec_list c (s # ss) ev ret = exec_then (ct_exec_stmt c s ev ret) (\<lambda>ev ret. ct_exec_list c ss ev ret)"
  by (simp add: exec_then_def)

lemma exec_matches:
  "agree LS LA ev e \<Longrightarrow> 0 < budget ev \<Longrightarrow> scoped c LS LA (fst (visible e)) (snd (visible e)) s = Some vis \<Longrightarrow>
    matches LS LA vis ev ret (ct_exec_stmt c s ev ret) (lex_stmt c s e)"
  "agree LS LA ev e \<Longrightarrow> 0 < budget ev \<Longrightarrow> scoped c LS LA (fst (visible e)) (snd (visible e)) s \<noteq> None \<Longrightarrow>
    matches LS LA (visible e) ev ret (ct_exec_block c s ev ret) (lex_block c s e)"
  "agree LS LA ev e \<Longrightarrow> 0 < budget ev \<Longrightarrow> scoped_list c LS LA (fst (visible e)) (snd (visible e)) ss = Some vis \<Longrightarrow>
    matches LS LA vis ev ret (ct_exec_list c ss ev ret) (lex_list c ss e)"
proof (induction c s ev ret and c s ev ret and c ss ev ret arbitrary: e vis and e and e vis
    rule: ct_exec_stmt_ct_exec_block_ct_exec_list.induct)
  case (1 c s ev ret)
  let ?ev = "ev\<lparr>budget := budget ev - 1\<rparr>"
  show ?case
  proof (cases "s = Null_stmt")
    case True
    then show ?thesis using 1 by (auto simp: ct_exec_stmt.simps visible_def matches_normal)
  next
    case nonnull: False
    show ?thesis
    proof (cases "0 < budget ev - 1")
      case False
      have "\<exists>r. lex_stmt c s e = lex_tick r"
        using nonnull by (cases s) (auto simp: lex_tick_def)
      then show ?thesis using False nonnull
        by (auto simp: ct_exec_stmt.simps Let_def intro!: matches_tick)
    next
      case True
      have vis: "fst (visible e) = map fst (vals e)" "snd (visible e) = map fst (arrs e)" by (simp_all add: visible_def)
      have a: "agree LS LA ?ev e" "0 < budget ?ev" using 1(5) True by simp_all
      note b = 1(7) [unfolded vis]
      have tick: "ct_exec_stmt c s ev ret = x \<Longrightarrow> lex_stmt c s e = lex_tick lr \<Longrightarrow> matches LS LA vis ?ev ret x lr \<Longrightarrow> ?thesis" for x lr
        using True by (auto intro: matches_tick)
      have run: "ct_exec_stmt c s ev ret = y \<longleftrightarrow>
          (case s of
                Var_decl tn nm init \<Rightarrow> exec_var_decl c tn nm init ?ev ret
              | Assign tgt opr rhs \<Rightarrow> exec_assign c tgt opr rhs ?ev ret
              | If_stmt cond th el \<Rightarrow>
                  or_fail ?ev ret (ct_eval_scalar c cond (Some ?ev)) (\<lambda>v.
                    if ct_true v then ct_exec_block c th ?ev ret else ct_exec_block c el ?ev ret)
              | For_stmt v rng body \<Rightarrow>
                  (case rng of
                     None \<Rightarrow> Some (CT_FAIL, ?ev, ret)
                   | Some (lo, hi) \<Rightarrow>
                       or_fail ?ev ret (ct_eval_scalar c lo (Some ?ev)) (\<lambda>l.
                       or_fail ?ev ret (ct_eval_scalar c hi (Some ?ev)) (\<lambda>h.
                         case (l, h) of
                           (Ct_int l, Ct_int h) \<Rightarrow>
                             ct_for (\<lambda>ev ret. ct_exec_block c body ev ret) v (sint l) (sint h) ?ev ret
                         | _ \<Rightarrow> Some (CT_FAIL, ?ev, ret))))
              | Block ss \<Rightarrow> ct_exec_list c ss ?ev ret
              | Expr_stmt e \<Rightarrow> or_fail ?ev ret (ct_eval_scalar c e (Some ?ev)) (\<lambda>v. Some (CT_NORMAL, ?ev, ret))
              | Return e \<Rightarrow> exec_return c e ?ev ret
              | _ \<Rightarrow> Some (CT_FAIL, ?ev, ret)) = y" for y
        using nonnull True by (subst ct_exec_stmt.simps) (simp add: Let_def)
      show ?thesis
      proof (cases s)
        case (Var_decl tn nm init)
        show ?thesis
          by (rule tick [OF run [THEN iffD2]], simp add: Var_decl, simp add: Var_decl)
            (rule decl_matches [OF a b [unfolded Var_decl]])
      next
        case (Assign tgt opr rhs)
        then have "vis = visible e" "target_ok LS LA (map fst (vals e)) (map fst (arrs e)) tgt"
          "uses_ok LS LA (map fst (vals e)) (map fst (arrs e)) rhs" using b by (auto simp: vis visible_def split: if_splits)
        then have "matches LS LA vis ?ev ret (exec_assign c tgt opr rhs ?ev ret) (lex_target c tgt opr rhs e)"
          using assign_matches [OF a] by simp
        then show ?thesis by (rule tick [OF run [THEN iffD2], rotated 2]) (simp_all add: Assign)
      next
        case (If_stmt cond th el)
        then have s: "vis = visible e" "uses_ok LS LA (map fst (vals e)) (map fst (arrs e)) cond"
          "scoped c LS LA (fst (visible e)) (snd (visible e)) th \<noteq> None"
          "scoped c LS LA (fst (visible e)) (snd (visible e)) el \<noteq> None"
          using b by (auto simp: vis visible_def split: if_splits)
        have th: "ct_true v \<Longrightarrow> matches LS LA (visible e) ?ev ret (ct_exec_block c th ?ev ret) (lex_block c th e)" for v
          using 1(1) If_stmt nonnull True a s(3) by simp
        have el: "\<not> ct_true v \<Longrightarrow> matches LS LA (visible e) ?ev ret (ct_exec_block c el ?ev ret) (lex_block c el e)" for v
          using 1(2) If_stmt nonnull True a s(4) by simp
        have "matches LS LA vis ?ev ret
            (or_fail ?ev ret (ct_eval_scalar c cond (Some e)) (\<lambda>v.
               if ct_true v then ct_exec_block c th ?ev ret else ct_exec_block c el ?ev ret))
            (lex_eval (ct_eval_scalar c cond (Some e)) (\<lambda>v. lex_block c (if ct_true v then th else el) e))"
          by (rule matches_eval [OF a(2)]) (simp add: s(1) th el)
        then show ?thesis
          by (rule tick [OF run [THEN iffD2], rotated 2])
            (simp_all only: If_stmt stmt.case lex_stmt_if eval_agree [OF a(1) s(2)])
      next
        case (For_stmt v rng body)
        show ?thesis
        proof (cases rng)
          case None
          then show ?thesis using matches_fail
            by (intro tick [OF run [THEN iffD2], of _ "(0, Lex_fail)"]) (simp_all add: For_stmt)
        next
          case (Some p)
          obtain lo hi where p: "p = (lo, hi)" by (cases p)
          have s: "vis = visible e" "uses_ok LS LA (map fst (vals e)) (map fst (arrs e)) lo"
            "uses_ok LS LA (map fst (vals e)) (map fst (arrs e)) hi" "v \<in> LS" "v \<notin> set (map fst (vals e))"
            "scoped c LS LA (map fst (vals e) @ [v]) (map fst (arrs e)) body \<noteq> None"
            using b For_stmt Some p by (auto simp: visible_def split: if_splits)
          have body: "matches LS LA (map fst (vals e) @ [v], map fst (arrs e)) ev1 ret1 (ct_exec_block c body ev1 ret1) (lex_block c body e1)"
            if "agree LS LA ev1 e1" "visible e1 = (map fst (vals e) @ [v], map fst (arrs e))" "0 < budget ev1" for ev1 ret1 e1
            unfolding that(2) [symmetric]
            by (rule 1(3) [OF nonnull refl _ For_stmt Some p [symmetric] refl refl refl that(1)])
              (use True that s(6) in simp_all)
          have "matches LS LA vis ?ev ret (ct_for (\<lambda>ev ret. ct_exec_block c body ev ret) v l h ?ev ret)
              (lex_for (\<lambda>e. lex_block c body e) v l h e)" for l h
            unfolding s(1) visible_def
            by (rule for_matches [OF body s(4,5) a(1) _ a(2)]) (simp_all add: visible_def)
          then have "matches LS LA vis ?ev ret
              (or_fail ?ev ret (ct_eval_scalar c lo (Some e)) (\<lambda>l.
               or_fail ?ev ret (ct_eval_scalar c hi (Some e)) (\<lambda>h.
                 case (l, h) of
                   (Ct_int l, Ct_int h) \<Rightarrow> ct_for (\<lambda>ev ret. ct_exec_block c body ev ret) v (sint l) (sint h) ?ev ret
                 | _ \<Rightarrow> Some (CT_FAIL, ?ev, ret))))
              (lex_eval (ct_eval_scalar c lo (Some e)) (\<lambda>l.
               lex_eval (ct_eval_scalar c hi (Some e)) (\<lambda>h.
                 case (l, h) of
                   (Ct_int l, Ct_int h) \<Rightarrow> lex_for (\<lambda>e. lex_block c body e) v (sint l) (sint h) e
                 | _ \<Rightarrow> (0, Lex_fail))))"
            by (intro matches_eval a(2)) (simp add: matches_fail split: CtScalar.split)
          then show ?thesis
            by (rule tick [OF run [THEN iffD2], rotated 2])
              (simp_all only: For_stmt Some p stmt.case option.case prod.case lex_stmt_for
                 eval_agree [OF a(1) s(2)] eval_agree [OF a(1) s(3)])
        qed
      next
        case (Block ss)
        then have s: "vis = visible e" using b by (auto simp: visible_def split: if_splits)
        obtain vis' where v: "scoped_list c LS LA (fst (visible e)) (snd (visible e)) ss = Some vis'"
          using b Block by (auto simp: vis split: if_splits)
        then obtain xs ys where "vis' = (fst (visible e) @ xs, snd (visible e) @ ys)" using scoped_extends(2) by blast
        moreover have "matches LS LA vis' ?ev ret (ct_exec_list c ss ?ev ret) (lex_list c ss e)"
          using 1(4) Block nonnull True a v by simp
        ultimately have "matches LS LA vis ?ev ret (ct_exec_list c ss ?ev ret) (lex_scope e (lex_list c ss e))"
          using s matches_scope by simp
        then show ?thesis by (rule tick [OF run [THEN iffD2], rotated 2]) (simp_all add: Block)
      next
        case (Expr_stmt x)
        then have s: "vis = visible e" "uses_ok LS LA (map fst (vals e)) (map fst (arrs e)) x"
          using b by (auto simp: visible_def split: if_splits)
        have "matches LS LA vis ?ev ret (or_fail ?ev ret (ct_eval_scalar c x (Some e)) (\<lambda>v. Some (CT_NORMAL, ?ev, ret)))
            (lex_eval (ct_eval_scalar c x (Some e)) (\<lambda>v. (0, Lex_normal e)))"
          by (intro matches_eval matches_normal a) (simp_all add: s(1))
        then show ?thesis
          by (rule tick [OF run [THEN iffD2], rotated 2])
            (simp_all only: Expr_stmt stmt.case lex_stmt.simps eval_agree [OF a(1) s(2)])
      next
        case (Return x)
        then have "vis = visible e" "return_ok LS LA (map fst (vals e)) (map fst (arrs e)) x"
          using b by (auto simp: vis visible_def split: if_splits)
        then have "matches LS LA vis ?ev ret (exec_return c x ?ev ret) (lex_return c x e)"
          using return_matches [OF a] by simp
        then show ?thesis by (rule tick [OF run [THEN iffD2], rotated 2]) (simp_all add: Return)
      next
        case (Comptime_if cond th el)
        show ?thesis
          by (rule tick [OF run [THEN iffD2] _ matches_fail]) (simp_all add: Comptime_if lex_tick_def)
      next
        case Other_stmt
        show ?thesis
          by (rule tick [OF run [THEN iffD2] _ matches_fail]) (simp_all add: Other_stmt lex_tick_def)
      qed (use nonnull in simp)
    qed
  qed
next
  case (2 c s ev ret)
  from "2.prems"(3) obtain vis where v: "scoped c LS LA (fst (visible e)) (snd (visible e)) s = Some vis"
    by (cases "scoped c LS LA (fst (visible e)) (snd (visible e)) s") simp_all
  obtain xs ys where vis: "vis = (fst (visible e) @ xs, snd (visible e) @ ys)" using scoped_extends(1) [OF v] by blast
  show ?case
  proof (cases "\<exists>ss. s = Block ss")
    case True
    then obtain ss vis' where ss: "s = Block ss" "scoped_list c LS LA (fst (visible e)) (snd (visible e)) ss = Some vis'"
      using v by (auto split: if_splits)
    obtain xs ys where "vis' = (fst (visible e) @ xs, snd (visible e) @ ys)" using scoped_extends(2) [OF ss(2)] by blast
    moreover have "matches LS LA vis' ev ret (ct_exec_list c ss ev ret) (lex_list c ss e)"
      by (rule "2.IH", rule ss(1), rule "2.prems"(1), rule "2.prems"(2), rule ss(2))
    ultimately show ?thesis using ss(1) matches_scope by (simp add: ct_exec_block.simps lex_block_def)
  next
    case False
    have "matches LS LA vis ev ret (ct_exec_stmt c s ev ret) (lex_stmt c s e)"
    proof (cases "s = Null_stmt")
      case True
      then show ?thesis using "2.prems"(1,2) v by (auto simp: ct_exec_stmt.simps visible_def matches_normal)
    next
      case nonnull: False
      show ?thesis
        by (cases s; (rule "2.IH", assumption, rule "2.prems"(1), rule "2.prems"(2), rule v)?)
          (use nonnull False in simp_all)
    qed
    moreover have "ct_exec_block c s ev ret = ct_exec_stmt c s ev ret"
      using False by (cases s) (simp_all add: ct_exec_block.simps ct_exec_stmt.simps)
    moreover have "lex_block c s e = lex_scope e (lex_stmt c s e)"
      using False by (cases s) (simp_all add: lex_block_def)
    ultimately show ?thesis using vis matches_scope by simp
  qed
next
  case (3 c ev ret)
  then show ?case by (simp add: visible_def matches_normal)
next
  case (4 c s ss ev ret)
  obtain vis1 where v: "scoped c LS LA (fst (visible e)) (snd (visible e)) s = Some vis1"
    "scoped_list c LS LA (fst vis1) (snd vis1) ss = Some vis"
    using 4(5) by (auto split: option.splits)
  have "matches LS LA vis ev ret (exec_then (ct_exec_stmt c s ev ret) (\<lambda>ev ret. ct_exec_list c ss ev ret))
      (lex_then (lex_stmt c s e) (\<lambda>e. lex_list c ss e))"
  proof (rule matches_then [OF 4(1) [OF 4(3,4) v(1)]])
    fix ev' e'
    assume "ct_exec_stmt c s ev ret = Some (CT_NORMAL, ev', ret)" "agree LS LA ev' e'" "visible e' = vis1" "0 < budget ev'"
    then show "matches LS LA vis ev' ret (ct_exec_list c ss ev' ret) (lex_list c ss e')"
      using 4(2) [of "(CT_NORMAL, ev', ret)" CT_NORMAL "(ev', ret)" ev' ret e' vis] v(2) by simp
  qed
  then show ?case by (simp only: exec_list_then lex_list.simps)
qed

section \<open>The value of a block\<close>

text \<open>A scalar or an array; \<open>Some None\<close> where the code reports that the block is not constant.\<close>

definition block_value :: "exec_result \<Rightarrow> (CtScalar + CtScalar list \<times> bool) option option" where
  "block_value x =
     (case x of
        None \<Rightarrow> None
      | Some (flow, ev, ret) \<Rightarrow>
          if flow \<noteq> CT_RETURNED then Some None
          else Some (case Option.bind (ret_array ev) (ct_aenv_find (Some ev)) of
              Some a \<Rightarrow> Some (Inr a)
            | None \<Rightarrow> map_option Inl ret))"

definition lex_value :: "lex_result \<Rightarrow> (CtScalar + CtScalar list \<times> bool) option option" where
  "lex_value r =
     (case r of
        Lex_undefined \<Rightarrow> None
      | Lex_fail \<Rightarrow> Some None
      | Lex_scalar v \<Rightarrow> Some (Some (Inl v))
      | Lex_array a fl \<Rightarrow> Some (Some (Inr (a, fl)))
      | Lex_normal e \<Rightarrow> Some None)"

lemma matches_value:
  assumes "matches LS LA vis ev ret x lr"
  shows "block_value x = (if int (fst lr) < budget ev then lex_value (snd lr) else Some None)"
  using assms by (cases "snd lr") (auto simp: matches_def ends_as_def block_value_def lex_value_def split: if_splits)

text \<open>C30: A compile-time block that is well scoped is executed with lexical scoping.  Well scoped means
  three things: no declaration or loop variable hides a visible name; only variables that are visible
  are assigned; and a local name is used only where it is visible, while any other name is no local of
  the block.  The value of such a block is that of the reference, whose inner blocks drop their
  bindings, whenever the budget exceeds the number of statements and loop rounds executed; with a
  smaller budget the block is rejected, and never anything else.  None of the three conditions can be
  dropped: \<open>shadowing_overwrites\<close>, \<open>undeclared_assigned\<close> and \<open>binding_escapes\<close> are blocks that break one of
  them and have a value that lexical scoping does not give.\<close>

theorem comptime_lexical_scoping:
  assumes "scoped c LS LA [] [] b \<noteq> None" "0 < n"
  shows "block_value (ct_exec_block c b (fresh_eval\<lparr>budget := n\<rparr>) None) =
    (let (steps, r) = lex_block c b fresh_eval in if int steps < n then lex_value r else Some None)"
proof -
  have "agree LS LA (fresh_eval\<lparr>budget := n\<rparr>) fresh_eval"
    by (auto simp: agree_def agrees_def fresh_eval_def last_binding_def)
  from matches_value [OF exec_matches(2) [OF this, of c b None]] assms show ?thesis
    by (simp add: visible_def fresh_eval_def split_beta)
qed

text \<open>The sum of the squares below four.\<close>

definition squares_block :: "unit stmt" where
  "squares_block =
     Block [Var_decl (Some ()) ''s'' (Int_lit 0),
       For_stmt ''i'' (Some (Int_lit 0, Int_lit 4))
         (Block [Var_decl (Some ()) ''q'' (Binary (Op TOKEN_STAR) (Ident ''i'') (Ident ''i'')),
            Assign (Ident ''s'') (Asg TOKEN_PLUS_ASSIGN) (Ident ''q'')]),
       Return (Ident ''s'')]"

lemma squares_lex: "lex_block (sample_checker (T_PRIM TYPE_INT)) squares_block fresh_eval = (15, Lex_scalar (Ct_int 14))"
  by (simp add: lex_block_def squares_block_def sample_checker_def fresh_eval_def lex_scope_def lex_then_def lex_tick_def
      lex_decl_def array_type_def decl_type_def decl_value_def lex_eval_def lex_push_def lex_for.simps lex_leave_def
      ev_bind_def ct_env_get_def last_binding_def ct_env_set_def lex_target_def lex_assign_def assign_value_def
      compound_op_def ct_arith_def ct_int_op_def ct_binary_def ct_compare_def checked_def lex_return_def ct_aenv_find_def Let_def)

lemma squares_scoped: "scoped (sample_checker (T_PRIM TYPE_INT)) {''s'', ''i'', ''q''} {} [] [] squares_block \<noteq> None"
  by code_simp

theorem comptime_lexical_scoping_witness:
  "block_value (ct_exec_block (sample_checker (T_PRIM TYPE_INT)) squares_block (fresh_eval\<lparr>budget := CT_BUDGET_DEFAULT\<rparr>) None) =
     Some (Some (Inl (Ct_int 14))) \<and>
   block_value (ct_exec_block (sample_checker (T_PRIM TYPE_INT)) squares_block (fresh_eval\<lparr>budget := 15\<rparr>) None) = Some None"
  using comptime_lexical_scoping [OF squares_scoped, of CT_BUDGET_DEFAULT] comptime_lexical_scoping [OF squares_scoped, of 15]
  by (simp add: squares_lex lex_value_def CT_BUDGET_DEFAULT_def)

section \<open>Where the interpreter is not the language\<close>

text \<open>An inner declaration overwrites the outer variable of the same name.\<close>

definition shadow_block :: "unit stmt" where
  "shadow_block =
     Block [Var_decl (Some ()) ''x'' (Int_lit 1), Block [Var_decl (Some ()) ''x'' (Int_lit 2)], Return (Ident ''x'')]"

lemma shadowing_overwrites:
  "block_value (ct_exec_block (sample_checker (T_PRIM TYPE_INT)) shadow_block fresh_eval None) = Some (Some (Inl (Ct_int 2))) \<and>
   lex_value (snd (lex_block (sample_checker (T_PRIM TYPE_INT)) shadow_block fresh_eval)) = Some (Some (Inl (Ct_int 1)))"
  by code_simp

text \<open>An assignment to a name that is not declared declares it.\<close>

definition undeclared_block :: "unit stmt" where
  "undeclared_block = Block [Assign (Ident ''x'') (Asg TOKEN_ASSIGN) (Int_lit 5), Return (Ident ''x'')]"

lemma undeclared_assigned:
  "block_value (ct_exec_block (sample_checker (T_PRIM TYPE_INT)) undeclared_block fresh_eval None) = Some (Some (Inl (Ct_int 5))) \<and>
   lex_value (snd (lex_block (sample_checker (T_PRIM TYPE_INT)) undeclared_block fresh_eval)) = Some None"
  by code_simp

text \<open>A variable of an inner block is visible after the block.\<close>

definition escaping_block :: "unit stmt" where
  "escaping_block = Block [Block [Var_decl (Some ()) ''x'' (Int_lit 1)], Return (Ident ''x'')]"

lemma binding_escapes:
  "block_value (ct_exec_block (sample_checker (T_PRIM TYPE_INT)) escaping_block fresh_eval None) = Some (Some (Inl (Ct_int 1))) \<and>
   lex_value (snd (lex_block (sample_checker (T_PRIM TYPE_INT)) escaping_block fresh_eval)) = Some None"
  by code_simp

text \<open>Integers are compared as doubles.\<close>

lemma comparison_rounds:
  "ct_compare (Op TOKEN_EQ) (Ct_int 9007199254740993) (Ct_int 9007199254740992) = Some True"
  by (simp add: ct_compare_def Let_def f_of_int_def nat_bits_def top_bit.simps f_eq_def f_nan_def f_key_def f_sign_def
      magnitude_def INF_BITS_def)

text \<open>The quotient that does not fit has no value in C.\<close>

lemma overflow_undefined: "ct_int_op (Op TOKEN_SLASH) (word_of_int (- (2 ^ 63))) (- 1) = None"
  by code_simp

text \<open>An integer assigned to a variable of type \<open>f64\<close> makes the variable an integer.\<close>

definition f64_block :: "unit stmt" where
  "f64_block =
     Block [Var_decl (Some ()) ''x'' (Float_lit 0), Assign (Ident ''x'') (Asg TOKEN_ASSIGN) (Int_lit 3),
       Return (Binary (Op TOKEN_SLASH) (Ident ''x'') (Int_lit 2))]"

lemma f64_forgotten:
  "block_value (ct_exec_block (sample_checker (T_PRIM TYPE_F64)) f64_block fresh_eval None) = Some (Some (Inl (Ct_int 1)))"
  by (simp add: f64_block_def ct_exec_block.simps ct_exec_stmt.simps exec_var_decl_def exec_assign_def exec_return_def
      sample_checker_def fresh_eval_def CT_BUDGET_DEFAULT_def or_fail_def decl_value_def ct_env_set_def last_binding_def
      ct_env_get_def ct_aenv_find_def ev_bind_def ct_binary_def ct_compare_def ct_arith_def ct_int_op_def checked_def
      Let_def block_value_def)

text \<open>A block that returns an array where a scalar constant is declared reads a value that was never set.\<close>

definition array_block :: "unit stmt" where
  "array_block = Block [Var_decl (Some ()) ''t'' Null_expr, Return (Ident ''t'')]"

lemma array_for_scalar:
  "const_scalar (sample_checker (T_ARRAY (T_PRIM TYPE_INT) 2)) (T_PRIM TYPE_INT) ''X'' (Const_block array_block) = None"
  by code_simp

text \<open>The logical operators evaluate their right operand always.\<close>

lemma no_short_circuit:
  "ct_eval_scalar (sample_checker T_NULL)
     (Binary (Op TOKEN_OR) (Bool_lit True) (Binary (Op TOKEN_SLASH) (Int_lit 1) (Int_lit 0))) None = Some None"
  by code_simp

end
