(* ===== verification/Diag.thy ===== *)
theory Diag
  imports Prelude
begin

text \<open>
  Diagnostics (\<open>src/src/diag.c\<close>): the record of a diagnostic, the cache of source lines, the text
  renderer with its snippet and caret, the collector that writes JSON, and the suggestion of a close
  name.

  The files of the disk are a map from paths to contents (\<open>None\<close> where \<open>fopen\<close> or \<open>ftell\<close> fails),
  \<open>color\<close> says whether standard error is a colour terminal, and what is written there is a string.
  The growth of the arrays by doubling is not modelled; \<open>DiagCandidateFn\<close> is the list of the
  candidates that it yields.
\<close>

section \<open>Diagnostics\<close>

datatype DiagKind = DIAG_TYPE_ERROR | DIAG_MOVE_ERROR | DIAG_WARNING | DIAG_PARSE_ERROR | DIAG_SCAN_ERROR

record Diagnostic =
  dkind :: DiagKind
  dfile :: "string option"
  dline :: int
  dcol :: int
  dlen :: int
  message :: string
  help_text :: string

definition LF :: char where "LF = CHR 0x0A"
definition CR :: char where "CR = CHR 0x0D"
definition TAB :: char where "TAB = CHR 0x09"
definition QUOTE :: char where "QUOTE = CHR 0x22"
definition BACKSLASH :: char where "BACKSLASH = CHR 0x5C"
definition ESC :: char where "ESC = CHR 0x1B"

section \<open>The cache of source lines\<close>

record SrcCache =
  path :: "string option"
  src :: string
  line_off :: "nat list"
  failed :: bool

definition no_cache :: SrcCache where
  "no_cache = \<lparr>path = None, src = [], line_off = [], failed = False\<rparr>"

type_synonym files = "string \<Rightarrow> string option"

text \<open>The offset of every line start.\<close>

definition line_starts :: "string \<Rightarrow> nat list" where
  "line_starts s = 0 # map Suc (filter (\<lambda>i. s ! i = LF) [0..<length s])"

definition src_cache_load :: "files \<Rightarrow> string \<Rightarrow> SrcCache" where
  "src_cache_load fs p =
     (case fs p of
        None \<Rightarrow> \<lparr>path = Some p, src = [], line_off = [], failed = True\<rparr>
      | Some s \<Rightarrow> \<lparr>path = Some p, src = s, line_off = line_starts s, failed = False\<rparr>)"

text \<open>The bytes of the C string at an offset, and the bytes without trailing carriage returns.\<close>

definition c_str :: "string \<Rightarrow> string" where
  "c_str s = takeWhile (\<lambda>c. c \<noteq> NUL) s"

definition strip_cr :: "string \<Rightarrow> string" where
  "strip_cr s = rev (dropWhile (\<lambda>c. c = CR) (rev s))"

definition diag_source_line :: "files \<Rightarrow> SrcCache \<Rightarrow> string option \<Rightarrow> int \<Rightarrow> SrcCache \<times> string option" where
  "diag_source_line fs g p line =
     (case p of
        None \<Rightarrow> (g, None)
      | Some p \<Rightarrow>
          if line < 1 then (g, None)
          else (let g = (if path g = Some p then g else src_cache_load fs p)
                in if failed g \<or> line > int (length (line_off g)) then (g, None)
                   else (let s = c_str (drop (line_off g ! nat (line - 1)) (src g))
                         in (g, Some (strip_cr (takeWhile (\<lambda>c. c \<noteq> LF) s))))))"

section \<open>Suggestions\<close>

definition DIAG_SUGG_MAX_NAME :: nat where "DIAG_SUGG_MAX_NAME = 64"

text \<open>One cell from the two rows before and the row so far.\<close>

definition osa_cell :: "string \<Rightarrow> string \<Rightarrow> nat list \<Rightarrow> nat list \<Rightarrow> nat list \<Rightarrow> nat \<Rightarrow> nat \<Rightarrow> nat" where
  "osa_cell a b prev2 prev row i j =
     (let cost = (if a ! (i - 1) = b ! (j - 1) then 0 else 1);
          d = prev ! j + 1;
          d = (if row ! (j - 1) + 1 < d then row ! (j - 1) + 1 else d);
          d = (if prev ! (j - 1) + cost < d then prev ! (j - 1) + cost else d)
      in if i > 1 \<and> j > 1 \<and> a ! (i - 1) = b ! (j - 2) \<and> a ! (i - 2) = b ! (j - 1) \<and> prev2 ! (j - 2) + 1 < d
         then prev2 ! (j - 2) + 1 else d)"

text \<open>A row with its least entry.\<close>

definition osa_row :: "string \<Rightarrow> string \<Rightarrow> nat list \<Rightarrow> nat list \<Rightarrow> nat \<Rightarrow> nat list \<times> nat" where
  "osa_row a b prev2 prev i =
     foldl (\<lambda>(row, row_min) j. let d = osa_cell a b prev2 prev row i j in (row @ [d], if d < row_min then d else row_min))
       ([i], i) [1..<length b + 1]"

function osa_rows :: "string \<Rightarrow> string \<Rightarrow> nat \<Rightarrow> nat list \<Rightarrow> nat list \<Rightarrow> nat \<Rightarrow> nat" where
  "osa_rows a b limit prev2 prev i =
     (if i \<le> length a then
        (let (row, row_min) = osa_row a b prev2 prev i
         in if row_min > limit then limit + 1 else osa_rows a b limit prev row (i + 1))
      else prev ! length b)"
  by pat_completeness auto
termination by (relation "measure (\<lambda>(a, b, limit, prev2, prev, i). Suc (length a) - i)") auto

declare osa_rows.simps [simp del]

definition diag_osa_distance :: "string \<Rightarrow> string \<Rightarrow> nat \<Rightarrow> nat" where
  "diag_osa_distance a b limit =
     (let la = length a; lb = length b; diff = (if la > lb then la - lb else lb - la)
      in if diff > limit then limit + 1
         else if la > DIAG_SUGG_MAX_NAME \<or> lb > DIAG_SUGG_MAX_NAME then limit + 1
         else osa_rows a b limit [] [0..<lb + 1] 1)"

text \<open>The best candidate so far, its distance, and whether another one is as close.\<close>

fun suggest_loop :: "string \<Rightarrow> nat \<Rightarrow> string list \<Rightarrow> string option \<Rightarrow> nat \<Rightarrow> bool \<Rightarrow> string option" where
  "suggest_loop bad limit [] best best_d tie = (if tie then None else best)"
| "suggest_loop bad limit (cand # cs) best best_d tie =
     (if cand = [] \<or> cand = bad then suggest_loop bad limit cs best best_d tie
      else (let d = diag_osa_distance bad cand limit
            in if d > limit then suggest_loop bad limit cs best best_d tie
               else if d < best_d then suggest_loop bad limit cs (Some cand) d False
               else if d = best_d \<and> Some cand \<noteq> best then suggest_loop bad limit cs best best_d True
               else suggest_loop bad limit cs best best_d tie))"

definition sugg_limit :: "string \<Rightarrow> nat" where
  "sugg_limit bad = (let limit = length bad div 3 in if limit > 2 then 2 else limit)"

definition diag_suggest :: "string \<Rightarrow> string list \<Rightarrow> string option" where
  "diag_suggest bad cands =
     (let limit = sugg_limit bad
      in if limit = 0 then None else suggest_loop bad limit cands None (limit + 1) False)"

section \<open>The text renderer\<close>

fun diag_prefix :: "DiagKind \<Rightarrow> string" where
  "diag_prefix DIAG_TYPE_ERROR = ''[type error]''"
| "diag_prefix DIAG_MOVE_ERROR = ''[move error]''"
| "diag_prefix DIAG_WARNING = ''[warning]''"
| "diag_prefix DIAG_PARSE_ERROR = ''[error]''"
| "diag_prefix DIAG_SCAN_ERROR = ''[error]''"

definition pad_left :: "nat \<Rightarrow> string \<Rightarrow> string" where
  "pad_left w s = replicate (w - length s) CHR '' '' @ s"

definition shown_file :: "Diagnostic \<Rightarrow> string" where
  "shown_file d = (case dfile d of None \<Rightarrow> ''<unknown>'' | Some f \<Rightarrow> f)"

text \<open>The caret line below the source line, without the gutter.\<close>

definition squiggle :: "Diagnostic \<Rightarrow> nat \<Rightarrow> int" where
  "squiggle d slen =
     (let sq = dlen d - 1; remain = int slen - dcol d
      in if sq > remain then (if remain > 0 then remain else 0) else sq)"

definition caret_line :: "bool \<Rightarrow> Diagnostic \<Rightarrow> string \<Rightarrow> string" where
  "caret_line color d sline =
     map (\<lambda>c. if c = TAB then TAB else CHR '' '') (take (nat (dcol d - 1)) sline) @
     (if color then [ESC] @ ''[36m'' else []) @ ''^'' @ replicate (nat (squiggle d (length sline))) CHR ''~'' @
     (if color then [ESC] @ ''[0m'' else []) @ [LF]"

definition snippet :: "bool \<Rightarrow> Diagnostic \<Rightarrow> string \<Rightarrow> string" where
  "snippet color d sline =
     (let num = pad_left 5 (dec_int (dline d))
      in num @ '' | '' @ sline @ [LF] @ replicate (length num) CHR '' '' @ '' | '' @ caret_line color d sline)"

definition text_sink_emit :: "files \<Rightarrow> bool \<Rightarrow> SrcCache \<Rightarrow> Diagnostic \<Rightarrow> SrcCache \<times> string" where
  "text_sink_emit fs color g d =
     (let c_pre = (if \<not> color then [] else if dkind d = DIAG_WARNING then [ESC] @ ''[33m'' else [ESC] @ ''[31m'');
          c_rst = (if color then [ESC] @ ''[0m'' else []);
          head = c_pre @ diag_prefix (dkind d) @ c_rst @ '' '' @ shown_file d @ '':'' @ dec_int (dline d) @ '':'' @
            dec_int (dcol d) @ '': '' @ message d @ [LF];
          (g, sline) = diag_source_line fs g (dfile d) (dline d);
          body = (case sline of None \<Rightarrow> [] | Some s \<Rightarrow> if dcol d \<ge> 1 then snippet color d s else []);
          hlp = (if help_text d \<noteq> [] then ''   help: '' @ help_text d @ [LF] else [])
      in (g, head @ body @ hlp))"

section \<open>The JSON collector\<close>

definition hex_digit :: "nat \<Rightarrow> char" where
  "hex_digit n = (if n < 10 then char_of (48 + n) else char_of (87 + n))"

definition json_escape :: "char \<Rightarrow> string" where
  "json_escape c =
     (if c = QUOTE then [BACKSLASH, QUOTE]
      else if c = BACKSLASH then [BACKSLASH, BACKSLASH]
      else if c = LF then [BACKSLASH, CHR ''n'']
      else if c = CR then [BACKSLASH, CHR ''r'']
      else if c = TAB then [BACKSLASH, CHR ''t'']
      else if ccode c < 32 then [BACKSLASH, CHR ''u'', CHR ''0'', CHR ''0'', hex_digit (ccode c div 16), hex_digit (ccode c mod 16)]
      else [c])"

definition json_write_escaped :: "string \<Rightarrow> string" where
  "json_write_escaped s = concat (map json_escape s)"

definition severity_of :: "DiagKind \<Rightarrow> string" where
  "severity_of k = (if k = DIAG_WARNING then ''warning'' else ''error'')"

definition kind_of :: "DiagKind \<Rightarrow> string" where
  "kind_of k =
     (if k = DIAG_MOVE_ERROR then ''move''
      else if k = DIAG_PARSE_ERROR then ''parse''
      else if k = DIAG_SCAN_ERROR then ''scan'' else ''type'')"

definition stage_of :: "DiagKind \<Rightarrow> string" where
  "stage_of k = (if k = DIAG_PARSE_ERROR \<or> k = DIAG_SCAN_ERROR then ''parse'' else ''check'')"

text \<open>A quoted name.\<close>

definition quoted :: "string \<Rightarrow> string" where
  "quoted s = QUOTE # s @ [QUOTE]"

definition write_record :: "Diagnostic \<Rightarrow> string" where
  "write_record d =
     ''{'' @ quoted ''severity'' @ '':'' @ quoted (severity_of (dkind d)) @ '','' @
     quoted ''kind'' @ '':'' @ quoted (kind_of (dkind d)) @ '','' @
     quoted ''stage'' @ '':'' @ quoted (stage_of (dkind d)) @ '','' @
     quoted ''file'' @ '':'' @ quoted (json_write_escaped (shown_file d)) @ '','' @
     quoted ''line'' @ '':'' @ dec_int (dline d) @ '','' @
     quoted ''col'' @ '':'' @ dec_int (dcol d) @ '','' @
     quoted ''len'' @ '':'' @ dec_int (dlen d) @ '','' @
     quoted ''message'' @ '':'' @ quoted (json_write_escaped (message d)) @
     (if help_text d \<noteq> [] then '','' @ quoted ''help'' @ '':'' @ quoted (json_write_escaped (help_text d)) else []) @ ''}''"

fun write_records :: "Diagnostic list \<Rightarrow> string" where
  "write_records [] = []"
| "write_records [d] = write_record d"
| "write_records (d # ds) = write_record d @ '','' @ write_records ds"

definition diag_json_sink_write :: "Diagnostic list \<Rightarrow> bool \<Rightarrow> string" where
  "diag_json_sink_write ds truncated =
     ''{'' @ quoted ''version'' @ '':1,'' @ quoted ''truncated'' @ '':'' @ (if truncated then ''true'' else ''false'') @
     '','' @ quoted ''diagnostics'' @ '':['' @ write_records ds @ '']}'' @ [LF]"

definition diag_json_sink_checker_errors :: "Diagnostic list \<Rightarrow> nat" where
  "diag_json_sink_checker_errors ds =
     foldl (\<lambda>n d. if dkind d = DIAG_TYPE_ERROR \<or> dkind d = DIAG_MOVE_ERROR then n + 1 else n) 0 ds"

section \<open>Sinks\<close>

datatype DiagSink = Text_sink | Json_sink "Diagnostic list"

record DiagState =
  g_src :: SrcCache
  g_current_sink :: DiagSink
  err :: string

definition diag_set_sink :: "DiagSink option \<Rightarrow> DiagState \<Rightarrow> DiagState" where
  "diag_set_sink s st = st\<lparr>g_current_sink := (case s of None \<Rightarrow> Text_sink | Some s \<Rightarrow> s)\<rparr>"

definition json_sink_emit :: "Diagnostic list \<Rightarrow> Diagnostic \<Rightarrow> Diagnostic list" where
  "json_sink_emit ds d = ds @ [d]"

definition diag_emit :: "files \<Rightarrow> bool \<Rightarrow> DiagState \<Rightarrow> Diagnostic \<Rightarrow> DiagState" where
  "diag_emit fs color st d =
     (case g_current_sink st of
        Text_sink \<Rightarrow> (let (g, t) = text_sink_emit fs color (g_src st) d in st\<lparr>g_src := g, err := err st @ t\<rparr>)
      | Json_sink ds \<Rightarrow> st\<lparr>g_current_sink := Json_sink (json_sink_emit ds d)\<rparr>)"

text \<open>\<open>txt\<close> is the text that the format and its arguments give; the buffers hold 511 and 255 bytes.\<close>

definition diag_vemitf ::
  "files \<Rightarrow> bool \<Rightarrow> DiagState \<Rightarrow> DiagKind \<Rightarrow> string option \<Rightarrow> int \<Rightarrow> int \<Rightarrow> int \<Rightarrow> string option \<Rightarrow> string \<Rightarrow> DiagState" where
  "diag_vemitf fs color st k fl line col len hlp msg =
     diag_emit fs color st \<lparr>dkind = k, dfile = fl, dline = line, dcol = col, dlen = (if len > 0 then len else 1),
       message = take 511 msg, help_text = (case hlp of None \<Rightarrow> [] | Some h \<Rightarrow> take 255 h)\<rparr>"

end
