(* ===== verification/Diag_Spec.thy ===== *)
theory Diag_Spec
  imports Diag
begin

text \<open>
  What the diagnostics promise: the distance of names is the least number of edits, the suggestion is
  the closest name if there is just one, the JSON report decodes to the diagnostics collected, and the
  snippet shows the line of the file.
\<close>

section \<open>Edits\<close>

text \<open>
  One name becomes another by insertions, deletions, substitutions and swaps of neighbours, none of
  which touches a letter twice; the number counts them.
\<close>

inductive edits :: "string \<Rightarrow> string \<Rightarrow> nat \<Rightarrow> bool" where
  e_nil: "edits [] [] 0"
| e_keep: "edits s t n \<Longrightarrow> edits (s @ [x]) (t @ [x]) n"
| e_subst: "edits s t n \<Longrightarrow> edits (s @ [x]) (t @ [y]) (Suc n)"
| e_delete: "edits s t n \<Longrightarrow> edits (s @ [x]) t (Suc n)"
| e_insert: "edits s t n \<Longrightarrow> edits s (t @ [y]) (Suc n)"
| e_swap: "edits s t n \<Longrightarrow> edits (s @ [x, y]) (t @ [y, x]) (Suc n)"

definition edit_distance :: "string \<Rightarrow> string \<Rightarrow> nat" where
  "edit_distance s t = (LEAST n. edits s t n)"

text \<open>The distance of two prefixes, by the recurrence that the table of the code follows.\<close>

fun osa :: "string \<Rightarrow> string \<Rightarrow> nat \<Rightarrow> nat \<Rightarrow> nat" where
  "osa a b 0 j = j"
| "osa a b (Suc i) 0 = Suc i"
| "osa a b (Suc i) (Suc j) =
     (let m = min (min (Suc (osa a b i (Suc j))) (Suc (osa a b (Suc i) j)))
            (osa a b i j + (if a ! i = b ! j then 0 else 1))
      in if 0 < i \<and> 0 < j \<and> a ! i = b ! (j - 1) \<and> a ! (i - 1) = b ! j then min m (Suc (osa a b (i - 1) (j - 1))) else m)"

lemma osa_0 [simp]: "osa a b i 0 = i"
  by (cases i) auto

lemma osa_delete: "osa a b (Suc i) j \<le> Suc (osa a b i j)"
  by (cases j) (auto simp: Let_def)

lemma osa_insert: "osa a b i (Suc j) \<le> Suc (osa a b i j)"
  by (cases i) (auto simp: Let_def)

lemma osa_subst: "osa a b (Suc i) (Suc j) \<le> osa a b i j + (if a ! i = b ! j then 0 else 1)"
  by (auto simp: Let_def)

lemma osa_swap:
  "a ! Suc i = b ! j \<Longrightarrow> a ! i = b ! Suc j \<Longrightarrow> osa a b (Suc (Suc i)) (Suc (Suc j)) \<le> Suc (osa a b i j)"
  by (subst osa.simps(3)) (simp add: Let_def del: osa.simps)

lemma take_snoc:
  assumes "s @ [x] = take i a" "i \<le> length a"
  shows "\<exists>k. i = Suc k \<and> s = take k a \<and> x = a ! k \<and> k < length a"
proof (cases i)
  case (Suc k)
  with assms show ?thesis by (simp add: take_Suc_conv_app_nth)
qed (use assms in simp)

lemma osa_least:
  "edits s t n \<Longrightarrow> s = take i a \<Longrightarrow> t = take j b \<Longrightarrow> i \<le> length a \<Longrightarrow> j \<le> length b \<Longrightarrow> osa a b i j \<le> n"
proof (induction arbitrary: i j rule: edits.induct)
  case e_nil
  then show ?case by (cases "a = [] \<or> i = 0"; cases "b = [] \<or> j = 0") auto
next
  case (e_keep s t n x)
  obtain k l where "i = Suc k" "s = take k a" "x = a ! k" "k < length a" "j = Suc l" "t = take l b" "x = b ! l" "l < length b"
    using take_snoc [OF e_keep(3,5)] take_snoc [OF e_keep(4,6)] by blast
  then show ?case using e_keep(2) [of k l] osa_subst [of a b k l] by simp
next
  case (e_subst s t n x y)
  obtain k l where "i = Suc k" "s = take k a" "k < length a" "j = Suc l" "t = take l b" "l < length b"
    using take_snoc [OF e_subst(3,5)] take_snoc [OF e_subst(4,6)] by blast
  then show ?case using e_subst(2) [of k l] osa_subst [of a b k l] by (simp del: osa.simps split: if_splits)
next
  case (e_delete s t n x)
  obtain k where "i = Suc k" "s = take k a" "k < length a" using take_snoc [OF e_delete(3,5)] by blast
  then show ?case using e_delete(2) [of k j] e_delete(4,6) osa_delete [of a b k j] by simp
next
  case (e_insert s t n y)
  obtain l where "j = Suc l" "t = take l b" "l < length b" using take_snoc [OF e_insert(4,6)] by blast
  then show ?case using e_insert(2) [of i l] e_insert(3,5) osa_insert [of a b i l] by simp
next
  case (e_swap s t n x y)
  have "(s @ [x]) @ [y] = take i a" "(t @ [y]) @ [x] = take j b" using e_swap(3,4) by simp_all
  from take_snoc [OF this(1) e_swap(5)] take_snoc [OF this(2) e_swap(6)]
  obtain k' l' where 1: "i = Suc k'" "s @ [x] = take k' a" "y = a ! k'" "k' < length a"
    "j = Suc l'" "t @ [y] = take l' b" "x = b ! l'" "l' < length b"
    by blast
  obtain k where k: "k' = Suc k" "s = take k a" "x = a ! k" using take_snoc [OF 1(2)] 1(4) less_imp_le by blast
  obtain l where l: "l' = Suc l" "t = take l b" "y = b ! l" using take_snoc [OF 1(6)] 1(8) less_imp_le by blast
  have "osa a b k l \<le> n" using e_swap(2) [OF k(2) l(2)] 1(4,8) k(1) l(1) by simp
  moreover have "a ! Suc k = b ! l" "a ! k = b ! Suc l" using 1(3,7) k l by simp_all
  ultimately show ?case using osa_swap [of a k b l] unfolding 1(1,5) k(1) l(1) by linarith
qed

lemma edits_min: "edits s t m \<Longrightarrow> edits s t n \<Longrightarrow> edits s t (min m n)"
  by (simp add: min_def)

lemma edits_osa: "i \<le> length a \<Longrightarrow> j \<le> length b \<Longrightarrow> edits (take i a) (take j b) (osa a b i j)"
proof (induction a b i j rule: osa.induct)
  case (1 a b j)
  then show ?case
  proof (induction j)
    case (Suc j)
    then show ?case using e_insert [of "[]" "take j b" j "b ! j"] by (simp add: take_Suc_conv_app_nth)
  qed (simp add: e_nil)
next
  case (2 a b i)
  then show ?case
  proof (induction i)
    case 0
    then show ?case using e_delete [OF e_nil, of "a ! 0"] take_Suc_conv_app_nth [of 0 a] by (cases a) simp_all
  next
    case (Suc i)
    then show ?case using e_delete [of "take (Suc i) a" "[]" "Suc i" "a ! Suc i"] by (simp add: take_Suc_conv_app_nth)
  qed
next
  case (3 a b i j)
  let ?s = "take (Suc i) a" and ?t = "take (Suc j) b"
  have s: "?s = take i a @ [a ! i]" "?t = take j b @ [b ! j]" using 3(5,6) by (simp_all add: take_Suc_conv_app_nth)
  have e1: "edits ?s ?t (Suc (osa a b i (Suc j)))" using e_delete 3(1,5,6) s(1) by simp
  have e2: "edits ?s ?t (Suc (osa a b (Suc i) j))" using e_insert 3(2,5,6) s(2) by simp
  have e3: "edits ?s ?t (osa a b i j + (if a ! i = b ! j then 0 else 1))"
    using e_keep [of "take i a" "take j b" "osa a b i j" "a ! i"] e_subst [of "take i a" "take j b" "osa a b i j" "a ! i" "b ! j"]
      3(3,5,6) s by (cases "a ! i = b ! j") simp_all
  have e4: "edits ?s ?t (Suc (osa a b (i - 1) (j - 1)))"
    if c: "0 < i \<and> 0 < j \<and> a ! i = b ! (j - 1) \<and> a ! (i - 1) = b ! j"
  proof -
    obtain k l where kl: "i = Suc k" "j = Suc l" using c by (cases i; cases j) auto
    have "take i a = take k a @ [a ! k]" "take j b = take l b @ [b ! l]"
      using 3(5,6) kl by (simp_all add: take_Suc_conv_app_nth)
    then have st: "?s = take k a @ [a ! k, b ! l]" "?t = take l b @ [b ! l, a ! k]" using s c kl by simp_all
    have "edits (take (i - 1) a) (take (j - 1) b) (osa a b (i - 1) (j - 1))"
      by (rule 3(4) [OF refl c]) (use 3(5,6) in simp_all)
    then have "edits (take k a) (take l b) (osa a b k l)" by (simp add: kl)
    from e_swap [OF this] show ?thesis unfolding st by (simp add: kl)
  qed
  note m = edits_min [OF edits_min [OF e1 e2] e3]
  show ?case
  proof (cases "0 < i \<and> 0 < j \<and> a ! i = b ! (j - 1) \<and> a ! (i - 1) = b ! j")
    case True
    show ?thesis unfolding osa.simps(3) Let_def if_P [OF True] by (rule edits_min [OF m e4 [OF True]])
  next
    case False
    show ?thesis unfolding osa.simps(3) Let_def if_not_P [OF False] by (rule m)
  qed
qed

lemma edit_distance_osa: "edit_distance a b = osa a b (length a) (length b)"
  unfolding edit_distance_def
proof (rule Least_equality)
  show "edits a b (osa a b (length a) (length b))" using edits_osa [of "length a" a "length b" b] by simp
  show "\<And>n. edits a b n \<Longrightarrow> osa a b (length a) (length b) \<le> n" by (rule osa_least [of a b]) simp_all
qed

section \<open>The table of the code\<close>

definition osa_line :: "string \<Rightarrow> string \<Rightarrow> nat \<Rightarrow> nat list" where
  "osa_line a b i = map (osa a b i) [0..<length b + 1]"

lemma osa_line_nth [simp]: "j \<le> length b \<Longrightarrow> osa_line a b i ! j = osa a b i j"
  by (simp add: osa_line_def del: upt_Suc)

lemma osa_cell_ok:
  assumes "Suc j \<le> length b" "0 < i \<Longrightarrow> prev2 = osa_line a b (i - 1)"
  shows "osa_cell a b prev2 (osa_line a b i) (map (osa a b (Suc i)) [0..<Suc j]) (Suc i) (Suc j) = osa a b (Suc i) (Suc j)"
  using assms by (auto simp: osa_cell_def Let_def nth_append simp del: upt_Suc osa.simps(1,2))

lemma osa_row_ok:
  assumes "0 < i \<Longrightarrow> prev2 = osa_line a b (i - 1)"
  shows "osa_row a b prev2 (osa_line a b i) (Suc i) =
    (osa_line a b (Suc i), Min (set (osa_line a b (Suc i))))"
proof -
  let ?step = "\<lambda>(row, row_min) j. let d = osa_cell a b prev2 (osa_line a b i) row (Suc i) j in (row @ [d], if d < row_min then d else row_min)"
  have "foldl ?step ([Suc i], Suc i) [1..<Suc j] =
      (map (osa a b (Suc i)) [0..<Suc j], Min (osa a b (Suc i) ` {0..<Suc j}))" if "j \<le> length b" for j
    using that
  proof (induction j)
    case (Suc j)
    have "foldl ?step ([Suc i], Suc i) [1..<Suc (Suc j)] = ?step (foldl ?step ([Suc i], Suc i) [1..<Suc j]) (Suc j)"
      by simp
    moreover have "Min (osa a b (Suc i) ` {0..<Suc (Suc j)}) =
        min (osa a b (Suc i) (Suc j)) (Min (osa a b (Suc i) ` {0..<Suc j}))"
      by (subst atLeast0_lessThan_Suc) simp
    moreover have "map (osa a b (Suc i)) [0..<Suc (Suc j)] = map (osa a b (Suc i)) [0..<Suc j] @ [osa a b (Suc i) (Suc j)]"
      by simp
    ultimately show ?case using Suc osa_cell_ok [OF Suc.prems assms]
      by (simp add: Let_def min_def del: osa.simps upt_Suc Min_ge_iff Min_gr_iff)
  qed simp
  from this [of "length b"] show ?thesis by (simp add: osa_row_def osa_line_def del: upt_Suc)
qed

text \<open>No later entry is below the least entry of a row.\<close>

lemma osa_above_row:
  assumes "\<And>j. j \<le> length b \<Longrightarrow> m \<le> osa a b i j" "i \<le> k" "j \<le> length b"
  shows "m \<le> osa a b k j"
  using assms(2,3)
proof (induction "k + j" arbitrary: k j rule: less_induct)
  case less
  show ?case
  proof (cases "k = i")
    case False
    then obtain k' where k: "k = Suc k'" "i \<le> k'" using less.prems(1) by (cases k) auto
    show ?thesis
    proof (cases j)
      case 0
      then have "m \<le> osa a b k' 0" using less.hyps [of k' 0] k by simp
      then show ?thesis using 0 k by simp
    next
      case (Suc l)
      have "m \<le> osa a b k' (Suc l)" "m \<le> osa a b (Suc k') l" "m \<le> osa a b k' l"
        using less.hyps [of k' "Suc l"] less.hyps [of "Suc k'" l] less.hyps [of k' l] k Suc less.prems by simp_all
      moreover have "m \<le> Suc (osa a b (k' - 1) (l - 1))" if kl: "0 < k'" "0 < l"
      proof -
        obtain p q where pq: "k' = Suc p" "l = Suc q" using kl by (cases k'; cases l) auto
        have "m \<le> osa a b (Suc p) (Suc q)" using \<open>m \<le> osa a b k' l\<close> pq by simp
        also have "\<dots> \<le> Suc (osa a b p q)" using osa_subst [of a b p q] by (simp del: osa.simps split: if_splits)
        finally show ?thesis by (simp add: pq)
      qed
      moreover from calculation have "m \<le> min (min (Suc (osa a b k' (Suc l))) (Suc (osa a b (Suc k') l)))
          (osa a b k' l + (if a ! k' = b ! l then 0 else 1))" by linarith
      ultimately show ?thesis unfolding k(1) Suc osa.simps(3) Let_def by simp
    qed
  qed (use assms(1) less.prems in simp)
qed

lemma osa_rows_ok:
  assumes "i \<le> length a" "0 < i \<Longrightarrow> prev2 = osa_line a b (i - 1)"
  shows "if edit_distance a b \<le> limit
    then osa_rows a b limit prev2 (osa_line a b i) (Suc i) = edit_distance a b
    else limit < osa_rows a b limit prev2 (osa_line a b i) (Suc i)"
  using assms
proof (induction "length a - i" arbitrary: i prev2)
  case 0
  then have "i = length a" by simp
  then show ?case by (subst (1 2) osa_rows.simps) (simp add: edit_distance_osa del: osa.simps)
next
  case (Suc n)
  then have i: "Suc i \<le> length a" "n = length a - Suc i" by simp_all
  let ?m = "Min (set (osa_line a b (Suc i)))"
  have rows: "osa_rows a b limit prev2 (osa_line a b i) (Suc i) =
      (if ?m > limit then limit + 1 else osa_rows a b limit (osa_line a b i) (osa_line a b (Suc i)) (Suc (Suc i)))"
    using i(1) osa_row_ok [of i prev2 a b, OF Suc.prems(2)] by (subst osa_rows.simps) simp
  show ?case
  proof (cases "?m > limit")
    case True
    have "?m \<le> osa a b (Suc i) j" if "j \<le> length b" for j
      using that by (intro Min_le) (auto simp: osa_line_def simp del: upt_Suc osa.simps)
    from osa_above_row [OF this i(1)] have "?m \<le> edit_distance a b" by (simp add: edit_distance_osa del: osa.simps)
    with True show ?thesis by (simp add: rows)
  next
    case False
    then show ?thesis using Suc.hyps(1) [OF i(2) i(1)] by (simp add: rows)
  qed
qed

lemma edits_length: "edits s t n \<Longrightarrow> length s \<le> length t + n \<and> length t \<le> length s + n"
  by (induction rule: edits.induct) auto

lemma distance_length: "length a - length b \<le> edit_distance a b \<and> length b - length a \<le> edit_distance a b"
proof -
  have "edits a b (edit_distance a b)"
    unfolding edit_distance_osa using edits_osa [of "length a" a "length b" b] by simp
  from edits_length [OF this] show ?thesis by linarith
qed

lemma osa_distance_ok:
  assumes "length a \<le> DIAG_SUGG_MAX_NAME" "length b \<le> DIAG_SUGG_MAX_NAME"
  shows "if edit_distance a b \<le> limit then diag_osa_distance a b limit = edit_distance a b
    else limit < diag_osa_distance a b limit"
proof -
  have "osa_line a b 0 = [0..<length b + 1]" by (simp add: osa_line_def map_idI del: upt_Suc)
  then show ?thesis using osa_rows_ok [of 0 a "[]" b limit] assms distance_length [of a b]
    by (auto simp: diag_osa_distance_def Let_def simp del: upt_Suc split: if_splits)
qed

text \<open>C33: The distance that the compiler computes of two names of at most 64 bytes (it compares no longer
  ones) is the least number of insertions, deletions,
  substitutions and swaps of neighbours that turn one name into the other, up to the limit; beyond it
  the result only exceeds the limit, and the rows that the early exit skips never matter.\<close>

theorem osa_distance_least:
  assumes "length a \<le> DIAG_SUGG_MAX_NAME" "length b \<le> DIAG_SUGG_MAX_NAME"
  shows "if edit_distance a b \<le> limit then diag_osa_distance a b limit = edit_distance a b
    else limit < diag_osa_distance a b limit"
  by (rule osa_distance_ok [OF assms])

theorem osa_distance_least_witness:
  "diag_osa_distance ''lenght'' ''length'' 2 = 1"
proof -
  have "edit_distance ''lenght'' ''length'' = 1" unfolding edit_distance_osa by code_simp
  then show ?thesis
    using osa_distance_least [of "''lenght''" "''length''" 2] by (simp add: DIAG_SUGG_MAX_NAME_def)
qed

end
