(* ===== verification/Diag_Report.thy ===== *)
theory Diag_Report
  imports Diag_Spec
begin

text \<open>
  The suggestion of a close name, the line shown in a snippet, and the JSON report with a reader of
  JSON that decodes it.
\<close>

section \<open>Suggestions\<close>

text \<open>A candidate that may be suggested.\<close>

definition close :: "string \<Rightarrow> string \<Rightarrow> bool" where
  "close bad c \<longleftrightarrow>
     c \<noteq> [] \<and> c \<noteq> bad \<and> length bad \<le> DIAG_SUGG_MAX_NAME \<and> length c \<le> DIAG_SUGG_MAX_NAME \<and>
     edit_distance bad c \<le> sugg_limit bad"

definition closest :: "string \<Rightarrow> string list \<Rightarrow> string \<Rightarrow> bool" where
  "closest bad cs c \<longleftrightarrow>
     c \<in> set cs \<and> close bad c \<and> (\<forall>c'\<in>set cs. close bad c' \<longrightarrow> c' \<noteq> c \<longrightarrow> edit_distance bad c < edit_distance bad c')"

lemma far_distance:
  assumes "\<not> (length bad \<le> DIAG_SUGG_MAX_NAME \<and> length c \<le> DIAG_SUGG_MAX_NAME)"
  shows "limit < diag_osa_distance bad c limit"
  using assms by (auto simp: diag_osa_distance_def Let_def)

lemma distance_close:
  assumes "c \<noteq> []" "c \<noteq> bad"
  shows "diag_osa_distance bad c (sugg_limit bad) \<le> sugg_limit bad \<longleftrightarrow> close bad c"
    "close bad c \<Longrightarrow> diag_osa_distance bad c (sugg_limit bad) = edit_distance bad c"
proof -
  show "diag_osa_distance bad c (sugg_limit bad) \<le> sugg_limit bad \<longleftrightarrow> close bad c"
  proof (cases "length bad \<le> DIAG_SUGG_MAX_NAME \<and> length c \<le> DIAG_SUGG_MAX_NAME")
    case True
    then show ?thesis using osa_distance_ok [of bad c "sugg_limit bad"] assms by (auto simp: close_def split: if_splits)
  next
    case False
    then show ?thesis using far_distance [OF False, of "sugg_limit bad"] by (auto simp: close_def)
  qed
  assume "close bad c"
  then show "diag_osa_distance bad c (sugg_limit bad) = edit_distance bad c"
    using osa_distance_ok [of bad c "sugg_limit bad"] by (auto simp: close_def)
qed

text \<open>What the loop knows of the candidates seen.\<close>

definition sugg_inv :: "string \<Rightarrow> string list \<Rightarrow> string option \<Rightarrow> nat \<Rightarrow> bool \<Rightarrow> bool" where
  "sugg_inv bad seen best best_d tie \<longleftrightarrow>
     (case best of
        None \<Rightarrow> \<not> tie \<and> best_d = sugg_limit bad + 1 \<and> (\<forall>c\<in>set seen. \<not> close bad c)
      | Some m \<Rightarrow>
          m \<in> set seen \<and> close bad m \<and> best_d = edit_distance bad m \<and>
          (\<forall>c\<in>set seen. close bad c \<longrightarrow> edit_distance bad m \<le> edit_distance bad c) \<and>
          (tie \<longleftrightarrow> (\<exists>c\<in>set seen. close bad c \<and> c \<noteq> m \<and> edit_distance bad c = edit_distance bad m)))"

lemma sugg_inv_skip:
  assumes "sugg_inv bad seen best best_d tie" "\<not> close bad c"
  shows "sugg_inv bad (seen @ [c]) best best_d tie"
  using assms by (auto simp: sugg_inv_def split: option.splits)

lemma sugg_inv_better:
  assumes "sugg_inv bad seen best best_d tie" "close bad c" "edit_distance bad c < best_d"
  shows "sugg_inv bad (seen @ [c]) (Some c) (edit_distance bad c) False"
  using assms by (force simp: sugg_inv_def split: option.splits)

lemma sugg_inv_tie:
  assumes "sugg_inv bad seen best best_d tie" "close bad c" "edit_distance bad c = best_d" "Some c \<noteq> best"
  shows "sugg_inv bad (seen @ [c]) best best_d True"
  using assms by (auto simp: sugg_inv_def close_def split: option.splits)

lemma sugg_inv_other:
  assumes "sugg_inv bad seen best best_d tie" "close bad c" "best_d < edit_distance bad c \<or> best = Some c"
  shows "sugg_inv bad (seen @ [c]) best best_d tie"
  using assms by (auto simp: sugg_inv_def close_def split: option.splits)

lemma sugg_inv_result:
  assumes "sugg_inv bad seen best best_d tie"
  shows "(if tie then None else best) = Some c \<longleftrightarrow> closest bad seen c"
proof (cases best)
  case None
  with assms show ?thesis by (auto simp: sugg_inv_def closest_def)
next
  case (Some m)
  with assms have m: "m \<in> set seen" "close bad m"
    and least: "\<And>c. c \<in> set seen \<Longrightarrow> close bad c \<Longrightarrow> edit_distance bad m \<le> edit_distance bad c"
    and tie: "tie \<longleftrightarrow> (\<exists>c\<in>set seen. close bad c \<and> c \<noteq> m \<and> edit_distance bad c = edit_distance bad m)"
    by (auto simp: sugg_inv_def)
  have only: "closest bad seen c \<Longrightarrow> c = m" using m least by (force simp: closest_def)
  have "closest bad seen m \<longleftrightarrow> \<not> tie" unfolding tie closest_def using m least by (metis le_neq_implies_less nless_le)
  with only Some show ?thesis by auto
qed

lemma suggest_loop_ok:
  assumes "sugg_inv bad seen best best_d tie"
  shows "suggest_loop bad (sugg_limit bad) cs best best_d tie = Some c \<longleftrightarrow> closest bad (seen @ cs) c"
  using assms
proof (induction cs arbitrary: seen best best_d tie)
  case Nil
  then show ?case using sugg_inv_result by simp
next
  case (Cons x cs)
  note IH = Cons.IH [of "seen @ [x]", simplified]
  show ?case
  proof (cases "close bad x")
    case False
    then show ?thesis using IH [OF sugg_inv_skip [OF Cons.prems False]] distance_close(1) [of x bad]
      by (auto simp: Let_def)
  next
    case True
    then have x: "x \<noteq> []" "x \<noteq> bad" by (simp_all add: close_def)
    note d = distance_close [OF x] True
    consider "edit_distance bad x < best_d" | "edit_distance bad x = best_d" "Some x \<noteq> best"
      | "best_d < edit_distance bad x \<or> best = Some x" by fastforce
    then show ?thesis
    proof cases
      case 1
      then show ?thesis using IH [OF sugg_inv_better [OF Cons.prems True 1]] x d by (simp add: Let_def)
    next
      case 2
      then show ?thesis using IH [OF sugg_inv_tie [OF Cons.prems True 2]] x d by (simp add: Let_def)
    next
      case 3
      moreover have "\<not> edit_distance bad x < best_d" using 3 Cons.prems by (auto simp: sugg_inv_def)
      ultimately show ?thesis using IH [OF sugg_inv_other [OF Cons.prems True 3]] x d by (auto simp: Let_def)
    qed
  qed
qed

lemma edits_zero: "edits s t n \<Longrightarrow> n = 0 \<Longrightarrow> s = t"
  by (induction rule: edits.induct) auto

lemma distance_zero: "edit_distance s t = 0 \<Longrightarrow> s = t"
  using edits_osa [of "length s" s "length t" t] edits_zero by (simp add: edit_distance_osa)


section \<open>Source lines\<close>

fun split_lines :: "string \<Rightarrow> string list" where
  "split_lines [] = [[]]"
| "split_lines (c # s) =
     (if c = LF then [] # split_lines s
      else (case split_lines s of [] \<Rightarrow> [[c]] | l # ls \<Rightarrow> (c # l) # ls))"

text \<open>The cache holds what the file of its path holds.\<close>

definition cache_ok :: "files \<Rightarrow> SrcCache \<Rightarrow> bool" where
  "cache_ok fs g \<longleftrightarrow> (\<forall>p. path g = Some p \<longrightarrow> g = src_cache_load fs p)"

lemma line_starts_Cons:
  "line_starts (c # s) = (if c = LF then 0 # map Suc (line_starts s) else 0 # map Suc (tl (line_starts s)))"
proof -
  have "filter (\<lambda>i. (c # s) ! i = LF) [0..<Suc (length s)] =
      (if c = LF then [0] else []) @ map Suc (filter (\<lambda>i. s ! i = LF) [0..<length s])"
    by (simp add: upt_conv_Cons filter_map comp_def flip: map_Suc_upt del: upt_Suc)
  then show ?thesis by (simp add: line_starts_def del: upt_Suc)
qed

lemma split_lines_not_Nil [simp]: "split_lines s \<noteq> []"
  by (cases s) (auto split: list.splits)

lemma line_starts_length [simp]: "length (line_starts s) = length (split_lines s)"
proof (induction s)
  case (Cons c s)
  obtain l ls where "split_lines s = l # ls" by (cases "split_lines s") auto
  with Cons show ?case by (simp add: line_starts_Cons)
qed (simp add: line_starts_def)

lemma line_starts_hd: "line_starts s ! 0 = 0"
  by (simp add: line_starts_def)

lemma line_at_start:
  "k < length (split_lines s) \<Longrightarrow> takeWhile (\<lambda>c. c \<noteq> LF) (drop (line_starts s ! k) s) = split_lines s ! k"
proof (induction s arbitrary: k)
  case (Cons c s)
  obtain l ls where s: "split_lines s = l # ls" by (cases "split_lines s") auto
  have hd: "takeWhile (\<lambda>c. c \<noteq> LF) s = l" using Cons.IH [of 0] s by (simp add: line_starts_hd)
  show ?case
  proof (cases k)
    case 0
    then show ?thesis using hd s by (simp add: line_starts_Cons)
  next
    case (Suc m)
    have len: "length (line_starts s) = Suc (length ls)" using s by simp
    show ?thesis
    proof (cases "c = LF")
      case True
      then show ?thesis using Cons Suc s len by (simp add: line_starts_Cons)
    next
      case False
      then have "m < length ls" using Cons.prems Suc s by simp
      then show ?thesis using Cons.IH [of "Suc m"] False Suc s len by (simp add: line_starts_Cons nth_tl)
    qed
  qed
qed (simp add: line_starts_def)

text \<open>C36: The line shown below a diagnostic is that line of its file, without the line end, for every line
  of a readable file; for other lines and files there is none, and the cache stays true to the files.\<close>

theorem source_line_exact:
  assumes "cache_ok fs g" "\<And>s. fs p = Some s \<Longrightarrow> NUL \<notin> set s"
  shows "cache_ok fs (fst (diag_source_line fs g (Some p) n)) \<and>
    snd (diag_source_line fs g (Some p) n) =
      (case fs p of
         None \<Rightarrow> None
       | Some s \<Rightarrow>
           if 1 \<le> n \<and> n \<le> int (length (split_lines s)) then Some (strip_cr (split_lines s ! nat (n - 1))) else None)"
proof (cases "n < 1")
  case True
  then show ?thesis using assms(1) by (simp add: diag_source_line_def split: option.splits)
next
  case False
  have g: "(if path g = Some p then g else src_cache_load fs p) = src_cache_load fs p"
    using assms(1) by (auto simp: cache_ok_def)
  have ok: "cache_ok fs (src_cache_load fs p)"
    by (auto simp: cache_ok_def src_cache_load_def split: option.splits)
  show ?thesis
  proof (cases "fs p")
    case None
    then show ?thesis using False g ok
      by (simp add: diag_source_line_def Let_def) (simp add: src_cache_load_def)
  next
    case (Some s)
    have c: "c_str (drop k s) = drop k s" for k
      using assms(2) [OF Some] by (auto simp: c_str_def takeWhile_eq_all_conv dest: in_set_dropD)
    show ?thesis using False g ok Some line_at_start [of "nat (n - 1)" s]
      by (auto simp: diag_source_line_def Let_def src_cache_load_def c)
  qed
qed

theorem source_line_exact_witness:
  "snd (diag_source_line (\<lambda>p. Some (''let'' @ [LF] @ ''x = 1'' @ [CR, LF])) no_cache (Some ''a.lls'') 2) = Some ''x = 1''"
  using source_line_exact [of "\<lambda>p. Some (''let'' @ [LF] @ ''x = 1'' @ [CR, LF])" no_cache "''a.lls''" 2]
  by (simp add: cache_ok_def no_cache_def NUL_def LF_def CR_def strip_cr_def)

text \<open>The caret line has a blank for every byte, also for those of one character.\<close>

lemma caret_after_umlaut:
  "caret_line False \<lparr>dkind = DIAG_TYPE_ERROR, dfile = None, dline = 1, dcol = 3, dlen = 1, message = [], help_text = []\<rparr>
     [CHR 0xC3, CHR 0xA4, CHR ''x''] = ''  ^'' @ [LF]"
  by (simp add: caret_line_def squiggle_def TAB_def)

section \<open>Reading JSON\<close>

datatype json =
    J_num int
  | J_bool bool
  | J_str string
  | J_arr "json list"
  | J_obj "(string \<times> json) list"

text \<open>A code point in UTF-8.\<close>

definition utf8 :: "nat \<Rightarrow> string" where
  "utf8 n =
     (if n < 128 then [char_of n]
      else if n < 2048 then [char_of (192 + n div 64), char_of (128 + n mod 64)]
      else [char_of (224 + n div 4096), char_of (128 + n div 64 mod 64), char_of (128 + n mod 64)])"

definition hex_value :: "char \<Rightarrow> nat option" where
  "hex_value c =
     (if isdigit c then Some (ccode c - 48)
      else if 97 \<le> ccode c \<and> ccode c \<le> 102 then Some (ccode c - 87)
      else if 65 \<le> ccode c \<and> ccode c \<le> 70 then Some (ccode c - 55) else None)"

fun hex4 :: "string \<Rightarrow> nat option" where
  "hex4 [a, b, c, d] =
     (case (hex_value a, hex_value b, hex_value c, hex_value d) of
        (Some w, Some x, Some y, Some z) \<Rightarrow> Some (4096 * w + 256 * x + 16 * y + z)
      | _ \<Rightarrow> None)"
| "hex4 _ = None"

definition simple_escape :: "char \<Rightarrow> char option" where
  "simple_escape c =
     map_of [(QUOTE, QUOTE), (BACKSLASH, BACKSLASH), (CHR ''/'', CHR ''/''), (CHR ''b'', CHR 0x08), (CHR ''f'', CHR 0x0C),
       (CHR ''n'', LF), (CHR ''r'', CR), (CHR ''t'', TAB)] c"

definition consed :: "string \<Rightarrow> (string \<times> string) option \<Rightarrow> (string \<times> string) option" where
  "consed xs r = map_option (\<lambda>(t, rest). (xs @ t, rest)) r"

text \<open>The rest of a string literal after its opening quote.\<close>

function json_string :: "string \<Rightarrow> (string \<times> string) option" where
  "json_string [] = None"
| "json_string (c # s) =
     (if c = QUOTE then Some ([], s)
      else if c = BACKSLASH then
        (case s of
           [] \<Rightarrow> None
         | e # t \<Rightarrow>
             if e = CHR ''u'' then
               (case hex4 (take 4 t) of None \<Rightarrow> None | Some n \<Rightarrow> consed (utf8 n) (json_string (drop 4 t)))
             else (case simple_escape e of None \<Rightarrow> None | Some x \<Rightarrow> consed [x] (json_string t)))
      else if ccode c < 32 then None
      else consed [c] (json_string s))"
  by pat_completeness auto
termination by (relation "measure length") auto

declare json_string.simps(2) [simp del]

definition json_number :: "string \<Rightarrow> (json \<times> string) option" where
  "json_number s =
     (let (neg, t) = (case s of [] \<Rightarrow> (False, s) | c # t \<Rightarrow> if c = CHR ''-'' then (True, t) else (False, s));
          ds = takeWhile isdigit t
      in if ds = [] then None
         else Some (J_num (if neg then - int (undec ds) else int (undec ds)), dropWhile isdigit t))"

definition starts_with :: "string \<Rightarrow> string \<Rightarrow> bool" where
  "starts_with p s \<longleftrightarrow> take (length p) s = p"

text \<open>Values, the elements of an array and the members of an object, written without blanks.\<close>

fun json_value :: "nat \<Rightarrow> string \<Rightarrow> (json \<times> string) option"
and json_elements :: "nat \<Rightarrow> string \<Rightarrow> (json list \<times> string) option"
and json_members :: "nat \<Rightarrow> string \<Rightarrow> ((string \<times> json) list \<times> string) option" where
  "json_value 0 s = None"
| "json_value (Suc n) s =
     (if starts_with ''{}'' s then Some (J_obj [], drop 2 s)
      else if starts_with ''{'' s then map_option (\<lambda>(ms, r). (J_obj ms, r)) (json_members n (drop 1 s))
      else if starts_with ''[]'' s then Some (J_arr [], drop 2 s)
      else if starts_with ''['' s then map_option (\<lambda>(vs, r). (J_arr vs, r)) (json_elements n (drop 1 s))
      else if starts_with [QUOTE] s then map_option (\<lambda>(t, r). (J_str t, r)) (json_string (drop 1 s))
      else if starts_with ''true'' s then Some (J_bool True, drop 4 s)
      else if starts_with ''false'' s then Some (J_bool False, drop 5 s)
      else json_number s)"
| "json_elements 0 s = None"
| "json_elements (Suc n) s =
     (case json_value n s of
        None \<Rightarrow> None
      | Some (v, r) \<Rightarrow>
          if starts_with '','' r then map_option (\<lambda>(vs, r). (v # vs, r)) (json_elements n (drop 1 r))
          else if starts_with '']'' r then Some ([v], drop 1 r) else None)"
| "json_members 0 s = None"
| "json_members (Suc n) s =
     (if \<not> starts_with [QUOTE] s then None
      else (case json_string (drop 1 s) of
          None \<Rightarrow> None
        | Some (k, r) \<Rightarrow>
            if \<not> starts_with '':'' r then None
            else (case json_value n (drop 1 r) of
                None \<Rightarrow> None
              | Some (v, r) \<Rightarrow>
                  if starts_with '','' r then map_option (\<lambda>(ms, r). ((k, v) # ms, r)) (json_members n (drop 1 r))
                  else if starts_with ''}'' r then Some ([(k, v)], drop 1 r) else None)))"

text \<open>A text is one value and a line end.\<close>

definition json_read :: "string \<Rightarrow> json option" where
  "json_read s = (case json_value (length s) s of Some (v, r) \<Rightarrow> if r = [LF] then Some v else None | None \<Rightarrow> None)"

section \<open>Printing JSON\<close>

fun commas :: "string list \<Rightarrow> string" where
  "commas [] = []"
| "commas [x] = x"
| "commas (x # xs) = x @ '','' @ commas xs"

fun json_print :: "json \<Rightarrow> string" where
  "json_print (J_num i) = dec_int i"
| "json_print (J_bool b) = (if b then ''true'' else ''false'')"
| "json_print (J_str s) = quoted (json_write_escaped s)"
| "json_print (J_arr vs) = ''['' @ commas (map json_print vs) @ '']''"
| "json_print (J_obj ms) =
     ''{'' @ commas (map (\<lambda>(k, v). quoted (json_write_escaped k) @ '':'' @ json_print v) ms) @ ''}''"

text \<open>The fuel that reading the print of a value takes.\<close>

fun need :: "json \<Rightarrow> nat" where
  "need (J_num i) = 1"
| "need (J_bool b) = 1"
| "need (J_str s) = 1"
| "need (J_arr vs) = Suc (sum_list (map (\<lambda>v. Suc (need v)) vs))"
| "need (J_obj ms) = Suc (sum_list (map (\<lambda>(k, v). Suc (need v)) ms))"

end
