(* ===== verification/Diag_Json.thy ===== *)
theory Diag_Json
  imports Diag_Report
begin

text \<open>The JSON report of the diagnostics decodes to the diagnostics.\<close>

section \<open>String literals and numbers\<close>

lemma hex_value_digit: "n < 16 \<Longrightarrow> hex_value (hex_digit n) = Some n"
  by (auto simp: hex_value_def hex_digit_def isdigit_def)

lemma low_byte: "ccode c < 32 \<Longrightarrow> utf8 (16 * (ccode c div 16) + ccode c mod 16) = [c]"
  by (simp add: utf8_def)

lemma json_string_escape:
  "json_string (json_escape c @ s) = consed [c] (json_string s)"
proof -
  have "hex4 [CHR ''0'', CHR ''0'', hex_digit (ccode c div 16), hex_digit (ccode c mod 16)] = Some (ccode c)" if "ccode c < 32"
  proof -
    have "ccode c div 16 < 16" using that by simp
    then show ?thesis by (simp add: hex_value_digit) (simp add: hex_value_def isdigit_def ccode_def)
  qed
  moreover have "utf8 (ccode c) = [c]" if "ccode c < 32" using that by (simp add: utf8_def)
  ultimately show ?thesis
    by (auto simp: json_escape_def json_string.simps(2) simple_escape_def QUOTE_def BACKSLASH_def LF_def CR_def TAB_def)
qed

lemma json_string_print: "json_string (json_write_escaped s @ QUOTE # r) = Some (s, r)"
proof (induction s)
  case Nil
  then show ?case by (simp add: json_write_escaped_def json_string.simps(2))
next
  case (Cons c s)
  have "json_write_escaped (c # s) @ QUOTE # r = json_escape c @ json_write_escaped s @ QUOTE # r"
    by (simp add: json_write_escaped_def)
  then show ?case using Cons by (simp add: json_string_escape consed_def)
qed

text \<open>What may follow a value.\<close>

definition ends_value :: "string \<Rightarrow> bool" where
  "ends_value r \<longleftrightarrow> (\<exists>c s. r = c # s \<and> c \<in> {CHR '','', CHR ''}'', CHR '']'', LF})"

lemma ends_digit: "ends_value r \<Longrightarrow> takeWhile isdigit (dec_nat n @ r) = dec_nat n \<and> dropWhile isdigit (dec_nat n @ r) = r"
  using dec_nat_digits [of _ n]
  by (auto simp: ends_value_def takeWhile_append dropWhile_append LF_def isdigit_def ccode_def)

lemma dec_nat_hd: "\<exists>c s. dec_nat n = c # s \<and> isdigit c"
  using dec_nat_nonempty [of n] dec_nat_digits [of _ n] by (cases "dec_nat n") auto

lemma json_number_print: "ends_value r \<Longrightarrow> json_number (dec_int i @ r) = Some (J_num i, r)"
proof -
  assume r: "ends_value r"
  obtain c s where d: "dec_nat (nat i) = c # s" "isdigit c" using dec_nat_hd by blast
  have "c \<noteq> CHR ''-''" using d(2) by (auto simp: isdigit_def ccode_def)
  moreover have "undec (c # s) = nat i" using undec_dec_nat [of "nat i"] d(1) by simp
  ultimately have "json_number (dec_nat (nat i) @ r) = Some (J_num (int (nat i)), r)"
    using ends_digit [OF r, of "nat i"] unfolding d(1) by (simp add: json_number_def)
  moreover have "json_number (CHR ''-'' # dec_nat (nat (- i)) @ r) = Some (J_num (- int (nat (- i))), r)"
    using ends_digit [OF r, of "nat (- i)"] by (simp add: json_number_def)
  ultimately show ?thesis by (simp add: dec_int_def)
qed

lemma dec_int_hd: "\<exists>c s. dec_int i = c # s \<and> (isdigit c \<or> c = CHR ''-'')"
  using dec_nat_hd [of "nat i"] by (cases "i < 0") (auto simp: dec_int_def)

section \<open>Values\<close>

lemma starts_with_Cons: "starts_with [c] (d # s) \<longleftrightarrow> c = d" "starts_with (c # cs) (d # s) \<longleftrightarrow> c = d \<and> starts_with cs s"
  "starts_with [] s"
  by (auto simp: starts_with_def)

lemma not_digit: "\<not> isdigit (CHR ''{'')" "\<not> isdigit (CHR ''['')" "\<not> isdigit (CHR '']'')" "\<not> isdigit QUOTE" "\<not> isdigit (CHR ''t'')"
  "\<not> isdigit (CHR ''f'')"
  by (auto simp: isdigit_def ccode_def QUOTE_def)

lemma print_hd: "\<exists>c s. json_print v = c # s \<and> c \<noteq> CHR '']''"
proof (cases v)
  case (J_num i)
  then show ?thesis using dec_int_hd [of i] by (auto simp: isdigit_def ccode_def)
qed (auto simp: quoted_def QUOTE_def)

lemma commas_Cons: "xs \<noteq> [] \<Longrightarrow> commas (x # xs) = x @ '','' @ commas xs"
  by (cases xs) auto

definition reads :: "json \<Rightarrow> bool" where
  "reads v \<longleftrightarrow> (\<forall>n r. need v \<le> n \<longrightarrow> ends_value r \<longrightarrow> json_value n (json_print v @ r) = Some (v, r))"

lemma elements_print:
  "vs \<noteq> [] \<Longrightarrow> (\<And>v. v \<in> set vs \<Longrightarrow> reads v) \<Longrightarrow> sum_list (map (\<lambda>v. Suc (need v)) vs) \<le> n \<Longrightarrow>
    json_elements n (commas (map json_print vs) @ CHR '']'' # r) = Some (vs, r)"
proof (induction vs arbitrary: n)
  case (Cons v vs)
  obtain m where n: "n = Suc m" using Cons.prems(3) by (cases n) auto
  have e: "ends_value (CHR '']'' # r)" "ends_value (CHR '','' # s)" for s by (simp_all add: ends_value_def)
  have v: "json_value m (json_print v @ CHR '']'' # r) = Some (v, CHR '']'' # r)"
    "json_value m (json_print v @ CHR '','' # s) = Some (v, CHR '','' # s)" for s
    using Cons.prems(2) [of v] Cons.prems(3) e n by (auto simp: reads_def)
  show ?case
  proof (cases "vs = []")
    case True
    then show ?thesis using v n by (simp add: starts_with_Cons)
  next
    case False
    have "json_elements m (commas (map json_print vs) @ CHR '']'' # r) = Some (vs, r)"
      using Cons.IH [OF False, of m] Cons.prems n by simp
    then show ?thesis using v n False by (simp add: commas_Cons starts_with_Cons)
  qed
qed simp

definition print_member :: "string \<times> json \<Rightarrow> string" where
  "print_member = (\<lambda>(k, v). quoted (json_write_escaped k) @ '':'' @ json_print v)"

lemma members_print:
  "ms \<noteq> [] \<Longrightarrow> (\<And>k v. (k, v) \<in> set ms \<Longrightarrow> reads v) \<Longrightarrow> sum_list (map (\<lambda>(k, v). Suc (need v)) ms) \<le> n \<Longrightarrow>
    json_members n (commas (map print_member ms) @ CHR ''}'' # r) = Some (ms, r)"
proof (induction ms arbitrary: n)
  case (Cons m ms)
  obtain k v where m: "m = (k, v)" by (cases m)
  obtain n' where n: "n = Suc n'" using Cons.prems(3) m by (cases n) auto
  have e: "ends_value (CHR ''}'' # r)" "ends_value (CHR '','' # s)" for s by (simp_all add: ends_value_def)
  have v: "json_value n' (json_print v @ CHR ''}'' # r) = Some (v, CHR ''}'' # r)"
    "json_value n' (json_print v @ CHR '','' # s) = Some (v, CHR '','' # s)" for s
    using Cons.prems(2) [of k v] Cons.prems(3) e n m by (auto simp: reads_def)
  have p: "print_member m @ s = QUOTE # json_write_escaped k @ QUOTE # CHR '':'' # json_print v @ s" for s
    by (simp add: print_member_def quoted_def m)
  show ?case
  proof (cases "ms = []")
    case True
    then show ?thesis using v n p json_string_print m by (simp add: starts_with_Cons)
  next
    case False
    have "json_members n' (commas (map print_member ms) @ CHR ''}'' # r) = Some (ms, r)"
      using Cons.IH [OF False, of n'] Cons.prems n m by force
    then show ?thesis using v n False p json_string_print m by (simp add: commas_Cons starts_with_Cons)
  qed
qed simp

lemma json_value_print: "reads v"
proof (induction v)
  case (J_num i)
  obtain c s where "dec_int i = c # s" "isdigit c \<or> c = CHR ''-''" using dec_int_hd by blast
  then show ?case using json_number_print [of _ i] not_digit [unfolded QUOTE_def]
    by (auto simp: reads_def starts_with_Cons QUOTE_def dest!: Suc_le_D)
next
  case (J_bool b)
  then show ?case by (auto simp: reads_def starts_with_Cons QUOTE_def dest!: Suc_le_D)
next
  case (J_str s)
  then show ?case using json_string_print
    by (auto simp: reads_def starts_with_Cons quoted_def dest!: Suc_le_D) (simp_all add: QUOTE_def)
next
  case (J_arr vs)
  show ?case
  proof (cases "vs = []")
    case True
    then show ?thesis by (auto simp: reads_def starts_with_Cons dest!: Suc_le_D)
  next
    case False
    obtain c s where hd: "commas (map json_print vs) = c # s" "c \<noteq> CHR '']''"
    proof -
      obtain v ws where vs: "vs = v # ws" using False by (cases vs) auto
      obtain c s where "json_print v = c # s" "c \<noteq> CHR '']''" using print_hd [of v] by blast
      then show ?thesis using that by (cases "ws = []") (auto simp: vs commas_Cons)
    qed
    show ?thesis unfolding reads_def
    proof (intro allI impI)
      fix n r
      assume "need (J_arr vs) \<le> n" "ends_value r"
      then obtain m where n: "n = Suc m" "sum_list (map (\<lambda>v. Suc (need v)) vs) \<le> m" by (cases n) auto
      from elements_print [OF False J_arr n(2)]
      show "json_value n (json_print (J_arr vs) @ r) = Some (J_arr vs, r)" using hd n(1) by (simp add: starts_with_Cons)
    qed
  qed
next
  case (J_obj ms)
  have p: "map (\<lambda>(k, v). quoted (json_write_escaped k) @ '':'' @ json_print v) ms = map print_member ms"
    by (simp add: print_member_def)
  show ?case
  proof (cases "ms = []")
    case True
    then show ?thesis by (auto simp: reads_def starts_with_Cons dest!: Suc_le_D)
  next
    case False
    obtain s where hd: "commas (map print_member ms) = QUOTE # s"
    proof -
      obtain k v ws where ms: "ms = (k, v) # ws" using False by (cases ms) auto
      then show ?thesis using that by (cases "ws = []") (auto simp: commas_Cons print_member_def quoted_def)
    qed
    have v: "(k, v) \<in> set ms \<Longrightarrow> reads v" for k v using J_obj by fastforce
    show ?thesis unfolding reads_def
    proof (intro allI impI)
      fix n r
      assume "need (J_obj ms) \<le> n" "ends_value r"
      then obtain m where n: "n = Suc m" "sum_list (map (\<lambda>(k, v). Suc (need v)) ms) \<le> m" by (cases n) auto
      have "json_members m (commas (map print_member ms) @ CHR ''}'' # r) = Some (ms, r)"
        by (rule members_print [OF False _ n(2)]) (rule v)
      moreover have "json_print (J_obj ms) = CHR ''{'' # QUOTE # s @ ''}''" using p hd by (simp only: json_print.simps) simp
      ultimately show "json_value n (json_print (J_obj ms) @ r) = Some (J_obj ms, r)"
        using hd n(1) by (simp add: starts_with_Cons del: json_print.simps) (simp add: QUOTE_def)
    qed
  qed
qed

section \<open>The report\<close>

lemma need_length: "need v \<le> length (json_print v)"
proof (induction v)
  case (J_num i)
  show ?case using dec_int_hd [of i] by auto
next
  case (J_arr vs)
  then have "sum_list (map (\<lambda>v. Suc (need v)) vs) \<le> Suc (length (commas (map json_print vs)))"
  proof (induction vs)
    case (Cons v vs)
    then have "need v \<le> length (json_print v)" "sum_list (map (\<lambda>v. Suc (need v)) vs) \<le> Suc (length (commas (map json_print vs)))"
      by simp_all
    then show ?case by (cases "vs = []") (auto simp: commas_Cons)
  qed simp
  then show ?case by simp
next
  case (J_obj ms)
  then have "sum_list (map (\<lambda>(k, v). Suc (need v)) ms) \<le> Suc (length (commas (map print_member ms)))"
  proof (induction ms)
    case (Cons m ms)
    obtain k v where m: "m = (k, v)" by (cases m)
    have "need v \<le> length (json_print v)" using Cons.prems m by fastforce
    then have "Suc (need v) \<le> length (print_member m)" by (simp add: print_member_def quoted_def m)
    moreover have "sum_list (map (\<lambda>(k, v). Suc (need v)) ms) \<le> Suc (length (commas (map print_member ms)))"
      using Cons by fastforce
    ultimately show ?case by (cases "ms = []") (auto simp: commas_Cons m)
  qed simp
  then show ?case by (simp add: print_member_def)
qed (auto simp: quoted_def)

lemma json_read_print: "json_read (json_print v @ [LF]) = Some v"
proof -
  have "ends_value [LF]" by (simp add: ends_value_def)
  then have "json_value (length (json_print v @ [LF])) (json_print v @ [LF]) = Some (v, [LF])"
    using json_value_print [of v] need_length [of v] by (simp add: reads_def del: json_value.simps)
  then show ?thesis by (simp add: json_read_def del: json_value.simps)
qed

text \<open>The report as a value: the schema of version 1.\<close>

definition record_value :: "Diagnostic \<Rightarrow> json" where
  "record_value d = J_obj
     ([(''severity'', J_str (severity_of (dkind d))), (''kind'', J_str (kind_of (dkind d))), (''stage'', J_str (stage_of (dkind d))),
       (''file'', J_str (shown_file d)), (''line'', J_num (dline d)), (''col'', J_num (dcol d)), (''len'', J_num (dlen d)),
       (''message'', J_str (message d))] @ (if help_text d = [] then [] else [(''help'', J_str (help_text d))]))"

definition report_value :: "Diagnostic list \<Rightarrow> bool \<Rightarrow> json" where
  "report_value ds truncated = J_obj
     [(''version'', J_num 1), (''truncated'', J_bool truncated), (''diagnostics'', J_arr (map record_value ds))]"

lemma plain_names:
  "json_write_escaped ''severity'' = ''severity''" "json_write_escaped ''kind'' = ''kind''"
  "json_write_escaped ''stage'' = ''stage''" "json_write_escaped ''file'' = ''file''" "json_write_escaped ''line'' = ''line''"
  "json_write_escaped ''col'' = ''col''" "json_write_escaped ''len'' = ''len''" "json_write_escaped ''message'' = ''message''"
  "json_write_escaped ''help'' = ''help''" "json_write_escaped ''version'' = ''version''"
  "json_write_escaped ''truncated'' = ''truncated''" "json_write_escaped ''diagnostics'' = ''diagnostics''"
  by code_simp+

lemma plain_values:
  "json_write_escaped ''warning'' = ''warning''" "json_write_escaped ''error'' = ''error''" "json_write_escaped ''move'' = ''move''"
  "json_write_escaped ''parse'' = ''parse''" "json_write_escaped ''scan'' = ''scan''" "json_write_escaped ''type'' = ''type''"
  "json_write_escaped ''check'' = ''check''"
  by code_simp+

lemma plain_words:
  "json_write_escaped (severity_of k) = severity_of k" "json_write_escaped (kind_of k) = kind_of k"
  "json_write_escaped (stage_of k) = stage_of k"
  by (simp_all add: severity_of_def kind_of_def stage_of_def plain_values)

lemma write_record_print: "write_record d = json_print (record_value d)"
  by (simp add: write_record_def record_value_def plain_names plain_words)

lemma write_records_print: "write_records ds = commas (map json_print (map record_value ds))"
  by (induction ds rule: write_records.induct) (simp_all add: write_record_print)

lemma report_print: "diag_json_sink_write ds truncated = json_print (report_value ds truncated) @ [LF]"
proof -
  have "dec_int 1 = ''1''" by code_simp
  then show ?thesis by (simp add: diag_json_sink_write_def report_value_def plain_names write_records_print)
qed

text \<open>C35: The JSON report is well-formed and decodes to the diagnostics collected, in their order, with
  every byte of their texts.\<close>

theorem json_report_decodes:
  "json_read (diag_json_sink_write ds truncated) = Some (report_value ds truncated)"
  by (simp add: report_print json_read_print)

end
