(* ===== verification/Spec2Isabelle.thy ===== *)
theory Spec2Isabelle
  imports Prelude Ls_Types Type_Arena Symtable Mangle Builtins Regex_Tiers Scanner_Roundtrip
    Memcheck_Spec Leakcheck_Spec Repl_Screen Comptime_Lexical Diag_Json
begin

text \<open>
  A verification development for the LS compiler, its runtime and its interactive loop.

  LS is a compiled language.  The compiler (\<open>src/src\<close>) scans and parses a module, checks its types,
  evaluates compile-time constants, generates LLVM IR and runs it in a JIT or links it; the runtime
  (\<open>src/runtime\<close>) is linked into the programs and holds the string functions, the regular expressions
  and the leak detector.  Modelled are the parts whose results are decided by their own C code and not
  by LLVM or the operating system:

  \<^item> \<open>scanner.c\<close> turns the text of a module into tokens, for the parser, and for the interactive loop;
  \<^item> \<open>types.c\<close>, \<open>symtable.c\<close> and \<open>mangle.c\<close> are the tables behind the type checker: types and their
    arena, scopes of names, and the names of symbols in the object code;
  \<^item> \<open>checker_comptime.c\<close> is the interpreter of compile-time constants, called from the handler of
    \<open>comptime const\<close> in \<open>checker_stmt.c\<close>;
  \<^item> \<open>diag.c\<close> collects and prints the messages of every stage;
  \<^item> \<open>leakcheck.c\<close> tracks the heap of the compiler itself, \<open>memcheck.c\<close> that of the compiled program;
  \<^item> \<open>repl_edit.c\<close> and \<open>repl_term.c\<close> read the inputs of the interactive loop, using the scanner for
    highlighting and for the test whether an input is complete;
  \<^item> \<open>builtins.c\<close> and \<open>ls_regex.c\<close> are the runtime, and the regular expressions call the substring
    search of the former for their literal prefixes.
\<close>

text \<open>
  Conventions.  A C string or buffer is a list of characters without its final NUL, a buffer with a
  fixed allocation is the list of all its bytes.  A function whose C code may read or write out of
  bounds, overflow a signed integer or otherwise be undefined returns an \<open>option\<close>, and \<open>None\<close> is that
  behaviour; a theorem that gives \<open>Some\<close> therefore contains the absence of it.  Errors that the code
  reports are values of a sum or option inside the outer one.  Integers whose width matters are words;
  lengths and indices are naturals, with their bounds in the hypotheses.  The answers of \<open>malloc\<close>,
  \<open>calloc\<close>, \<open>realloc\<close>, of the file system and of \<open>vsnprintf\<close> are arguments of the definitions.
  Output is a list of events or bytes kept in the state.
\<close>

text \<open>
  Theories and the code they model, in the order of the imports.

  \<^item> \<open>Prelude\<close>: bytes, words and list updates shared by all, with the collections of simplification
    rules.
  \<^item> \<open>Ls_Types\<close>: \<open>Type\<close> and its factories, cloning, equality, widening and printed names of
    \<open>types.c\<close>.  Shown: equality is an equivalence, widening is lossless against the sets of values of
    the integer and IEEE formats, equal types print equal names within the 256-byte buffers, and the
    long parameter name that overruns them.
  \<^item> \<open>Type_Arena\<close>: \<open>type_arena_alloc\<close> with the addresses of its blocks and their headers of 24 bytes.
    Shown: the objects are disjoint and inside their blocks, and at 8 modulo 16.
  \<^item> \<open>Symtable\<close>: \<open>Scope\<close> as a chain of symbol arrays.  The locale \<open>scoped_env\<close> states what a client of
    scopes may rely on, interpreted on the chain, which refines a stack of maps.
  \<^item> \<open>Mangle\<close>: \<open>mangle_module_symbol\<close> and the growable \<open>MangleBuf\<close>.
  \<^item> \<open>Builtins\<close>: searching, copying, hashing, decimal printing and the fast path of f-string
    formatting in \<open>builtins.c\<close>.  Shown: the search returns the first occurrence, with the one undefined
    case in the statement; the formatter writes what \<open>vsnprintf\<close> writes.
\<close>

text \<open>
  The regular expressions of \<open>ls_regex.c\<close> take fifteen theories.

  \<^item> \<open>Regex_Prog\<close>, \<open>Regex_Compile\<close> and \<open>Regex_Analysis\<close> hold the program of at most 2048 instructions,
    the one-pass parser that emits it, shifting and copying code in place, and the analyses of the
    finished program (literal prefix, first bytes, anchors, the one-pass table).
  \<^item> \<open>Regex_Pike\<close> and \<open>Regex_Exec\<close> hold the Pike VM with its thread lists and generation counters, the
    one-pass executor, the lazy automaton, the choice of start positions and the public functions.
  \<^item> \<open>Regex_Code\<close>, \<open>Regex_Parse\<close> and \<open>Regex_Structure\<close> show that the parser emits the code \<open>codegen\<close> of a
    syntax tree: every address, class and slot is in range.  The last two emissions are not tested by
    the code, so this needs a program that has not reached the limit (\<open>full_program_loses_match\<close>).
  \<^item> \<open>Regex_Lang\<close> gives the meaning of a syntax tree as a relation on spans and shows that the paths
    through its code are its matches; \<open>Regex_Path\<close>, \<open>Regex_Match\<close> and \<open>Regex_Lookahead\<close> show that the
    closure and the stepping of the machine explore exactly these paths.  The visited set is a locale,
    \<open>clearable_set\<close>, interpreted on the 32-bit generation counters.
  \<^item> \<open>Regex_Correct\<close>, \<open>Regex_Search\<close> and \<open>Regex_Tiers\<close> put the parts together: the VM returns and decides
    the expression; a search is leftmost, by the locale \<open>search_engine\<close> interpreted on the VM; the
    one-pass executor is sound, by the locale \<open>sound_engine\<close>; the automaton's cache is transparent.

  The closure has one unit of fuel more than there are instructions, which is enough since every
  recursive call marks an instruction; lookaheads lie at increasing addresses, so that the length of
  the program bounds their nesting.  The four conditions on programs (length,
  512 consuming instructions, lookahead bodies that are not empty, ASCII texts) are limits of the code,
  and lemmas give patterns that show what happens beyond them.
\<close>

text \<open>
  The scanner (\<open>scanner.c\<close>).

  \<^item> \<open>Scanner\<close> holds the scanner state, all token kinds, and every function: blanks and nested comments,
    literals, identifiers with the binary search over the keyword table, format strings with their
    depth of braces, and the directives of conditional compilation with their stack of frames.
  \<^item> \<open>Scanner_Keywords\<close>: the search is a look-up in the table.
  \<^item> \<open>Scanner_Safety\<close> and \<open>Scanner_Stream\<close>: no lexeme leaves the source, every token but the last
    advances.  \<open>reach\<close> is the relation of the states in which the loop of \<open>scanner_next\<close> begins a round.
  \<^item> \<open>Scanner_Frames\<close>: the token stream exists unless such a state lies at the end of the source inside
    a format string, from where the scanner overruns it; and the invariant of the frames.
  \<^item> \<open>Scanner_Roundtrip\<close>: printed tokens scan back.
  \<^item> \<open>Scanner_Tokens\<close>: the stream as its readers see it.

  The loops that stop at the NUL have the length of the remaining source as their measure; the others,
  and the whole stream, are \<open>partial_function\<close>s, and their totality is proved.
\<close>

text \<open>
  The heap trackers.  \<open>Ptr_Table\<close> states the interface of an open-addressing table keyed by pointers
  as the locale \<open>ptr_table\<close>: storing a fresh key, looking up, and rebuilding a larger table.

  \<^item> \<open>Memcheck\<close>, \<open>Memcheck_Safety\<close> and \<open>Memcheck_Spec\<close>: \<open>memcheck.c\<close>, the interpretation of the table, and
    the refinement of a map from addresses to blocks with its messages, frames and report.
  \<^item> \<open>Leakcheck\<close> and \<open>Leakcheck_Spec\<close>: \<open>leakcheck.c\<close>, whose table has tombstones; the same interface,
    the refinement of the map of blocks in use, and the report by site.

  The first tracker probes each slot at most once; the walks of the second end only at an empty slot
  and are \<open>partial_function\<close>s, because a full table is walked for ever.  The answer of each call of the
  tracker's own \<open>calloc\<close> is an argument of the operation, and the runs covered are stated with it.
\<close>

text \<open>
  The interactive loop, the compile-time evaluator and the diagnostics.

  \<^item> \<open>Repl_Text\<close> and \<open>Repl_Text_Spec\<close>: the first half of \<open>repl_edit.c\<close>.  The completeness test and the
    continuation prompt are compared with one automaton of literals, comments and delimiters, and the
    highlighter with the line it colours.
  \<^item> \<open>Repl_Line\<close> and \<open>Repl_Line_Spec\<close>: the line editor with its memory, history and key decoder
    (\<open>repl_term.c\<close>), and its refinement by a line split at the cursor.
  \<^item> \<open>Repl_Screen\<close>: the terminal row as the locale \<open>vt_row\<close>, interpreted on a row of cells, and the
    differential repaint as good as a full one, for ASCII and lines that do not wrap.
  \<^item> \<open>Doubles\<close> and \<open>Comptime\<close>: the exact part of the arithmetic of \<open>double\<close> (conversions,
    comparisons, change of sign) on bit patterns, and the interpreter with its budget of steps; the
    rounded operations and the functions of libm are the fields of a record argument.
  \<^item> \<open>Comptime_Spec\<close> and \<open>Comptime_Lexical\<close>: its integers, the typing of its arrays, by the locale
    \<open>ct_keeps\<close>, and its agreement with lexical scoping on well scoped blocks.
  \<^item> \<open>Diag\<close>, \<open>Diag_Spec\<close>, \<open>Diag_Report\<close> and \<open>Diag_Json\<close>: the source line cache, the text and JSON
    renderers and the suggestion of names in \<open>diag.c\<close>; the distance is the least number of edits, the
    report decodes with a reader of JSON.
\<close>

text \<open>
  Not modelled.  The parser and the syntax tree constructors (\<open>parser*.c\<close>, \<open>ast.c\<close>), and what works
  on the full syntax tree: the type checker, generics, the borrow and elision analyses, desugaring and
  derivation (\<open>checker*.c\<close> without the compile-time evaluator); the code generator, its passes and the
  JIT, which are sequences of calls to LLVM; the C emitter, the formatter, the module loader, the
  command line driver, and the system backends.  Of the modelled files, allocation and release of
  memory appear only where the code's own data structures manage it; the printing of floating-point
  numbers, the system calls of the runtime and the execution counters of the regular expressions are
  left out.
\<close>

end
